(* ===== verification/Prelude.thy ===== *)
theory Prelude
  imports
    Main
    "HOL-Library.Word"
    "HOL-Library.List_Lexorder"
    "HOL-Library.Char_ord"
    "HOL-Library.Product_Lexorder"
    "HOL-Library.FSet"
begin

text \<open>
  Shared vocabulary of the development: the machine integers of the Rust code, the
  decimal rendering its \<open>format!\<close> calls use, and generic lemmas on lists, options
  and finite sets.

  A \<open>u32\<close>, \<open>u64\<close> or \<open>usize\<close> is a \<open>nat\<close> and an
  \<open>i64\<close> an \<open>int\<close>; every operation that can leave the range is written out here:
  \<open>saturating_add\<close> and \<open>saturating_sub\<close> stop at the bound, and a plain
  \<open>+\<close> wraps around, as it does in the release profile (the workspace's
  \<open>Cargo.toml\<close> does not enable overflow checks there).  Values whose bits matter
  (the index encoding, floats, raw bytes) are words.
\<close>

section \<open>Collections of rules\<close>

named_theorems sat_simps \<open>saturating and wrapping arithmetic, unfolded\<close>
named_theorems eval_simps \<open>unfoldings that evaluate the model on a concrete input\<close>
named_theorems crdt_defs \<open>definitions of the replicated data types\<close>
named_theorems gate_defs \<open>definitions of the gate decision\<close>

section \<open>Machine integers\<close>

type_synonym byte = "8 word"

abbreviation u32_max :: nat where "u32_max \<equiv> 4294967295"
abbreviation u64_max :: nat where "u64_max \<equiv> 18446744073709551615"
abbreviation i64_max :: int where "i64_max \<equiv> 9223372036854775807"
abbreviation i64_min :: int where "i64_min \<equiv> - 9223372036854775808"

definition sat_add32 :: "nat \<Rightarrow> nat \<Rightarrow> nat" where
  "sat_add32 a b = min (a + b) u32_max"

definition sat_add64 :: "nat \<Rightarrow> nat \<Rightarrow> nat" where
  "sat_add64 a b = min (a + b) u64_max"

definition wrap32 :: "nat \<Rightarrow> nat" where
  "wrap32 n = n mod 4294967296"

definition wrap64 :: "nat \<Rightarrow> nat" where
  "wrap64 n = n mod 18446744073709551616"

definition sat_i64 :: "int \<Rightarrow> int" where
  "sat_i64 i = max i64_min (min i64_max i)"

definition wrap_i64 :: "int \<Rightarrow> int" where
  "wrap_i64 i = (i + 9223372036854775808) mod 18446744073709551616 - 9223372036854775808"

lemmas machine_int_defs [sat_simps] =
  sat_add32_def sat_add64_def wrap32_def wrap64_def sat_i64_def wrap_i64_def

lemma wrap32_id: "n \<le> u32_max \<Longrightarrow> wrap32 n = n"
  by (simp add: wrap32_def)

lemma wrap64_id: "n \<le> u64_max \<Longrightarrow> wrap64 n = n"
  by (simp add: wrap64_def)

lemma wrap_i64_id: "i64_min \<le> i \<Longrightarrow> i \<le> i64_max \<Longrightarrow> wrap_i64 i = i"
  by (simp add: wrap_i64_def)

lemma wrap_i64_bounds: "i64_min \<le> wrap_i64 i \<and> wrap_i64 i \<le> i64_max"
proof -
  have "0 \<le> (i + 9223372036854775808) mod 18446744073709551616"
    and "(i + 9223372036854775808) mod 18446744073709551616 < 18446744073709551616"
    by simp_all
  then show ?thesis by (simp add: wrap_i64_def)
qed

text \<open>Equality modulo \<open>2 ^ 64\<close>, which is what two's complement preserves.\<close>

definition eq64 :: "int \<Rightarrow> int \<Rightarrow> bool" where
  "eq64 a b \<longleftrightarrow> 18446744073709551616 dvd a - b"

lemma eq64_refl [simp]: "eq64 a a"
  by (simp add: eq64_def)

lemma eq64_sym: "eq64 a b \<Longrightarrow> eq64 b a"
  unfolding eq64_def by (metis dvd_minus_iff minus_diff_eq)

lemma eq64_trans [trans]: "eq64 a b \<Longrightarrow> eq64 b c \<Longrightarrow> eq64 a c"
  unfolding eq64_def using dvd_add [of _ "a - b" "b - c"] by simp

lemma eq64_add: "eq64 a b \<Longrightarrow> eq64 c d \<Longrightarrow> eq64 (a + c) (b + d)"
  unfolding eq64_def using dvd_add [of _ "a - b" "c - d"] by (simp add: algebra_simps)

lemma eq64_diff: "eq64 a b \<Longrightarrow> eq64 c d \<Longrightarrow> eq64 (a - c) (b - d)"
  unfolding eq64_def using dvd_diff [of _ "a - b" "c - d"] by (simp add: algebra_simps)

lemma wrap_i64_cong: "eq64 a b \<Longrightarrow> wrap_i64 a = wrap_i64 b"
proof -
  assume "eq64 a b"
  then have "(a + 9223372036854775808) mod 18446744073709551616 =
      (b + 9223372036854775808) mod 18446744073709551616"
    by (simp add: eq64_def mod_eq_dvd_iff)
  then show ?thesis by (simp add: wrap_i64_def)
qed

lemma wrap_i64_eq64: "eq64 (wrap_i64 a) a"
  unfolding wrap_i64_def eq64_def
  by (simp add: mod_eq_dvd_iff [symmetric] mod_diff_left_eq diff_diff_eq add.commute)

lemma wrap64_eq64: "eq64 (int (wrap64 n)) (int n)"
  unfolding eq64_def by (simp add: wrap64_def zmod_int mod_eq_dvd_iff [symmetric])

lemma wrap_i64_idem [simp]: "wrap_i64 (wrap_i64 a) = wrap_i64 a"
  by (rule wrap_i64_cong) (rule wrap_i64_eq64)

lemma wrap_i64_add [simp]: "wrap_i64 (wrap_i64 a + b) = wrap_i64 (a + b)"
  by (rule wrap_i64_cong) (intro eq64_add wrap_i64_eq64 eq64_refl)

lemma wrap_i64_diff:
  "wrap_i64 (wrap_i64 (int (wrap64 p)) - wrap_i64 (int (wrap64 n))) = wrap_i64 (int p - int n)"
  by (rule wrap_i64_cong) (intro eq64_diff eq64_trans [OF wrap_i64_eq64 wrap64_eq64])

section \<open>Decimal rendering\<close>

definition digit_char :: "nat \<Rightarrow> char" where
  "digit_char d = char_of (48 + d)"

fun show_nat :: "nat \<Rightarrow> string" where
  "show_nat n = (if n < 10 then [digit_char n] else show_nat (n div 10) @ [digit_char (n mod 10)])"

declare show_nat.simps [simp del]

lemma digit_char_inj: "m < 10 \<Longrightarrow> n < 10 \<Longrightarrow> digit_char m = digit_char n \<Longrightarrow> m = n"
  by (simp add: digit_char_def)

lemma show_nat_inj: "show_nat m = show_nat n \<Longrightarrow> m = n"
proof (induction m arbitrary: n rule: less_induct)
  case (less m)
  have nonempty: "show_nat k \<noteq> []" for k by (subst show_nat.simps) simp
  show ?case
  proof (cases "m < 10 \<or> n < 10")
    case True
    then show ?thesis
      using less.prems nonempty [symmetric] nonempty
      by (auto simp: show_nat.simps [of m] show_nat.simps [of n] digit_char_inj append_eq_Cons_conv Cons_eq_append_conv split: if_splits)
  next
    case False
    then have "show_nat (m div 10) = show_nat (n div 10)" "digit_char (m mod 10) = digit_char (n mod 10)"
      using less.prems by (simp_all add: show_nat.simps [of m] show_nat.simps [of n])
    then have "m div 10 = n div 10" "m mod 10 = n mod 10"
      using less.IH [of "m div 10" "n div 10"] False by (simp_all add: digit_char_inj)
    then show ?thesis by (metis div_mult_mod_eq)
  qed
qed

definition show_int :: "int \<Rightarrow> string" where
  "show_int i = (if i < 0 then CHR ''-'' # show_nat (nat (- i)) else show_nat (nat i))"

text \<open>\<open>join\<close> of strings.\<close>

fun join_with :: "string \<Rightarrow> string list \<Rightarrow> string" where
  "join_with sep [] = []"
| "join_with sep [x] = x"
| "join_with sep (x # y # zs) = x @ sep @ join_with sep (y # zs)"

section \<open>Lists, options and finite sets\<close>

text \<open>\<open>Iterator::find\<close>: the first element that satisfies a predicate.\<close>

fun find_first :: "('a \<Rightarrow> bool) \<Rightarrow> 'a list \<Rightarrow> 'a option" where
  "find_first p [] = None"
| "find_first p (x # xs) = (if p x then Some x else find_first p xs)"

lemma find_first_Some: "find_first p xs = Some x \<Longrightarrow> x \<in> set xs \<and> p x"
  by (induction xs) (auto split: if_splits)

lemma find_first_None: "find_first p xs = None \<longleftrightarrow> (\<forall>x\<in>set xs. \<not> p x)"
  by (induction xs) auto

text \<open>\<open>Iterator::position\<close>: the index of the first such element.\<close>

fun position :: "('a \<Rightarrow> bool) \<Rightarrow> 'a list \<Rightarrow> nat option" where
  "position p [] = None"
| "position p (x # xs) = (if p x then Some 0 else map_option Suc (position p xs))"

lemma position_Some: "position p xs = Some i \<Longrightarrow> i < length xs \<and> p (xs ! i)"
  by (induction xs arbitrary: i) (auto split: if_splits)

lemma position_None: "position p xs = None \<longleftrightarrow> (\<forall>x\<in>set xs. \<not> p x)"
  by (induction xs) auto

lemma position_first: "position p xs = Some i \<Longrightarrow> j < i \<Longrightarrow> \<not> p (xs ! j)"
proof (induction xs arbitrary: i j)
  case Nil
  then show ?case by simp
next
  case (Cons x xs)
  then show ?case by (cases j) (auto split: if_splits)
qed

lemma map_filter_set: "y \<in> set (List.map_filter f xs) \<longleftrightarrow> (\<exists>x \<in> set xs. f x = Some y)"
  by (force simp: map_filter_def)

lemma last_opt_snoc: "xs \<noteq> [] \<Longrightarrow> \<exists>ys y. xs = ys @ [y]"
  by (cases xs rule: rev_cases) auto

lemma sum_list_map_mono:
  fixes f g :: "'a \<Rightarrow> nat"
  shows "(\<And>x. x \<in> set xs \<Longrightarrow> f x \<le> g x) \<Longrightarrow> sum_list (map f xs) \<le> sum_list (map g xs)"
  by (induction xs) (auto intro: add_mono)

lemma sum_list_filter_le:
  fixes f :: "'a \<Rightarrow> nat"
  shows "sum_list (map f (filter p xs)) \<le> sum_list (map f xs)"
  by (induction xs) auto

end
