(* ===== verification/Ordered_Map.thy ===== *)
theory Ordered_Map
  imports Prelude
begin

text \<open>
  The ordered map behind every \<open>BTreeMap\<close> (and \<open>imbl::OrdMap\<close>) of the code: a
  key-sorted association list, so that iteration order, equality and the entry API are
  the ones the code relies on.  The sorted lists themselves (\<open>al_put\<close>,
  \<open>al_del\<close>) are used where a map is nested inside a datatype; everywhere else the
  type \<open>omap\<close> carries the invariant.

  The locale \<open>ordered_map\<close> states what a client may assume of such a map; it is
  interpreted on both representations.
\<close>

section \<open>Key-sorted association lists\<close>

abbreviation al_ok :: "('k::linorder \<times> 'v) list \<Rightarrow> bool" where
  "al_ok xs \<equiv> sorted_wrt (<) (map fst xs)"

fun al_put :: "'k::linorder \<Rightarrow> 'v \<Rightarrow> ('k \<times> 'v) list \<Rightarrow> ('k \<times> 'v) list" where
  "al_put k v [] = [(k, v)]"
| "al_put k v ((k', v') # xs) =
     (if k < k' then (k, v) # (k', v') # xs
      else if k = k' then (k, v) # xs
      else (k', v') # al_put k v xs)"

fun al_del :: "'k \<Rightarrow> ('k \<times> 'v) list \<Rightarrow> ('k \<times> 'v) list" where
  "al_del k [] = []"
| "al_del k ((k', v') # xs) = (if k = k' then al_del k xs else (k', v') # al_del k xs)"

lemma al_ok_distinct: "al_ok xs \<Longrightarrow> distinct (map fst xs)"
  by (simp add: strict_sorted_iff)

lemma al_ok_sorted: "al_ok xs \<Longrightarrow> sorted (map fst xs)"
  by (simp add: strict_sorted_iff)

lemma set_al_put: "set (al_put k v xs) \<subseteq> insert (k, v) (set xs)"
  by (induction k v xs rule: al_put.induct) auto

lemma al_ok_put: "al_ok xs \<Longrightarrow> al_ok (al_put k v xs)"
proof (induction k v xs rule: al_put.induct)
  case (1 k v)
  then show ?case by simp
next
  case (2 k v k' v' xs)
  then show ?case using set_al_put [of k v xs] by fastforce
qed

lemma map_of_al_put [simp]: "map_of (al_put k v xs) = (map_of xs)(k \<mapsto> v)"
  by (induction k v xs rule: al_put.induct) auto

lemma set_al_del: "set (al_del k xs) \<subseteq> set xs"
  by (induction k xs rule: al_del.induct) auto

lemma al_ok_del: "al_ok xs \<Longrightarrow> al_ok (al_del k xs)"
proof (induction k xs rule: al_del.induct)
  case (1 k)
  then show ?case by simp
next
  case (2 k k' v' xs)
  then show ?case using set_al_del [of k xs] by fastforce
qed

lemma map_of_al_del [simp]: "map_of (al_del k xs) = (map_of xs)(k := None)"
  by (induction k xs rule: al_del.induct) auto

lemma al_eqI:
  assumes "al_ok xs" and "al_ok ys" and "map_of xs = map_of ys"
  shows "xs = ys"
proof -
  have dx: "distinct (map fst xs)" and dy: "distinct (map fst ys)"
    using assms(1,2) by (simp_all add: al_ok_distinct)
  have "set xs = set ys"
    using assms(3) map_of_inject_set [OF dx dy] by simp
  moreover have "inj_on fst (set xs \<union> set ys)"
    using dx \<open>set xs = set ys\<close> by (simp add: distinct_map)
  ultimately show ?thesis
    using assms(1,2) dx dy
    by (intro map_sorted_distinct_set_unique [where f = fst]) (simp_all add: al_ok_sorted)
qed

section \<open>The type of ordered maps\<close>

typedef (overloaded) ('k::linorder, 'v) omap = "{xs :: ('k \<times> 'v) list. al_ok xs}"
  morphisms omlist Omap
  by (rule exI [of _ "[]"]) simp

setup_lifting type_definition_omap

lemma omlist_ok [simp, intro]: "al_ok (omlist m)"
  using omlist [of m] by simp

lift_definition omempty :: "('k::linorder, 'v) omap" is "[]" by simp

lift_definition omput :: "'k::linorder \<Rightarrow> 'v \<Rightarrow> ('k, 'v) omap \<Rightarrow> ('k, 'v) omap" is al_put
  by (rule al_ok_put)

lift_definition omdel :: "'k::linorder \<Rightarrow> ('k, 'v) omap \<Rightarrow> ('k, 'v) omap" is al_del
  by (rule al_ok_del)

lift_definition omget :: "('k::linorder, 'v) omap \<Rightarrow> 'k \<Rightarrow> 'v option" is map_of .

lemma al_ok_filter: "al_ok xs \<Longrightarrow> al_ok (filter p xs)"
  by (induction xs) auto

lift_definition omfilter :: "('k \<Rightarrow> 'v \<Rightarrow> bool) \<Rightarrow> ('k::linorder, 'v) omap \<Rightarrow> ('k, 'v) omap"
  is "\<lambda>p. filter (\<lambda>(k, v). p k v)" by (rule al_ok_filter)

lift_definition ommap :: "('k \<Rightarrow> 'v \<Rightarrow> 'w) \<Rightarrow> ('k::linorder, 'v) omap \<Rightarrow> ('k, 'w) omap"
  is "\<lambda>f. map (\<lambda>(k, v). (k, f k v))" by (simp add: comp_def case_prod_beta)

definition omkeys :: "('k::linorder, 'v) omap \<Rightarrow> 'k list" where
  "omkeys m = map fst (omlist m)"

definition omvalues :: "('k::linorder, 'v) omap \<Rightarrow> 'v list" where
  "omvalues m = map snd (omlist m)"

definition omhas :: "('k::linorder, 'v) omap \<Rightarrow> 'k \<Rightarrow> bool" where
  "omhas m k \<longleftrightarrow> omget m k \<noteq> None"

definition om_of :: "('k::linorder \<times> 'v) list \<Rightarrow> ('k, 'v) omap" where
  "om_of xs = fold (\<lambda>(k, v). omput k v) xs omempty"

text \<open>\<open>entry(k).or_default()\<close> reads a missing key as a default.\<close>

definition omget_or :: "'v \<Rightarrow> ('k::linorder, 'v) omap \<Rightarrow> 'k \<Rightarrow> 'v" where
  "omget_or d m k = (case omget m k of None \<Rightarrow> d | Some v \<Rightarrow> v)"

subsection \<open>Lookup laws\<close>

lemma omget_empty [simp]: "omget omempty k = None"
  by (simp add: omget.rep_eq omempty.rep_eq)

lemma omget_put [simp]: "omget (omput k v m) k' = (if k = k' then Some v else omget m k')"
  by (simp add: omget.rep_eq omput.rep_eq)

lemma omget_del [simp]: "omget (omdel k m) k' = (if k = k' then None else omget m k')"
  by (simp add: omget.rep_eq omdel.rep_eq)

lemma omap_eqI:
  assumes "\<And>k. omget m k = omget m' k"
  shows "m = m'"
proof -
  have "map_of (omlist m) = map_of (omlist m')"
    using assms by (simp add: omget.rep_eq fun_eq_iff)
  then have "omlist m = omlist m'" by (intro al_eqI) simp_all
  then show ?thesis by (simp add: omlist_inject)
qed

lemma omget_map_of: "omget m = map_of (omlist m)"
  by (simp add: fun_eq_iff omget.rep_eq)

lemma omget_omlist: "omget m k = Some v \<longleftrightarrow> (k, v) \<in> set (omlist m)"
  by (simp add: omget_map_of al_ok_distinct)

lemma map_of_filter_pair:
  "distinct (map fst xs) \<Longrightarrow> map_of (filter (\<lambda>(k, v). p k v) xs) k =
     (case map_of xs k of None \<Rightarrow> None | Some v \<Rightarrow> if p k v then Some v else None)"
proof (induction xs)
  case Nil
  then show ?case by simp
next
  case (Cons x xs)
  obtain k' w where x: "x = (k', w)" by (cases x)
  with Cons.prems have "map_of xs k' = None"
    by (simp add: map_of_eq_None_iff)
  with Cons x show ?case by auto
qed

lemma omget_filter [simp]:
  "omget (omfilter p m) k = (case omget m k of None \<Rightarrow> None | Some v \<Rightarrow> if p k v then Some v else None)"
  by (simp add: omget.rep_eq omfilter.rep_eq map_of_filter_pair al_ok_distinct)

lemma omget_map [simp]: "omget (ommap f m) k = map_option (f k) (omget m k)"
proof -
  have "map_of (map (\<lambda>(k, v). (k, f k v)) xs) k = map_option (f k) (map_of xs k)" for xs
    by (induction xs) auto
  then show ?thesis by (simp add: omget.rep_eq ommap.rep_eq)
qed

lemma omkeys_set: "set (omkeys m) = {k. omget m k \<noteq> None}"
  by (auto simp: omkeys_def omget_map_of map_of_eq_None_iff image_iff)

lemma omkeys_sorted [simp]: "sorted (omkeys m)"
  by (simp add: omkeys_def al_ok_sorted)

lemma omkeys_distinct [simp]: "distinct (omkeys m)"
  by (simp add: omkeys_def al_ok_distinct)

lemma omkeys_strict [simp]: "sorted_wrt (<) (omkeys m)"
  by (simp add: omkeys_def)

lemma omhas_simps [simp]:
  "omhas omempty k = False"
  "omhas (omput k v m) k' = (k = k' \<or> omhas m k')"
  "omhas (omdel k m) k' = (k \<noteq> k' \<and> omhas m k')"
  by (auto simp: omhas_def)

lemma omget_or_simps [simp]:
  "omget_or d omempty k = d"
  "omget_or d (omput k v m) k' = (if k = k' then v else omget_or d m k')"
  by (auto simp: omget_or_def)

subsection \<open>Evaluation on concrete maps\<close>

lemma omlist_empty [simp]: "omlist omempty = []"
  by (rule omempty.rep_eq)

lemma omlist_put [simp]: "omlist (omput k v m) = al_put k v (omlist m)"
  by (rule omput.rep_eq)

lemma omlist_del [simp]: "omlist (omdel k m) = al_del k (omlist m)"
  by (rule omdel.rep_eq)

lemma omlist_filter [simp]: "omlist (omfilter p m) = filter (\<lambda>(k, v). p k v) (omlist m)"
  by (rule omfilter.rep_eq)

lemma omlist_map [simp]: "omlist (ommap f m) = map (\<lambda>(k, v). (k, f k v)) (omlist m)"
  by (rule ommap.rep_eq)

lemma omap_eq_iff [eval_simps]: "m = m' \<longleftrightarrow> omlist m = omlist m'"
  by (simp add: omlist_inject)

lemmas om_eval [eval_simps] = omkeys_def omvalues_def om_of_def

subsection \<open>Folding one map into another\<close>

text \<open>
  The loop every \<open>merge\<close> runs: for each entry of the other map, combine it with the
  slot of this one.
\<close>

definition ommerge :: "('v option \<Rightarrow> 'w \<Rightarrow> 'v) \<Rightarrow> ('k::linorder, 'v) omap \<Rightarrow> ('k, 'w) omap \<Rightarrow> ('k, 'v) omap" where
  "ommerge f m other = fold (\<lambda>(k, w) acc. omput k (f (omget acc k) w) acc) (omlist other) m"

lemma omget_fold_put:
  assumes "distinct (map fst xs)"
  shows "omget (fold (\<lambda>(k, w) acc. omput k (f (omget acc k) w) acc) xs m) k =
     (case map_of xs k of None \<Rightarrow> omget m k | Some w \<Rightarrow> Some (f (omget m k) w))"
  using assms
proof (induction xs arbitrary: m)
  case Nil
  then show ?case by simp
next
  case (Cons x xs)
  obtain k' w where x: "x = (k', w)" by (cases x)
  with Cons.prems have "map_of xs k' = None"
    by (simp add: map_of_eq_None_iff)
  with Cons x show ?case by (auto split: option.splits)
qed

lemma omget_merge [simp]:
  "omget (ommerge f m other) k =
     (case omget other k of None \<Rightarrow> omget m k | Some w \<Rightarrow> Some (f (omget m k) w))"
  by (simp add: ommerge_def omget_fold_put al_ok_distinct omget_map_of [symmetric])

section \<open>The interface\<close>

locale ordered_map =
  fixes empty :: "'m"
    and put :: "'k::linorder \<Rightarrow> 'v \<Rightarrow> 'm \<Rightarrow> 'm"
    and del :: "'k \<Rightarrow> 'm \<Rightarrow> 'm"
    and get :: "'m \<Rightarrow> 'k \<Rightarrow> 'v option"
    and entries :: "'m \<Rightarrow> ('k \<times> 'v) list"
    and ok :: "'m \<Rightarrow> bool"
  assumes get_empty: "get empty k = None"
    and get_put: "ok m \<Longrightarrow> get (put k v m) k' = (if k = k' then Some v else get m k')"
    and get_del: "ok m \<Longrightarrow> get (del k m) k' = (if k = k' then None else get m k')"
    and get_entries: "ok m \<Longrightarrow> get m k = map_of (entries m) k"
    and entries_sorted: "ok m \<Longrightarrow> al_ok (entries m)"
    and ok_empty: "ok empty"
    and ok_put: "ok m \<Longrightarrow> ok (put k v m)"
    and ok_del: "ok m \<Longrightarrow> ok (del k m)"
begin

lemma put_put: "ok m \<Longrightarrow> entries (put k v (put k w m)) = entries (put k v m)"
  by (rule al_eqI) (auto simp: entries_sorted ok_put fun_eq_iff get_put
      get_entries [symmetric])

lemma put_commute:
  "ok m \<Longrightarrow> k \<noteq> k' \<Longrightarrow> entries (put k v (put k' v' m)) = entries (put k' v' (put k v m))"
  by (rule al_eqI) (auto simp: entries_sorted ok_put fun_eq_iff get_put
      get_entries [symmetric])

lemma del_put: "ok m \<Longrightarrow> get m k = None \<Longrightarrow> entries (del k (put k v m)) = entries m"
  by (rule al_eqI) (auto simp: entries_sorted ok_put ok_del fun_eq_iff get_put get_del
      get_entries [symmetric])

end

interpretation al: ordered_map "[]" al_put al_del map_of "\<lambda>xs. xs" al_ok
  by unfold_locales (auto intro: al_ok_put al_ok_del)

interpretation om: ordered_map omempty omput omdel omget omlist "\<lambda>_. True"
  by unfold_locales (simp_all add: omget_map_of [symmetric] del: omlist_put omlist_del)

end
