(* ===== verification/Core_Value.thy ===== *)
theory Core_Value
  imports Ordered_Map
begin

text \<open>
  Values and their types (\<open>theta-core/src/value.rs\<close>) and the part of IEEE-754 binary64
  the code uses on them: equality, \<open>partial_cmp\<close> and the conversion \<open>i64 as f64\<close>.

  A float is its bit pattern.  Rust's derived \<open>PartialEq\<close> on \<open>Value\<close> is not HOL
  equality: a NaN differs from itself and the two zeros agree, which is why
  \<open>value_eq\<close> is spelled out.
\<close>

section \<open>Orderings\<close>

datatype ordering = Less | Equal | Greater

definition cmp :: "'a::linorder \<Rightarrow> 'a \<Rightarrow> ordering" where
  "cmp a b = (if a < b then Less else if a = b then Equal else Greater)"

lemma cmp_simps [simp]:
  "cmp a b = Less \<longleftrightarrow> a < b"
  "cmp a b = Equal \<longleftrightarrow> a = b"
  "cmp a b = Greater \<longleftrightarrow> b < a"
  by (auto simp: cmp_def)

fun ord_reverse :: "ordering \<Rightarrow> ordering" where
  "ord_reverse Less = Greater"
| "ord_reverse Equal = Equal"
| "ord_reverse Greater = Less"

text \<open>\<open>Ordering::then\<close>: the first comparison that is not \<open>Equal\<close>.\<close>

fun ord_then :: "ordering \<Rightarrow> ordering \<Rightarrow> ordering" where
  "ord_then Equal o2 = o2"
| "ord_then o1 o2 = o1"

section \<open>Floats as bit patterns\<close>

type_synonym f64 = "64 word"

definition f64_neg :: "f64 \<Rightarrow> bool" where
  "f64_neg b \<longleftrightarrow> 9223372036854775808 \<le> unat b"

definition f64_mag :: "f64 \<Rightarrow> nat" where
  "f64_mag b = unat b mod 9223372036854775808"

text \<open>NaN: an exponent of all ones and a non-zero fraction (above the infinities).\<close>

definition f64_nan :: "f64 \<Rightarrow> bool" where
  "f64_nan b \<longleftrightarrow> 9218868437227405312 < f64_mag b"

definition f64_rank :: "f64 \<Rightarrow> int" where
  "f64_rank b = (if f64_neg b then - int (f64_mag b) else int (f64_mag b))"

definition f64_partial_cmp :: "f64 \<Rightarrow> f64 \<Rightarrow> ordering option" where
  "f64_partial_cmp a b =
     (if f64_nan a \<or> f64_nan b then None else Some (cmp (f64_rank a) (f64_rank b)))"

definition f64_eq :: "f64 \<Rightarrow> f64 \<Rightarrow> bool" where
  "f64_eq a b \<longleftrightarrow> \<not> f64_nan a \<and> \<not> f64_nan b \<and> f64_rank a = f64_rank b"

subsection \<open>The conversion \<open>i64 as f64\<close>\<close>

fun bit_length :: "nat \<Rightarrow> nat" where
  "bit_length n = (if n = 0 then 0 else Suc (bit_length (n div 2)))"

declare bit_length.simps [simp del]

text \<open>The 53-bit significand of a positive number whose top bit is bit \<open>e\<close>, rounded to
  nearest with ties to even; it may round up to \<open>2 ^ 53\<close>, which carries into the
  exponent.\<close>

definition round_significand :: "nat \<Rightarrow> nat \<Rightarrow> nat" where
  "round_significand e n =
     (if e \<le> 52 then n * 2 ^ (52 - e)
      else let k = e - 52; q = n div 2 ^ k; r = n mod 2 ^ k in
        if 2 ^ (k - 1) < r \<or> (r = 2 ^ (k - 1) \<and> odd q) then q + 1 else q)"

definition f64_mag_of_nat :: "nat \<Rightarrow> nat" where
  "f64_mag_of_nat n =
     (if n = 0 then 0
      else let e = bit_length n - 1 in (e + 1022) * 2 ^ 52 + round_significand e n)"

definition f64_of_int :: "int \<Rightarrow> f64" where
  "f64_of_int i =
     (if i < 0 then word_of_nat (9223372036854775808 + f64_mag_of_nat (nat (- i)))
      else word_of_nat (f64_mag_of_nat (nat i)))"

section \<open>Values\<close>

datatype val =
    VNull
  | VBool bool
  | VInt int
  | VFloat f64
  | VText string
  | VBytes "byte list"
  | VTimestamp int
  | VList "val list"
  | VMap "(string \<times> val) list"

datatype value_type =
    TNull | TBool | TInt | TFloat | TText | TBytes | TTimestamp | TList | TMap

fun inferred_type :: "val \<Rightarrow> value_type" where
  "inferred_type VNull = TNull"
| "inferred_type (VBool _) = TBool"
| "inferred_type (VInt _) = TInt"
| "inferred_type (VFloat _) = TFloat"
| "inferred_type (VText _) = TText"
| "inferred_type (VBytes _) = TBytes"
| "inferred_type (VTimestamp _) = TTimestamp"
| "inferred_type (VList _) = TList"
| "inferred_type (VMap _) = TMap"

definition accepts :: "value_type \<Rightarrow> val \<Rightarrow> bool" where
  "accepts ty v \<longleftrightarrow> v = VNull \<or> inferred_type v = ty"

definition widens_to :: "value_type \<Rightarrow> value_type \<Rightarrow> bool" where
  "widens_to s t \<longleftrightarrow>
     s = t \<or> s = TNull \<or>
     (s, t) \<in> {(TInt, TFloat), (TInt, TText), (TBool, TText), (TTimestamp, TInt)}"

fun type_name :: "value_type \<Rightarrow> string" where
  "type_name TNull = ''null''"
| "type_name TBool = ''bool''"
| "type_name TInt = ''int''"
| "type_name TFloat = ''float''"
| "type_name TText = ''text''"
| "type_name TBytes = ''bytes''"
| "type_name TTimestamp = ''timestamp''"
| "type_name TList = ''list''"
| "type_name TMap = ''map''"

text \<open>The derived \<open>PartialEq\<close>.\<close>

fun value_eq :: "val \<Rightarrow> val \<Rightarrow> bool"
  and value_list_eq :: "val list \<Rightarrow> val list \<Rightarrow> bool"
  and value_map_eq :: "(string \<times> val) list \<Rightarrow> (string \<times> val) list \<Rightarrow> bool" where
  "value_eq VNull w = (w = VNull)"
| "value_eq (VBool a) w = (w = VBool a)"
| "value_eq (VInt a) w = (w = VInt a)"
| "value_eq (VFloat a) w = (case w of VFloat b \<Rightarrow> f64_eq a b | _ \<Rightarrow> False)"
| "value_eq (VText a) w = (w = VText a)"
| "value_eq (VBytes a) w = (w = VBytes a)"
| "value_eq (VTimestamp a) w = (w = VTimestamp a)"
| "value_eq (VList a) w = (case w of VList b \<Rightarrow> value_list_eq a b | _ \<Rightarrow> False)"
| "value_eq (VMap a) w = (case w of VMap b \<Rightarrow> value_map_eq a b | _ \<Rightarrow> False)"
| "value_list_eq [] ws = (ws = [])"
| "value_list_eq (a # as) ws = (case ws of [] \<Rightarrow> False | b # bs \<Rightarrow> value_eq a b \<and> value_list_eq as bs)"
| "value_map_eq [] ws = (ws = [])"
| "value_map_eq ((k, a) # as) ws =
     (case ws of [] \<Rightarrow> False | (l, b) # bs \<Rightarrow> k = l \<and> value_eq a b \<and> value_map_eq as bs)"

fun value_option_eq :: "val option \<Rightarrow> val option \<Rightarrow> bool" where
  "value_option_eq None None = True"
| "value_option_eq (Some a) (Some b) = value_eq a b"
| "value_option_eq _ _ = False"

text \<open>A value free of floats, on which \<open>PartialEq\<close> is equality.\<close>

fun float_free :: "val \<Rightarrow> bool" where
  "float_free (VFloat _) = False"
| "float_free (VList vs) = list_all float_free vs"
| "float_free (VMap kvs) = list_all (\<lambda>(k, v). float_free v) kvs"
| "float_free _ = True"

section \<open>Lemmas\<close>

lemma f64_mag_bound: "f64_mag b < 9223372036854775808"
  by (simp add: f64_mag_def)

lemma unat_f64: "unat b = (if f64_neg b then 9223372036854775808 + f64_mag b else f64_mag b)"
proof -
  have "unat b < 18446744073709551616"
    using unsigned_less [of b] by simp
  then show ?thesis by (auto simp: f64_neg_def f64_mag_def mod_if)
qed

lemma f64_rank_inj:
  assumes "f64_rank a = f64_rank b" and "f64_rank a \<noteq> 0"
  shows "a = b"
proof -
  have "f64_neg a = f64_neg b" and "f64_mag a = f64_mag b"
    using assms by (auto simp: f64_rank_def split: if_splits)
  then have "unat a = unat b" by (simp add: unat_f64)
  then show ?thesis by (simp add: word_unat_eq_iff)
qed

lemma bit_length_bounds:
  "0 < n \<Longrightarrow> 2 ^ (bit_length n - 1) \<le> n \<and> n < 2 ^ bit_length n \<and> 0 < bit_length n"
proof (induction n rule: bit_length.induct)
  case (1 n)
  show ?case
  proof (cases "n div 2 = 0")
    case True
    with 1(2) have "n = 1" by auto
    then show ?thesis by (simp add: bit_length.simps)
  next
    case False
    with 1 have IH: "2 ^ (bit_length (n div 2) - 1) \<le> n div 2"
      "n div 2 < 2 ^ bit_length (n div 2)" "0 < bit_length (n div 2)"
      by auto
    have bl: "bit_length n = Suc (bit_length (n div 2))"
      using 1(2) by (subst bit_length.simps) simp
    have "2 * 2 ^ (bit_length (n div 2) - 1) = (2::nat) ^ bit_length (n div 2)"
      using IH(3) by (cases "bit_length (n div 2)") auto
    moreover have "n \<le> 2 * (n div 2) + 1" and "2 * (n div 2) \<le> n" by simp_all
    ultimately show ?thesis unfolding bl using IH by simp linarith
  qed
qed

lemma bit_length_mono: "m \<le> n \<Longrightarrow> bit_length m \<le> bit_length n"
proof (induction n arbitrary: m rule: bit_length.induct)
  case (1 n)
  show ?case
  proof (cases "m = 0")
    case True
    then show ?thesis by (simp add: bit_length.simps [of 0])
  next
    case False
    with 1 have "bit_length (m div 2) \<le> bit_length (n div 2)" by (auto simp: div_le_mono)
    with False 1(2) show ?thesis
      by (simp add: bit_length.simps [of m] bit_length.simps [of n])
  qed
qed

lemma widens_to_refl: "widens_to t t"
  by (simp add: widens_to_def)

lemma value_eq_float_free:
  "float_free v \<Longrightarrow> value_eq v w \<longleftrightarrow> v = w"
  "list_all float_free vs \<Longrightarrow> value_list_eq vs ws \<longleftrightarrow> vs = ws"
  "list_all (\<lambda>(k, v). float_free v) kvs \<Longrightarrow> value_map_eq kvs lws \<longleftrightarrow> kvs = lws"
  by (induction v w and vs ws and kvs lws
      rule: value_eq_value_list_eq_value_map_eq.induct)
    (auto split: val.splits list.splits)

lemma value_option_eq_float_free:
  "(\<And>v. a = Some v \<Longrightarrow> float_free v) \<Longrightarrow> value_option_eq a b \<longleftrightarrow> a = b"
  by (cases a; cases b) (auto simp: value_eq_float_free)

end
