(* ===== verification/Core_Schema.thy ===== *)
theory Core_Schema
  imports Core_Value
begin

text \<open>
  Tables, fields and schema changes (\<open>theta-core/src/schema.rs\<close>).  \<open>declared_at\<close>
  of a field is a content hash.
\<close>

datatype crdt_kind = KCounter | KRegister | KSet | KSequence

record field_def =
  fd_name :: string
  fd_ty :: value_type
  fd_nullable :: bool
  fd_crdt :: "crdt_kind option"
  fd_declared_at :: "byte list option"

record index_def =
  ix_name :: string
  ix_columns :: "string list"
  ix_unique :: bool

record table_def =
  td_name :: string
  td_fields :: "(string, field_def) omap"
  td_indexes :: "index_def list"

datatype schema_change =
    AddTable table_def
  | DropTable string
  | AddColumn string field_def
  | DropColumn string string
  | AlterColumnType string string value_type value_type
  | SetNullable string string bool "val option"
  | AddIndex string index_def
  | DropIndex string string
  | RenameColumn string string string
  | SetCrdt string string "crdt_kind option"

record schema =
  sc_tables :: "(string, table_def) omap"

definition schema_default :: schema where
  "schema_default = \<lparr>sc_tables = omempty\<rparr>"

definition schema_table :: "schema \<Rightarrow> string \<Rightarrow> table_def option" where
  "schema_table s name = omget (sc_tables s) name"

definition schema_field :: "schema \<Rightarrow> string \<Rightarrow> string \<Rightarrow> field_def option" where
  "schema_field s t c =
     (case schema_table s t of None \<Rightarrow> None | Some td \<Rightarrow> omget (td_fields td) c)"

definition table_default :: "string \<Rightarrow> table_def" where
  "table_default name = \<lparr>td_name = name, td_fields = omempty, td_indexes = []\<rparr>"

lemma schema_table_empty [simp]: "schema_table schema_default t = None"
  by (simp add: schema_table_def schema_default_def)

end
