(* ===== verification/Core_Hash.thy ===== *)
theory Core_Hash
  imports Core_Value
begin

text \<open>
  Content addressing (\<open>theta-core/src/hash.rs\<close>): the length-prefixed framing a hash is
  taken over, and the hexadecimal form of a hash.  BLAKE3 itself is a library function
  and a parameter; what is proved is that the framing cannot confuse two field lists, so
  equal hashes mean equal fields or a collision of the hash function.
\<close>

section \<open>Model\<close>

type_synonym hash = "byte list"

definition hash_len :: nat where
  "hash_len = 32"

definition zero_hash :: hash where
  "zero_hash = replicate hash_len 0"

text \<open>\<open>u64::to_le_bytes\<close>, and \<open>i64::to_le_bytes\<close> through two's complement.\<close>

fun le_bytes :: "nat \<Rightarrow> nat \<Rightarrow> byte list" where
  "le_bytes 0 n = []"
| "le_bytes (Suc k) n = word_of_nat (n mod 256) # le_bytes k (n div 256)"

definition le64 :: "nat \<Rightarrow> byte list" where
  "le64 n = le_bytes 8 n"

definition le64_i :: "int \<Rightarrow> byte list" where
  "le64_i i = le_bytes 8 (nat (i mod 18446744073709551616))"

text \<open>The bytes \<open>of_fields\<close> feeds to the hasher.\<close>

definition framed :: "byte list list \<Rightarrow> byte list" where
  "framed fields = concat (map (\<lambda>f. le64 (length f) @ f) fields)"

definition of_fields :: "(byte list \<Rightarrow> hash) \<Rightarrow> byte list list \<Rightarrow> hash" where
  "of_fields blake3 fields = blake3 (framed fields)"

definition hash_is_zero :: "hash \<Rightarrow> bool" where
  "hash_is_zero h \<longleftrightarrow> h = zero_hash"

definition hex_digit :: "nat \<Rightarrow> char" where
  "hex_digit d = (if d < 10 then char_of (48 + d) else char_of (87 + d))"

definition to_hex :: "hash \<Rightarrow> string" where
  "to_hex h = concat (map (\<lambda>b. [hex_digit (unat b div 16), hex_digit (unat b mod 16)]) h)"

definition hex_value :: "char \<Rightarrow> nat option" where
  "hex_value c =
     (let n = of_char c :: nat in
      if 48 \<le> n \<and> n \<le> 57 then Some (n - 48)
      else if 97 \<le> n \<and> n \<le> 102 then Some (n - 87)
      else if 65 \<le> n \<and> n \<le> 70 then Some (n - 55)
      else None)"

text \<open>\<open>u8::from_str_radix(s, 16)\<close> on a two-byte string: a leading plus sign is skipped.\<close>

definition byte_from_hex :: "char \<Rightarrow> char \<Rightarrow> nat option" where
  "byte_from_hex c d =
     (if c = CHR ''+'' then hex_value d
      else (case (hex_value c, hex_value d) of
              (Some a, Some b) \<Rightarrow> Some (16 * a + b)
            | _ \<Rightarrow> None))"

fun bytes_from_hex :: "string \<Rightarrow> hash option" where
  "bytes_from_hex [] = Some []"
| "bytes_from_hex [c] = None"
| "bytes_from_hex (c # d # s) =
     (case byte_from_hex c d of
        None \<Rightarrow> None
      | Some n \<Rightarrow> map_option ((#) (word_of_nat n)) (bytes_from_hex s))"

definition from_hex :: "string \<Rightarrow> hash option" where
  "from_hex s = (if length s \<noteq> hash_len * 2 then None else bytes_from_hex s)"

section \<open>The framing\<close>

lemma le_bytes_length [simp]: "length (le_bytes k n) = k"
  by (induction k arbitrary: n) auto

lemma unat_byte_of_nat: "n < 256 \<Longrightarrow> unat (word_of_nat n :: byte) = n"
  by (simp add: unat_of_nat)

lemma le_bytes_inj: "le_bytes k m = le_bytes k n \<Longrightarrow> m < 256 ^ k \<Longrightarrow> n < 256 ^ k \<Longrightarrow> m = n"
proof (induction k arbitrary: m n)
  case 0
  then show ?case by simp
next
  case (Suc k)
  have "unat (word_of_nat (m mod 256) :: byte) = unat (word_of_nat (n mod 256) :: byte)"
    using Suc.prems(1) by simp
  then have "m mod 256 = n mod 256" by (simp add: unat_byte_of_nat)
  moreover have "m div 256 = n div 256"
    using Suc.prems by (intro Suc.IH) (auto simp: less_mult_imp_div_less mult.commute)
  ultimately show ?case by (metis div_mult_mod_eq)
qed

lemma le64_length [simp]: "length (le64 n) = 8"
  by (simp add: le64_def)

lemma le64_not_Nil [simp]: "le64 n \<noteq> []"
  by (metis le64_length list.size(3) zero_neq_numeral)

lemma le64_inj: "le64 m = le64 n \<Longrightarrow> m \<le> u64_max \<Longrightarrow> n \<le> u64_max \<Longrightarrow> m = n"
  unfolding le64_def by (erule le_bytes_inj) simp_all

lemma le64_i_inj:
  assumes "le64_i i = le64_i j" and "i64_min \<le> i" "i \<le> i64_max" "i64_min \<le> j" "j \<le> i64_max"
  shows "i = j"
proof -
  have "nat (i mod 18446744073709551616) = nat (j mod 18446744073709551616)"
    using assms(1) unfolding le64_i_def by (rule le_bytes_inj) (simp_all add: nat_less_iff)
  then have "int (nat (i mod 18446744073709551616)) = int (nat (j mod 18446744073709551616))" by simp
  then have "i mod 18446744073709551616 = j mod 18446744073709551616" by simp
  then have "eq64 i j" by (simp add: eq64_def mod_eq_dvd_iff)
  then have "wrap_i64 i = wrap_i64 j" by (rule wrap_i64_cong)
  with assms show ?thesis by (simp add: wrap_i64_id)
qed

text \<open>The length prefixes make the framing injective: two lists of fields that feed
  the same bytes to the hasher are the same list.\<close>

lemma framed_inj:
  assumes "framed xs = framed ys"
    and "\<forall>x \<in> set xs \<union> set ys. length x \<le> u64_max"
  shows "xs = ys"
  using assms
proof (induction xs arbitrary: ys)
  case Nil
  then show ?case by (cases ys) (auto simp: framed_def)
next
  case (Cons x xs)
  obtain y ys' where ys: "ys = y # ys'"
    using Cons.prems(1) by (cases ys) (auto simp: framed_def)
  have eq: "le64 (length x) @ x @ framed xs = le64 (length y) @ y @ framed ys'"
    using Cons.prems(1) by (simp add: framed_def ys)
  then have "le64 (length x) = le64 (length y)" and rest: "x @ framed xs = y @ framed ys'"
    using append_eq_append_conv [of "le64 (length x)" "le64 (length y)"] by auto
  then have "length x = length y" using Cons.prems(2) by (auto simp: ys intro: le64_inj)
  with rest have "x = y" "framed xs = framed ys'" by auto
  with Cons show ?case by (simp add: ys)
qed

lemma of_fields_collision:
  assumes "of_fields blake3 xs = of_fields blake3 ys"
    and "\<forall>x \<in> set xs \<union> set ys. length x \<le> u64_max"
  shows "xs = ys \<or> (framed xs \<noteq> framed ys \<and> blake3 (framed xs) = blake3 (framed ys))"
  using assms framed_inj [of xs ys] by (auto simp: of_fields_def)

section \<open>Hexadecimal\<close>

lemma hex_value_digit: "d < 16 \<Longrightarrow> hex_value (hex_digit d) = Some d"
  by (auto simp: hex_value_def hex_digit_def)

lemma hex_digit_not_plus: "d < 16 \<Longrightarrow> hex_digit d \<noteq> CHR ''+''"
proof -
  assume "d < 16"
  then have "hex_value (hex_digit d) \<noteq> hex_value CHR ''+''"
    by (simp add: hex_value_digit) (simp add: hex_value_def)
  then show ?thesis by auto
qed

lemma bytes_from_to_hex: "bytes_from_hex (to_hex h) = Some h"
proof (induction h)
  case Nil
  then show ?case by (simp add: to_hex_def)
next
  case (Cons b h)
  have b: "unat b < 256" using unsigned_less [of b] by simp
  then have "byte_from_hex (hex_digit (unat b div 16)) (hex_digit (unat b mod 16)) = Some (unat b)"
    by (simp add: byte_from_hex_def hex_value_digit hex_digit_not_plus less_mult_imp_div_less)
  with Cons show ?case by (simp add: to_hex_def)
qed

lemma to_hex_length: "length (to_hex h) = 2 * length h"
  by (induction h) (auto simp: to_hex_def)

text \<open>A printed hash parses back to itself.\<close>

theorem hash_hex_roundtrip:
  assumes "length h = hash_len"
  shows "from_hex (to_hex h) = Some h"
  using assms by (simp add: from_hex_def to_hex_length bytes_from_to_hex)

lemma hash_hex_roundtrip_witness: "from_hex (to_hex zero_hash) = Some zero_hash"
  by (rule hash_hex_roundtrip) (simp add: zero_hash_def)

text \<open>The converse fails: the parser also takes a plus sign and capitals, so distinct
  strings name one hash.\<close>

lemma from_hex_not_canonical:
  "from_hex (concat (replicate 32 ''+0'')) = Some zero_hash \<and>
   from_hex (concat (replicate 32 ''+0'')) = from_hex (concat (replicate 32 ''00''))"
  by (simp add: from_hex_def byte_from_hex_def hex_value_def zero_hash_def hash_len_def
      numeral_eq_Suc)

end
