(* ===== verification/Crdt_Laws.thy ===== *)
theory Crdt_Laws
  imports Ordered_Map
begin

text \<open>
  The contract of the \<open>Crdt\<close> trait (\<open>theta-core/src/crdt/mod.rs\<close>): a merge that is
  commutative, associative and idempotent on the states that can arise.  What the
  trait's documentation promises, that replicas which have merged the same states agree
  whatever the order and however often, is proved once here for every type that meets
  the contract.
\<close>

locale crdt =
  fixes merge :: "'s \<Rightarrow> 's \<Rightarrow> 's"
    and inv :: "'s \<Rightarrow> bool"
  assumes merge_inv: "inv a \<Longrightarrow> inv b \<Longrightarrow> inv (merge a b)"
    and merge_comm: "inv a \<Longrightarrow> inv b \<Longrightarrow> merge a b = merge b a"
    and merge_assoc: "inv a \<Longrightarrow> inv b \<Longrightarrow> inv c \<Longrightarrow> merge (merge a b) c = merge a (merge b c)"
    and merge_idem: "inv a \<Longrightarrow> merge a a = a"
begin

definition below :: "'s \<Rightarrow> 's \<Rightarrow> bool" where
  "below a b \<longleftrightarrow> merge a b = b"

lemma below_refl: "inv a \<Longrightarrow> below a a"
  by (simp add: below_def merge_idem)

lemma below_antisym: "inv a \<Longrightarrow> inv b \<Longrightarrow> below a b \<Longrightarrow> below b a \<Longrightarrow> a = b"
  by (metis below_def merge_comm)

lemma below_trans: "inv a \<Longrightarrow> inv b \<Longrightarrow> inv c \<Longrightarrow> below a b \<Longrightarrow> below b c \<Longrightarrow> below a c"
  unfolding below_def by (metis merge_assoc)

lemma below_merge_left: "inv a \<Longrightarrow> inv b \<Longrightarrow> below a (merge a b)"
  unfolding below_def by (metis merge_assoc merge_idem)

lemma below_merge_right: "inv a \<Longrightarrow> inv b \<Longrightarrow> below b (merge a b)"
  using below_merge_left [of b a] by (simp add: merge_comm)

lemma merge_least:
  "inv a \<Longrightarrow> inv b \<Longrightarrow> inv c \<Longrightarrow> below a c \<Longrightarrow> below b c \<Longrightarrow> below (merge a b) c"
  unfolding below_def by (simp add: merge_assoc)

lemma foldl_inv: "inv s \<Longrightarrow> list_all inv xs \<Longrightarrow> inv (foldl merge s xs)"
  by (induction xs arbitrary: s) (auto intro: merge_inv)

lemma foldl_upper:
  "inv s \<Longrightarrow> list_all inv xs \<Longrightarrow> x \<in> insert s (set xs) \<Longrightarrow> below x (foldl merge s xs)"
proof (induction xs arbitrary: s x)
  case Nil
  then show ?case by (simp add: below_refl)
next
  case (Cons y ys)
  then have inv: "inv y" "inv (merge s y)" "list_all inv ys"
    "inv (foldl merge (merge s y) ys)"
    by (auto intro: merge_inv foldl_inv)
  then have top: "below (merge s y) (foldl merge (merge s y) ys)"
    using Cons.IH [of "merge s y" "merge s y"] by simp
  consider "x = s" | "x = y" | "x \<in> set ys" using Cons.prems(3) by auto
  then show ?case
  proof cases
    case 1
    then show ?thesis
      using below_trans [OF _ _ _ below_merge_left top] inv Cons.prems by simp
  next
    case 2
    then show ?thesis
      using below_trans [OF _ _ _ below_merge_right top] inv Cons.prems by simp
  next
    case 3
    then show ?thesis using Cons.IH [of "merge s y" x] inv by simp
  qed
qed

lemma foldl_least:
  "inv s \<Longrightarrow> list_all inv xs \<Longrightarrow> inv u \<Longrightarrow> (\<And>x. x \<in> insert s (set xs) \<Longrightarrow> below x u) \<Longrightarrow>
     below (foldl merge s xs) u"
proof (induction xs arbitrary: s)
  case Nil
  then show ?case by simp
next
  case (Cons y ys)
  have "below (merge s y) u" using Cons.prems by (intro merge_least) auto
  then show ?case using Cons.prems by (auto intro!: Cons.IH intro: merge_inv)
qed

text \<open>The promise: any two merge orders over the same states end in the same state.\<close>

lemma convergence:
  assumes "inv s" and "list_all inv xs" and "inv t" and "list_all inv ys"
    and "insert s (set xs) = insert t (set ys)"
  shows "foldl merge s xs = foldl merge t ys"
proof (rule below_antisym)
  show "inv (foldl merge s xs)" "inv (foldl merge t ys)"
    using assms by (simp_all add: foldl_inv)
  show "below (foldl merge s xs) (foldl merge t ys)"
    using assms by (intro foldl_least foldl_upper foldl_inv) auto
  show "below (foldl merge t ys) (foldl merge s xs)"
    using assms by (intro foldl_least foldl_upper foldl_inv) auto
qed

lemma remerge: "inv s \<Longrightarrow> inv a \<Longrightarrow> merge (merge s a) a = merge s a"
  by (simp add: merge_assoc merge_idem)

end

end
