(* ===== verification/Crdt_Sequence.thy ===== *)
theory Crdt_Sequence
  imports Crdt_Laws
begin

text \<open>
  The replicated sequence (\<open>theta-core/src/crdt/sequence.rs\<close>), an RGA: every element
  names the element it was inserted after; reading walks that forest depth-first from
  the head with siblings in descending id order; removal leaves a tombstone.

  The \<open>while let Some(id) = stack.pop()\<close> loop is \<open>rga_walk\<close>, which carries fuel and
  answers \<open>None\<close> when it runs out; \<open>rga_walk_enough\<close> shows that one step per element
  plus one is always enough, cycles of origins included.
\<close>

section \<open>Element ids\<close>

datatype elem_id = ElemId (id_counter: nat) (id_replica: nat)

definition elem_key :: "elem_id \<Rightarrow> nat \<times> nat" where
  "elem_key i = (id_counter i, id_replica i)"

lemma elem_key_inj: "elem_key i = elem_key j \<longleftrightarrow> i = j"
  by (cases i; cases j) (simp add: elem_key_def)

instantiation elem_id :: linorder
begin

definition less_eq_elem_id :: "elem_id \<Rightarrow> elem_id \<Rightarrow> bool" where
  "i \<le> j \<longleftrightarrow> elem_key i \<le> elem_key j"

definition less_elem_id :: "elem_id \<Rightarrow> elem_id \<Rightarrow> bool" where
  "i < j \<longleftrightarrow> elem_key i < elem_key j"

instance
  by standard (auto simp: less_eq_elem_id_def less_elem_id_def elem_key_inj less_le_not_le)

end

lemma elem_id_less [simp]:
  "ElemId c r < ElemId c' r' \<longleftrightarrow> c < c' \<or> c = c' \<and> r < r'"
  by (auto simp: less_elem_id_def elem_key_def)

lemma elem_id_le [simp]:
  "ElemId c r \<le> ElemId c' r' \<longleftrightarrow> c < c' \<or> c = c' \<and> r \<le> r'"
  by (auto simp: less_eq_elem_id_def elem_key_def)

section \<open>Model\<close>

record 'v elem =
  el_origin :: "elem_id option"
  el_value :: 'v
  el_tombstone :: bool

record 'v rga =
  rga_elements :: "(elem_id, 'v elem) omap"
  rga_next :: nat

definition rga_new :: "'v rga" where
  "rga_new = \<lparr>rga_elements = omempty, rga_next = 0\<rparr>"

definition rga_insert_after :: "elem_id option \<Rightarrow> 'v \<Rightarrow> nat \<Rightarrow> 'v rga \<Rightarrow> elem_id \<times> 'v rga" where
  "rga_insert_after origin v r s =
     (let i = ElemId (rga_next s) r in
      (i, s\<lparr>rga_next := wrap64 (rga_next s + 1),
            rga_elements := omput i \<lparr>el_origin = origin, el_value = v, el_tombstone = False\<rparr>
              (rga_elements s)\<rparr>))"

definition rga_insert_with_id :: "elem_id \<Rightarrow> elem_id option \<Rightarrow> 'v \<Rightarrow> 'v rga \<Rightarrow> 'v rga" where
  "rga_insert_with_id i origin v s =
     s\<lparr>rga_elements := omput i \<lparr>el_origin = origin, el_value = v, el_tombstone = False\<rparr>
         (rga_elements s),
       rga_next := max (rga_next s) (wrap64 (id_counter i + 1))\<rparr>"

definition rga_remove :: "elem_id \<Rightarrow> 'v rga \<Rightarrow> 'v rga" where
  "rga_remove i s =
     (case omget (rga_elements s) i of
        None \<Rightarrow> s
      | Some e \<Rightarrow> s\<lparr>rga_elements := omput i (e\<lparr>el_tombstone := True\<rparr>) (rga_elements s)\<rparr>)"

text \<open>The ids whose origin is \<open>p\<close>, in descending order.\<close>

definition rga_children :: "'v rga \<Rightarrow> elem_id option \<Rightarrow> elem_id list" where
  "rga_children s p =
     rev (map fst (filter (\<lambda>(i, e). el_origin e = p) (omlist (rga_elements s))))"

text \<open>The stack is written top first: \<open>pop\<close> takes the head, and pushing the reversed
  children puts them in front in sibling order.\<close>

fun rga_walk :: "nat \<Rightarrow> (elem_id option \<Rightarrow> elem_id list) \<Rightarrow> elem_id list \<Rightarrow> elem_id list option" where
  "rga_walk n ch [] = Some []"
| "rga_walk 0 ch (i # st) = None"
| "rga_walk (Suc n) ch (i # st) = map_option ((#) i) (rga_walk n ch (ch (Some i) @ st))"

definition rga_ordered_ids :: "'v rga \<Rightarrow> elem_id list" where
  "rga_ordered_ids s =
     (case rga_walk (length (omlist (rga_elements s))) (rga_children s) (rga_children s None) of
        None \<Rightarrow> [] | Some ids \<Rightarrow> ids)"

definition rga_tombstoned :: "'v rga \<Rightarrow> elem_id \<Rightarrow> bool" where
  "rga_tombstoned s i = (case omget (rga_elements s) i of None \<Rightarrow> False | Some e \<Rightarrow> el_tombstone e)"

definition rga_live_ids :: "'v rga \<Rightarrow> elem_id list" where
  "rga_live_ids s = filter (\<lambda>i. \<not> rga_tombstoned s i) (rga_ordered_ids s)"

definition rga_push :: "'v \<Rightarrow> nat \<Rightarrow> 'v rga \<Rightarrow> elem_id \<times> 'v rga" where
  "rga_push v r s =
     rga_insert_after (case rga_live_ids s of [] \<Rightarrow> None | ids \<Rightarrow> Some (last ids)) v r s"

definition rga_value :: "'v rga \<Rightarrow> 'v list" where
  "rga_value s = map (\<lambda>i. el_value (the (omget (rga_elements s) i))) (rga_live_ids s)"

definition rga_merge :: "'v rga \<Rightarrow> 'v rga \<Rightarrow> 'v rga" where
  "rga_merge a b =
     \<lparr>rga_elements = ommerge (\<lambda>slot e. case slot of None \<Rightarrow> e
          | Some e' \<Rightarrow> e'\<lparr>el_tombstone := el_tombstone e' \<or> el_tombstone e\<rparr>)
        (rga_elements a) (rga_elements b),
      rga_next = max (rga_next a) (rga_next b)\<rparr>"

lemmas rga_defs [crdt_defs] =
  rga_new_def rga_insert_after_def rga_insert_with_id_def rga_remove_def rga_children_def
  rga_ordered_ids_def rga_tombstoned_def rga_live_ids_def rga_push_def rga_value_def rga_merge_def

section \<open>The merge laws\<close>

text \<open>An id fixes the origin and the value it was inserted with.\<close>

definition rga_ok :: "(elem_id \<Rightarrow> elem_id option \<times> 'v) \<Rightarrow> 'v rga \<Rightarrow> bool" where
  "rga_ok w s \<longleftrightarrow> (\<forall>i e. omget (rga_elements s) i = Some e \<longrightarrow> (el_origin e, el_value e) = w i)"

lemma rga_merge_elements:
  "omget (rga_elements (rga_merge a b)) i =
     (case omget (rga_elements b) i of None \<Rightarrow> omget (rga_elements a) i
      | Some e \<Rightarrow> Some (case omget (rga_elements a) i of None \<Rightarrow> e
          | Some e' \<Rightarrow> e'\<lparr>el_tombstone := el_tombstone e' \<or> el_tombstone e\<rparr>))"
  by (simp add: rga_merge_def split: option.splits)

lemma rga_ok_merge: "rga_ok w a \<Longrightarrow> rga_ok w b \<Longrightarrow> rga_ok w (rga_merge a b)"
  unfolding rga_ok_def rga_merge_elements by (auto split: option.splits)

lemma rga_eqI:
  "(\<And>i. omget (rga_elements a) i = omget (rga_elements b) i) \<Longrightarrow> rga_next a = rga_next b \<Longrightarrow>
     a = (b :: 'v rga)"
  by (rule rga.equality) (auto intro: omap_eqI)

lemma rga_merge_comm:
  assumes "rga_ok w a" and "rga_ok w b"
  shows "rga_merge a b = rga_merge b a"
proof (rule rga_eqI)
  show "omget (rga_elements (rga_merge a b)) i = omget (rga_elements (rga_merge b a)) i" for i
  proof (cases "omget (rga_elements a) i")
    case None
    then show ?thesis by (simp add: rga_merge_elements split: option.splits)
  next
    case (Some e)
    with assms have "(el_origin e, el_value e) = w i"
      "\<And>e'. omget (rga_elements b) i = Some e' \<Longrightarrow> (el_origin e', el_value e') = w i"
      by (auto simp: rga_ok_def)
    with Some show ?thesis
      by (cases e) (auto simp: rga_merge_elements split: option.splits intro!: elem.equality
          dest: sym [of "(_, _)"])
  qed
qed (simp add: rga_merge_def max.commute)

lemma rga_merge_assoc: "rga_merge (rga_merge a b) c = rga_merge a (rga_merge b c)"
proof (rule rga_eqI)
  show "omget (rga_elements (rga_merge (rga_merge a b) c)) i =
      omget (rga_elements (rga_merge a (rga_merge b c))) i" for i
    unfolding rga_merge_elements by (auto split: option.splits)
qed (simp add: rga_merge_def max.assoc)

lemma rga_merge_idem: "rga_merge a a = a"
proof (rule rga_eqI)
  show "omget (rga_elements (rga_merge a a)) i = omget (rga_elements a) i" for i
    unfolding rga_merge_elements by (auto split: option.splits)
qed (simp add: rga_merge_def)

interpretation rga: crdt rga_merge "rga_ok w" for w :: "elem_id \<Rightarrow> elem_id option \<times> 'v"
  by unfold_locales
    (auto simp: rga_ok_merge rga_merge_assoc rga_merge_idem intro: rga_merge_comm)

text \<open>Sequences in which an id stands for one insertion read the same after any
  order of merges: the same states give the same list of values.\<close>

theorem sequence_convergence:
  assumes "\<forall>s \<in> insert a (set xs). \<forall>i e. omget (rga_elements s) i = Some e \<longrightarrow>
      (el_origin e, el_value e) = w i"
    and "insert a (set xs) = insert b (set ys)"
  shows "rga_value (foldl rga_merge a xs) = rga_value (foldl rga_merge b ys)"
proof -
  have ok: "rga_ok w s" if "s \<in> insert a (set xs)" for s
    using assms(1) that by (auto simp: rga_ok_def)
  then have "rga_ok w a" "list_all (rga_ok w) xs" by (auto simp: list_all_iff)
  moreover have "rga_ok w b" "list_all (rga_ok w) ys"
    using ok assms(2) by (auto simp: list_all_iff)
  ultimately show ?thesis using rga.convergence [OF _ _ _ _ assms(2), of w] by simp
qed

lemma sequence_convergence_witness:
  "rga_value (foldl rga_merge (rga_insert_with_id (ElemId 0 1) None CHR ''a'' rga_new)
       [rga_insert_with_id (ElemId 0 2) None CHR ''b'' rga_new]) =
   rga_value (foldl rga_merge (rga_insert_with_id (ElemId 0 2) None CHR ''b'' rga_new)
       [rga_insert_with_id (ElemId 0 1) None CHR ''a'' rga_new])"
  by (rule sequence_convergence
      [where w = "\<lambda>i. (None, if i = ElemId 0 1 then CHR ''a'' else CHR ''b'')"])
    (auto simp: rga_new_def rga_insert_with_id_def split: if_splits)

section \<open>The walk\<close>

lemma rga_walk_more: "rga_walk n ch st = Some ids \<Longrightarrow> rga_walk (n + k) ch st = Some ids"
  by (induction n ch st arbitrary: ids rule: rga_walk.induct) auto

text \<open>A state of the loop: \<open>V\<close> has been output, \<open>st\<close> is on the stack.  Nothing is on
  the stack twice, and the children of what was output, and only they, have been pushed.\<close>

definition walk_inv :: "(elem_id \<Rightarrow> elem_id option option) \<Rightarrow> elem_id set \<Rightarrow> elem_id list \<Rightarrow> bool" where
  "walk_inv org V st \<longleftrightarrow> distinct st \<and> set st \<inter> V = {} \<and>
     (\<forall>i. i \<in> V \<union> set st \<longleftrightarrow> (org i = Some None \<or> (\<exists>p\<in>V. org i = Some (Some p))))"

lemma walk_inv_done:
  "walk_inv org V [] \<Longrightarrow> i \<in> V \<longleftrightarrow> (org i = Some None \<or> (\<exists>p\<in>V. org i = Some (Some p)))"
  unfolding walk_inv_def by (elim conjE, drule spec [of _ i]) (simp only: list.set Un_empty_right)

text \<open>\<open>ch\<close> lists the children that \<open>org\<close> assigns, each once.\<close>

definition kids_of :: "(elem_id \<Rightarrow> elem_id option option) \<Rightarrow> (elem_id option \<Rightarrow> elem_id list) \<Rightarrow> bool" where
  "kids_of org ch \<longleftrightarrow> (\<forall>p. distinct (ch p) \<and> set (ch p) = {i. org i = Some p})"

lemma walk_inv_step:
  assumes "kids_of org ch" and "walk_inv org V (i # st)"
  shows "walk_inv org (insert i V) (ch (Some i) @ st)"
proof -
  have kids: "distinct (ch (Some i))" "set (ch (Some i)) = {j. org j = Some (Some i)}"
    using assms(1) by (auto simp: kids_of_def)
  have mem: "j \<in> V \<union> set (i # st) \<longleftrightarrow> org j = Some None \<or> (\<exists>p\<in>V. org j = Some (Some p))" for j
    using assms(2) unfolding walk_inv_def by blast
  have d: "distinct (i # st)" "set (i # st) \<inter> V = {}"
    using assms(2) unfolding walk_inv_def by blast+
  have new: "j \<notin> V \<union> set (i # st)" if "org j = Some (Some i)" for j
    using that mem [of j] d by auto
  have "i \<in> V \<union> set (i # st)" by simp
  then have "org i \<noteq> Some (Some i)" using new by blast
  have "j \<in> insert i V \<union> set (ch (Some i) @ st) \<longleftrightarrow>
      org j = Some None \<or> (\<exists>p\<in>insert i V. org j = Some (Some p))" for j
    using mem [of j] kids(2) by auto
  moreover have "distinct (ch (Some i) @ st)" "set (ch (Some i) @ st) \<inter> insert i V = {}"
    using kids d new by auto
  ultimately show ?thesis by (simp add: walk_inv_def)
qed

lemma rga_walk_result:
  assumes "kids_of org ch" and "finite D" and "\<And>i. org i \<noteq> None \<longleftrightarrow> i \<in> D"
  shows "walk_inv org V st \<Longrightarrow> V \<subseteq> D \<Longrightarrow> card (D - V) \<le> n \<Longrightarrow>
     \<exists>ids. rga_walk n ch st = Some ids \<and> distinct ids \<and> set ids \<inter> V = {} \<and>
       walk_inv org (V \<union> set ids) []"
proof (induction n arbitrary: V st)
  case 0
  then have DV: "D - V = {}" using assms(2) by simp
  have "set st \<subseteq> D - V"
    using 0(1) assms(3) unfolding walk_inv_def by fastforce
  then have "st = []" unfolding DV by simp
  with 0 show ?case by simp
next
  case (Suc n)
  show ?case
  proof (cases st)
    case Nil
    with Suc.prems show ?thesis by simp
  next
    case (Cons i st')
    have iD: "i \<in> D" "i \<notin> V"
      using Suc.prems(1) assms(3) unfolding walk_inv_def Cons by fastforce+
    have "card (D - insert i V) < card (D - V)"
      using iD assms(2) by (intro psubset_card_mono) auto
    then obtain ids where ids: "rga_walk n ch (ch (Some i) @ st') = Some ids" "distinct ids"
        "set ids \<inter> insert i V = {}" "walk_inv org (insert i V \<union> set ids) []"
      using Suc.IH [OF walk_inv_step [OF assms(1) Suc.prems(1) [unfolded Cons]]] Suc.prems iD by auto
    then show ?thesis using iD(2) by (auto simp: Cons insert_commute)
  qed
qed

definition rga_org :: "'v rga \<Rightarrow> elem_id \<Rightarrow> elem_id option option" where
  "rga_org s i = map_option el_origin (omget (rga_elements s) i)"

lemma rga_kids: "kids_of (rga_org s) (rga_children s)"
proof -
  let ?xs = "omlist (rga_elements s)"
  have "distinct (map fst (filter (\<lambda>(i, e). el_origin e = p) ?xs))" for p
    by (rule distinct_map_filter) (simp add: al_ok_distinct)
  moreover have "i \<in> fst ` {x \<in> set ?xs. el_origin (snd x) = p} \<longleftrightarrow> rga_org s i = Some p" for p i
    by (auto simp: rga_org_def omget_omlist image_iff)
  ultimately show ?thesis
    by (auto simp: kids_of_def rga_children_def case_prod_beta)
qed

lemma rga_start: "walk_inv (rga_org s) {} (rga_children s None)"
  using rga_kids [of s] by (auto simp: walk_inv_def kids_of_def)

lemma rga_org_dom: "rga_org s i \<noteq> None \<longleftrightarrow> i \<in> set (omkeys (rga_elements s))"
  by (simp add: rga_org_def omkeys_set)

lemma rga_walk_enough:
  "\<exists>ids. rga_walk (length (omlist (rga_elements s))) (rga_children s) (rga_children s None) = Some ids \<and>
     distinct ids \<and> walk_inv (rga_org s) (set ids) []"
proof -
  have "card (set (omkeys (rga_elements s)) - {}) \<le> length (omlist (rga_elements s))"
    using card_length [of "omkeys (rga_elements s)"] by (simp add: omkeys_def)
  then show ?thesis
    using rga_walk_result [OF rga_kids finite_set rga_org_dom rga_start] by auto
qed

lemma rga_ordered_walk:
  "rga_walk (length (omlist (rga_elements s))) (rga_children s) (rga_children s None) =
     Some (rga_ordered_ids s)"
  using rga_walk_enough [of s] by (auto simp: rga_ordered_ids_def)

lemma rga_ordered_inv: "distinct (rga_ordered_ids s)" "walk_inv (rga_org s) (set (rga_ordered_ids s)) []"
  using rga_walk_enough [of s] rga_ordered_walk [of s] by auto

text \<open>Origins point back: to a smaller id that is present.  Local insertion keeps this.\<close>

definition rga_wf :: "'v rga \<Rightarrow> bool" where
  "rga_wf s \<longleftrightarrow>
     (\<forall>i e. omget (rga_elements s) i = Some e \<longrightarrow> id_counter i < rga_next s \<and>
        (\<forall>p. el_origin e = Some p \<longrightarrow> p < i \<and> omhas (rga_elements s) p))"

lemma rga_wf_new: "rga_wf rga_new"
  by (simp add: rga_wf_def rga_new_def)

lemma rga_wf_remove: "rga_wf s \<Longrightarrow> rga_wf (rga_remove i s)"
  unfolding rga_wf_def rga_remove_def by (auto split: option.splits if_splits simp: omhas_def)

lemma rga_wf_fresh_greatest:
  "rga_wf s \<Longrightarrow> omget (rga_elements s) i = Some e \<Longrightarrow> i < ElemId (rga_next s) r"
  unfolding rga_wf_def by (cases i) force

lemma rga_wf_insert_after:
  assumes "rga_wf s" and "rga_next s < u64_max" and "\<And>p. origin = Some p \<Longrightarrow> omhas (rga_elements s) p"
  shows "rga_wf (snd (rga_insert_after origin v r s))"
proof -
  have "p < ElemId (rga_next s) r" if "origin = Some p" for p
    using assms(1) assms(3) [OF that] by (auto simp: omhas_def intro: rga_wf_fresh_greatest)
  with assms show ?thesis
    unfolding rga_wf_def rga_insert_after_def
    by (auto simp: Let_def wrap64_id omhas_def less_SucI split: if_splits)
qed

lemma rga_wf_merge:
  assumes "rga_wf a" and "rga_wf b"
  shows "rga_wf (rga_merge a b)"
proof -
  have has: "omhas (rga_elements (rga_merge a b)) i \<longleftrightarrow> omhas (rga_elements a) i \<or> omhas (rga_elements b) i"
    for i unfolding omhas_def rga_merge_elements by (auto split: option.splits)
  have src: "(omget (rga_elements a) i \<noteq> None \<and> el_origin e = el_origin (the (omget (rga_elements a) i))) \<or>
      (omget (rga_elements b) i \<noteq> None \<and> el_origin e = el_origin (the (omget (rga_elements b) i)))"
    if "omget (rga_elements (rga_merge a b)) i = Some e" for i e
    using that unfolding rga_merge_elements by (auto split: option.splits)
  have nx: "rga_next a \<le> rga_next (rga_merge a b)" "rga_next b \<le> rga_next (rga_merge a b)"
    by (simp_all add: rga_merge_def)
  have one: "id_counter i < rga_next (rga_merge a b) \<and>
      (\<forall>p. el_origin e = Some p \<longrightarrow> p < i \<and> omhas (rga_elements (rga_merge a b)) p)"
    if e: "omget (rga_elements (rga_merge a b)) i = Some e" for i e
    using src [OF e]
  proof
    assume "omget (rga_elements a) i \<noteq> None \<and> el_origin e = el_origin (the (omget (rga_elements a) i))"
    then show ?thesis using assms(1) nx(1) unfolding rga_wf_def has by fastforce
  next
    assume "omget (rga_elements b) i \<noteq> None \<and> el_origin e = el_origin (the (omget (rga_elements b) i))"
    then show ?thesis using assms(2) nx(2) unfolding rga_wf_def has by fastforce
  qed
  then show ?thesis unfolding rga_wf_def by blast
qed

lemma rga_ordered_subset: "set (rga_ordered_ids s) \<subseteq> set (omkeys (rga_elements s))"
proof
  fix i
  assume "i \<in> set (rga_ordered_ids s)"
  then have "rga_org s i \<noteq> None"
    using walk_inv_done [OF rga_ordered_inv(2), of i s] by (elim iffE impE) auto
  then show "i \<in> set (omkeys (rga_elements s))" using rga_org_dom by blast
qed

text \<open>Nothing is lost: in a well-formed sequence the walk reaches every element.\<close>

lemma rga_ordered_complete:
  assumes "rga_wf s"
  shows "set (rga_ordered_ids s) = set (omkeys (rga_elements s))"
proof (rule ccontr)
  let ?M = "set (omkeys (rga_elements s)) - set (rga_ordered_ids s)"
  assume "set (rga_ordered_ids s) \<noteq> set (omkeys (rga_elements s))"
  then have "?M \<noteq> {}" using rga_ordered_subset [of s] by auto
  define i where "i = Min ?M"
  have iM: "i \<in> ?M" using \<open>?M \<noteq> {}\<close> unfolding i_def by (intro Min_in) auto
  then obtain e where e: "omget (rga_elements s) i = Some e" by (auto simp: omkeys_set)
  have mem: "j \<in> set (rga_ordered_ids s) \<longleftrightarrow> rga_org s j = Some None \<or>
      (\<exists>p\<in>set (rga_ordered_ids s). rga_org s j = Some (Some p))" for j
    by (rule walk_inv_done [OF rga_ordered_inv(2)])
  show False
  proof (cases "el_origin e")
    case None
    then show False using mem [of i] iM e by (simp add: rga_org_def)
  next
    case (Some p)
    then have p: "p < i" "p \<in> set (omkeys (rga_elements s))"
      using assms e by (auto simp: rga_wf_def omkeys_set omhas_def)
    have "p \<notin> ?M"
    proof
      assume "p \<in> ?M"
      then have "i \<le> p" unfolding i_def by (intro Min_le) auto
      with p(1) show False by simp
    qed
    then show False using mem [of i] iM e Some p(2) by (auto simp: rga_org_def)
  qed
qed

lemma rga_walk_after_origin:
  assumes "kids_of org ch" and "org i = Some (Some p)"
  shows "walk_inv org V st \<Longrightarrow> rga_walk n ch st = Some ids \<Longrightarrow> i \<in> set ids \<Longrightarrow>
     p \<in> V \<or> (\<exists>xs ys. ids = xs @ p # ys \<and> i \<in> set ys)"
proof (induction n arbitrary: V st ids)
  case 0
  then show ?case by (cases st) auto
next
  case (Suc n)
  show ?case
  proof (cases st)
    case Nil
    with Suc.prems show ?thesis by simp
  next
    case (Cons j st')
    obtain ids' where ids: "ids = j # ids'" "rga_walk n ch (ch (Some j) @ st') = Some ids'"
      using Suc.prems(2) Cons by auto
    show ?thesis
    proof (cases "i = j")
      case True
      then have "i \<in> V \<union> set st" by (simp add: Cons)
      with Suc.prems(1) assms(2) show ?thesis unfolding walk_inv_def by auto
    next
      case False
      with Suc.prems(3) ids have i: "i \<in> set ids'" by simp
      have "p \<in> insert j V \<or> (\<exists>xs ys. ids' = xs @ p # ys \<and> i \<in> set ys)"
        by (rule Suc.IH [OF walk_inv_step [OF assms(1) Suc.prems(1) [unfolded Cons]] ids(2) i])
      then show ?thesis
      proof
        assume "p \<in> insert j V"
        then show ?thesis using ids(1) i by fastforce
      next
        assume "\<exists>xs ys. ids' = xs @ p # ys \<and> i \<in> set ys"
        then obtain xs ys where "ids = (j # xs) @ p # ys" "i \<in> set ys" using ids(1) by auto
        then show ?thesis by blast
      qed
    qed
  qed
qed

text \<open>C2: Reading a well-formed sequence visits every element exactly once, and an
  element always comes after the one it was inserted after.\<close>

theorem sequence_reads_all_in_order:
  assumes "rga_wf s"
  shows "distinct (rga_ordered_ids s) \<and>
     set (rga_ordered_ids s) = {i. omhas (rga_elements s) i} \<and>
     (\<forall>i e p. omget (rga_elements s) i = Some e \<longrightarrow> el_origin e = Some p \<longrightarrow>
        (\<exists>xs ys. rga_ordered_ids s = xs @ p # ys \<and> i \<in> set ys))"
proof (intro conjI allI impI)
  show "distinct (rga_ordered_ids s)" by (rule rga_ordered_inv)
  show all: "set (rga_ordered_ids s) = {i. omhas (rga_elements s) i}"
    using rga_ordered_complete [OF assms] by (simp add: omkeys_set omhas_def)
  show "\<exists>xs ys. rga_ordered_ids s = xs @ p # ys \<and> i \<in> set ys"
    if "omget (rga_elements s) i = Some e" "el_origin e = Some p" for i e p
    using rga_walk_after_origin [OF rga_kids _ rga_start rga_ordered_walk, of s i p] that all
    by (simp add: rga_org_def omhas_def)
qed

lemma sequence_reads_all_in_order_witness:
  "rga_ordered_ids (snd (rga_insert_after (Some (ElemId 0 1)) CHR ''b'' 2
     (snd (rga_insert_after None CHR ''a'' 1 rga_new)))) = [ElemId 0 1, ElemId 1 2] \<and>
   distinct (rga_ordered_ids (snd (rga_insert_after None CHR ''a'' 1 rga_new)))"
proof -
  have "rga_wf (snd (rga_insert_after None CHR ''a'' 1 rga_new))"
    by (rule rga_wf_insert_after [OF rga_wf_new]) (simp_all add: rga_new_def)
  from sequence_reads_all_in_order [OF this] show ?thesis
    by (simp add: rga_defs eval_simps wrap64_def Let_def)
qed

section \<open>Inserting\<close>

lemma rga_walk_untouched:
  "rga_walk n ch st = Some ids \<Longrightarrow> (\<And>i. i \<in> set ids \<Longrightarrow> ch' (Some i) = ch (Some i)) \<Longrightarrow>
     rga_walk n ch' st = Some ids"
  by (induction n ch st arbitrary: ids rule: rga_walk.induct) auto

lemma rga_walk_insert:
  assumes "\<And>q. q \<noteq> Some p \<Longrightarrow> ch' q = ch q" and "ch' (Some p) = new # ch (Some p)"
    and "ch (Some new) = []" and "new \<noteq> p"
  shows "rga_walk n ch st = Some (xs @ p # ys) \<Longrightarrow> p \<notin> set xs \<union> set ys \<Longrightarrow>
     rga_walk (Suc n) ch' st = Some (xs @ p # new # ys)"
proof (induction n arbitrary: st xs)
  case 0
  then show ?case by (cases st) auto
next
  case (Suc n)
  then obtain i st' where st: "st = i # st'" by (cases st) auto
  obtain ids where ids: "xs @ p # ys = i # ids" "rga_walk n ch (ch (Some i) @ st') = Some ids"
    using Suc.prems(1) unfolding st by (auto simp: eq_commute [of "_ # _"])
  show ?case
  proof (cases xs)
    case Nil
    with ids have eq: "i = p" "ids = ys" by auto
    have "rga_walk n ch' (ch (Some p) @ st') = Some ys"
      using ids(2) unfolding eq
      by (rule rga_walk_untouched) (use Suc.prems(2) in \<open>auto intro!: assms(1)\<close>)
    then show ?thesis using assms by (simp add: st Nil eq)
  next
    case (Cons x xs')
    with ids have eq: "x = i" "ids = xs' @ p # ys" by auto
    have "i \<noteq> p" using Suc.prems(2) Cons eq by auto
    then show ?thesis
      using Suc.IH [of "ch (Some i) @ st'" xs'] ids(2) eq Suc.prems(2) assms(1)
      by (simp add: st Cons)
  qed
qed

lemma al_put_greatest: "\<forall>k' \<in> fst ` set xs. k' < k \<Longrightarrow> al_put k v xs = xs @ [(k, v)]"
  by (induction xs) (auto split: prod.splits)

lemma rga_insert_children:
  assumes "rga_wf s"
  shows "rga_children (snd (rga_insert_after origin v r s)) q =
     (if q = origin then ElemId (rga_next s) r # rga_children s q else rga_children s q)"
proof -
  have "\<forall>k' \<in> fst ` set (omlist (rga_elements s)). k' < ElemId (rga_next s) r"
    using rga_wf_fresh_greatest [OF assms] by (auto simp: omget_omlist)
  then show ?thesis
    by (simp add: rga_children_def rga_insert_after_def Let_def al_put_greatest)
qed

lemma rga_fresh:
  assumes "rga_wf s"
  shows "omget (rga_elements s) (ElemId (rga_next s) r) = None"
    and "rga_children s (Some (ElemId (rga_next s) r)) = []"
proof -
  show *: "omget (rga_elements s) (ElemId (rga_next s) r) = None"
    using rga_wf_fresh_greatest [OF assms, of "ElemId (rga_next s) r" _ r] by force
  have "rga_org s i \<noteq> Some (Some (ElemId (rga_next s) r))" for i
    using assms * by (fastforce simp: rga_wf_def rga_org_def omhas_def)
  then have "set (rga_children s (Some (ElemId (rga_next s) r))) = {}"
    using rga_kids [of s] by (auto simp: kids_of_def)
  then show "rga_children s (Some (ElemId (rga_next s) r)) = []" by simp
qed

lemma rga_ordered_eq:
  assumes "rga_walk n (rga_children s) (rga_children s None) = Some ids"
  shows "rga_ordered_ids s = ids"
  using rga_walk_more [OF assms, of "length (omlist (rga_elements s))"]
    rga_walk_more [OF rga_ordered_walk [of s], of n] by (simp add: add.commute)

text \<open>The values a reader sees along a run of ids.\<close>

definition rga_read :: "'v rga \<Rightarrow> elem_id list \<Rightarrow> 'v list" where
  "rga_read s ids =
     map (\<lambda>i. el_value (the (omget (rga_elements s) i))) (filter (\<lambda>i. \<not> rga_tombstoned s i) ids)"

lemma rga_value_read: "rga_value s = rga_read s (rga_ordered_ids s)"
  by (simp add: rga_value_def rga_live_ids_def rga_read_def)

lemma rga_read_append: "rga_read s (xs @ ys) = rga_read s xs @ rga_read s ys"
  by (simp add: rga_read_def)

lemma rga_read_insert:
  assumes "ElemId (rga_next s) r \<notin> set ids"
  shows "rga_read (snd (rga_insert_after origin v r s)) ids = rga_read s ids"
  using assms by (induction ids) (auto simp: rga_read_def rga_insert_after_def Let_def rga_tombstoned_def)

lemma rga_read_new:
  "rga_read (snd (rga_insert_after origin v r s)) (ElemId (rga_next s) r # ids) =
     v # rga_read (snd (rga_insert_after origin v r s)) ids"
  by (simp add: rga_read_def rga_insert_after_def Let_def rga_tombstoned_def)

lemma insert_first:
  assumes "rga_wf s"
  shows "rga_value (snd (rga_insert_after None v r s)) = v # rga_value s"
proof -
  let ?new = "ElemId (rga_next s) r"
  have fresh: "?new \<notin> set (rga_ordered_ids s)"
    using rga_fresh(1) [OF assms, of r] rga_ordered_subset [of s] by (auto simp: omkeys_set)
  note kids = rga_insert_children [OF assms] and nokids = rga_fresh(2) [OF assms, of r]
  let ?n = "length (omlist (rga_elements s))"
  let ?h = "snd (rga_insert_after None v r s)"
  have "rga_walk ?n (rga_children ?h) (rga_children s None) = Some (rga_ordered_ids s)"
    by (rule rga_walk_untouched [OF rga_ordered_walk]) (simp add: kids)
  then have "rga_walk (Suc ?n) (rga_children ?h) (rga_children ?h None) = Some (?new # rga_ordered_ids s)"
    by (simp add: kids nokids)
  then have "rga_ordered_ids ?h = ?new # rga_ordered_ids s" by (rule rga_ordered_eq)
  then show "rga_value ?h = v # rga_value s"
    using fresh by (simp add: rga_value_read rga_read_new rga_read_insert)
qed

lemma insert_behind:
  assumes "rga_wf s" and ids: "rga_ordered_ids s = xs @ p # ys"
  shows "rga_value (snd (rga_insert_after (Some p) v r s)) = rga_read s (xs @ [p]) @ v # rga_read s ys"
proof -
  let ?new = "ElemId (rga_next s) r"
  have fresh: "?new \<notin> set (rga_ordered_ids s)"
    using rga_fresh(1) [OF assms(1), of r] rga_ordered_subset [of s] by (auto simp: omkeys_set)
  note kids = rga_insert_children [OF assms(1)] and nokids = rga_fresh(2) [OF assms(1), of r]
  let ?n = "length (omlist (rga_elements s))"
  let ?s = "snd (rga_insert_after (Some p) v r s)"
  have "p \<notin> set xs \<union> set ys" using rga_ordered_inv(1) [of s] ids by simp
  moreover have "?new \<noteq> p" using fresh ids by auto
  ultimately have "rga_walk (Suc ?n) (rga_children ?s) (rga_children s None) = Some (xs @ p # ?new # ys)"
    using rga_ordered_walk [of s] ids kids nokids by (intro rga_walk_insert) auto
  then have "rga_ordered_ids ?s = (xs @ [p]) @ ?new # ys"
    using rga_ordered_eq [of "Suc ?n" ?s] by (simp add: kids)
  moreover have "?new \<notin> set (xs @ [p])" "?new \<notin> set ys" using fresh ids by auto
  ultimately show "rga_value ?s = rga_read s (xs @ [p]) @ v # rga_read s ys"
    using rga_read_insert [of s r "xs @ [p]" "Some p" v] rga_read_insert [of s r ys "Some p" v]
    by (simp only: rga_value_read rga_read_append [of _ "xs @ [p]"] rga_read_new not_False_eq_True
        simp_thms)
qed

text \<open>Inserting after an element puts the value directly behind that element, and
  inserting at the head puts it first; nothing else a reader sees moves.\<close>

theorem sequence_insert_position:
  assumes "rga_wf s"
  shows "rga_value (snd (rga_insert_after None v r s)) = v # rga_value s \<and>
     (\<forall>p xs ys. rga_ordered_ids s = xs @ p # ys \<longrightarrow>
       rga_value (snd (rga_insert_after (Some p) v r s)) =
         rga_read s (xs @ [p]) @ v # rga_read s ys)"
  using insert_first [OF assms] insert_behind [OF assms] by blast

lemma sequence_insert_position_witness:
  "rga_value (snd (rga_insert_after None CHR ''b'' 2 (snd (rga_insert_after None CHR ''a'' 1 rga_new))))
     = ''ba''"
proof -
  have "rga_wf (snd (rga_insert_after None CHR ''a'' 1 rga_new))"
    by (rule rga_wf_insert_after [OF rga_wf_new]) (simp_all add: rga_new_def)
  from sequence_insert_position [OF this, THEN conjunct1] show ?thesis
    by (simp add: rga_defs eval_simps wrap64_def Let_def)
qed

text \<open>A \<open>push\<close> appends: the new value is read last.\<close>

theorem sequence_push_appends:
  assumes "rga_wf s"
  shows "rga_value (snd (rga_push v r s)) = rga_value s @ [v]"
proof (cases "rga_live_ids s = []")
  case True
  then have "rga_value s = []" by (simp add: rga_value_def)
  then show ?thesis using insert_first [OF assms, of v r] True by (simp add: rga_push_def)
next
  case False
  then obtain zs p where live: "rga_live_ids s = zs @ [p]" by (cases "rga_live_ids s" rule: rev_cases) auto
  then have "p \<in> set (rga_live_ids s)" by simp
  then have p: "p \<in> set (rga_ordered_ids s)" "\<not> rga_tombstoned s p" by (simp_all add: rga_live_ids_def)
  then obtain xs ys where ids: "rga_ordered_ids s = xs @ p # ys" by (meson split_list)
  have eq: "filter (\<lambda>i. \<not> rga_tombstoned s i) xs @ p # filter (\<lambda>i. \<not> rga_tombstoned s i) ys = zs @ [p]"
    using live p(2) by (simp add: rga_live_ids_def ids)
  have "p \<notin> set ys" using rga_ordered_inv(1) [of s] ids by simp
  then have "filter (\<lambda>i. \<not> rga_tombstoned s i) ys = []"
    using eq by (cases "filter (\<lambda>i. \<not> rga_tombstoned s i) ys" rule: rev_cases)
      (auto dest!: arg_cong [of _ _ set])
  then have "rga_read s ys = []" by (simp add: rga_read_def)
  moreover have "rga_value s = rga_read s (xs @ [p]) @ rga_read s ys"
    by (simp add: rga_value_read ids flip: rga_read_append)
  moreover have "rga_push v r s = rga_insert_after (Some p) v r s"
    using live by (cases zs) (simp_all add: rga_push_def)
  ultimately show ?thesis using insert_behind [OF assms ids] by simp
qed

lemma sequence_push_appends_witness:
  "rga_value (snd (rga_push CHR ''b'' 2 (snd (rga_insert_after None CHR ''a'' 1 rga_new)))) = ''ab''"
proof -
  have "rga_wf (snd (rga_insert_after None CHR ''a'' 1 rga_new))"
    by (rule rga_wf_insert_after [OF rga_wf_new]) (simp_all add: rga_new_def)
  from sequence_push_appends [OF this] show ?thesis
    by (simp add: rga_defs eval_simps wrap64_def Let_def)
qed

section \<open>Removing and replaying\<close>

lemma al_put_same_key: "al_ok xs \<Longrightarrow> map_of xs k = Some w \<Longrightarrow>
    filter p (al_put k v xs) = (if p (k, v) = p (k, w)
      then map (\<lambda>(k', w'). if k' = k then (k, v) else (k', w')) (filter p xs)
      else filter p (al_put k v xs))"
proof (induction k v xs rule: al_put.induct)
  case (1 k v)
  then show ?case by simp
next
  case (2 k v k' v' xs)
  have "\<forall>x\<in>set xs. k' < fst x" using 2(2) by auto
  moreover have "k < k' \<Longrightarrow> map_of xs k = None"
    using 2(2) by (fastforce simp: map_of_eq_None_iff)
  ultimately show ?case using 2 by (fastforce split: if_splits intro!: map_idI [symmetric])
qed

lemma rga_remove_children: "rga_children (rga_remove i s) q = rga_children s q"
proof (cases "omget (rga_elements s) i")
  case None
  then show ?thesis by (simp add: rga_remove_def)
next
  case (Some e)
  have "map fst (filter (\<lambda>(i, e). el_origin e = q) (al_put i (e\<lparr>el_tombstone := True\<rparr>) (omlist (rga_elements s))))
      = map fst (filter (\<lambda>(i, e). el_origin e = q) (omlist (rga_elements s)))"
    using Some by (subst al_put_same_key [where w = e])
      (auto simp: omget_map_of comp_def case_prod_beta intro!: map_cong)
  with Some show ?thesis by (simp add: rga_remove_def rga_children_def)
qed

text \<open>A \<open>remove\<close> hides exactly the removed element: the others are read in the order
  they had, and a removed element stays a valid anchor.\<close>

theorem sequence_remove_reads:
  "rga_value (rga_remove i s) =
     map (\<lambda>j. el_value (the (omget (rga_elements s) j))) (filter (\<lambda>j. j \<noteq> i) (rga_live_ids s))"
proof -
  let ?n = "length (omlist (rga_elements s))"
  have "rga_walk ?n (rga_children (rga_remove i s)) (rga_children (rga_remove i s) None) =
      Some (rga_ordered_ids s)"
    using rga_ordered_walk [of s] by (simp add: rga_remove_children [abs_def])
  then have ids: "rga_ordered_ids (rga_remove i s) = rga_ordered_ids s" by (rule rga_ordered_eq)
  have tomb: "rga_tombstoned (rga_remove i s) j \<longleftrightarrow> rga_tombstoned s j \<or> j = i"
    if "j \<in> set (rga_ordered_ids s)" for j
    using that rga_ordered_subset [of s]
    by (auto simp: rga_tombstoned_def rga_remove_def omkeys_set split: option.splits if_splits)
  have val: "el_value (the (omget (rga_elements (rga_remove i s)) j)) = el_value (the (omget (rga_elements s) j))"
    for j by (simp add: rga_remove_def split: option.splits)
  have "filter (\<lambda>j. \<not> rga_tombstoned (rga_remove i s) j) (rga_ordered_ids s) =
      filter (\<lambda>j. j \<noteq> i) (filter (\<lambda>j. \<not> rga_tombstoned s j) (rga_ordered_ids s))"
    by (auto simp: tomb intro!: filter_cong)
  then show ?thesis by (simp add: rga_value_def rga_live_ids_def ids val)
qed

text \<open>Replaying one insertion twice in a row changes nothing, but replaying it after the
  element was removed brings the element back: the tombstone is overwritten.\<close>

lemma sequence_replay_twice:
  "rga_insert_with_id i origin v (rga_insert_with_id i origin v s) = rga_insert_with_id i origin v s"
  by (simp add: rga_insert_with_id_def omap_eqI)

lemma sequence_replay_resurrects:
  "rga_value (rga_remove (ElemId 3 1) (rga_insert_with_id (ElemId 3 1) None CHR ''x'' rga_new)) = []"
  "rga_value (rga_insert_with_id (ElemId 3 1) None CHR ''x''
     (rga_remove (ElemId 3 1) (rga_insert_with_id (ElemId 3 1) None CHR ''x'' rga_new))) = ''x''"
  by (simp_all add: rga_defs eval_simps wrap64_def Let_def)

end
