(* ===== verification/Core_Log.thy ===== *)
theory Core_Log
  imports Core_Schema Core_Hash Crdt_Sequence
begin

text \<open>
  Log entries (\<open>theta-core/src/log.rs\<close>) and branches (\<open>theta-core/src/branch.rs\<close>).
  A commit id, a branch id and a replica id are the \<open>u64\<close> they wrap.

  The canonical JSON of an operation or an author and the BLAKE3 function come from
  libraries: they are the fields of the record \<open>codec\<close>, an argument of everything
  that hashes.
\<close>

section \<open>Model\<close>

record agent_provenance =
  ap_agent :: string
  ap_prompt_hash :: hash
  ap_task_id :: "string option"

datatype author =
    Human string
  | Agent string string "agent_provenance option"
  | System

definition is_agent :: "author \<Rightarrow> bool" where
  "is_agent a = (case a of Agent _ _ _ \<Rightarrow> True | _ \<Rightarrow> False)"

definition agent_of :: "string \<Rightarrow> string \<Rightarrow> author" where
  "agent_of session user = Agent session user None"

definition author_session_id :: "author \<Rightarrow> string option" where
  "author_session_id a = (case a of Agent s _ _ \<Rightarrow> Some s | _ \<Rightarrow> None)"

definition author_provenance :: "author \<Rightarrow> agent_provenance option" where
  "author_provenance a = (case a of Agent _ _ p \<Rightarrow> p | _ \<Rightarrow> None)"

definition author_task_id :: "author \<Rightarrow> string option" where
  "author_task_id a = (case author_provenance a of None \<Rightarrow> None | Some p \<Rightarrow> ap_task_id p)"

datatype crdt_op =
    Increment int
  | SetRegister val
  | SetAdd val
  | SetRemove val
  | SeqInsert elem_id "elem_id option" val
  | SeqRemove elem_id

datatype op_type =
    Put string val
  | Crdt string crdt_op
  | Delete string
  | Transaction "op_type list"
  | SchemaOp schema_change
  | BranchCreate string hash
  | Merge nat hash

fun op_tag :: "op_type \<Rightarrow> string" where
  "op_tag (Put _ _) = ''put''"
| "op_tag (Crdt _ _) = ''crdt''"
| "op_tag (Delete _) = ''delete''"
| "op_tag (Transaction _) = ''transaction''"
| "op_tag (SchemaOp _) = ''schema''"
| "op_tag (BranchCreate _ _) = ''branch_create''"
| "op_tag (Merge _ _) = ''merge''"

record log_entry =
  le_prev :: hash
  le_commit :: nat
  le_branch :: nat
  le_op :: op_type
  le_author :: author
  le_ts :: int

record codec =
  json_op :: "op_type \<Rightarrow> byte list"
  json_author :: "author \<Rightarrow> byte list"
  blake3 :: "byte list \<Rightarrow> hash"

definition entry_fields :: "codec \<Rightarrow> log_entry \<Rightarrow> byte list list" where
  "entry_fields D e =
     [le_prev e, le64 (le_commit e), le64 (le_branch e), json_op D (le_op e),
      json_author D (le_author e), le64_i (le_ts e)]"

definition entry_hash :: "codec \<Rightarrow> log_entry \<Rightarrow> hash" where
  "entry_hash D e = of_fields (blake3 D) (entry_fields D e)"

definition content_fields :: "codec \<Rightarrow> log_entry \<Rightarrow> byte list list" where
  "content_fields D e =
     [le64 (le_commit e), le64 (le_branch e), json_op D (le_op e),
      json_author D (le_author e), le64_i (le_ts e)]"

definition content_hash :: "codec \<Rightarrow> log_entry \<Rightarrow> hash" where
  "content_hash D e = of_fields (blake3 D) (content_fields D e)"

definition is_genesis :: "log_entry \<Rightarrow> bool" where
  "is_genesis e = hash_is_zero (le_prev e)"

datatype branch_kind = Protected | Standard | Shadow

record branch =
  br_id :: nat
  br_name :: string
  br_kind :: branch_kind
  br_head :: hash
  br_fork_point :: "hash option"
  br_next_commit :: nat

definition main_branch :: nat where
  "main_branch = 0"

definition is_protected :: "branch \<Rightarrow> bool" where
  "is_protected b \<longleftrightarrow> br_kind b = Protected"

section \<open>What a hash commits to\<close>

text \<open>The numbers of an entry are in range, and its encodings fit a length prefix.\<close>

definition entry_ok :: "codec \<Rightarrow> log_entry \<Rightarrow> bool" where
  "entry_ok D e \<longleftrightarrow> le_commit e \<le> u64_max \<and> le_branch e \<le> u64_max \<and>
     i64_min \<le> le_ts e \<and> le_ts e \<le> i64_max \<and>
     length (le_prev e) \<le> u64_max \<and> length (json_op D (le_op e)) \<le> u64_max \<and>
     length (json_author D (le_author e)) \<le> u64_max"

lemma le64_i_length [simp]: "length (le64_i i) = 8"
  by (simp add: le64_i_def)

text \<open>Re-chaining an entry leaves its content hash alone.\<close>

lemma content_hash_rechained: "content_hash D (e\<lparr>le_prev := p\<rparr>) = content_hash D e"
  by (simp add: content_hash_def content_fields_def)

lemma entry_hash_commits:
  assumes "entry_hash D e = entry_hash D f" and "entry_ok D e" and "entry_ok D f"
    and "framed (entry_fields D e) = framed (entry_fields D f)"
  shows "le_prev e = le_prev f \<and> le_commit e = le_commit f \<and> le_branch e = le_branch f \<and>
     json_op D (le_op e) = json_op D (le_op f) \<and>
     json_author D (le_author e) = json_author D (le_author f) \<and> le_ts e = le_ts f"
proof -
  have "entry_fields D e = entry_fields D f"
    using assms of_fields_collision [of "blake3 D" "entry_fields D e" "entry_fields D f"]
    by (auto simp: entry_hash_def entry_fields_def entry_ok_def)
  with assms(2,3) show ?thesis
    by (auto simp: entry_fields_def entry_ok_def intro: le64_inj le64_i_inj)
qed

lemma content_hash_commits:
  assumes "content_hash D e = content_hash D f" and "entry_ok D e" and "entry_ok D f"
    and "framed (content_fields D e) = framed (content_fields D f)"
  shows "le_commit e = le_commit f \<and> le_branch e = le_branch f \<and>
     json_op D (le_op e) = json_op D (le_op f) \<and>
     json_author D (le_author e) = json_author D (le_author f) \<and> le_ts e = le_ts f"
proof -
  have "content_fields D e = content_fields D f"
    using assms of_fields_collision [of "blake3 D" "content_fields D e" "content_fields D f"]
    by (auto simp: content_hash_def content_fields_def entry_ok_def)
  with assms(2,3) show ?thesis
    by (auto simp: content_fields_def entry_ok_def intro: le64_inj le64_i_inj)
qed

text \<open>Where the encoder tells the operations and the authors of two entries apart, equal
  fields are equal entries, up to the link.\<close>

lemma same_statement:
  fixes e f :: log_entry
  assumes "inj_on (json_op D) {le_op e, le_op f}" and "inj_on (json_author D) {le_author e, le_author f}"
    and "json_op D (le_op e) = json_op D (le_op f)" and "json_author D (le_author e) = json_author D (le_author f)"
    and "le_commit e = le_commit f" and "le_branch e = le_branch f" and "le_ts e = le_ts f"
  shows "e = f\<lparr>le_prev := le_prev e\<rparr>"
proof -
  have "le_op e = le_op f" by (rule inj_onD [OF assms(1,3)]) simp_all
  moreover have "le_author e = le_author f" by (rule inj_onD [OF assms(2,4)]) simp_all
  ultimately show ?thesis using assms(5-7) by (intro log_entry.equality) simp_all
qed

text \<open>C6: Two entries with one hash agree on every field, the operation and the author up
  to their canonical encoding (and so are one entry where the encoder tells their operations
  and authors apart), or the hash function has a collision on their framings.  Two entries
  with one content hash agree in the same way on every field but the chain position, and the
  content hash is the same wherever the entry is chained.\<close>

theorem entry_hash_binds_fields:
  assumes "entry_ok D e" and "entry_ok D f"
  shows "(entry_hash D e = entry_hash D f \<longrightarrow>
      (le_prev e = le_prev f \<and> le_commit e = le_commit f \<and> le_branch e = le_branch f \<and>
        json_op D (le_op e) = json_op D (le_op f) \<and>
        json_author D (le_author e) = json_author D (le_author f) \<and> le_ts e = le_ts f \<and>
        (inj_on (json_op D) {le_op e, le_op f} \<longrightarrow>
         inj_on (json_author D) {le_author e, le_author f} \<longrightarrow> e = f)) \<or>
      (framed (entry_fields D e) \<noteq> framed (entry_fields D f) \<and>
        blake3 D (framed (entry_fields D e)) = blake3 D (framed (entry_fields D f)))) \<and>
    (content_hash D e = content_hash D f \<longrightarrow>
      (le_commit e = le_commit f \<and> le_branch e = le_branch f \<and>
        json_op D (le_op e) = json_op D (le_op f) \<and>
        json_author D (le_author e) = json_author D (le_author f) \<and> le_ts e = le_ts f \<and>
        (inj_on (json_op D) {le_op e, le_op f} \<longrightarrow>
         inj_on (json_author D) {le_author e, le_author f} \<longrightarrow> e = f\<lparr>le_prev := le_prev e\<rparr>)) \<or>
      (framed (content_fields D e) \<noteq> framed (content_fields D f) \<and>
        blake3 D (framed (content_fields D e)) = blake3 D (framed (content_fields D f)))) \<and>
    content_hash D (e\<lparr>le_prev := p\<rparr>) = content_hash D e"
proof (intro conjI impI)
  assume eq: "entry_hash D e = entry_hash D f"
  show "(le_prev e = le_prev f \<and> le_commit e = le_commit f \<and> le_branch e = le_branch f \<and>
        json_op D (le_op e) = json_op D (le_op f) \<and>
        json_author D (le_author e) = json_author D (le_author f) \<and> le_ts e = le_ts f \<and>
        (inj_on (json_op D) {le_op e, le_op f} \<longrightarrow>
         inj_on (json_author D) {le_author e, le_author f} \<longrightarrow> e = f)) \<or>
      (framed (entry_fields D e) \<noteq> framed (entry_fields D f) \<and>
        blake3 D (framed (entry_fields D e)) = blake3 D (framed (entry_fields D f)))"
  proof (cases "framed (entry_fields D e) = framed (entry_fields D f)")
    case True
    note agree = entry_hash_commits [OF eq assms True]
    then have "e = f" if "inj_on (json_op D) {le_op e, le_op f}" "inj_on (json_author D) {le_author e, le_author f}"
      using same_statement [OF that] by simp
    then show ?thesis using agree by blast
  next
    case False
    then show ?thesis using eq by (simp add: entry_hash_def of_fields_def)
  qed
next
  assume eq: "content_hash D e = content_hash D f"
  show "(le_commit e = le_commit f \<and> le_branch e = le_branch f \<and>
        json_op D (le_op e) = json_op D (le_op f) \<and>
        json_author D (le_author e) = json_author D (le_author f) \<and> le_ts e = le_ts f \<and>
        (inj_on (json_op D) {le_op e, le_op f} \<longrightarrow>
         inj_on (json_author D) {le_author e, le_author f} \<longrightarrow> e = f\<lparr>le_prev := le_prev e\<rparr>)) \<or>
      (framed (content_fields D e) \<noteq> framed (content_fields D f) \<and>
        blake3 D (framed (content_fields D e)) = blake3 D (framed (content_fields D f)))"
  proof (cases "framed (content_fields D e) = framed (content_fields D f)")
    case True
    note agree = content_hash_commits [OF eq assms True]
    then have "e = f\<lparr>le_prev := le_prev e\<rparr>"
      if "inj_on (json_op D) {le_op e, le_op f}" "inj_on (json_author D) {le_author e, le_author f}"
      using same_statement [OF that] by simp
    then show ?thesis using agree by blast
  next
    case False
    then show ?thesis using eq by (simp add: content_hash_def of_fields_def)
  qed
qed (rule content_hash_rechained)

lemma entry_hash_binds_fields_witness:
  "entry_hash \<lparr>json_op = \<lambda>_. [], json_author = \<lambda>_. [], blake3 = \<lambda>x. x\<rparr>
     \<lparr>le_prev = [], le_commit = 5, le_branch = 1, le_op = Delete ''k'', le_author = System, le_ts = -1\<rparr> \<noteq>
   entry_hash \<lparr>json_op = \<lambda>_. [], json_author = \<lambda>_. [], blake3 = \<lambda>x. x\<rparr>
     \<lparr>le_prev = [], le_commit = 6, le_branch = 1, le_op = Delete ''k'', le_author = System, le_ts = -1\<rparr> \<and>
   content_hash \<lparr>json_op = \<lambda>_. [], json_author = \<lambda>_. [], blake3 = \<lambda>x. x\<rparr>
     \<lparr>le_prev = [], le_commit = 5, le_branch = 1, le_op = Delete ''k'', le_author = System, le_ts = -1\<rparr> \<noteq>
   content_hash \<lparr>json_op = \<lambda>_. [], json_author = \<lambda>_. [], blake3 = \<lambda>x. x\<rparr>
     \<lparr>le_prev = [], le_commit = 6, le_branch = 1, le_op = Delete ''k'', le_author = System, le_ts = -1\<rparr>"
proof -
  let ?D = "\<lparr>json_op = \<lambda>_. [], json_author = \<lambda>_. [], blake3 = \<lambda>x. x\<rparr> :: codec"
  let ?e = "\<lambda>c. \<lparr>le_prev = [], le_commit = c, le_branch = 1, le_op = Delete ''k'',
      le_author = System, le_ts = -1\<rparr>"
  have "entry_ok ?D (?e c)" if "c < 10" for c using that by (simp add: entry_ok_def)
  then show ?thesis using entry_hash_binds_fields [of ?D "?e 5" "?e 6"] by simp
qed

end
