(* ===== verification/Crdt_Counter.thy ===== *)
theory Crdt_Counter
  imports Crdt_Laws
begin

text \<open>
  The PN-counter (\<open>theta-core/src/crdt/counter.rs\<close>): one grow-only map of increments
  and one of decrements per replica, merged by the per-replica maximum.  A replica is
  the \<open>u64\<close> inside \<open>ReplicaId\<close>; slots are \<open>u64\<close> and wrap around as in the
  release build.
\<close>

section \<open>Model\<close>

record pn_counter =
  positive :: "(nat, nat) omap"
  negative :: "(nat, nat) omap"

definition pn_new :: pn_counter where
  "pn_new = \<lparr>positive = omempty, negative = omempty\<rparr>"

definition bump :: "nat \<Rightarrow> nat \<Rightarrow> (nat, nat) omap \<Rightarrow> (nat, nat) omap" where
  "bump r by m = omput r (wrap64 (omget_or 0 m r + by)) m"

definition pn_increment :: "nat \<Rightarrow> nat \<Rightarrow> pn_counter \<Rightarrow> pn_counter" where
  "pn_increment r by c = c\<lparr>positive := bump r by (positive c)\<rparr>"

definition pn_decrement :: "nat \<Rightarrow> nat \<Rightarrow> pn_counter \<Rightarrow> pn_counter" where
  "pn_decrement r by c = c\<lparr>negative := bump r by (negative c)\<rparr>"

definition slots_merge :: "(nat, nat) omap \<Rightarrow> (nat, nat) omap \<Rightarrow> (nat, nat) omap" where
  "slots_merge = ommerge (\<lambda>slot count. max (case slot of None \<Rightarrow> 0 | Some n \<Rightarrow> n) count)"

definition pn_merge :: "pn_counter \<Rightarrow> pn_counter \<Rightarrow> pn_counter" where
  "pn_merge a b = \<lparr>positive = slots_merge (positive a) (positive b),
                   negative = slots_merge (negative a) (negative b)\<rparr>"

text \<open>\<open>values().sum()\<close> wraps at \<open>u64\<close>; \<open>as i64\<close> reinterprets the bits.\<close>

definition pn_value :: "pn_counter \<Rightarrow> int" where
  "pn_value c =
     (let pos = wrap64 (sum_list (omvalues (positive c)));
          neg = wrap64 (sum_list (omvalues (negative c)))
      in wrap_i64 (wrap_i64 (int pos) - wrap_i64 (int neg)))"

text \<open>One logged \<open>Increment\<close>, as \<open>apply_op\<close> routes it by the sign of \<open>by\<close>.\<close>

definition pn_apply :: "nat \<Rightarrow> int \<Rightarrow> pn_counter \<Rightarrow> pn_counter" where
  "pn_apply r by c = (if 0 \<le> by then pn_increment r (nat by) c else pn_decrement r (nat (- by)) c)"

lemmas pn_defs [crdt_defs] =
  pn_new_def bump_def pn_increment_def pn_decrement_def slots_merge_def pn_merge_def
  pn_value_def pn_apply_def

section \<open>The merge laws\<close>

lemma slots_merge_get [simp]:
  "omget (slots_merge a b) r =
     (case omget b r of None \<Rightarrow> omget a r | Some n \<Rightarrow> Some (max (omget_or 0 a r) n))"
  by (simp add: slots_merge_def omget_or_def split: option.splits)

lemma slots_merge_comm: "slots_merge a b = slots_merge b a"
  by (rule omap_eqI) (auto simp: omget_or_def max.commute split: option.splits)

lemma slots_merge_assoc: "slots_merge (slots_merge a b) c = slots_merge a (slots_merge b c)"
  by (rule omap_eqI) (auto simp: omget_or_def max.assoc split: option.splits)

lemma slots_merge_idem: "slots_merge a a = a"
  by (rule omap_eqI) (auto simp: omget_or_def split: option.splits)

interpretation pn: crdt pn_merge "\<lambda>_. True"
proof unfold_locales
  show "pn_merge a b = pn_merge b a" for a b
    by (simp add: pn_merge_def slots_merge_comm [of "positive a"] slots_merge_comm [of "negative a"])
qed (simp_all add: pn_merge_def slots_merge_idem slots_merge_assoc)

text \<open>Merging the same counters in any order, with any repetition, gives one counter.\<close>

theorem counter_convergence:
  assumes "insert s (set xs) = insert t (set ys)"
  shows "foldl pn_merge s xs = foldl pn_merge t ys"
  using assms by (intro pn.convergence) (simp_all add: list_all_iff)

lemma counter_convergence_witness:
  "foldl pn_merge (pn_increment 1 5 pn_new) [pn_decrement 2 3 pn_new, pn_increment 1 5 pn_new] =
   foldl pn_merge (pn_decrement 2 3 pn_new) [pn_increment 1 5 pn_new]"
  by (rule counter_convergence) auto

section \<open>The value\<close>

lemma pn_value_alt:
  "pn_value c = wrap_i64 (int (sum_list (omvalues (positive c))) - int (sum_list (omvalues (negative c))))"
  by (simp add: pn_value_def Let_def wrap_i64_diff)

lemma sum_al_put:
  fixes v :: nat
  assumes "al_ok xs"
  shows "sum_list (map snd (al_put k v xs)) + (case map_of xs k of None \<Rightarrow> 0 | Some w \<Rightarrow> w) =
     sum_list (map snd xs) + v"
  using assms
proof (induction k v xs rule: al_put.induct)
  case (1 k v)
  then show ?case by simp
next
  case (2 k v k' v' xs)
  have "map_of xs k = None" if "k < k'"
    using 2(2) that by (fastforce simp: map_of_eq_None_iff)
  with 2 show ?case by (auto split: if_splits)
qed

lemma sum_omput:
  "sum_list (omvalues (omput k v m)) + omget_or 0 m k = sum_list (omvalues m) + (v::nat)"
  using sum_al_put [OF omlist_ok, of k v m] by (simp add: omvalues_def omget_or_def omget_map_of)

lemma bump_sum: "eq64 (int (sum_list (omvalues (bump r by m)))) (int (sum_list (omvalues m)) + int by)"
proof -
  let ?w = "wrap64 (omget_or 0 m r + by)"
  have "int (sum_list (omvalues (bump r by m))) =
      int (sum_list (omvalues m)) + (int ?w - int (omget_or 0 m r))"
    using sum_omput [of r ?w m] by (simp add: bump_def)
  moreover have "eq64 (int ?w - int (omget_or 0 m r)) (int (omget_or 0 m r + by) - int (omget_or 0 m r))"
    by (intro eq64_diff wrap64_eq64 eq64_refl)
  ultimately show ?thesis by (simp add: eq64_add)
qed

lemma pn_apply_value: "pn_value (pn_apply r by c) = wrap_i64 (pn_value c + by)"
proof -
  let ?P = "int (sum_list (omvalues (positive c)))" and ?N = "int (sum_list (omvalues (negative c)))"
  let ?P' = "int (sum_list (omvalues (positive (pn_apply r by c))))"
    and ?N' = "int (sum_list (omvalues (negative (pn_apply r by c))))"
  have "eq64 (?P' - ?N') (?P - ?N + by)"
  proof (cases "0 \<le> by")
    case True
    then show ?thesis
      using eq64_diff [OF bump_sum [of r "nat by" "positive c"] eq64_refl [of ?N]]
      by (simp add: pn_apply_def pn_increment_def algebra_simps)
  next
    case False
    then show ?thesis
      using eq64_diff [OF eq64_refl [of ?P] bump_sum [of r "nat (- by)" "negative c"]]
      by (simp add: pn_apply_def pn_decrement_def algebra_simps)
  qed
  then have "wrap_i64 (?P' - ?N') = wrap_i64 (?P - ?N + by)" by (rule wrap_i64_cong)
  then show ?thesis by (simp add: pn_value_alt)
qed

lemma pn_new_value [simp]: "pn_value pn_new = 0"
  by (simp add: pn_value_def pn_new_def omvalues_def wrap64_def wrap_i64_def)

text \<open>A counter replayed from the log reads as the sum of its increments, in
  two's complement: exactly the sum while the sum is an \<open>i64\<close>.\<close>

theorem counter_replay_value:
  "pn_value (fold (\<lambda>(r, by). pn_apply r by) ops pn_new) = wrap_i64 (\<Sum>(r, by)\<leftarrow>ops. by)"
proof -
  have "pn_value (fold (\<lambda>(r, by). pn_apply r by) ops c) = wrap_i64 (pn_value c + (\<Sum>(r, by)\<leftarrow>ops. by))"
    if "pn_value c = wrap_i64 (pn_value c)" for c
    using that
  proof (induction ops arbitrary: c)
    case Nil
    then show ?case by simp
  next
    case (Cons op ops)
    obtain r b where op: "op = (r, b)" by (cases op)
    show ?case using Cons.IH [of "pn_apply r b c"]
      by (simp add: op pn_apply_value add.assoc)
  qed
  from this [of pn_new] show ?thesis by (simp add: wrap_i64_def)
qed

section \<open>Merging two branches of one counter\<close>

lemma fold_apply_other:
  "k \<noteq> r \<Longrightarrow> omget (positive (fold (pn_apply r) bys c)) k = omget (positive c) k \<and>
     omget (negative (fold (pn_apply r) bys c)) k = omget (negative c) k"
  by (induction bys arbitrary: c)
     (simp_all add: pn_apply_def pn_increment_def pn_decrement_def bump_def)

lemma fold_apply_own:
  assumes "omget (positive c) r = omget (positive d) r" and "omget (negative c) r = omget (negative d) r"
  shows "omget (positive (fold (pn_apply r) bys c)) r = omget (positive (fold (pn_apply r) bys d)) r \<and>
     omget (negative (fold (pn_apply r) bys c)) r = omget (negative (fold (pn_apply r) bys d)) r"
  using assms
proof (induction bys arbitrary: c d)
  case Nil
  then show ?case by simp
next
  case (Cons b bys)
  have "omget (positive (pn_apply r b c)) r = omget (positive (pn_apply r b d)) r"
    "omget (negative (pn_apply r b c)) r = omget (negative (pn_apply r b d)) r"
    using Cons.prems
    by (simp_all add: pn_apply_def pn_increment_def pn_decrement_def bump_def omget_or_def)
  from Cons.IH [OF this] show ?case by simp
qed

text \<open>A slot never shrinks while the total of absolute increments fits a \<open>u64\<close>.\<close>

lemma fold_apply_grows:
  assumes "omget_or 0 (positive c) r + (\<Sum>b\<leftarrow>bys. nat \<bar>b\<bar>) \<le> u64_max"
    and "omget_or 0 (negative c) r + (\<Sum>b\<leftarrow>bys. nat \<bar>b\<bar>) \<le> u64_max"
  shows "(\<forall>n. omget (positive c) r = Some n \<longrightarrow>
        (\<exists>m\<ge>n. omget (positive (fold (pn_apply r) bys c)) r = Some m)) \<and>
     (\<forall>n. omget (negative c) r = Some n \<longrightarrow>
        (\<exists>m\<ge>n. omget (negative (fold (pn_apply r) bys c)) r = Some m))"
  using assms
proof (induction bys arbitrary: c)
  case Nil
  then show ?case by auto
next
  case (Cons b bys)
  let ?c = "pn_apply r b c"
  have pos: "omget_or 0 (positive ?c) r \<le> omget_or 0 (positive c) r + nat \<bar>b\<bar>"
    and neg: "omget_or 0 (negative ?c) r \<le> omget_or 0 (negative c) r + nat \<bar>b\<bar>"
    by (simp_all add: pn_apply_def pn_increment_def pn_decrement_def bump_def wrap64_def)
  have IH: "(\<forall>n. omget (positive ?c) r = Some n \<longrightarrow>
        (\<exists>m\<ge>n. omget (positive (fold (pn_apply r) bys ?c)) r = Some m)) \<and>
     (\<forall>n. omget (negative ?c) r = Some n \<longrightarrow>
        (\<exists>m\<ge>n. omget (negative (fold (pn_apply r) bys ?c)) r = Some m))"
    using pos neg Cons.prems by (intro Cons.IH) simp_all
  have stepP: "\<exists>m\<ge>n. omget (positive ?c) r = Some m" if "omget (positive c) r = Some n" for n
    using Cons.prems that
    by (auto simp: pn_apply_def pn_increment_def pn_decrement_def bump_def omget_or_def wrap64_id)
  have stepN: "\<exists>m\<ge>n. omget (negative ?c) r = Some m" if "omget (negative c) r = Some n" for n
    using Cons.prems that
    by (auto simp: pn_apply_def pn_increment_def pn_decrement_def bump_def omget_or_def wrap64_id)
  show ?case using IH stepP stepN by (fastforce intro: order_trans)
qed

text \<open>Two branches that count on from one base merge to the state that replays both
  branches' increments, so no increment is lost or doubled.\<close>

theorem counter_merge_of_branches:
  assumes "a \<noteq> b"
    and "\<And>m r bys. m \<in> {positive base, negative base} \<Longrightarrow> (r, bys) \<in> {(a, as), (b, bs)} \<Longrightarrow>
           omget_or 0 m r + (\<Sum>x\<leftarrow>bys. nat \<bar>x\<bar>) \<le> u64_max"
  shows "pn_merge (fold (pn_apply a) as base) (fold (pn_apply b) bs base) =
     fold (pn_apply b) bs (fold (pn_apply a) as base)"
proof -
  let ?A = "fold (pn_apply a) as base" and ?B = "fold (pn_apply b) bs base"
  let ?AB = "fold (pn_apply b) bs ?A"
  note otherA = fold_apply_other [of _ a as base] and otherB = fold_apply_other [of _ b bs base]
    and otherAB = fold_apply_other [of _ b bs ?A]
  have own: "omget (positive ?AB) b = omget (positive ?B) b"
    "omget (negative ?AB) b = omget (negative ?B) b"
    using fold_apply_own [of ?A b base bs] otherA [of b] assms(1) by simp_all
  have growA: "(\<forall>n. omget (positive base) a = Some n \<longrightarrow> (\<exists>m\<ge>n. omget (positive ?A) a = Some m)) \<and>
      (\<forall>n. omget (negative base) a = Some n \<longrightarrow> (\<exists>m\<ge>n. omget (negative ?A) a = Some m))"
    using assms(2) by (intro fold_apply_grows) auto
  have growB: "(\<forall>n. omget (positive base) b = Some n \<longrightarrow> (\<exists>m\<ge>n. omget (positive ?B) b = Some m)) \<and>
      (\<forall>n. omget (negative base) b = Some n \<longrightarrow> (\<exists>m\<ge>n. omget (negative ?B) b = Some m))"
    using assms(2) by (intro fold_apply_grows) auto
  have slot: "omget (slots_merge mA mB) k = omget mAB k"
    if "\<And>k. k \<noteq> a \<Longrightarrow> omget mA k = omget m k" "\<And>k. k \<noteq> b \<Longrightarrow> omget mB k = omget m k"
      "\<And>k. k \<noteq> b \<Longrightarrow> omget mAB k = omget mA k" "omget mAB b = omget mB b"
      "\<forall>n. omget m a = Some n \<longrightarrow> (\<exists>p\<ge>n. omget mA a = Some p)"
      "\<forall>n. omget m b = Some n \<longrightarrow> (\<exists>p\<ge>n. omget mB b = Some p)" for m mA mB mAB k
    using that(1) [of k] that(2) [of k] that(3) [of k] that(4-6) assms(1)
    by (cases "k = a"; cases "k = b") (fastforce simp: omget_or_def split: option.splits)+
  have "positive (pn_merge ?A ?B) = positive ?AB" "negative (pn_merge ?A ?B) = negative ?AB"
    unfolding pn_merge_def pn_counter.simps
    by (rule omap_eqI, rule slot; use otherA otherB otherAB own growA growB in blast)+
  then show ?thesis by (intro pn_counter.equality) simp_all
qed

lemma counter_merge_of_branches_witness:
  "pn_merge (fold (pn_apply 1) [5, -2] pn_new) (fold (pn_apply 2) [7] pn_new) =
     fold (pn_apply 2) [7] (fold (pn_apply 1) [5, -2] pn_new)"
  by (rule counter_merge_of_branches) (auto simp: pn_new_def omget_or_def)

end
