(* ===== verification/Crdt_Register.thy ===== *)
theory Crdt_Register
  imports Crdt_Laws
begin

text \<open>
  The last-writer-wins register (\<open>theta-core/src/crdt/register.rs\<close>): an optional pair
  of a write stamp and a value; a write lands only when its stamp is strictly above the
  stored one.  Stamps carry the derived lexicographic order.
\<close>

section \<open>Write stamps\<close>

datatype write_stamp = WriteStamp (stamp_ms: int) (stamp_replica: nat) (stamp_commit: nat)

definition stamp_key :: "write_stamp \<Rightarrow> int \<times> nat \<times> nat" where
  "stamp_key s = (stamp_ms s, stamp_replica s, stamp_commit s)"

lemma stamp_key_inj: "stamp_key s = stamp_key t \<longleftrightarrow> s = t"
  by (cases s; cases t) (simp add: stamp_key_def)

instantiation write_stamp :: linorder
begin

definition less_eq_write_stamp :: "write_stamp \<Rightarrow> write_stamp \<Rightarrow> bool" where
  "s \<le> t \<longleftrightarrow> stamp_key s \<le> stamp_key t"

definition less_write_stamp :: "write_stamp \<Rightarrow> write_stamp \<Rightarrow> bool" where
  "s < t \<longleftrightarrow> stamp_key s < stamp_key t"

instance
  by standard (auto simp: less_eq_write_stamp_def less_write_stamp_def stamp_key_inj less_le_not_le)

end

lemma write_stamp_le [simp]:
  "WriteStamp a r c \<le> WriteStamp a' r' c' \<longleftrightarrow> a < a' \<or> a = a' \<and> (r < r' \<or> r = r' \<and> c \<le> c')"
  by (simp add: less_eq_write_stamp_def stamp_key_def) auto

section \<open>Model\<close>

record 'v lww_register =
  reg_entry :: "(write_stamp \<times> 'v) option"

definition reg_new :: "'v lww_register" where
  "reg_new = \<lparr>reg_entry = None\<rparr>"

definition reg_set :: "'v \<Rightarrow> write_stamp \<Rightarrow> 'v lww_register \<Rightarrow> 'v lww_register" where
  "reg_set v st r =
     (case reg_entry r of
        Some (existing, _) \<Rightarrow> if st \<le> existing then r else r\<lparr>reg_entry := Some (st, v)\<rparr>
      | None \<Rightarrow> r\<lparr>reg_entry := Some (st, v)\<rparr>)"

definition reg_stamp :: "'v lww_register \<Rightarrow> write_stamp option" where
  "reg_stamp r = map_option fst (reg_entry r)"

definition reg_merge :: "'v lww_register \<Rightarrow> 'v lww_register \<Rightarrow> 'v lww_register" where
  "reg_merge a b = (case reg_entry b of None \<Rightarrow> a | Some (st, v) \<Rightarrow> reg_set v st a)"

definition reg_value :: "'v lww_register \<Rightarrow> 'v option" where
  "reg_value r = map_option snd (reg_entry r)"

lemmas reg_defs [crdt_defs] =
  reg_new_def reg_set_def reg_stamp_def reg_merge_def reg_value_def

section \<open>The merge laws\<close>

text \<open>The documented invariant: one stamp, one value.  \<open>w\<close> is the value each stamp
  was issued with.\<close>

definition reg_ok :: "(write_stamp \<Rightarrow> 'v) \<Rightarrow> 'v lww_register \<Rightarrow> bool" where
  "reg_ok w r \<longleftrightarrow> (case reg_entry r of None \<Rightarrow> True | Some (st, v) \<Rightarrow> v = w st)"

lemma reg_ok_merge: "reg_ok w a \<Longrightarrow> reg_ok w b \<Longrightarrow> reg_ok w (reg_merge a b)"
  by (auto simp: reg_ok_def reg_merge_def reg_set_def split: option.splits)

lemma reg_merge_comm: "reg_ok w a \<Longrightarrow> reg_ok w b \<Longrightarrow> reg_merge a b = reg_merge b a"
  by (cases a; cases b) (auto simp: reg_ok_def reg_merge_def reg_set_def split: option.splits)

lemma reg_merge_assoc: "reg_merge (reg_merge a b) c = reg_merge a (reg_merge b c)"
  by (cases a; cases b; cases c) (auto simp: reg_merge_def reg_set_def split: option.splits)

lemma reg_merge_idem: "reg_merge a a = a"
  by (auto simp: reg_merge_def reg_set_def split: option.splits)

interpretation reg: crdt reg_merge "reg_ok w" for w
  by unfold_locales
    (auto simp: reg_ok_merge reg_merge_assoc reg_merge_idem intro: reg_merge_comm)

text \<open>Registers whose stamps each stand for one value converge under any order
  of merges.\<close>

theorem register_convergence:
  assumes "\<forall>r \<in> insert s (set xs). \<forall>st v. reg_entry r = Some (st, v) \<longrightarrow> v = w st"
    and "insert s (set xs) = insert t (set ys)"
  shows "foldl reg_merge s xs = foldl reg_merge t ys"
proof (rule reg.convergence [where w = w])
  have ok: "reg_ok w r" if "r \<in> insert s (set xs)" for r
    using assms(1) that by (auto simp: reg_ok_def split: option.splits)
  then show "reg_ok w s" "list_all (reg_ok w) xs" by (auto simp: list_all_iff)
  show "reg_ok w t" "list_all (reg_ok w) ys" using ok assms(2) by (auto simp: list_all_iff)
qed (rule assms(2))

lemma register_convergence_witness:
  "foldl reg_merge (reg_set True (WriteStamp 5 1 0) reg_new) [reg_set False (WriteStamp 5 0 9) reg_new] =
   foldl reg_merge (reg_set False (WriteStamp 5 0 9) reg_new) [reg_set True (WriteStamp 5 1 0) reg_new]"
  by (rule register_convergence [where w = "\<lambda>st. st = WriteStamp 5 1 0"]) (auto simp: reg_defs)

section \<open>The winner\<close>

lemma reg_fold_entry:
  "reg_entry (fold (\<lambda>(v, st). reg_set v st) ws r) =
     (case reg_entry r of
        None \<Rightarrow> reg_entry (fold (\<lambda>(v, st). reg_set v st) ws reg_new)
      | Some (st0, v0) \<Rightarrow> reg_entry (fold (\<lambda>(v, st). reg_set v st) ((v0, st0) # ws) reg_new))"
  by (cases r) (auto simp: reg_new_def reg_set_def split: option.splits)

lemma reg_fold_max:
  "(case reg_entry r of None \<Rightarrow> True | Some (st0, v0) \<Rightarrow> True) \<Longrightarrow>
   reg_entry (fold (\<lambda>(v, st). reg_set v st) ws r) = Some (st, v) \<Longrightarrow>
     (reg_entry r = Some (st, v) \<or> (v, st) \<in> set ws) \<and>
     (\<forall>(v', st') \<in> set ws. st' \<le> st) \<and> (\<forall>st' v'. reg_entry r = Some (st', v') \<longrightarrow> st' \<le> st)"
proof (induction ws arbitrary: r)
  case Nil
  then show ?case by auto
next
  case (Cons w ws)
  obtain v1 s1 where w: "w = (v1, s1)" by (cases w)
  have "(reg_entry (reg_set v1 s1 r) = Some (st, v) \<or> (v, st) \<in> set ws) \<and>
     (\<forall>(v', st') \<in> set ws. st' \<le> st) \<and>
     (\<forall>st' v'. reg_entry (reg_set v1 s1 r) = Some (st', v') \<longrightarrow> st' \<le> st)"
    using Cons.prems by (intro Cons.IH) (auto simp: w split: option.splits)
  then show ?case
    by (auto simp: w reg_set_def split: option.splits if_splits intro: order_trans)
qed

text \<open>After any sequence of writes the register holds one of them, and no write
  carries a higher stamp; a register that was written is never empty.\<close>

theorem register_last_writer_wins:
  assumes "ws \<noteq> []"
  shows "\<exists>v st. reg_entry (fold (\<lambda>(v, st). reg_set v st) ws reg_new) = Some (st, v) \<and>
     (v, st) \<in> set ws \<and> (\<forall>(v', st') \<in> set ws. st' \<le> st)"
proof -
  have some: "reg_entry r \<noteq> None \<Longrightarrow> reg_entry (fold (\<lambda>(v, st). reg_set v st) ws r) \<noteq> None"
    for r :: "'a lww_register" and ws
    by (induction ws arbitrary: r) (auto simp: reg_set_def split: option.splits)
  obtain w ws' where ws: "ws = w # ws'" using assms by (cases ws) auto
  have "reg_entry (fold (\<lambda>(v, st). reg_set v st) ws reg_new) \<noteq> None"
    unfolding ws by (cases w) (simp add: some reg_set_def reg_new_def)
  then obtain st v where e: "reg_entry (fold (\<lambda>(v, st). reg_set v st) ws reg_new) = Some (st, v)"
    by auto
  show ?thesis using reg_fold_max [OF _ e] e by (auto simp: reg_new_def)
qed

lemma register_last_writer_wins_witness:
  "\<exists>v st. reg_entry (fold (\<lambda>(v, st). reg_set v st) [(True, WriteStamp 3 0 0)] reg_new) = Some (st, v) \<and>
     (v, st) \<in> set [(True, WriteStamp 3 0 0)] \<and> (\<forall>(v', st') \<in> set [(True, WriteStamp 3 0 0)]. st' \<le> st)"
  by (rule register_last_writer_wins) simp

end
