(* ===== verification/Crdt_Orset.thy ===== *)
theory Crdt_Orset
  imports Crdt_Laws
begin

text \<open>
  The observed-remove set (\<open>theta-core/src/crdt/orset.rs\<close>).  \<open>OrSet<T: Ord>\<close> keys its
  map by the order of \<open>T\<close>; the only instance in the code orders a value by its
  encoding, so the model keeps each element under a key and takes the key function as an
  argument.  A set of tags is a finite set.
\<close>

section \<open>Model\<close>

datatype tag = Tag (tag_replica: nat) (tag_counter: nat)

record (overloaded) ('k, 'e) orset =
  os_adds :: "('k, 'e \<times> tag fset) omap"
  os_removed :: "tag fset"
  os_next :: nat

definition os_new :: "('k::linorder, 'e) orset" where
  "os_new = \<lparr>os_adds = omempty, os_removed = {||}, os_next = 0\<rparr>"

definition os_add :: "('e \<Rightarrow> 'k::linorder) \<Rightarrow> 'e \<Rightarrow> nat \<Rightarrow> ('k, 'e) orset \<Rightarrow> ('k, 'e) orset" where
  "os_add key e r s =
     (let t = Tag r (os_next s) in
      s\<lparr>os_next := wrap64 (os_next s + 1),
        os_adds := (case omget (os_adds s) (key e) of
            None \<Rightarrow> omput (key e) (e, {|t|}) (os_adds s)
          | Some (e', ts) \<Rightarrow> omput (key e) (e', finsert t ts) (os_adds s))\<rparr>)"

definition os_remove :: "('e \<Rightarrow> 'k::linorder) \<Rightarrow> 'e \<Rightarrow> ('k, 'e) orset \<Rightarrow> ('k, 'e) orset" where
  "os_remove key e s =
     (case omget (os_adds s) (key e) of
        None \<Rightarrow> s
      | Some (_, ts) \<Rightarrow> s\<lparr>os_removed := os_removed s |\<union>| ts\<rparr>)"

definition os_live :: "tag fset \<Rightarrow> tag fset \<Rightarrow> bool" where
  "os_live removed ts \<longleftrightarrow> fBex ts (\<lambda>t. t |\<notin>| removed)"

definition os_contains :: "('e \<Rightarrow> 'k::linorder) \<Rightarrow> ('k, 'e) orset \<Rightarrow> 'e \<Rightarrow> bool" where
  "os_contains key s e =
     (case omget (os_adds s) (key e) of None \<Rightarrow> False | Some (_, ts) \<Rightarrow> os_live (os_removed s) ts)"

definition os_merge :: "('k::linorder, 'e) orset \<Rightarrow> ('k, 'e) orset \<Rightarrow> ('k, 'e) orset" where
  "os_merge a b =
     \<lparr>os_adds = ommerge (\<lambda>slot (e, ts). case slot of None \<Rightarrow> (e, ts) | Some (e', ts') \<Rightarrow> (e', ts' |\<union>| ts))
        (os_adds a) (os_adds b),
      os_removed = os_removed a |\<union>| os_removed b,
      os_next = max (os_next a) (os_next b)\<rparr>"

definition os_value :: "('k::linorder, 'e) orset \<Rightarrow> 'e list" where
  "os_value s = map fst (filter (\<lambda>(e, ts). os_live (os_removed s) ts) (omvalues (os_adds s)))"

lemmas os_defs [crdt_defs] =
  os_new_def os_add_def os_remove_def os_live_def os_contains_def os_merge_def os_value_def

section \<open>The merge laws\<close>

text \<open>Each key stands for one element: the order on elements separates them.\<close>

definition os_ok :: "('k::linorder \<Rightarrow> 'e) \<Rightarrow> ('k, 'e) orset \<Rightarrow> bool" where
  "os_ok w s \<longleftrightarrow> (\<forall>k e ts. omget (os_adds s) k = Some (e, ts) \<longrightarrow> e = w k)"

lemma os_merge_adds:
  "omget (os_adds (os_merge a b)) k =
     (case omget (os_adds b) k of None \<Rightarrow> omget (os_adds a) k
      | Some (e, ts) \<Rightarrow> (case omget (os_adds a) k of None \<Rightarrow> Some (e, ts)
          | Some (e', ts') \<Rightarrow> Some (e', ts' |\<union>| ts)))"
  by (simp add: os_merge_def split: option.splits prod.splits)

lemma os_ok_merge: "os_ok w a \<Longrightarrow> os_ok w b \<Longrightarrow> os_ok w (os_merge a b)"
  unfolding os_ok_def os_merge_adds by (fastforce split: option.splits)

lemma os_eqI:
  "(\<And>k. omget (os_adds a) k = omget (os_adds b) k) \<Longrightarrow> os_removed a = os_removed b \<Longrightarrow>
     os_next a = os_next b \<Longrightarrow> a = (b :: ('k::linorder, 'e) orset)"
  by (rule orset.equality) (auto intro: omap_eqI)

lemma os_merge_comm:
  assumes "os_ok w a" and "os_ok w b"
  shows "os_merge a b = os_merge b a"
proof (rule os_eqI)
  show "omget (os_adds (os_merge a b)) k = omget (os_adds (os_merge b a)) k" for k
  proof (cases "omget (os_adds a) k")
    case None
    then show ?thesis by (simp add: os_merge_adds split: option.splits)
  next
    case (Some p)
    show ?thesis
    proof (cases "omget (os_adds b) k")
      case None
      then show ?thesis by (simp add: os_merge_adds split: option.splits)
    next
      case q: (Some q)
      obtain e ts e' ts' where pq: "p = (e, ts)" "q = (e', ts')" by (cases p; cases q)
      have "e = e'" using assms Some q unfolding os_ok_def pq by metis
      then show ?thesis using Some q by (simp add: os_merge_adds pq funion_commute)
    qed
  qed
qed (simp_all add: os_merge_def funion_commute max.commute)

lemma os_merge_assoc: "os_merge (os_merge a b) c = os_merge a (os_merge b c)"
proof (rule os_eqI)
  show "omget (os_adds (os_merge (os_merge a b) c)) k = omget (os_adds (os_merge a (os_merge b c))) k" for k
    unfolding os_merge_adds by (auto simp: funion_assoc split: option.splits)
qed (simp_all add: os_merge_def funion_assoc max.assoc)

lemma os_merge_idem: "os_merge a a = a"
proof (rule os_eqI)
  show "omget (os_adds (os_merge a a)) k = omget (os_adds a) k" for k
    unfolding os_merge_adds by (auto split: option.splits)
qed (simp_all add: os_merge_def)

interpretation os: crdt os_merge "os_ok w" for w :: "'k::linorder \<Rightarrow> 'e"
  by unfold_locales
    (auto simp: os_ok_merge os_merge_assoc os_merge_idem intro: os_merge_comm)

text \<open>Sets in which a key stands for one element converge under any order of merges.\<close>

theorem orset_convergence:
  assumes "\<forall>s \<in> insert a (set xs). \<forall>k e ts. omget (os_adds s) k = Some (e, ts) \<longrightarrow> e = w k"
    and "insert a (set xs) = insert b (set ys)"
  shows "foldl os_merge a xs = foldl os_merge b ys"
proof (rule os.convergence [where w = w])
  have ok: "os_ok w s" if "s \<in> insert a (set xs)" for s
    using assms(1) that by (auto simp: os_ok_def)
  then show "os_ok w a" "list_all (os_ok w) xs" by (auto simp: list_all_iff)
  show "os_ok w b" "list_all (os_ok w) ys" using ok assms(2) by (auto simp: list_all_iff)
qed (rule assms(2))

lemma orset_convergence_witness:
  "foldl os_merge (os_add id (7::nat) 1 os_new) [os_remove id 7 (os_add id 7 2 os_new)] =
   foldl os_merge (os_remove id 7 (os_add id 7 2 os_new)) [os_add id 7 1 os_new]"
  by (rule orset_convergence [where w = id]) (auto simp: os_defs split: if_splits)

section \<open>Add and remove\<close>

text \<open>Every tag in use was allocated before the next one.\<close>

definition os_wf :: "('k::linorder, 'e) orset \<Rightarrow> bool" where
  "os_wf s \<longleftrightarrow> (\<forall>t. t |\<in>| os_removed s \<longrightarrow> tag_counter t < os_next s) \<and>
     (\<forall>k e ts t. omget (os_adds s) k = Some (e, ts) \<longrightarrow> t |\<in>| ts \<longrightarrow> tag_counter t < os_next s)"

lemma os_wf_new: "os_wf os_new"
  by (simp add: os_wf_def os_new_def)

lemma os_wf_add: "os_wf s \<Longrightarrow> os_next s < u64_max \<Longrightarrow> os_wf (os_add key e r s)"
  unfolding os_wf_def os_add_def Let_def
  by (auto simp: wrap64_id less_Suc_eq split: option.splits if_splits)

lemma os_wf_remove: "os_wf s \<Longrightarrow> os_wf (os_remove key e s)"
  unfolding os_wf_def os_remove_def by (fastforce split: option.splits)

lemma os_wf_merge: "os_wf a \<Longrightarrow> os_wf b \<Longrightarrow> os_wf (os_merge a b)"
proof -
  assume wf: "os_wf a" "os_wf b"
  have "tag_counter t < max (os_next a) (os_next b)"
    if "omget (os_adds (os_merge a b)) k = Some (e, ts)" "t |\<in>| ts" for k e ts t
    using that wf unfolding os_merge_adds os_wf_def
    by (fastforce simp: less_max_iff_disj split: option.splits)
  with wf show ?thesis
    by (auto simp: os_wf_def os_merge_def less_max_iff_disj)
qed

lemma os_contains_value:
  "os_contains key s e \<longleftrightarrow> (\<exists>e' ts. omget (os_adds s) (key e) = Some (e', ts) \<and> os_live (os_removed s) ts)"
  by (simp add: os_contains_def split: option.splits)

text \<open>A remove hides exactly the additions its replica has seen.  The set contains an
  element right after adding it and not right after removing it; and when another
  replica adds the element concurrently (its tag is not among the ones this replica
  holds), the element survives the merge.\<close>

theorem orset_observed_remove:
  assumes "os_wf s" and "os_wf s'"
    and "\<And>c. Tag r c |\<in>| os_removed s \<Longrightarrow> c < os_next s'"
    and "\<And>k e' ts c. omget (os_adds s) k = Some (e', ts) \<Longrightarrow> Tag r c |\<in>| ts \<Longrightarrow> c < os_next s'"
  shows "os_contains key (os_add key e r s) e \<and>
     \<not> os_contains key (os_remove key e s) e \<and>
     os_contains key (os_merge (os_remove key e s) (os_add key e r s')) e \<and>
     os_contains key (os_merge (os_add key e r s') (os_remove key e s)) e"
proof -
  let ?t = "Tag r (os_next s')"
  have live: "os_live R ts" if "t |\<in>| ts" "t |\<notin>| R" for t R ts
    using that by (auto simp: os_live_def)
  have "os_contains key (os_add key e r s) e"
    using assms(1) unfolding os_contains_value os_add_def Let_def os_wf_def
    by (fastforce intro!: live [of "Tag r (os_next s)"] split: option.splits)
  moreover have "\<not> os_contains key (os_remove key e s) e"
    by (auto simp: os_contains_value os_remove_def os_live_def split: option.splits)
  moreover have fresh: "?t |\<notin>| os_removed (os_merge (os_remove key e s) (os_add key e r s'))"
      "?t |\<notin>| os_removed (os_merge (os_add key e r s') (os_remove key e s))"
    using assms(2-4) by (fastforce simp: os_merge_def os_remove_def os_add_def Let_def os_wf_def
        split: option.splits)+
  moreover have mine: "\<exists>e' ts. omget (os_adds (os_add key e r s')) (key e) = Some (e', ts) \<and> ?t |\<in>| ts"
    by (auto simp: os_add_def Let_def split: option.splits)
  then have "\<exists>e' ts. omget (os_adds (os_merge (os_remove key e s) (os_add key e r s'))) (key e)
        = Some (e', ts) \<and> ?t |\<in>| ts"
      "\<exists>e' ts. omget (os_adds (os_merge (os_add key e r s') (os_remove key e s))) (key e)
        = Some (e', ts) \<and> ?t |\<in>| ts"
    unfolding os_merge_adds by (fastforce split: option.splits)+
  with fresh have "os_contains key (os_merge (os_remove key e s) (os_add key e r s')) e"
      "os_contains key (os_merge (os_add key e r s') (os_remove key e s)) e"
    unfolding os_contains_value by (blast intro: live)+
  ultimately show ?thesis by blast
qed

lemma orset_observed_remove_witness:
  "os_contains id (os_merge (os_remove id 7 (os_add id (7::nat) 1 os_new)) (os_add id 7 2 os_new)) 7"
proof -
  have wf: "os_wf (os_add id (7::nat) 1 os_new)"
    by (rule os_wf_add [OF os_wf_new]) (simp add: os_new_def)
  show ?thesis
    by (rule orset_observed_remove [OF wf os_wf_new, THEN conjunct2, THEN conjunct2, THEN conjunct1])
      (auto simp: os_defs split: if_splits)
qed

text \<open>The reader's list holds exactly the contained elements, each once.\<close>

lemma os_value_contains:
  assumes "os_ok w s" and "\<And>k. key (w k) = k"
  shows "e \<in> set (os_value s) \<longleftrightarrow> os_contains key s e \<and> e = w (key e)"
  using assms by (auto simp: os_value_def os_contains_value os_ok_def omvalues_def omget_omlist image_iff)
     (metis (no_types, lifting) fst_conv snd_conv)+

end
