(* ===== verification/Crdt_State.thy ===== *)
theory Crdt_State
  imports Core_Log Crdt_Counter Crdt_Register Crdt_Orset
begin

text \<open>
  The replicated state of a field and the fold of logged operations over it
  (\<open>theta-core/src/crdt/state.rs\<close>).  A set element is ordered by its canonical JSON,
  which comes from a library: the function \<open>enc\<close> is an argument.  The functions that
  answer \<open>false\<close> and leave their state alone return \<open>None\<close>.
\<close>

section \<open>Model\<close>

datatype crdt_state =
    SCounter pn_counter
  | SRegister "val lww_register"
  | SSet "(byte list, val) orset"
  | SSequence "val rga"

fun crdt_empty :: "crdt_kind \<Rightarrow> crdt_state" where
  "crdt_empty KCounter = SCounter pn_new"
| "crdt_empty KRegister = SRegister reg_new"
| "crdt_empty KSet = SSet os_new"
| "crdt_empty KSequence = SSequence rga_new"

fun state_kind :: "crdt_state \<Rightarrow> crdt_kind" where
  "state_kind (SCounter _) = KCounter"
| "state_kind (SRegister _) = KRegister"
| "state_kind (SSet _) = KSet"
| "state_kind (SSequence _) = KSequence"

fun state_merge :: "crdt_state \<Rightarrow> crdt_state \<Rightarrow> crdt_state option" where
  "state_merge (SCounter a) (SCounter b) = Some (SCounter (pn_merge a b))"
| "state_merge (SRegister a) (SRegister b) = Some (SRegister (reg_merge a b))"
| "state_merge (SSet a) (SSet b) = Some (SSet (os_merge a b))"
| "state_merge (SSequence a) (SSequence b) = Some (SSequence (rga_merge a b))"
| "state_merge _ _ = None"

fun state_value :: "crdt_state \<Rightarrow> val" where
  "state_value (SCounter c) = VInt (pn_value c)"
| "state_value (SRegister r) = (case reg_value r of None \<Rightarrow> VNull | Some v \<Rightarrow> v)"
| "state_value (SSet s) = VList (os_value s)"
| "state_value (SSequence s) = VList (rga_value s)"

record op_context =
  oc_replica :: nat
  oc_commit :: nat
  oc_ts :: int

definition ctx_stamp :: "op_context \<Rightarrow> write_stamp" where
  "ctx_stamp ctx = WriteStamp (oc_ts ctx) (oc_replica ctx) (oc_commit ctx)"

fun apply_op :: "(val \<Rightarrow> byte list) \<Rightarrow> crdt_state \<Rightarrow> crdt_op \<Rightarrow> op_context \<Rightarrow> crdt_state option" where
  "apply_op enc (SCounter c) (Increment by) ctx =
     Some (SCounter (if 0 \<le> by then pn_increment (oc_replica ctx) (nat by) c
                     else pn_decrement (oc_replica ctx) (nat (- by)) c))"
| "apply_op enc (SRegister r) (SetRegister v) ctx = Some (SRegister (reg_set v (ctx_stamp ctx) r))"
| "apply_op enc (SSet s) (SetAdd e) ctx = Some (SSet (os_add enc e (oc_replica ctx) s))"
| "apply_op enc (SSet s) (SetRemove e) ctx = Some (SSet (os_remove enc e s))"
| "apply_op enc (SSequence q) (SeqInsert i after v) ctx = Some (SSequence (rga_insert_with_id i after v q))"
| "apply_op enc (SSequence q) (SeqRemove i) ctx = Some (SSequence (rga_remove i q))"
| "apply_op _ _ _ _ = None"

text \<open>The kind an operation is for.\<close>

fun op_kind :: "crdt_op \<Rightarrow> crdt_kind" where
  "op_kind (Increment _) = KCounter"
| "op_kind (SetRegister _) = KRegister"
| "op_kind (SetAdd _) = KSet"
| "op_kind (SetRemove _) = KSet"
| "op_kind (SeqInsert _ _ _) = KSequence"
| "op_kind (SeqRemove _) = KSequence"

section \<open>Kinds\<close>

lemma state_kind_empty [simp]: "state_kind (crdt_empty k) = k"
  by (cases k) auto

lemma apply_op_defined: "apply_op enc st op ctx \<noteq> None \<longleftrightarrow> op_kind op = state_kind st"
  by (cases st; cases op) auto

lemma apply_op_kind: "apply_op enc st op ctx = Some st' \<Longrightarrow> state_kind st' = state_kind st"
  by (cases st; cases op) auto

lemma state_merge_defined: "state_merge a b \<noteq> None \<longleftrightarrow> state_kind a = state_kind b"
  by (cases a; cases b) auto

lemma state_merge_kind: "state_merge a b = Some c \<Longrightarrow> state_kind c = state_kind a"
  by (cases a; cases b) auto

text \<open>An operation or a merge is refused exactly when its kind is not the state's,
  and an accepted one keeps the kind.\<close>

theorem crdt_kind_discipline:
  "(apply_op enc st op ctx = None \<longleftrightarrow> op_kind op \<noteq> state_kind st) \<and>
   (state_merge st st' = None \<longleftrightarrow> state_kind st \<noteq> state_kind st') \<and>
   (\<forall>st2 \<in> set_option (apply_op enc st op ctx) \<union> set_option (state_merge st st').
      state_kind st2 = state_kind st)"
  using apply_op_defined [of enc st op ctx] state_merge_defined [of st st']
  by (auto intro: apply_op_kind state_merge_kind)

lemma crdt_kind_discipline_witness:
  "apply_op (\<lambda>_. []) (SRegister reg_new) (Increment 1)
     \<lparr>oc_replica = 1, oc_commit = 1, oc_ts = 0\<rparr> = None"
  using crdt_kind_discipline [of "\<lambda>_. []" "SRegister reg_new" "Increment 1"] by simp

section \<open>Convergence of a field\<close>

text \<open>What the three kinds that need it assume: a stamp stands for one value, an encoding
  for one value, an element id for one insertion.\<close>

record meaning =
  m_stamp :: "write_stamp \<Rightarrow> val"
  m_enc :: "byte list \<Rightarrow> val"
  m_elem :: "elem_id \<Rightarrow> elem_id option \<times> val"

fun state_ok :: "meaning \<Rightarrow> crdt_state \<Rightarrow> bool" where
  "state_ok w (SCounter _) = True"
| "state_ok w (SRegister r) = reg_ok (m_stamp w) r"
| "state_ok w (SSet s) = os_ok (m_enc w) s"
| "state_ok w (SSequence q) = rga_ok (m_elem w) q"

interpretation st: crdt "\<lambda>a b. the (state_merge a b)" "\<lambda>st. state_kind st = k \<and> state_ok w st"
  for k w
proof unfold_locales
  fix a b c
  assume a: "state_kind a = k \<and> state_ok w a" and b: "state_kind b = k \<and> state_ok w b"
  show "state_kind (the (state_merge a b)) = k \<and> state_ok w (the (state_merge a b))"
    using a b by (cases a; cases b) (auto simp: reg_ok_merge os_ok_merge rga_ok_merge)
  show "the (state_merge a b) = the (state_merge b a)"
    using a b by (cases a; cases b)
      (auto intro: pn.merge_comm reg_merge_comm os_merge_comm rga_merge_comm)
  assume c: "state_kind c = k \<and> state_ok w c"
  show "the (state_merge (the (state_merge a b)) c) = the (state_merge a (the (state_merge b c)))"
    using a b c by (cases a; cases b; cases c)
      (auto simp: pn.merge_assoc reg_merge_assoc os_merge_assoc rga_merge_assoc)
next
  fix a
  assume "state_kind a = k \<and> state_ok w a"
  then show "the (state_merge a a) = a"
    by (cases a) (auto simp: pn.merge_idem reg_merge_idem os_merge_idem rga_merge_idem)
qed

text \<open>Operations keep the assumption when they write what the meaning says.\<close>

fun op_ok :: "(val \<Rightarrow> byte list) \<Rightarrow> meaning \<Rightarrow> op_context \<Rightarrow> crdt_op \<Rightarrow> bool" where
  "op_ok enc w ctx (SetRegister v) = (m_stamp w (ctx_stamp ctx) = v)"
| "op_ok enc w ctx (SetAdd e) = (m_enc w (enc e) = e)"
| "op_ok enc w ctx (SeqInsert i after v) = (m_elem w i = (after, v))"
| "op_ok enc w ctx _ = True"

lemma apply_op_ok:
  assumes "state_ok w st" and "op_ok enc w ctx op" and "apply_op enc st op ctx = Some st'"
  shows "state_ok w st'"
proof (cases "(st, op)")
  case (Pair s o')
  show ?thesis
  proof (cases st)
    case (SCounter c)
    with assms(3) show ?thesis by (cases op) auto
  next
    case (SRegister r)
    with assms show ?thesis
      by (cases op) (auto simp: reg_ok_def reg_set_def split: option.splits)
  next
    case (SSet s)
    with assms show ?thesis
      by (cases op) (fastforce simp: os_ok_def os_add_def os_remove_def Let_def
          split: option.splits if_splits)+
  next
    case (SSequence q)
    with assms show ?thesis
      by (cases op) (fastforce simp: rga_ok_def rga_insert_with_id_def rga_remove_def
          split: option.splits if_splits)+
  qed
qed

text \<open>A branch's history of one field: operations with their contexts, folded.\<close>

fun replay :: "(val \<Rightarrow> byte list) \<Rightarrow> (crdt_op \<times> op_context) list \<Rightarrow> crdt_state \<Rightarrow> crdt_state option" where
  "replay enc [] st = Some st"
| "replay enc ((op, ctx) # ops) st =
     (case apply_op enc st op ctx of None \<Rightarrow> None | Some st' \<Rightarrow> replay enc ops st')"

lemma replay_kind: "replay enc ops st = Some st' \<Longrightarrow> state_kind st' = state_kind st"
  by (induction enc ops st rule: replay.induct) (auto simp: apply_op_kind split: option.splits)

lemma replay_state_ok:
  "replay enc ops st = Some st' \<Longrightarrow> state_ok w st \<Longrightarrow> \<forall>(op, ctx) \<in> set ops. op_ok enc w ctx op \<Longrightarrow>
     state_ok w st'"
  by (induction enc ops st rule: replay.induct) (auto intro: apply_op_ok split: option.splits)

fun merge_into :: "crdt_state \<Rightarrow> crdt_state list \<Rightarrow> crdt_state option" where
  "merge_into s [] = Some s"
| "merge_into s (x # xs) = (case state_merge s x of None \<Rightarrow> None | Some s' \<Rightarrow> merge_into s' xs)"

lemma merge_into_foldl:
  "\<forall>x \<in> insert s (set xs). state_kind x = k \<Longrightarrow>
     merge_into s xs = Some (foldl (\<lambda>a b. the (state_merge a b)) s xs)"
proof (induction xs arbitrary: s)
  case Nil
  then show ?case by simp
next
  case (Cons x xs)
  then obtain s' where "state_merge s x = Some s'" using state_merge_defined [of s x] by auto
  with Cons show ?case by (auto simp: state_merge_kind)
qed

text \<open>C1: Replicas of one field, each a replay of its own branch's operations on a common
  base, converge: when stamps, encodings and element ids stand for one value each, no
  merge is refused and every order of merging the replicas ends in the same state, hence
  the same value.\<close>

theorem field_convergence:
  assumes "\<forall>x \<in> insert s (set xs). \<exists>ops. replay enc ops base = Some x \<and>
      (\<forall>(op, ctx) \<in> set ops. op_ok enc w ctx op)"
    and "state_ok w base"
    and "insert s (set xs) = insert t (set ys)"
  shows "\<exists>r. merge_into s xs = Some r \<and> merge_into t ys = Some r"
proof -
  have ok: "state_kind x = state_kind base \<and> state_ok w x" if "x \<in> insert s (set xs)" for x
    using assms(1,2) that by (metis replay_kind replay_state_ok)
  then have okt: "state_kind x = state_kind base \<and> state_ok w x" if "x \<in> insert t (set ys)" for x
    using assms(3) that by blast
  have "foldl (\<lambda>a b. the (state_merge a b)) s xs = foldl (\<lambda>a b. the (state_merge a b)) t ys"
    using ok okt by (intro st.convergence [where k = "state_kind base" and w = w] assms(3))
      (auto simp: list_all_iff)
  then show ?thesis
    using merge_into_foldl [of s xs "state_kind base"] merge_into_foldl [of t ys "state_kind base"]
      ok okt by auto
qed

lemma field_convergence_witness:
  "\<exists>r. merge_into (SRegister (reg_set (VInt 1) (WriteStamp 5 1 0) reg_new))
         [SRegister (reg_set (VInt 2) (WriteStamp 6 2 0) reg_new)] = Some r \<and>
       merge_into (SRegister (reg_set (VInt 2) (WriteStamp 6 2 0) reg_new))
         [SRegister (reg_set (VInt 1) (WriteStamp 5 1 0) reg_new)] = Some r"
proof (rule field_convergence [where base = "SRegister reg_new" and enc = "\<lambda>_. []"
      and w = "\<lparr>m_stamp = \<lambda>st. if st = WriteStamp 5 1 0 then VInt 1 else VInt 2,
                m_enc = \<lambda>_. VNull, m_elem = \<lambda>_. (None, VNull)\<rparr>"])
  let ?w = "\<lparr>m_stamp = \<lambda>st. if st = WriteStamp 5 1 0 then VInt 1 else VInt 2,
                m_enc = \<lambda>_. VNull, m_elem = \<lambda>_. (None, VNull)\<rparr> :: meaning"
  have "\<exists>ops. replay (\<lambda>_. []) ops (SRegister reg_new) =
      Some (SRegister (reg_set (VInt 1) (WriteStamp 5 1 0) reg_new)) \<and>
      (\<forall>(op, ctx) \<in> set ops. op_ok (\<lambda>_. []) ?w ctx op)"
    by (rule exI [of _ "[(SetRegister (VInt 1), \<lparr>oc_replica = 1, oc_commit = 0, oc_ts = 5\<rparr>)]"])
      (simp add: ctx_stamp_def)
  moreover have "\<exists>ops. replay (\<lambda>_. []) ops (SRegister reg_new) =
      Some (SRegister (reg_set (VInt 2) (WriteStamp 6 2 0) reg_new)) \<and>
      (\<forall>(op, ctx) \<in> set ops. op_ok (\<lambda>_. []) ?w ctx op)"
    by (rule exI [of _ "[(SetRegister (VInt 2), \<lparr>oc_replica = 2, oc_commit = 0, oc_ts = 6\<rparr>)]"])
      (simp add: ctx_stamp_def)
  ultimately show "\<forall>x \<in> insert (SRegister (reg_set (VInt 1) (WriteStamp 5 1 0) reg_new))
      (set [SRegister (reg_set (VInt 2) (WriteStamp 6 2 0) reg_new)]).
      \<exists>ops. replay (\<lambda>_. []) ops (SRegister reg_new) = Some x \<and>
      (\<forall>(op, ctx) \<in> set ops. op_ok (\<lambda>_. []) ?w ctx op)"
    by simp
qed (auto simp: reg_ok_def reg_new_def)

end
