(* ===== verification/Store_Log.thy ===== *)
theory Store_Log
  imports Core_Log
begin

text \<open>
  The branch registry (\<open>theta-storage/src/branches.rs\<close>) and the append-only log
  (\<open>theta-storage/src/log.rs\<close>).  Both registries of a branch are partial functions:
  nothing the model covers iterates over them.  The entries of the log are an ordered
  map, so that a walk can be given one step per entry.
\<close>

datatype storage_error =
    UnknownBranch string
  | BranchExists string
  | UnknownCommit string
  | HeadMoved string string
  | SegmentInUse nat nat
  | BrokenChain nat string nat
  | EncryptionError string
  | EncodingError
  | CorruptSegment string
  | UnsupportedFormat nat
  | BadCheckpoint string
  | ViewDrift nat nat
  | OrphanedSegments nat string
  | IoNotFound

section \<open>The branch registry\<close>

record branch_store =
  bs_by_id :: "nat \<Rightarrow> branch option"
  bs_by_name :: "string \<Rightarrow> nat option"
  bs_next_id :: nat

definition branch_at :: "nat \<Rightarrow> string \<Rightarrow> hash \<Rightarrow> branch_kind \<Rightarrow> branch" where
  "branch_at i name from' kind =
     \<lparr>br_id = i, br_name = name, br_kind = kind, br_head = from', br_fork_point = Some from',
      br_next_commit = 0\<rparr>"

definition with_main :: branch_store where
  "with_main =
     \<lparr>bs_by_id = [main_branch \<mapsto> \<lparr>br_id = main_branch, br_name = ''main'', br_kind = Protected,
         br_head = zero_hash, br_fork_point = None, br_next_commit = 0\<rparr>],
      bs_by_name = [''main'' \<mapsto> main_branch], bs_next_id = 1\<rparr>"

definition branch_create :: "string \<Rightarrow> hash \<Rightarrow> branch_kind \<Rightarrow> branch_store \<Rightarrow> (storage_error + nat) \<times> branch_store" where
  "branch_create name from' kind s =
     (if bs_by_name s name \<noteq> None then (Inl (BranchExists name), s)
      else let i = bs_next_id s in
        (Inr i, s\<lparr>bs_next_id := wrap64 (i + 1),
                  bs_by_id := (bs_by_id s)(i \<mapsto> branch_at i name from' kind),
                  bs_by_name := (bs_by_name s)(name \<mapsto> i)\<rparr>))"

definition branch_restore :: "nat \<Rightarrow> string \<Rightarrow> hash \<Rightarrow> branch_kind \<Rightarrow> branch_store \<Rightarrow> branch_store" where
  "branch_restore i name from' kind s =
     s\<lparr>bs_next_id := max (bs_next_id s) (wrap64 (i + 1)),
       bs_by_id := (bs_by_id s)(i \<mapsto> branch_at i name from' kind),
       bs_by_name := (bs_by_name s)(name \<mapsto> i)\<rparr>"

definition branch_by_name :: "branch_store \<Rightarrow> string \<Rightarrow> branch option" where
  "branch_by_name s name =
     (case bs_by_name s name of None \<Rightarrow> None | Some i \<Rightarrow> bs_by_id s i)"

definition branch_set_head :: "nat \<Rightarrow> hash \<Rightarrow> branch_store \<Rightarrow> (storage_error + unit) \<times> branch_store" where
  "branch_set_head i h s =
     (case bs_by_id s i of
        None \<Rightarrow> (Inl (UnknownBranch (show_nat i)), s)
      | Some b \<Rightarrow> (Inr (), s\<lparr>bs_by_id := (bs_by_id s)(i \<mapsto>
            b\<lparr>br_head := h, br_next_commit := wrap64 (br_next_commit b + 1)\<rparr>)\<rparr>))"

definition branch_discard :: "nat \<Rightarrow> branch_store \<Rightarrow> (storage_error + unit) \<times> branch_store" where
  "branch_discard i s =
     (if i = main_branch then (Inl (UnknownBranch ''cannot discard main''), s)
      else case bs_by_id s i of
        None \<Rightarrow> (Inl (UnknownBranch (show_nat i)), s)
      | Some b \<Rightarrow> (Inr (), s\<lparr>bs_by_id := (bs_by_id s)(i := None),
                               bs_by_name := (bs_by_name s)(br_name b := None)\<rparr>))"

text \<open>Names and ids are in step, \<open>main\<close> is there and protected, and the next id is free.\<close>

definition branches_inv :: "branch_store \<Rightarrow> bool" where
  "branches_inv s \<longleftrightarrow>
     (\<forall>name i. bs_by_name s name = Some i \<longleftrightarrow> (\<exists>b. bs_by_id s i = Some b \<and> br_name b = name)) \<and>
     (\<forall>i b. bs_by_id s i = Some b \<longrightarrow> br_id b = i \<and> i < bs_next_id s) \<and>
     (\<exists>b. bs_by_id s main_branch = Some b \<and> br_name b = ''main'' \<and> is_protected b)"

datatype branch_call =
    CCreate string hash branch_kind
  | CSetHead nat hash
  | CDiscard nat
  | CRestore nat string hash branch_kind

fun branch_step :: "branch_call \<Rightarrow> branch_store \<Rightarrow> branch_store" where
  "branch_step (CCreate name h k) s = snd (branch_create name h k s)"
| "branch_step (CSetHead i h) s = snd (branch_set_head i h s)"
| "branch_step (CDiscard i) s = snd (branch_discard i s)"
| "branch_step (CRestore i name h k) s = branch_restore i name h k s"

text \<open>What recovery must supply: \<open>restore\<close> overwrites whatever holds the name or the
  id, so a run restores a branch only when both are free, and the counters stay in range.\<close>

fun calls_fit :: "branch_call list \<Rightarrow> branch_store \<Rightarrow> bool" where
  "calls_fit [] s \<longleftrightarrow> bs_next_id s \<le> u64_max"
| "calls_fit (c # cs) s \<longleftrightarrow> bs_next_id s < u64_max \<and>
     (case c of CRestore i name h k \<Rightarrow>
        i < u64_max \<and> bs_by_id s i = None \<and> bs_by_name s name = None | _ \<Rightarrow> True) \<and>
     calls_fit cs (branch_step c s)"

lemma branches_inv_main: "branches_inv with_main"
  by (auto simp: branches_inv_def with_main_def main_branch_def is_protected_def)

lemma branches_inv_create:
  assumes "branches_inv s" and "bs_next_id s < u64_max"
  shows "branches_inv (snd (branch_create name h k s)) \<and>
     bs_next_id (snd (branch_create name h k s)) \<le> bs_next_id s + 1"
proof (cases "bs_by_name s name")
  case (Some i)
  then show ?thesis using assms(1) by (simp add: branch_create_def)
next
  case None
  have fresh: "bs_by_id s (bs_next_id s) = None"
    using assms(1) unfolding branches_inv_def by (metis less_irrefl not_None_eq)
  have noname: "bs_by_id s i = Some b \<Longrightarrow> br_name b \<noteq> name" for i b
    using assms(1) None unfolding branches_inv_def by (metis option.distinct(1))
  have pos: "0 < bs_next_id s" using assms(1) unfolding branches_inv_def by fastforce
  show ?thesis
    using assms None fresh noname pos unfolding branches_inv_def
    by (auto simp: branch_create_def Let_def branch_at_def wrap64_id main_branch_def less_SucI
        split: if_splits)
qed

lemma branches_inv_set_head:
  assumes "branches_inv s"
  shows "branches_inv (snd (branch_set_head i h s)) \<and> bs_next_id (snd (branch_set_head i h s)) = bs_next_id s"
  using assms unfolding branches_inv_def
  by (auto simp: branch_set_head_def is_protected_def split: option.splits if_splits)

lemma branches_inv_discard:
  assumes "branches_inv s"
  shows "branches_inv (snd (branch_discard i s)) \<and> bs_next_id (snd (branch_discard i s)) = bs_next_id s"
proof (cases "i = main_branch \<or> bs_by_id s i = None")
  case True
  then show ?thesis using assms by (auto simp: branch_discard_def split: option.splits)
next
  case False
  then obtain b where b: "bs_by_id s i = Some b" by auto
  have other: "bs_by_id s j = Some c \<Longrightarrow> j \<noteq> i \<Longrightarrow> br_name c \<noteq> br_name b" for j c
    using assms b unfolding branches_inv_def by (metis option.inject)
  show ?thesis using assms b False other unfolding branches_inv_def
    by (auto simp: branch_discard_def split: if_splits)
qed

lemma branches_inv_restore:
  assumes "branches_inv s" and "i < u64_max" and "bs_by_id s i = None" and "bs_by_name s name = None"
  shows "branches_inv (branch_restore i name h k s)"
proof -
  have noname: "bs_by_id s j = Some b \<Longrightarrow> br_name b \<noteq> name" for j b
    using assms(1,4) unfolding branches_inv_def by (metis option.distinct(1))
  have "i \<noteq> main_branch" using assms(1,3) unfolding branches_inv_def by force
  then show ?thesis
    using assms noname unfolding branches_inv_def
    by (auto simp: branch_restore_def branch_at_def wrap64_id less_max_iff_disj split: if_splits)
qed

lemma branch_step_inv:
  assumes "branches_inv s" and "calls_fit (c # cs) s"
  shows "branches_inv (branch_step c s) \<and> bs_next_id s \<le> bs_next_id (branch_step c s)"
proof (cases c)
  case (CCreate name h k)
  then show ?thesis using assms branches_inv_create [of s name h k]
    by (auto simp: branch_create_def Let_def wrap64_id)
next
  case (CSetHead i h)
  then show ?thesis using assms(1) branches_inv_set_head by simp
next
  case (CDiscard i)
  then show ?thesis using assms(1) branches_inv_discard by simp
next
  case (CRestore i name h k)
  then show ?thesis using assms branches_inv_restore [of s i name h k] by (simp add: branch_restore_def)
qed

lemma branch_run_inv:
  "branches_inv s \<Longrightarrow> calls_fit calls s \<Longrightarrow>
     branches_inv (fold branch_step calls s) \<and> bs_next_id s \<le> bs_next_id (fold branch_step calls s)"
proof (induction calls arbitrary: s)
  case Nil
  then show ?case by simp
next
  case (Cons c calls)
  have "branches_inv (branch_step c s)" "bs_next_id s \<le> bs_next_id (branch_step c s)"
    using branch_step_inv [OF Cons.prems] by simp_all
  then show ?case using Cons.IH [of "branch_step c s"] Cons.prems(2) by simp
qed

lemma calls_fit_append:
  "calls_fit (pre @ post) s \<Longrightarrow> bs_next_id (fold branch_step pre s) \<le> u64_max \<and>
     calls_fit post (fold branch_step pre s)"
  by (induction pre arbitrary: s) (cases post, auto)

text \<open>A new id is above every id the registry held at any earlier point of the run.\<close>

lemma created_id_is_new:
  assumes "calls_fit calls with_main" and "calls = pre @ post"
    and "fst (branch_create name h k (fold branch_step calls with_main)) = Inr j"
  shows "bs_by_id (fold branch_step pre with_main) j = None"
proof (rule ccontr)
  let ?p = "fold branch_step pre with_main"
  assume "bs_by_id ?p j \<noteq> None"
  then obtain b where b: "bs_by_id ?p j = Some b" by auto
  have fit: "calls_fit pre with_main" if "calls_fit (pre @ post) s" for s
    using that
  proof -
    have "calls_fit (pre @ post) s \<Longrightarrow> calls_fit pre s" for s
    proof (induction pre arbitrary: s)
      case Nil
      then show ?case by (cases post) auto
    next
      case (Cons c pre)
      then show ?case by simp
    qed
    then show ?thesis using assms(1,2) by simp
  qed
  then have "branches_inv ?p" using branch_run_inv [OF branches_inv_main] assms(1,2) by blast
  then have "j < bs_next_id ?p" using b by (simp add: branches_inv_def)
  also have "bs_next_id ?p \<le> bs_next_id (fold branch_step post ?p)"
    using branch_run_inv [of ?p post] \<open>branches_inv ?p\<close> calls_fit_append [of pre post with_main] assms(1,2)
    by simp
  also have "\<dots> = j"
    using assms(2,3) by (auto simp: branch_create_def Let_def split: if_splits)
  finally show False by simp
qed

text \<open>C7: After any sequence of branch creations, head moves, discards and restores (each
  restore under a name and an id that are free, which is what recovery has to see to, and
  the counters in range) the two registries agree: every branch is found under its own name
  and its own id and under no other, two branches with one name or one id are the same
  branch, \<open>main\<close> exists and is protected, and the id a further creation hands out is one no
  branch of the run ever had.\<close>

theorem branch_registry_consistent:
  assumes "calls_fit calls with_main" and "s = fold branch_step calls with_main"
  shows "(\<forall>name b. branch_by_name s name = Some b \<longrightarrow> br_name b = name \<and> bs_by_id s (br_id b) = Some b) \<and>
     (\<forall>i b. bs_by_id s i = Some b \<longrightarrow>
        br_id b = i \<and> branch_by_name s (br_name b) = Some b \<and> i < bs_next_id s) \<and>
     (\<forall>i j b c. bs_by_id s i = Some b \<longrightarrow> bs_by_id s j = Some c \<longrightarrow>
        br_name b = br_name c \<or> br_id b = br_id c \<longrightarrow> i = j \<and> b = c) \<and>
     (\<exists>b. branch_by_name s ''main'' = Some b \<and> is_protected b \<and> br_id b = main_branch) \<and>
     (\<forall>name h k j pre post. fst (branch_create name h k s) = Inr j \<longrightarrow> calls = pre @ post \<longrightarrow>
        bs_by_id (fold branch_step pre with_main) j = None)"
proof -
  have inv: "branches_inv s"
    using branch_run_inv [OF branches_inv_main assms(1)] assms(2) by simp
  then have names: "bs_by_name s name = Some i \<longleftrightarrow> (\<exists>b. bs_by_id s i = Some b \<and> br_name b = name)" for name i
    by (simp add: branches_inv_def)
  obtain m where m: "bs_by_id s main_branch = Some m" "br_name m = ''main''" "is_protected m"
    using inv unfolding branches_inv_def by blast
  have found: "branch_by_name s (br_name b) = Some b" if "bs_by_id s i = Some b" for i b
    using names [of "br_name b" i] that by (simp add: branch_by_name_def)
  have ids: "i < bs_next_id s \<and> br_id b = i" if "bs_by_id s i = Some b" for i b
    using inv that by (simp add: branches_inv_def)
  have byname: "br_name b = name \<and> bs_by_id s (br_id b) = Some b"
    if n: "branch_by_name s name = Some b" for name b
  proof -
    obtain i where i: "bs_by_name s name = Some i" "bs_by_id s i = Some b"
      using n by (cases "bs_by_name s name") (auto simp: branch_by_name_def)
    from names [of name i] i ids [OF i(2)] show ?thesis by auto
  qed
  have one: "i = j \<and> b = c" if "bs_by_id s i = Some b" "bs_by_id s j = Some c"
      "br_name b = br_name c \<or> br_id b = br_id c" for i j b c
  proof -
    have "br_name b = br_name c \<Longrightarrow> b = c"
      using found [OF that(1)] found [OF that(2)] by (metis option.inject)
    moreover have "br_id b = i" "br_id c = j" using ids that(1,2) by blast+
    ultimately show ?thesis using that by (metis option.inject)
  qed
  have main: "branch_by_name s ''main'' = Some m" "br_id m = main_branch"
    using found [OF m(1)] m(2) ids [OF m(1)] by simp_all
  show ?thesis
  proof (intro conjI allI impI)
    show "br_name b = name" "bs_by_id s (br_id b) = Some b" if "branch_by_name s name = Some b" for name b
      using byname [OF that] by simp_all
    show "br_id b = i" "branch_by_name s (br_name b) = Some b" "i < bs_next_id s" if "bs_by_id s i = Some b" for i b
      using found [OF that] ids [OF that] by simp_all
    show "i = j" "b = c" if "bs_by_id s i = Some b" "bs_by_id s j = Some c"
        "br_name b = br_name c \<or> br_id b = br_id c" for i j b c
      using one [OF that] by simp_all
    show "\<exists>b. branch_by_name s ''main'' = Some b \<and> is_protected b \<and> br_id b = main_branch"
      using main m(3) by blast
    show "bs_by_id (fold branch_step pre with_main) j = None"
      if "fst (branch_create name h k s) = Inr j" "calls = pre @ post" for name h k j pre post
      using created_id_is_new [OF assms(1) that(2)] that(1) assms(2) by blast
  qed
qed

definition sample_calls :: "branch_call list" where
  "sample_calls = [CRestore 4 ''dev'' zero_hash Standard, CDiscard 4, CDiscard 0]"

lemma branch_registry_consistent_witness:
  "(\<exists>b. branch_by_name (fold branch_step sample_calls with_main) ''main'' = Some b \<and> is_protected b \<and> br_id b = main_branch) \<and>
   fst (branch_create ''dev'' zero_hash Standard (fold branch_step sample_calls with_main)) = Inr 5 \<and>
   bs_by_id (fold branch_step [CRestore 4 ''dev'' zero_hash Standard] with_main) 5 = None"
proof -
  have fit: "calls_fit sample_calls with_main"
    by (simp add: sample_calls_def with_main_def main_branch_def branch_restore_def branch_discard_def branch_at_def wrap64_def)
  have new: "fst (branch_create ''dev'' zero_hash Standard (fold branch_step sample_calls with_main)) = Inr 5"
    by (simp add: sample_calls_def with_main_def main_branch_def branch_restore_def branch_discard_def branch_create_def
        branch_at_def wrap64_def Let_def)
  have "sample_calls = [CRestore 4 ''dev'' zero_hash Standard] @ [CDiscard 4, CDiscard 0]" by (simp add: sample_calls_def)
  then show ?thesis using branch_registry_consistent [OF fit refl] new by blast
qed

text \<open>A restore under a name in use leaves the branch that held it unreachable by name.\<close>

lemma restore_shadows_a_name:
  "branch_by_name (branch_restore 7 ''main'' zero_hash Standard with_main) ''main'' =
     Some (branch_at 7 ''main'' zero_hash Standard)"
  "bs_by_id (branch_restore 7 ''main'' zero_hash Standard with_main) main_branch \<noteq> None"
  by (simp_all add: branch_restore_def branch_by_name_def with_main_def main_branch_def)

section \<open>The log\<close>

record mem_log =
  ml_entries :: "(hash, log_entry) omap"
  ml_heads :: "nat \<Rightarrow> hash option"

definition log_new :: mem_log where
  "log_new = \<lparr>ml_entries = omempty, ml_heads = (\<lambda>_. None)\<rparr>"

definition log_set_head :: "nat \<Rightarrow> hash \<Rightarrow> mem_log \<Rightarrow> mem_log" where
  "log_set_head br h l = l\<lparr>ml_heads := (ml_heads l)(br \<mapsto> h)\<rparr>"

definition log_append :: "codec \<Rightarrow> log_entry \<Rightarrow> mem_log \<Rightarrow> (storage_error + hash) \<times> mem_log" where
  "log_append D e l =
     (let expected = (case ml_heads l (le_branch e) of None \<Rightarrow> zero_hash | Some h \<Rightarrow> h) in
      if le_prev e \<noteq> expected then (Inl (HeadMoved (to_hex (le_prev e)) (to_hex expected)), l)
      else let h = entry_hash D e in
        (Inr h, l\<lparr>ml_entries := omput h e (ml_entries l), ml_heads := (ml_heads l)(le_branch e \<mapsto> h)\<rparr>))"

definition log_get :: "mem_log \<Rightarrow> hash \<Rightarrow> log_entry option" where
  "log_get l h = omget (ml_entries l) h"

definition log_head :: "mem_log \<Rightarrow> nat \<Rightarrow> hash option" where
  "log_head l br = ml_heads l br"

text \<open>The \<open>while\<close> loop of \<open>history\<close>; \<open>None\<close> when the fuel runs out.\<close>

fun history_walk :: "nat \<Rightarrow> mem_log \<Rightarrow> hash option \<Rightarrow> hash \<Rightarrow> (storage_error + log_entry list) option" where
  "history_walk n l until' cursor =
     (if hash_is_zero cursor \<or> Some cursor = until' then Some (Inr [])
      else case n of
        0 \<Rightarrow> None
      | Suc k \<Rightarrow> (case omget (ml_entries l) cursor of
            None \<Rightarrow> Some (Inl (UnknownCommit (to_hex cursor)))
          | Some e \<Rightarrow> map_option (map_sum id ((#) e)) (history_walk k l until' (le_prev e))))"

declare history_walk.simps [simp del]

definition log_history :: "mem_log \<Rightarrow> nat \<Rightarrow> hash option \<Rightarrow> (storage_error + log_entry list) option" where
  "log_history l br until' =
     (case ml_heads l br of
        None \<Rightarrow> Some (Inr [])
      | Some h \<Rightarrow> history_walk (length (omlist (ml_entries l))) l until' h)"

text \<open>The log chains: parents are present and come earlier, heads are entries.\<close>

definition log_ok :: "codec \<Rightarrow> mem_log \<Rightarrow> bool" where
  "log_ok D l \<longleftrightarrow>
     (\<exists>depth. \<forall>h e. omget (ml_entries l) h = Some e \<longrightarrow> h = entry_hash D e \<and> h \<noteq> zero_hash \<and>
        (le_prev e = zero_hash \<or>
         omhas (ml_entries l) (le_prev e) \<and> depth (le_prev e) < (depth h :: nat) )) \<and>
     (\<forall>br h. ml_heads l br = Some h \<longrightarrow> h = zero_hash \<or> omhas (ml_entries l) h)"

text \<open>What the log asks of the hash function for one append: no collision with an entry
  that is there, and not the all-zero hash.\<close>

definition hash_fresh :: "codec \<Rightarrow> mem_log \<Rightarrow> log_entry \<Rightarrow> bool" where
  "hash_fresh D l e \<longleftrightarrow> entry_hash D e \<noteq> zero_hash \<and> \<not> omhas (ml_entries l) (entry_hash D e)"

lemma log_ok_new: "log_ok D log_new"
  by (simp add: log_ok_def log_new_def)

lemma log_ok_append:
  assumes "log_ok D l" and "hash_fresh D l e" and "log_append D e l = (Inr h, l')"
  shows "log_ok D l'"
proof -
  have l': "l' = l\<lparr>ml_entries := omput h e (ml_entries l), ml_heads := (ml_heads l)(le_branch e \<mapsto> h)\<rparr>"
    and h: "h = entry_hash D e"
    and prev: "le_prev e = (case ml_heads l (le_branch e) of None \<Rightarrow> zero_hash | Some h \<Rightarrow> h)"
    using assms(3) by (auto simp: log_append_def Let_def split: if_splits)
  obtain depth where depth: "\<And>k f. omget (ml_entries l) k = Some f \<Longrightarrow> k = entry_hash D f \<and> k \<noteq> zero_hash \<and>
      (le_prev f = zero_hash \<or> omhas (ml_entries l) (le_prev f) \<and> depth (le_prev f) < (depth k :: nat))"
    and heads: "\<And>br k. ml_heads l br = Some k \<Longrightarrow> k = zero_hash \<or> omhas (ml_entries l) k"
    using assms(1) unfolding log_ok_def by blast
  have fresh: "\<not> omhas (ml_entries l) h" "h \<noteq> zero_hash" using assms(2) h by (auto simp: hash_fresh_def)
  have pe: "le_prev e = zero_hash \<or> omhas (ml_entries l) (le_prev e)"
    using prev heads by (auto split: option.splits)
  have ne: "le_prev f \<noteq> h" if "omget (ml_entries l) k = Some f" for k f
    using depth [OF that] fresh by auto
  let ?d = "depth(h := Suc (depth (le_prev e)))"
  have "k = entry_hash D f \<and> k \<noteq> zero_hash \<and>
      (le_prev f = zero_hash \<or> omhas (ml_entries l') (le_prev f) \<and> ?d (le_prev f) < ?d k)"
    if "omget (ml_entries l') k = Some f" for k f
  proof (cases "k = h")
    case True
    then have "f = e" using that l' by simp
    moreover have "le_prev e \<noteq> h" using pe fresh by auto
    ultimately show ?thesis using True h fresh pe l' by auto
  next
    case False
    then have old: "omget (ml_entries l) k = Some f" using that l' by simp
    then show ?thesis using depth [OF old] ne [OF old] False l' by auto
  qed
  moreover have "k = zero_hash \<or> omhas (ml_entries l') k" if "ml_heads l' br = Some k" for br k
    using that heads l' by (auto split: if_splits)
  ultimately show ?thesis unfolding log_ok_def by blast
qed

lemma log_ok_set_head:
  "log_ok D l \<Longrightarrow> h = zero_hash \<or> omhas (ml_entries l) h \<Longrightarrow> log_ok D (log_set_head br h l)"
  unfolding log_ok_def log_set_head_def by auto

end
