(* ===== verification/Store_History.thy ===== *)
theory Store_History
  imports Store_Log
begin

text \<open>
  What the log promises: the history walk ends within one step per entry and returns the
  chain of parents from the head, an append is a compare-and-swap on the head, and a head
  commits to everything before it.
\<close>

section \<open>Trails\<close>

text \<open>The entries met on the way from a hash back to genesis.\<close>

fun trail :: "mem_log \<Rightarrow> hash \<Rightarrow> log_entry list \<Rightarrow> bool" where
  "trail l h [] \<longleftrightarrow> h = zero_hash"
| "trail l h (e # es) \<longleftrightarrow> h \<noteq> zero_hash \<and> omget (ml_entries l) h = Some e \<and> trail l (le_prev e) es"

lemma trail_unique: "trail l h es \<Longrightarrow> trail l h fs \<Longrightarrow> es = fs"
proof (induction es arbitrary: h fs)
  case Nil
  then show ?case by (cases fs) auto
next
  case (Cons e es)
  then show ?case by (cases fs) auto
qed

lemma trail_entries: "trail l h es \<Longrightarrow> e \<in> set es \<Longrightarrow> \<exists>k. omget (ml_entries l) k = Some e"
  by (induction es arbitrary: h) auto

lemma trail_grow:
  assumes "trail l h es" and "\<not> omhas (ml_entries l) k"
  shows "trail (l\<lparr>ml_entries := omput k e (ml_entries l), ml_heads := hs\<rparr>) h es"
  using assms by (induction es arbitrary: h) (auto simp: omhas_def)

text \<open>A walk that is given the length of the trail returns it, up to the stopping hash.\<close>

lemma history_walk_trail:
  assumes "trail l h es" and "\<forall>e \<in> set es. \<forall>k. omget (ml_entries l) k = Some e \<longrightarrow> k = entry_hash D e"
    and "length es \<le> n"
  shows "history_walk n l until' h = Some (Inr (takeWhile (\<lambda>e. Some (entry_hash D e) \<noteq> until') es))"
  using assms
proof (induction es arbitrary: h n)
  case Nil
  then show ?case by (subst history_walk.simps) (simp add: hash_is_zero_def)
next
  case (Cons e es)
  then obtain m where n: "n = Suc m" by (cases n) auto
  have h: "h \<noteq> zero_hash" "omget (ml_entries l) h = Some e" "trail l (le_prev e) es" "h = entry_hash D e"
    using Cons.prems by auto
  have "history_walk m l until' (le_prev e) = Some (Inr (takeWhile (\<lambda>e. Some (entry_hash D e) \<noteq> until') es))"
    by (rule Cons.IH [OF h(3)]) (use Cons.prems(2,3) n in simp_all)
  then show ?case using h by (subst history_walk.simps) (simp add: hash_is_zero_def n)
qed

text \<open>In a log that chains there is a trail from every entry, no longer than the log.\<close>

lemma omhas_set: "{k. omhas m k} = set (omkeys m)"
  by (auto simp: omkeys_set omhas_def)

lemma omap_card: "card {k. omhas m k} = length (omlist m)"
  unfolding omhas_set distinct_card [OF omkeys_distinct] by (simp only: omkeys_def length_map)

lemma takeWhile_True [simp]: "takeWhile (\<lambda>_. True) xs = xs"
  by (induction xs) auto

lemma log_ok_trail:
  assumes "log_ok D l" and "h = zero_hash \<or> omhas (ml_entries l) h"
  obtains es where "trail l h es" "length es \<le> length (omlist (ml_entries l))"
    "\<forall>e \<in> set es. \<forall>k. omget (ml_entries l) k = Some e \<longrightarrow> k = entry_hash D e"
proof -
  obtain depth where depth: "\<And>k e. omget (ml_entries l) k = Some e \<Longrightarrow> k = entry_hash D e \<and> k \<noteq> zero_hash \<and>
      (le_prev e = zero_hash \<or> omhas (ml_entries l) (le_prev e) \<and> depth (le_prev e) < (depth k :: nat))"
    using assms(1) unfolding log_ok_def by blast
  let ?below = "\<lambda>h. {k. omhas (ml_entries l) k \<and> depth k \<le> depth h}"
  have fin: "finite {k. omhas (ml_entries l) k}"
    unfolding omhas_set by (rule finite_set)
  then have finb: "finite (?below h)" for h by (rule rev_finite_subset) auto
  have "\<exists>es. trail l h es \<and> (h = zero_hash \<longrightarrow> es = []) \<and> (h \<noteq> zero_hash \<longrightarrow> length es \<le> card (?below h))"
    if "h = zero_hash \<or> omhas (ml_entries l) h" for h
    using that
  proof (induction "depth h" arbitrary: h rule: less_induct)
    case less
    show ?case
    proof (cases "h = zero_hash")
      case True
      then show ?thesis by (intro exI [of _ "[]"]) simp
    next
      case False
      then obtain e where e: "omget (ml_entries l) h = Some e"
        using less.prems by (auto simp: omhas_def)
      obtain es where es: "trail l (le_prev e) es" "le_prev e = zero_hash \<longrightarrow> es = []"
        "le_prev e \<noteq> zero_hash \<longrightarrow> length es \<le> card (?below (le_prev e))"
      proof (cases "le_prev e = zero_hash")
        case True
        then show thesis using that [of "[]"] by simp
      next
        case False
        then have "depth (le_prev e) < depth h" "omhas (ml_entries l) (le_prev e)" using depth [OF e] by auto
        from less.hyps [OF this(1)] this(2) False show thesis using that by blast
      qed
      have "Suc (length es) \<le> card (?below h)"
      proof (cases "le_prev e = zero_hash")
        case True
        have "h \<in> ?below h" using e by (simp add: omhas_def)
        then have "0 < card (?below h)" using finb [of h] by (metis card_gt_0_iff empty_iff)
        then show ?thesis using es(2) True by simp
      next
        case False
        then have "depth (le_prev e) < depth h" using depth [OF e] by blast
        then have "?below (le_prev e) \<subseteq> ?below h" "h \<in> ?below h" "h \<notin> ?below (le_prev e)"
          using e by (auto simp: omhas_def)
        then have "?below (le_prev e) \<subset> ?below h" by blast
        then have "card (?below (le_prev e)) < card (?below h)" by (rule psubset_card_mono [OF finb])
        then show ?thesis using es(3) False by simp
      qed
      then show ?thesis using False e es(1) by (intro exI [of _ "e # es"]) simp
    qed
  qed
  then obtain es where es: "trail l h es" "h = zero_hash \<longrightarrow> es = []" "h \<noteq> zero_hash \<longrightarrow> length es \<le> card (?below h)"
    using assms(2) by blast
  have "card (?below h) \<le> length (omlist (ml_entries l))"
    unfolding omap_card [symmetric] by (rule card_mono [OF fin]) auto
  then have "length es \<le> length (omlist (ml_entries l))" using es by (cases "h = zero_hash") auto
  moreover have "\<forall>e \<in> set es. \<forall>k. omget (ml_entries l) k = Some e \<longrightarrow> k = entry_hash D e"
    using depth by blast
  ultimately show ?thesis using that es(1) by blast
qed

definition head_of :: "mem_log \<Rightarrow> nat \<Rightarrow> hash" where
  "head_of l br = (case ml_heads l br of None \<Rightarrow> zero_hash | Some h \<Rightarrow> h)"

lemma log_history_trail:
  assumes "log_ok D l"
  obtains es where "trail l (head_of l br) es"
    "\<And>until'. log_history l br until' = Some (Inr (takeWhile (\<lambda>e. Some (entry_hash D e) \<noteq> until') es))"
proof (cases "ml_heads l br")
  case None
  then show ?thesis using that [of "[]"] by (simp add: log_history_def head_of_def)
next
  case (Some h)
  then have h: "h = zero_hash \<or> omhas (ml_entries l) h" using assms by (simp add: log_ok_def)
  obtain es where es: "trail l h es" "length es \<le> length (omlist (ml_entries l))"
    "\<forall>e \<in> set es. \<forall>k. omget (ml_entries l) k = Some e \<longrightarrow> k = entry_hash D e"
    using log_ok_trail [OF assms h] .
  show ?thesis
    using that [of es] es Some history_walk_trail [OF es(1,3,2)] by (simp add: log_history_def head_of_def)
qed

lemma log_history_eq:
  assumes "log_ok D l"
  shows "log_history l br None = Some (Inr es) \<longleftrightarrow> trail l (head_of l br) es"
proof -
  obtain fs where fs: "trail l (head_of l br) fs"
    "\<And>until'. log_history l br until' = Some (Inr (takeWhile (\<lambda>e. Some (entry_hash D e) \<noteq> until') fs))"
    using log_history_trail [OF assms, of br] by blast
  have "log_history l br None = Some (Inr fs)" using fs(2) [of None] by simp
  then show ?thesis using fs(1) trail_unique [OF fs(1), of es] by (metis option.inject sum.inject(2))
qed

section \<open>The log under any calls\<close>

datatype log_call = LAppend log_entry | LFork nat nat

text \<open>Appends, and forks that point a new branch at the head of another one.\<close>

fun log_step :: "codec \<Rightarrow> log_call \<Rightarrow> mem_log \<Rightarrow> mem_log" where
  "log_step D (LAppend e) l = snd (log_append D e l)"
| "log_step D (LFork br br') l = log_set_head br' (head_of l br) l"

fun log_run :: "codec \<Rightarrow> log_call list \<Rightarrow> mem_log \<Rightarrow> mem_log" where
  "log_run D [] l = l"
| "log_run D (c # cs) l = log_run D cs (log_step D c l)"

text \<open>No append of the run collides with an entry that is there or hashes to zero.\<close>

fun run_fresh :: "codec \<Rightarrow> log_call list \<Rightarrow> mem_log \<Rightarrow> bool" where
  "run_fresh D [] l \<longleftrightarrow> True"
| "run_fresh D (c # cs) l \<longleftrightarrow>
     (case c of LAppend e \<Rightarrow> le_prev e = head_of l (le_branch e) \<longrightarrow> hash_fresh D l e | LFork _ _ \<Rightarrow> True) \<and>
     run_fresh D cs (log_step D c l)"

lemma log_append_head:
  "log_append D e l =
     (if le_prev e \<noteq> head_of l (le_branch e)
      then (Inl (HeadMoved (to_hex (le_prev e)) (to_hex (head_of l (le_branch e)))), l)
      else (Inr (entry_hash D e), l\<lparr>ml_entries := omput (entry_hash D e) e (ml_entries l),
          ml_heads := (ml_heads l)(le_branch e \<mapsto> entry_hash D e)\<rparr>))"
  by (simp add: log_append_def head_of_def Let_def)

lemma log_step_ok:
  assumes "log_ok D l" and "run_fresh D [c] l"
  shows "log_ok D (log_step D c l)"
proof (cases c)
  case (LAppend e)
  then show ?thesis
    using assms log_ok_append [OF assms(1), of e] by (auto simp: log_append_head)
next
  case (LFork br br')
  have "head_of l br = zero_hash \<or> omhas (ml_entries l) (head_of l br)"
    using assms(1) by (auto simp: log_ok_def head_of_def split: option.splits)
  then show ?thesis using LFork log_ok_set_head [OF assms(1)] by simp
qed

lemma log_run_ok: "log_ok D l \<Longrightarrow> run_fresh D cs l \<Longrightarrow> log_ok D (log_run D cs l)"
proof (induction cs arbitrary: l)
  case Nil
  then show ?case by simp
next
  case (Cons c cs)
  then have "log_ok D (log_step D c l)" by (intro log_step_ok) auto
  with Cons show ?case by simp
qed

text \<open>What was appended, branch by branch and newest first: an entry that names the newest
  one of its branch as its parent comes on top, any other is refused, and a fork starts with
  what its parent has.\<close>

fun tip :: "codec \<Rightarrow> log_entry list \<Rightarrow> hash" where
  "tip D [] = zero_hash"
| "tip D (e # es) = entry_hash D e"

fun appended :: "codec \<Rightarrow> log_call list \<Rightarrow> (nat \<Rightarrow> log_entry list) \<Rightarrow> nat \<Rightarrow> log_entry list" where
  "appended D [] hist = hist"
| "appended D (LAppend e # cs) hist =
     appended D cs (if le_prev e = tip D (hist (le_branch e))
       then hist(le_branch e := e # hist (le_branch e)) else hist)"
| "appended D (LFork br br' # cs) hist = appended D cs (hist(br' := hist br))"

lemma appended_trails:
  assumes "run_fresh D cs l" and "\<And>br. head_of l br = tip D (hist br) \<and> trail l (tip D (hist br)) (hist br)"
  shows "head_of (log_run D cs l) br = tip D (appended D cs hist br) \<and>
     trail (log_run D cs l) (tip D (appended D cs hist br)) (appended D cs hist br)"
  using assms
proof (induction cs arbitrary: l hist)
  case Nil
  show ?case unfolding log_run.simps appended.simps by (rule Nil(2))
next
  case (Cons c cs)
  show ?case
  proof (cases c)
    case (LAppend e)
    let ?l = "log_step D c l"
    let ?hist = "if le_prev e = tip D (hist (le_branch e))
       then hist(le_branch e := e # hist (le_branch e)) else hist"
    have "head_of ?l b = tip D (?hist b) \<and> trail ?l (tip D (?hist b)) (?hist b)" for b
    proof (cases "le_prev e = tip D (hist (le_branch e))")
      case False
      then show ?thesis using Cons.prems(2) [of b] Cons.prems(2) [of "le_branch e"] LAppend
        by (simp add: log_append_head)
    next
      case True
      have head: "le_prev e = head_of l (le_branch e)" using True Cons.prems(2) by simp
      have fresh: "entry_hash D e \<noteq> zero_hash" "\<not> omhas (ml_entries l) (entry_hash D e)"
        using Cons.prems(1) LAppend head by (auto simp: hash_fresh_def)
      have l: "?l = l\<lparr>ml_entries := omput (entry_hash D e) e (ml_entries l),
          ml_heads := (ml_heads l)(le_branch e \<mapsto> entry_hash D e)\<rparr>"
        using LAppend head by (simp add: log_append_head)
      have grown: "trail ?l (tip D (hist k)) (hist k)" for k
        unfolding l by (rule trail_grow) (use Cons.prems(2) [of k] fresh(2) in simp_all)
      have heads: "head_of ?l k = (if k = le_branch e then entry_hash D e else head_of l k)" for k
        by (simp add: l head_of_def)
      have got: "omget (ml_entries ?l) (entry_hash D e) = Some e" by (simp add: l)
      show ?thesis
        using grown [of b] grown [of "le_branch e"] heads [of b] fresh(1) head got True
          Cons.prems(2) [of b] by simp
    qed
    then show ?thesis using Cons.IH [of ?l ?hist] Cons.prems(1) LAppend by simp
  next
    case (LFork a b)
    have "head_of (log_step D c l) k = tip D ((hist(b := hist a)) k) \<and>
        trail (log_step D c l) (tip D ((hist(b := hist a)) k)) ((hist(b := hist a)) k)" for k
    proof -
      have same: "trail (log_step D c l) h es = trail l h es" for h es
        using LFork by (induction es arbitrary: h) (simp_all add: log_set_head_def)
      show ?thesis using Cons.prems(2) [of k] Cons.prems(2) [of a] LFork unfolding same
        by (simp add: log_set_head_def head_of_def)
    qed
    moreover have "run_fresh D cs (log_step D c l)" using Cons.prems(1) by simp
    ultimately have "head_of (log_run D cs (log_step D c l)) br = tip D (appended D cs (hist(b := hist a)) br) \<and>
        trail (log_run D cs (log_step D c l)) (tip D (appended D cs (hist(b := hist a)) br)) (appended D cs (hist(b := hist a)) br)"
      by (intro Cons.IH)
    then show ?thesis unfolding LFork log_run.simps appended.simps .
  qed
qed

text \<open>C20: Reading the history of a branch always ends, without an error, for every log
  that appends and forks can build (the hashes of the entries appended colliding with none
  there and not zero): it returns exactly the entries appended to the branch and, for a
  fork, those its parent had, newest first; they are the chain of parents from the branch's
  head, and a walk that stops at a hash returns the part that is newer.\<close>

theorem log_history_total:
  assumes "run_fresh D cs log_new" and "l = log_run D cs log_new"
    and "es = appended D cs (\<lambda>_. []) br"
  shows "log_history l br None = Some (Inr es) \<and>
     (\<forall>h. log_history l br (Some h) = Some (Inr (takeWhile (\<lambda>e. entry_hash D e \<noteq> h) es))) \<and>
     head_of l br = tip D es \<and> trail l (head_of l br) es"
proof -
  have ok: "log_ok D l" using assms(1,2) log_run_ok [OF log_ok_new] by simp
  have es: "head_of l br = tip D es \<and> trail l (tip D es) es"
    unfolding assms(2,3) by (rule appended_trails [OF assms(1)]) (simp add: head_of_def log_new_def)
  obtain fs where fs: "trail l (head_of l br) fs"
    "\<And>until'. log_history l br until' = Some (Inr (takeWhile (\<lambda>e. Some (entry_hash D e) \<noteq> until') fs))"
    using log_history_trail [OF ok] by blast
  have "trail l (head_of l br) es" using es by simp
  then have "fs = es" by (rule trail_unique [OF fs(1)])
  then show ?thesis using fs(2) [of None] fs(2) [of "Some _"] es by simp
qed

text \<open>A toy hash for the witnesses: the commit number, framed as a block of 32 bytes.\<close>

definition sample_codec :: codec where
  "sample_codec = \<lparr>json_op = \<lambda>_. [], json_author = \<lambda>_. [], blake3 = \<lambda>x. 1 # x\<rparr>"

definition sample_entry :: "hash \<Rightarrow> nat \<Rightarrow> log_entry" where
  "sample_entry p c = \<lparr>le_prev = p, le_commit = c, le_branch = 0, le_op = Delete ''k'', le_author = System, le_ts = 0\<rparr>"

lemma sample_hash_nonzero: "entry_hash sample_codec e \<noteq> zero_hash"
  by (simp add: entry_hash_def of_fields_def sample_codec_def zero_hash_def hash_len_def numeral_eq_Suc)

lemma log_history_total_witness:
  "log_history (log_run sample_codec [LAppend (sample_entry zero_hash 1), LFork 0 5] log_new) 5 None =
     Some (Inr [sample_entry zero_hash 1])"
  using log_history_total [OF _ refl refl, where D = sample_codec and cs = "[LAppend (sample_entry zero_hash 1), LFork 0 5]" and br = 5]
  by (auto simp: hash_fresh_def sample_hash_nonzero log_new_def sample_entry_def)

text \<open>An append is a compare-and-swap on the branch's head: it is refused, naming both
  hashes and changing nothing, unless the entry names the current head as its parent, and
  then the branch's history becomes the entry followed by what it was, while every other
  branch keeps its history.\<close>

theorem log_append_compare_and_swap:
  assumes "log_ok D l" and "hash_fresh D l e" and "log_history l (le_branch e) None = Some (Inr es)"
  shows "(if le_prev e = head_of l (le_branch e)
     then \<exists>l'. log_append D e l = (Inr (entry_hash D e), l') \<and> log_get l' (entry_hash D e) = Some e \<and>
       log_history l' (le_branch e) None = Some (Inr (e # es)) \<and>
       (\<forall>br. br \<noteq> le_branch e \<longrightarrow> log_history l' br None = log_history l br None)
     else log_append D e l = (Inl (HeadMoved (to_hex (le_prev e)) (to_hex (head_of l (le_branch e)))), l))"
proof (cases "le_prev e = head_of l (le_branch e)")
  case False
  then show ?thesis by (simp add: log_append_head)
next
  case True
  define l' where "l' = l\<lparr>ml_entries := omput (entry_hash D e) e (ml_entries l),
      ml_heads := (ml_heads l)(le_branch e \<mapsto> entry_hash D e)\<rparr>"
  have app: "log_append D e l = (Inr (entry_hash D e), l')"
    using True by (simp add: log_append_head l'_def)
  then have ok: "log_ok D l'" using log_ok_append [OF assms(1,2)] by simp
  have new: "\<not> omhas (ml_entries l) (entry_hash D e)" "entry_hash D e \<noteq> zero_hash"
    using assms(2) by (auto simp: hash_fresh_def)
  have grow: "trail l' h fs" if "trail l h fs" for h fs
    unfolding l'_def using trail_grow [OF that new(1)] .
  have "trail l (head_of l (le_branch e)) es" using assms(1,3) log_history_eq by blast
  then have "trail l' (head_of l' (le_branch e)) (e # es)"
    using grow True new(2) by (simp add: l'_def head_of_def)
  then have "log_history l' (le_branch e) None = Some (Inr (e # es))" using log_history_eq [OF ok] by simp
  moreover have "log_history l' br None = log_history l br None" if "br \<noteq> le_branch e" for br
  proof -
    obtain fs where "log_history l br None = Some (Inr fs)"
      using log_history_trail [OF assms(1), of br] by blast
    moreover have "trail l' (head_of l' br) fs"
      using grow log_history_eq [OF assms(1), of br fs] calculation that by (simp add: l'_def head_of_def)
    ultimately show ?thesis using log_history_eq [OF ok] by simp
  qed
  moreover have "log_get l' (entry_hash D e) = Some e" by (simp add: log_get_def l'_def)
  ultimately show ?thesis using True app by auto
qed

lemma log_append_compare_and_swap_witness:
  "\<exists>l'. log_append sample_codec (sample_entry zero_hash 1) log_new =
      (Inr (entry_hash sample_codec (sample_entry zero_hash 1)), l') \<and>
    log_history l' 0 None = Some (Inr [sample_entry zero_hash 1])"
proof -
  have "log_history log_new (le_branch (sample_entry zero_hash 1)) None = Some (Inr [])"
    and "hash_fresh sample_codec log_new (sample_entry zero_hash 1)"
    and "le_prev (sample_entry zero_hash 1) = head_of log_new (le_branch (sample_entry zero_hash 1))"
    and "le_branch (sample_entry zero_hash 1) = 0"
    by (simp_all add: log_new_def log_history_def hash_fresh_def sample_hash_nonzero head_of_def)
      (simp_all add: sample_entry_def)
  then show ?thesis
    using log_append_compare_and_swap [of sample_codec log_new "sample_entry zero_hash 1" "[]"]
    by (auto simp: log_ok_new)
qed

section \<open>A head commits to its history\<close>

text \<open>A list of entries chained from a head back to genesis.\<close>

fun chained :: "codec \<Rightarrow> hash \<Rightarrow> log_entry list \<Rightarrow> bool" where
  "chained D h [] \<longleftrightarrow> h = zero_hash"
| "chained D h (e # es) \<longleftrightarrow> h = entry_hash D e \<and> h \<noteq> zero_hash \<and> chained D (le_prev e) es"

lemma trail_chained:
  "trail l h es \<Longrightarrow> log_ok D l \<Longrightarrow> chained D h es"
  by (induction es arbitrary: h) (auto simp: log_ok_def)

definition collide :: "codec \<Rightarrow> log_entry \<Rightarrow> log_entry \<Rightarrow> bool" where
  "collide D e f \<longleftrightarrow> framed (entry_fields D e) \<noteq> framed (entry_fields D f) \<and>
     blake3 D (framed (entry_fields D e)) = blake3 D (framed (entry_fields D f))"

lemma same_hash_same_fields:
  assumes "entry_hash D e = entry_hash D f" and "\<not> collide D e f" and "entry_ok D e" and "entry_ok D f"
  shows "entry_fields D e = entry_fields D f"
proof -
  have "framed (entry_fields D e) = framed (entry_fields D f)"
    using assms(1,2) by (simp add: collide_def entry_hash_def of_fields_def)
  then show ?thesis by (rule framed_inj) (use assms(3,4) in \<open>auto simp: entry_fields_def entry_ok_def\<close>)
qed

lemma chained_binds:
  "chained D h es \<Longrightarrow> chained D h fs \<Longrightarrow> \<forall>e \<in> set es \<union> set fs. entry_ok D e \<Longrightarrow>
     (\<forall>e \<in> set es. \<forall>f \<in> set fs. \<not> collide D e f) \<Longrightarrow>
     map (entry_fields D) es = map (entry_fields D) fs"
proof (induction es arbitrary: h fs)
  case Nil
  then show ?case by (cases fs) auto
next
  case (Cons e es)
  then obtain f fs' where fs: "fs = f # fs'" by (cases fs) auto
  have "entry_hash D e = entry_hash D f" using Cons.prems fs by simp
  then have fields: "entry_fields D e = entry_fields D f"
    by (rule same_hash_same_fields) (use Cons.prems(3,4) fs in auto)
  then have "le_prev e = le_prev f" by (simp add: entry_fields_def)
  then have "map (entry_fields D) es = map (entry_fields D) fs'"
    using Cons.IH [of "le_prev e" fs'] Cons.prems fs by simp
  with fields fs show ?case by simp
qed

text \<open>C21: The log is tamper evident: two histories that end in the same head agree on
  every field of every entry, or two of their entries exhibit a collision of the hash
  function.\<close>

theorem history_tamper_evident:
  assumes "chained D h es" and "chained D h fs" and "\<forall>e \<in> set es \<union> set fs. entry_ok D e"
  shows "map (entry_fields D) es = map (entry_fields D) fs \<or> (\<exists>e \<in> set es. \<exists>f \<in> set fs. collide D e f)"
  using chained_binds [OF assms] by blast

lemma history_tamper_evident_witness:
  "\<not> chained sample_codec (entry_hash sample_codec (sample_entry zero_hash 1)) [sample_entry zero_hash 2]"
proof
  assume "chained sample_codec (entry_hash sample_codec (sample_entry zero_hash 1)) [sample_entry zero_hash 2]"
  moreover have "chained sample_codec (entry_hash sample_codec (sample_entry zero_hash 1)) [sample_entry zero_hash 1]"
    by (simp add: sample_hash_nonzero) (simp add: sample_entry_def)
  moreover have "entry_ok sample_codec (sample_entry zero_hash c)" if "c < 10" for c
    using that by (simp add: entry_ok_def sample_entry_def sample_codec_def zero_hash_def hash_len_def)
  ultimately have "map (entry_fields sample_codec) [sample_entry zero_hash 1] =
      map (entry_fields sample_codec) [sample_entry zero_hash 2] \<or>
      (\<exists>e \<in> set [sample_entry zero_hash 1]. \<exists>f \<in> set [sample_entry zero_hash 2]. collide sample_codec e f)"
    by (intro history_tamper_evident) auto
  moreover have "entry_fields sample_codec (sample_entry zero_hash 1) \<noteq> entry_fields sample_codec (sample_entry zero_hash 2)"
    using le64_inj [of 1 2] by (auto simp: entry_fields_def sample_entry_def)
  ultimately show False by (simp add: collide_def sample_codec_def)
qed

end
