(* ===== verification/Core_Address.thy ===== *)
theory Core_Address
  imports Core_Schema
begin

text \<open>
  How a key addresses a row, how a column is read out of a row, and the write-time type
  check (\<open>theta-core/src/address.rs\<close>).
\<close>

section \<open>Model\<close>

definition key_column :: string where
  "key_column = ''_key''"

definition value_column :: string where
  "value_column = ''value''"

text \<open>\<open>str::split_once\<close> on a colon.\<close>

fun split_once :: "char \<Rightarrow> string \<Rightarrow> (string \<times> string) option" where
  "split_once c [] = None"
| "split_once c (x # xs) =
     (if x = c then Some ([], xs)
      else map_option (\<lambda>(a, b). (x # a, b)) (split_once c xs))"

record row_address =
  ra_table :: string
  ra_primary_key :: string

definition parse_address :: "string \<Rightarrow> row_address option" where
  "parse_address key =
     (case split_once CHR '':'' key of
        None \<Rightarrow> None
      | Some (t, pk) \<Rightarrow> if t = [] \<or> pk = [] then None
          else Some \<lparr>ra_table = t, ra_primary_key = pk\<rparr>)"

definition address_prefix :: "string \<Rightarrow> string" where
  "address_prefix t = t @ '':''"

definition row_column :: "val \<Rightarrow> string \<Rightarrow> string \<Rightarrow> val option" where
  "row_column row pk name =
     (if name = key_column then Some (VText pk)
      else case row of
        VMap kvs \<Rightarrow> map_of kvs name
      | _ \<Rightarrow> if name = value_column then Some row else None)"

definition has_column :: "val \<Rightarrow> bool \<Rightarrow> string \<Rightarrow> bool" where
  "has_column row pk_present name =
     (if name = key_column then pk_present
      else case row of
        VMap kvs \<Rightarrow> map_of kvs name \<notin> {None, Some VNull}
      | VNull \<Rightarrow> False
      | _ \<Rightarrow> name = value_column)"

definition columns_of :: "val \<Rightarrow> string list" where
  "columns_of row = (case row of VMap kvs \<Rightarrow> map fst kvs | _ \<Rightarrow> [value_column])"

record field_type_error =
  fe_table :: string
  fe_column :: string
  fe_declared :: value_type
  fe_actual :: value_type

definition refuse_field :: "string \<Rightarrow> string \<Rightarrow> field_def \<Rightarrow> val \<Rightarrow> field_type_error" where
  "refuse_field t c f v =
     \<lparr>fe_table = t, fe_column = c, fe_declared = fd_ty f, fe_actual = inferred_type v\<rparr>"

fun check_fields :: "table_def \<Rightarrow> string \<Rightarrow> (string \<times> val) list \<Rightarrow> field_type_error + unit" where
  "check_fields def t [] = Inr ()"
| "check_fields def t ((name, v) # rest) =
     (case omget (td_fields def) name of
        Some f \<Rightarrow> if accepts (fd_ty f) v then check_fields def t rest else Inl (refuse_field t name f v)
      | None \<Rightarrow> check_fields def t rest)"

definition check_row :: "schema \<Rightarrow> string \<Rightarrow> val \<Rightarrow> field_type_error + unit" where
  "check_row sc t row =
     (case schema_table sc t of
        None \<Rightarrow> Inr ()
      | Some def \<Rightarrow> (case row of
          VMap kvs \<Rightarrow> check_fields def t kvs
        | _ \<Rightarrow> (case omget (td_fields def) value_column of
              Some f \<Rightarrow> if accepts (fd_ty f) row then Inr () else Inl (refuse_field t value_column f row)
            | None \<Rightarrow> Inr ())))"

section \<open>Addresses\<close>

lemma split_once_spec: "split_once c s = Some (a, b) \<longleftrightarrow> s = a @ c # b \<and> c \<notin> set a"
proof (induction s arbitrary: a b)
  case Nil
  then show ?case by simp
next
  case (Cons x xs)
  show ?case
  proof (cases "x = c")
    case True
    then show ?thesis by (cases a) auto
  next
    case False
    then show ?thesis using Cons.IH by (cases a) auto
  qed
qed

lemma parse_address_spec:
  "parse_address key = Some a \<longleftrightarrow>
     key = address_prefix (ra_table a) @ ra_primary_key a \<and>
     CHR '':'' \<notin> set (ra_table a) \<and> ra_table a \<noteq> [] \<and> ra_primary_key a \<noteq> []"
proof -
  have "parse_address key = Some a \<longleftrightarrow>
      split_once CHR '':'' key = Some (ra_table a, ra_primary_key a) \<and> ra_table a \<noteq> [] \<and> ra_primary_key a \<noteq> []"
    by (cases a) (auto simp: parse_address_def split: option.splits)
  then show ?thesis by (auto simp: split_once_spec address_prefix_def)
qed

text \<open>A key addresses a row exactly when it is the table's prefix followed by a
  non-empty primary key, and the table and the key are then determined by it: the table
  is the part before the first colon.\<close>

theorem address_parse_spec:
  "parse_address key = Some a \<longleftrightarrow>
     key = address_prefix (ra_table a) @ ra_primary_key a \<and>
     CHR '':'' \<notin> set (ra_table a) \<and> ra_table a \<noteq> [] \<and> ra_primary_key a \<noteq> []"
  by (rule parse_address_spec)

section \<open>Columns\<close>

lemma has_column_iff:
  "has_column row True name \<longleftrightarrow> (case row_column row pk name of None \<Rightarrow> False | Some v \<Rightarrow> v \<noteq> VNull)"
  by (cases row) (auto simp: has_column_def row_column_def split: option.splits)

text \<open>Counting whether a row holds a column agrees with reading the column: it is held
  exactly when reading it gives a value other than null; and a row that is not the null
  value holds, under some listed column, whatever can be read from it apart from its key.\<close>

theorem has_column_agrees:
  "(has_column row True name \<longleftrightarrow> (case row_column row pk name of None \<Rightarrow> False | Some v \<Rightarrow> v \<noteq> VNull)) \<and>
   (row_column row pk name \<noteq> None \<longleftrightarrow> name = key_column \<or> name \<in> set (columns_of row))"
  apply (rule conjI)
  subgoal by (rule has_column_iff)
  subgoal by (cases row) (simp_all add: row_column_def columns_of_def map_of_eq_None_iff del: not_None_eq)
  done

section \<open>The type check\<close>

lemma check_fields_ok:
  "check_fields def t kvs = Inr () \<longleftrightarrow>
     (\<forall>(name, v) \<in> set kvs. \<forall>f. omget (td_fields def) name = Some f \<longrightarrow> accepts (fd_ty f) v)"
  by (induction def t kvs rule: check_fields.induct) (auto split: option.splits)

lemma check_fields_error:
  "check_fields def t kvs = Inl e \<Longrightarrow>
     \<exists>pre name v rest f. kvs = pre @ (name, v) # rest \<and> check_fields def t pre = Inr () \<and>
       omget (td_fields def) name = Some f \<and> \<not> accepts (fd_ty f) v \<and> e = refuse_field t name f v"
proof (induction def t kvs rule: check_fields.induct)
  case (1 def t)
  then show ?case by simp
next
  case (2 def t name v rest)
  show ?case
  proof (cases "\<exists>f. omget (td_fields def) name = Some f \<and> \<not> accepts (fd_ty f) v")
    case True
    then obtain f where f: "omget (td_fields def) name = Some f" "\<not> accepts (fd_ty f) v" by auto
    with 2(3) have "e = refuse_field t name f v" by simp
    with f show ?thesis
      by (intro exI [of _ "[]"] exI [of _ name] exI [of _ v] exI [of _ rest] exI [of _ f]) simp
  next
    case False
    then have "check_fields def t rest = Inl e" using 2(3) by (auto split: option.splits)
    with 2(1,2) False obtain pre n w rs f where "rest = pre @ (n, w) # rs"
      "check_fields def t pre = Inr ()" "omget (td_fields def) n = Some f"
      "\<not> accepts (fd_ty f) w" "e = refuse_field t n f w"
      by (cases "omget (td_fields def) name") auto
    with False show ?thesis
      by (intro exI [of _ "(name, v) # pre"]) (auto split: option.splits)
  qed
qed

text \<open>The columns a row is checked under.\<close>

definition row_fields :: "val \<Rightarrow> (string \<times> val) list" where
  "row_fields row = (case row of VMap kvs \<Rightarrow> kvs | _ \<Rightarrow> [(value_column, row)])"

lemma check_row_alt:
  "check_row sc t row =
     (case schema_table sc t of None \<Rightarrow> Inr () | Some def \<Rightarrow> check_fields def t (row_fields row))"
  by (cases row) (auto simp: check_row_def row_fields_def split: option.splits)

text \<open>A row passes the check exactly when every declared column it carries has the
  declared type or is null, and a refusal names the first column that does not, with its
  declared and its actual type.\<close>

theorem check_row_correct:
  "(check_row sc t row = Inr () \<longleftrightarrow>
     (\<forall>(name, v) \<in> set (row_fields row). \<forall>f. schema_field sc t name = Some f \<longrightarrow>
        v = VNull \<or> inferred_type v = fd_ty f)) \<and>
   (\<forall>e. check_row sc t row = Inl e \<longrightarrow>
     (\<exists>pre name v rest f. row_fields row = pre @ (name, v) # rest \<and>
       (\<forall>(n, w) \<in> set pre. \<forall>g. schema_field sc t n = Some g \<longrightarrow> accepts (fd_ty g) w) \<and>
       schema_field sc t name = Some f \<and> v \<noteq> VNull \<and>
       e = \<lparr>fe_table = t, fe_column = name, fe_declared = fd_ty f, fe_actual = inferred_type v\<rparr>))"
proof (intro conjI allI impI)
  show "check_row sc t row = Inr () \<longleftrightarrow>
     (\<forall>(name, v) \<in> set (row_fields row). \<forall>f. schema_field sc t name = Some f \<longrightarrow>
        v = VNull \<or> inferred_type v = fd_ty f)"
    by (auto simp: check_row_alt schema_field_def check_fields_ok accepts_def split: option.splits)
  fix e
  assume "check_row sc t row = Inl e"
  then obtain def where def: "schema_table sc t = Some def" "check_fields def t (row_fields row) = Inl e"
    by (auto simp: check_row_alt split: option.splits)
  from check_fields_error [OF def(2)] show "\<exists>pre name v rest f. row_fields row = pre @ (name, v) # rest \<and>
       (\<forall>(n, w) \<in> set pre. \<forall>g. schema_field sc t n = Some g \<longrightarrow> accepts (fd_ty g) w) \<and>
       schema_field sc t name = Some f \<and> v \<noteq> VNull \<and>
       e = \<lparr>fe_table = t, fe_column = name, fe_declared = fd_ty f, fe_actual = inferred_type v\<rparr>"
    using def(1) by (fastforce simp: check_fields_ok schema_field_def refuse_field_def accepts_def)
qed


text \<open>A table with one declared column, of type int.\<close>

definition sample_schema :: schema where
  "sample_schema = \<lparr>sc_tables = omput ''t'' \<lparr>td_name = ''t'', td_fields = omput ''age''
     \<lparr>fd_name = ''age'', fd_ty = TInt, fd_nullable = True, fd_crdt = None, fd_declared_at = None\<rparr> omempty,
     td_indexes = []\<rparr> omempty\<rparr>"

lemma sample_schema_field:
  "schema_field sample_schema ''t'' ''age'' = Some \<lparr>fd_name = ''age'', fd_ty = TInt, fd_nullable = True,
     fd_crdt = None, fd_declared_at = None\<rparr>"
  by (simp add: sample_schema_def schema_field_def schema_table_def)

lemma check_row_correct_witness:
  "check_row sample_schema ''t'' (VMap [(''age'', VText ''x'')]) \<noteq> Inr () \<and>
   check_row sample_schema ''t'' (VMap [(''age'', VInt 4), (''other'', VText ''x'')]) = Inr ()"
proof -
  have "schema_field sample_schema ''t'' ''other'' = None"
    by (simp add: sample_schema_def schema_field_def schema_table_def)
  then show ?thesis
    using check_row_correct [of sample_schema "''t''" "VMap [(''age'', VText ''x'')]", THEN conjunct1]
      check_row_correct [of sample_schema "''t''" "VMap [(''age'', VInt 4), (''other'', VText ''x'')]", THEN conjunct1]
    by (simp add: row_fields_def sample_schema_field)
qed

end
