(* ===== verification/Core_Index.thy ===== *)
theory Core_Index
  imports Core_Value
begin

text \<open>
  The order-preserving encoding of index keys (\<open>theta-core/src/index.rs\<close>) and the
  comparison it has to follow, the executor's \<open>compare_values\<close>
  (\<open>theta-query/src/exec.rs\<close>).  The order on encodings is the lexicographic order on
  byte lists.
\<close>

section \<open>Model\<close>

definition rank_bool :: byte where "rank_bool = 0x10"
definition rank_number :: byte where "rank_number = 0x20"
definition rank_timestamp :: byte where "rank_timestamp = 0x30"
definition rank_text :: byte where "rank_text = 0x40"
definition rank_bytes :: byte where "rank_bytes = 0x50"

text \<open>\<open>to_be_bytes\<close>: \<open>k\<close> bytes, most significant first.\<close>

fun be_bytes :: "nat \<Rightarrow> nat \<Rightarrow> byte list" where
  "be_bytes 0 n = []"
| "be_bytes (Suc k) n = word_of_nat (n div 256 ^ k) # be_bytes k (n mod 256 ^ k)"

unbundle bit_operations_syntax

definition sign_bit :: "64 word" where
  "sign_bit = push_bit 63 1"

definition order_preserving_f64 :: "f64 \<Rightarrow> byte list" where
  "order_preserving_f64 bits =
     (let flipped = (if bits AND sign_bit \<noteq> 0 then NOT bits else bits OR sign_bit)
      in be_bytes 8 (unat flipped))"

definition order_preserving_i64 :: "int \<Rightarrow> byte list" where
  "order_preserving_i64 i = be_bytes 8 (unat ((word_of_int i :: 64 word) XOR sign_bit))"

definition text_bytes :: "string \<Rightarrow> byte list" where
  "text_bytes s = map (\<lambda>c. word_of_nat (of_char c)) s"

fun encode_value :: "val \<Rightarrow> byte list option" where
  "encode_value (VBool b) = Some [rank_bool, if b then 1 else 0]"
| "encode_value (VInt i) = Some (rank_number # order_preserving_f64 (f64_of_int i))"
| "encode_value (VFloat f) = Some (rank_number # order_preserving_f64 f)"
| "encode_value (VTimestamp t) = Some (rank_timestamp # order_preserving_i64 t)"
| "encode_value (VText s) = Some (rank_text # text_bytes s)"
| "encode_value (VBytes b) = Some (rank_bytes # b)"
| "encode_value VNull = None"
| "encode_value (VMap _) = None"
| "encode_value (VList _) = None"

datatype index_bound =
    BEq val
  | BAnyOf "val list"
  | BRange "(val \<times> bool) option" "(val \<times> bool) option"

datatype 'a span_end = Included 'a | Excluded 'a | Unbounded

type_synonym encoded_span = "byte list span_end \<times> byte list span_end"

definition encode_end :: "(val \<times> bool) option \<Rightarrow> byte list span_end option" where
  "encode_end e =
     (case e of
        None \<Rightarrow> Some Unbounded
      | Some (v, inclusive) \<Rightarrow>
          (case encode_value v of
             None \<Rightarrow> None
           | Some key \<Rightarrow> Some (if inclusive then Included key else Excluded key)))"

fun encode_points :: "val list \<Rightarrow> encoded_span list option" where
  "encode_points [] = Some []"
| "encode_points (v # vs) =
     (case encode_value v of
        None \<Rightarrow> None
      | Some key \<Rightarrow> map_option ((#) (Included key, Included key)) (encode_points vs))"

fun encoded_range :: "index_bound \<Rightarrow> encoded_span list option" where
  "encoded_range (BEq v) =
     (case encode_value v of None \<Rightarrow> None | Some key \<Rightarrow> Some [(Included key, Included key)])"
| "encoded_range (BAnyOf vs) = encode_points vs"
| "encoded_range (BRange low high) =
     (case encode_end low of
        None \<Rightarrow> None
      | Some start \<Rightarrow> (case encode_end high of None \<Rightarrow> None | Some end' \<Rightarrow> Some [(start, end')]))"

text \<open>Whether a key lies in a span, as \<open>BTreeMap::range\<close> decides it.\<close>

definition in_span :: "byte list \<Rightarrow> encoded_span \<Rightarrow> bool" where
  "in_span key sp \<longleftrightarrow>
     (case fst sp of Included a \<Rightarrow> a \<le> key | Excluded a \<Rightarrow> a < key | Unbounded \<Rightarrow> True) \<and>
     (case snd sp of Included b \<Rightarrow> key \<le> b | Excluded b \<Rightarrow> key < b | Unbounded \<Rightarrow> True)"

fun compare_values :: "val \<Rightarrow> val \<Rightarrow> ordering option" where
  "compare_values VNull b = (if b = VNull then Some Equal else None)"
| "compare_values (VBool a) b = (case b of VBool b \<Rightarrow> Some (cmp a b) | _ \<Rightarrow> None)"
| "compare_values (VInt a) b =
     (case b of VInt b \<Rightarrow> Some (cmp a b) | VFloat b \<Rightarrow> f64_partial_cmp (f64_of_int a) b | _ \<Rightarrow> None)"
| "compare_values (VTimestamp a) b = (case b of VTimestamp b \<Rightarrow> Some (cmp a b) | _ \<Rightarrow> None)"
| "compare_values (VFloat a) b =
     (case b of VFloat b \<Rightarrow> f64_partial_cmp a b | VInt b \<Rightarrow> f64_partial_cmp a (f64_of_int b) | _ \<Rightarrow> None)"
| "compare_values (VText a) b = (case b of VText b \<Rightarrow> Some (cmp a b) | _ \<Rightarrow> None)"
| "compare_values (VBytes a) b = (case b of VBytes b \<Rightarrow> Some (cmp a b) | _ \<Rightarrow> None)"
| "compare_values (VMap _) b = None"
| "compare_values (VList _) b = None"

section \<open>Byte order\<close>

lemma byte_less: "m < 256 \<Longrightarrow> n < 256 \<Longrightarrow> (word_of_nat m :: byte) < word_of_nat n \<longleftrightarrow> m < n"
  by (simp add: word_less_nat_alt unat_of_nat)

lemma byte_eq: "m < 256 \<Longrightarrow> n < 256 \<Longrightarrow> (word_of_nat m :: byte) = word_of_nat n \<longleftrightarrow> m = n"
  by (simp add: word_unat_eq_iff unat_of_nat)

lemma div_mod_less:
  fixes m n b :: nat
  assumes "0 < b"
  shows "m < n \<longleftrightarrow> m div b < n div b \<or> m div b = n div b \<and> m mod b < n mod b"
proof -
  have lt: "x < y" if "x div b < y div b" for x y
    using that by (meson div_le_mono not_le)
  have "x < y \<longleftrightarrow> x mod b < y mod b" if "x div b = y div b" for x y
  proof -
    have "x = y div b * b + x mod b" using div_mult_mod_eq [of x b] that by simp
    moreover have "y = y div b * b + y mod b" by simp
    ultimately show ?thesis by linarith
  qed
  then show ?thesis using lt [of m n] lt [of n m]
    by (metis less_asym linorder_neqE_nat)
qed

lemma be_bytes_less:
  "m < 256 ^ k \<Longrightarrow> n < 256 ^ k \<Longrightarrow> be_bytes k m < be_bytes k n \<longleftrightarrow> m < n"
proof (induction k arbitrary: m n)
  case 0
  then show ?case by simp
next
  case (Suc k)
  have d: "m div 256 ^ k < 256" "n div 256 ^ k < 256"
    using Suc.prems by (simp_all add: less_mult_imp_div_less)
  have "m < n \<longleftrightarrow> m div 256 ^ k < n div 256 ^ k \<or>
      m div 256 ^ k = n div 256 ^ k \<and> m mod 256 ^ k < n mod 256 ^ k"
    by (rule div_mod_less) simp
  then show ?case using d Suc.IH [of "m mod 256 ^ k" "n mod 256 ^ k"]
    by (simp add: byte_less byte_eq)
qed

lemma be_bytes_eq:
  "m < 256 ^ k \<Longrightarrow> n < 256 ^ k \<Longrightarrow> be_bytes k m = be_bytes k n \<longleftrightarrow> m = n"
  using be_bytes_less [of m k n] be_bytes_less [of n k m] by (metis less_irrefl linorder_neqE_nat)

lemma unat64_less: "unat (a :: 64 word) < 18446744073709551616"
  using unsigned_less [of a] by simp

lemma be8_less: "be_bytes 8 (unat (a :: 64 word)) < be_bytes 8 (unat (b :: 64 word)) \<longleftrightarrow> unat a < unat b"
  by (rule be_bytes_less) (simp_all add: unat64_less)


lemma be8_eq: "be_bytes 8 (unat (a :: 64 word)) = be_bytes 8 (unat (b :: 64 word)) \<longleftrightarrow> unat a = unat b"
  using be8_less [of a b] be8_less [of b a] by (metis less_irrefl linorder_neqE_nat)

section \<open>Numbers\<close>

lemma f64_neg_bit: "f64_neg b \<longleftrightarrow> bit b 63"
proof -
  have "unat b div 9223372036854775808 < 2" using unat64_less [of b] by (simp add: div_less_iff_less_mult)
  then have "odd (unat b div 9223372036854775808) \<longleftrightarrow> 0 < unat b div 9223372036854775808"
    by (auto simp: less_2_cases_iff)
  also have "\<dots> \<longleftrightarrow> 9223372036854775808 \<le> unat b" by (simp add: div_greater_zero_iff)
  finally have "bit (unat b) 63 \<longleftrightarrow> f64_neg b" by (simp add: bit_iff_odd f64_neg_def)
  then show ?thesis by (simp add: bit_unsigned_iff)
qed

lemma top_bit_and: "(b AND sign_bit \<noteq> 0) \<longleftrightarrow> f64_neg b"
  by (simp only: f64_neg_bit bit_iff_and_push_bit_not_eq_0 sign_bit_def)

lemma unat_top: "unat sign_bit = 9223372036854775808"
  by (simp add: sign_bit_def)

lemma bit_top: "bit sign_bit n \<longleftrightarrow> n = 63"
proof -
  have "bit sign_bit n \<longleftrightarrow> bit (2 ^ 63 :: 64 word) n"
    unfolding sign_bit_def push_bit_of_1 ..
  then show ?thesis by (simp only: bit_exp_iff) auto
qed

lemma or_top:
  assumes "\<not> f64_neg b"
  shows "b OR sign_bit = b + sign_bit"
  using assms by (intro disjunctive_add [symmetric]) (auto simp: f64_neg_bit bit_top)

lemma unat_or_top:
  assumes "\<not> f64_neg b"
  shows "unat (b OR sign_bit) = unat b + 9223372036854775808"
proof -
  have "unat b + unat sign_bit < 18446744073709551616"
    using assms unfolding f64_neg_def unat_top by linarith
  then have "unat (b + sign_bit) = unat b + unat sign_bit"
    by (simp add: unat_word_ariths)
  then show ?thesis by (simp only: or_top [OF assms] unat_top)
qed

lemma unat_not64: "unat (NOT b :: 64 word) = 18446744073709551615 - unat b"
proof -
  have "NOT b = - 1 - b" by (simp add: not_eq_complement)
  moreover have "unat (- 1 - b) = unat (- 1 :: 64 word) - unat b"
    by (rule unat_sub) simp
  moreover have "unat (- 1 :: 64 word) = 18446744073709551615"
    by (simp add: unsigned_minus_1_eq_mask mask_eq_exp_minus_1)
  ultimately show ?thesis by simp
qed

definition f64_order :: "f64 \<Rightarrow> nat" where
  "f64_order b = (if f64_neg b then 9223372036854775807 - f64_mag b else 9223372036854775808 + f64_mag b)"

lemma order_preserving_f64_alt: "order_preserving_f64 b = be_bytes 8 (f64_order b)"
proof (cases "f64_neg b")
  case True
  then have "unat (NOT b) = f64_order b"
    by (simp only: unat_not64 f64_order_def unat_f64 [of b] if_True)
  then show ?thesis using True by (simp only: order_preserving_f64_def Let_def top_bit_and if_True)
next
  case False
  have "unat (b OR sign_bit) = f64_order b"
    using False by (simp only: unat_or_top [OF False] f64_order_def unat_f64 [of b] if_False add.commute)
  then show ?thesis using False by (simp only: order_preserving_f64_def Let_def top_bit_and if_False)
qed

lemma f64_order_bound: "f64_order b < 256 ^ 8"
  using f64_mag_bound [of b] by (auto simp: f64_order_def)

text \<open>A zero is written without a sign; then the encoding and the comparison agree.\<close>

definition signless_zero :: "f64 \<Rightarrow> bool" where
  "signless_zero b \<longleftrightarrow> \<not> (f64_neg b \<and> f64_mag b = 0)"

lemma f64_order_cmp:
  assumes "signless_zero a" and "signless_zero b" and "f64_partial_cmp a b = Some r"
  shows "r = cmp (order_preserving_f64 a) (order_preserving_f64 b)"
proof -
  have "order_preserving_f64 a < order_preserving_f64 b \<longleftrightarrow> f64_order a < f64_order b"
    unfolding order_preserving_f64_alt by (rule be_bytes_less [OF f64_order_bound f64_order_bound])
  moreover have "order_preserving_f64 a = order_preserving_f64 b \<longleftrightarrow> f64_order a = f64_order b"
    unfolding order_preserving_f64_alt by (rule be_bytes_eq [OF f64_order_bound f64_order_bound])
  moreover have "f64_order a < f64_order b \<longleftrightarrow> f64_rank a < f64_rank b"
    "f64_order a = f64_order b \<longleftrightarrow> f64_rank a = f64_rank b"
    using assms(1,2) f64_mag_bound [of a] f64_mag_bound [of b]
    by (auto simp: f64_order_def f64_rank_def signless_zero_def split: if_splits)
  ultimately show ?thesis using assms(3) by (auto simp: f64_partial_cmp_def cmp_def split: if_splits)
qed

section \<open>Timestamps\<close>

lemma xor_top: "(b :: 64 word) XOR sign_bit = b + sign_bit"
proof (cases "f64_neg b")
  case False
  then have "b XOR sign_bit = b OR sign_bit"
    by (intro bit_eqI) (auto simp: f64_neg_bit bit_xor_iff bit_or_iff bit_top)
  then show ?thesis using or_top [OF False] by simp
next
  case True
  let ?c = "b XOR sign_bit"
  have c: "\<not> f64_neg ?c" using True by (simp add: f64_neg_bit bit_xor_iff bit_top)
  have "?c OR sign_bit = b"
    using True by (intro bit_eqI) (auto simp: f64_neg_bit bit_xor_iff bit_or_iff bit_top)
  then have "?c + sign_bit = b" using or_top [OF c] by simp
  then have "?c = b - sign_bit" by (metis add_diff_cancel_right')
  also have "\<dots> = b + sign_bit" by (simp add: sign_bit_def)
  finally show ?thesis .
qed

lemma order_preserving_i64_alt:
  assumes "i64_min \<le> i" and "i \<le> i64_max"
  shows "order_preserving_i64 i = be_bytes 8 (nat (i + 9223372036854775808))"
proof -
  have "(word_of_int i :: 64 word) + sign_bit = word_of_int (i + 9223372036854775808)"
    by (simp add: sign_bit_def)
  then have "unat ((word_of_int i :: 64 word) XOR sign_bit) = nat (i + 9223372036854775808)"
  proof -
    assume eq: "(word_of_int i :: 64 word) + sign_bit = word_of_int (i + 9223372036854775808)"
    have "uint (word_of_int (i + 9223372036854775808) :: 64 word) = i + 9223372036854775808"
      using assms by (subst uint_word_of_int) simp
    then have "unat (word_of_int (i + 9223372036854775808) :: 64 word) = nat (i + 9223372036854775808)"
      by (simp add: unat_eq_nat_uint)
    then show ?thesis by (simp only: xor_top eq)
  qed
  then show ?thesis by (simp only: order_preserving_i64_def)
qed

lemma i64_order_cmp:
  assumes "i64_min \<le> i" "i \<le> i64_max" "i64_min \<le> j" "j \<le> i64_max"
  shows "cmp i j = cmp (order_preserving_i64 i) (order_preserving_i64 j)"
proof -
  have "nat (i + 9223372036854775808) < 256 ^ 8" "nat (j + 9223372036854775808) < 256 ^ 8"
    using assms by (simp_all add: nat_less_iff)
  then show ?thesis
    using be_bytes_less [of "nat (i + 9223372036854775808)" 8 "nat (j + 9223372036854775808)"]
      be_bytes_eq [of "nat (i + 9223372036854775808)" 8 "nat (j + 9223372036854775808)"] assms
    by (auto simp: order_preserving_i64_alt cmp_def)
qed


section \<open>Integers as floats\<close>

text \<open>Up to \<open>2 ^ 53\<close> the conversion is exact, hence strictly monotone.\<close>

lemma bit_length_53: "0 < n \<Longrightarrow> n < 9007199254740992 \<Longrightarrow> bit_length n \<le> 53"
proof (rule ccontr)
  assume n: "0 < n" "n < 9007199254740992" "\<not> bit_length n \<le> 53"
  then have "(2::nat) ^ 53 \<le> 2 ^ (bit_length n - 1)" by (intro power_increasing) auto
  also have "\<dots> \<le> n" using bit_length_bounds [OF n(1)] by simp
  finally show False using n(2) by simp
qed

definition f64_mag_exact :: "nat \<Rightarrow> nat" where
  "f64_mag_exact n = (bit_length n + 1021) * 2 ^ 52 + n * 2 ^ (53 - bit_length n)"

lemma f64_mag_small:
  assumes "0 < n" and "n < 9007199254740992"
  shows "f64_mag_of_nat n = f64_mag_exact n"
    and "(bit_length n + 1022) * 2 ^ 52 \<le> f64_mag_exact n"
    and "f64_mag_exact n < (bit_length n + 1023) * 2 ^ 52"
proof -
  let ?l = "bit_length n"
  have l: "2 ^ (?l - 1) \<le> n" "n < 2 ^ ?l" "0 < ?l" "?l \<le> 53"
    using bit_length_bounds [OF assms(1)] bit_length_53 [OF assms] by auto
  show "f64_mag_of_nat n = f64_mag_exact n"
  proof -
    obtain k where k: "?l = Suc k" using l(3) by (cases ?l) auto
    with l(4) have "k \<le> 52" by simp
    then show ?thesis using assms(1)
      by (simp add: f64_mag_of_nat_def f64_mag_exact_def Let_def round_significand_def k algebra_simps)
  qed
  have "(2::nat) ^ (?l - 1) * 2 ^ (53 - ?l) = 2 ^ 52"
    using l(3,4) by (subst power_add [symmetric]) simp
  moreover have "2 ^ (?l - 1) * 2 ^ (53 - ?l) \<le> n * 2 ^ (53 - ?l)" using l(1) by simp
  ultimately show "(?l + 1022) * 2 ^ 52 \<le> f64_mag_exact n" by (simp add: f64_mag_exact_def)
  have "(2::nat) ^ ?l * 2 ^ (53 - ?l) = 2 ^ 53"
    using l(4) by (subst power_add [symmetric]) simp
  moreover have "n * 2 ^ (53 - ?l) < 2 ^ ?l * 2 ^ (53 - ?l)" using l(2) by simp
  ultimately show "f64_mag_exact n < (?l + 1023) * 2 ^ 52" by (simp add: f64_mag_exact_def)
qed

lemma f64_mag_mono:
  assumes "m < n" and "n < 9007199254740992"
  shows "f64_mag_of_nat m < f64_mag_of_nat n"
proof (cases "m = 0")
  case True
  then show ?thesis using f64_mag_small [of n] assms by (simp add: f64_mag_of_nat_def [of 0])
next
  case False
  then have m: "0 < m" "m < 9007199254740992" and n: "0 < n" using assms by auto
  show ?thesis
  proof (cases "bit_length m = bit_length n")
    case True
    then show ?thesis using assms(1) f64_mag_small(1) [OF m] f64_mag_small(1) [OF n assms(2)]
      by (simp add: f64_mag_exact_def)
  next
    case False
    then have "bit_length m < bit_length n" using bit_length_mono [of m n] assms(1) by simp
    then have "(bit_length m + 1023) * 2 ^ 52 \<le> (bit_length n + 1022) * (2::nat) ^ 52"
      by (intro mult_right_mono) auto
    then show ?thesis
      using f64_mag_small [OF m] f64_mag_small [OF n assms(2)] by linarith
  qed
qed

lemma f64_mag_nat_bound: "n < 9007199254740992 \<Longrightarrow> f64_mag_of_nat n < 9218868437227405312"
proof (cases "n = 0")
  case True
  then show ?thesis by (simp add: f64_mag_of_nat_def)
next
  case False
  assume n: "n < 9007199254740992"
  with False have "f64_mag_of_nat n < (bit_length n + 1023) * 2 ^ 52" using f64_mag_small [of n] by simp
  also have "\<dots> \<le> (53 + 1023) * 2 ^ 52" using bit_length_53 [of n] False n by (intro mult_right_mono) auto
  finally show ?thesis by simp
qed

lemma f64_of_int_parts:
  assumes "\<bar>i\<bar> < 9007199254740992"
  shows "f64_neg (f64_of_int i) \<longleftrightarrow> i < 0" and "f64_mag (f64_of_int i) = f64_mag_of_nat (nat \<bar>i\<bar>)"
    and "\<not> f64_nan (f64_of_int i)"
proof -
  let ?m = "f64_mag_of_nat (nat \<bar>i\<bar>)"
  have m: "?m < 9218868437227405312" using assms by (intro f64_mag_nat_bound) auto
  have u: "unat (f64_of_int i) = (if i < 0 then 9223372036854775808 + ?m else ?m)"
  proof -
    have "unat (word_of_nat k :: 64 word) = k" if "k < 18446744073709551616" for k
      using that by (simp add: unat_of_nat)
    from this [of "9223372036854775808 + ?m"] this [of ?m] show ?thesis
      using m by (auto simp: f64_of_int_def simp del: of_nat_add)
  qed
  show "f64_neg (f64_of_int i) \<longleftrightarrow> i < 0"
    by (cases "i < 0") (use m in \<open>simp_all add: f64_neg_def u\<close>)
  show mag: "f64_mag (f64_of_int i) = ?m"
    by (cases "i < 0") (use m in \<open>simp_all add: f64_mag_def u\<close>)
  show "\<not> f64_nan (f64_of_int i)" using m by (simp add: f64_nan_def mag)
qed

lemma f64_of_int_cmp:
  assumes "\<bar>i\<bar> < 9007199254740992" and "\<bar>j\<bar> < 9007199254740992"
  shows "f64_partial_cmp (f64_of_int i) (f64_of_int j) = Some (cmp i j)"
proof -
  have "f64_rank (f64_of_int i) < f64_rank (f64_of_int j)" if "i < j" "\<bar>i\<bar> < 9007199254740992" "\<bar>j\<bar> < 9007199254740992" for i j
  proof -
    have pos: "0 < f64_mag_of_nat (nat \<bar>k\<bar>)" if "k \<noteq> 0" "\<bar>k\<bar> < 9007199254740992" for k :: int
      using f64_mag_mono [of 0 "nat \<bar>k\<bar>"] that by (simp add: f64_mag_of_nat_def [of 0])
    consider "0 \<le> i" | "i < 0" "0 \<le> j" | "j < 0" by linarith
    then show ?thesis
    proof cases
      case 1
      then show ?thesis using that f64_mag_mono [of "nat i" "nat j"] f64_of_int_parts [of i] f64_of_int_parts [of j]
        by (simp add: f64_rank_def)
    next
      case 2
      then show ?thesis using that pos [of i] f64_of_int_parts [of i] f64_of_int_parts [of j]
        by (simp add: f64_rank_def)
    next
      case 3
      then show ?thesis using that f64_mag_mono [of "nat (- j)" "nat (- i)"] f64_of_int_parts [of i] f64_of_int_parts [of j]
        by (simp add: f64_rank_def)
    qed
  qed
  from this [of i j] this [of j i] show ?thesis
    using assms f64_of_int_parts(3) [of i] f64_of_int_parts(3) [of j]
    by (cases i j rule: linorder_cases) (auto simp: f64_partial_cmp_def cmp_def)
qed


section \<open>The encoding follows the comparison\<close>

lemma text_bytes_less: "text_bytes s < text_bytes t \<longleftrightarrow> s < t"
  and text_bytes_eq: "text_bytes s = text_bytes t \<longleftrightarrow> s = t"
proof -
  have c: "(of_char c :: nat) < 256" for c
    using of_char_mod_256 [of c, where 'a = nat] by (metis mod_less_divisor zero_less_numeral)
  have eq: "text_bytes s = text_bytes t \<longleftrightarrow> s = t" for s t
  proof (induction s arbitrary: t)
    case Nil
    then show ?case by (auto simp: text_bytes_def)
  next
    case (Cons x s)
    then show ?case by (cases t) (auto simp: text_bytes_def byte_eq c)
  qed
  then show "text_bytes s = text_bytes t \<longleftrightarrow> s = t" .
  show "text_bytes s < text_bytes t \<longleftrightarrow> s < t"
  proof (induction s arbitrary: t)
    case Nil
    then show ?case by (cases t) (auto simp: text_bytes_def)
  next
    case (Cons x s)
    then show ?case
      by (cases t) (auto simp: text_bytes_def byte_less byte_eq c less_char_def)
  qed
qed

text \<open>Where the comparison and the encoding can disagree is excluded: integers beyond
  \<open>2 ^ 53\<close> in magnitude, which collide as floats, and the negative zero.\<close>

fun index_exact :: "val \<Rightarrow> bool" where
  "index_exact (VInt i) \<longleftrightarrow> \<bar>i\<bar> < 9007199254740992"
| "index_exact (VFloat f) \<longleftrightarrow> signless_zero f"
| "index_exact (VTimestamp t) \<longleftrightarrow> i64_min \<le> t \<and> t \<le> i64_max"
| "index_exact _ \<longleftrightarrow> True"

lemma f64_of_int_signless: "\<bar>i\<bar> < 9007199254740992 \<Longrightarrow> signless_zero (f64_of_int i)"
  using f64_mag_mono [of 0 "nat \<bar>i\<bar>"]
  by (auto simp: signless_zero_def f64_of_int_parts f64_mag_of_nat_def [of 0])

lemma cmp_Cons: "cmp (x # xs) (x # ys) = cmp xs ys"
  by (simp add: cmp_def)

lemma encode_follows_compare:
  assumes "index_exact a" and "index_exact b" and "compare_values a b = Some r"
    and "encode_value a = Some ea" and "encode_value b = Some eb"
  shows "r = cmp ea eb"
proof -
  have f: "r = cmp (rank_number # order_preserving_f64 x) (rank_number # order_preserving_f64 y)"
    if "f64_partial_cmp x y = Some r" "signless_zero x" "signless_zero y" for x y
    using f64_order_cmp [OF that(2,3,1)] by (simp only: cmp_Cons)
  show ?thesis
  proof (cases a)
    case (VInt i)
    show ?thesis
    proof (cases b)
      case (VInt j)
      then show ?thesis using \<open>a = VInt i\<close> assms f [of "f64_of_int i" "f64_of_int j"] f64_of_int_cmp [of i j]
          f64_of_int_signless by auto
    next
      case (VFloat g)
      then show ?thesis using \<open>a = VInt i\<close> assms f f64_of_int_signless by auto
    qed (use VInt assms in auto)
  next
    case (VFloat g)
    then show ?thesis using assms f f64_of_int_signless by (cases b) auto
  next
    case (VTimestamp t)
    then show ?thesis using assms i64_order_cmp [of t] by (cases b) (auto simp: cmp_Cons)
  next
    case (VText s)
    then show ?thesis using assms
      by (cases b) (auto simp: cmp_Cons cmp_def text_bytes_less text_bytes_eq split: if_splits)
  next
    case (VBool p)
    then show ?thesis using assms by (cases b; cases p) (auto simp: cmp_Cons cmp_def split: if_splits)
  next
    case (VBytes p)
    then show ?thesis using assms by (cases b) (auto simp: cmp_Cons cmp_def split: if_splits)
  qed (use assms in auto)
qed

text \<open>What a bound asks of a value, in terms of the executor's comparison.\<close>

fun bound_matches :: "index_bound \<Rightarrow> val \<Rightarrow> bool" where
  "bound_matches (BEq v) x \<longleftrightarrow> compare_values x v = Some Equal"
| "bound_matches (BAnyOf vs) x \<longleftrightarrow> (\<exists>v\<in>set vs. compare_values x v = Some Equal)"
| "bound_matches (BRange low high) x \<longleftrightarrow>
     (case low of None \<Rightarrow> True
      | Some (v, inclusive) \<Rightarrow> compare_values x v = Some Greater \<or> inclusive \<and> compare_values x v = Some Equal) \<and>
     (case high of None \<Rightarrow> True
      | Some (v, inclusive) \<Rightarrow> compare_values x v = Some Less \<or> inclusive \<and> compare_values x v = Some Equal)"

fun bound_values :: "index_bound \<Rightarrow> val list" where
  "bound_values (BEq v) = [v]"
| "bound_values (BAnyOf vs) = vs"
| "bound_values (BRange low high) =
     (case low of None \<Rightarrow> [] | Some (v, _) \<Rightarrow> [v]) @ (case high of None \<Rightarrow> [] | Some (v, _) \<Rightarrow> [v])"

lemma encodable_compare:
  "compare_values x v = Some r \<Longrightarrow> encode_value v = Some ev \<Longrightarrow> \<exists>ex. encode_value x = Some ex"
  by (cases x; cases v) auto

lemma encode_points_covers:
  "encode_points vs = Some spans \<Longrightarrow> v \<in> set vs \<Longrightarrow>
     \<exists>ev. encode_value v = Some ev \<and> (Included ev, Included ev) \<in> set spans"
  by (induction vs arbitrary: spans) (auto split: option.splits)

lemma cmp_ord: "Less = cmp a b \<longleftrightarrow> a < b" "Equal = cmp a b \<longleftrightarrow> a = b" "Greater = cmp a b \<longleftrightarrow> b < a"
  by (auto simp: eq_commute [of _ "cmp a b"])

lemma encoded_range_covers_aux:
  assumes exact: "index_exact x" "\<forall>v \<in> set (bound_values bound). index_exact v"
    and spans: "encoded_range bound = Some spans" and m: "bound_matches bound x"
    and ne: "bound_values bound \<noteq> []"
  shows "\<exists>ex sp. encode_value x = Some ex \<and> sp \<in> set spans \<and> in_span ex sp"
proof (cases bound)
  case (BEq v)
  then obtain ev where ev: "encode_value v = Some ev" "spans = [(Included ev, Included ev)]"
    using spans by (auto split: option.splits)
  then obtain ex where "encode_value x = Some ex" using m BEq encodable_compare by fastforce
  moreover have "ex = ev"
    using encode_follows_compare [OF exact(1) _ _ \<open>encode_value x = Some ex\<close> ev(1)] exact(2) m BEq
    by (auto simp: cmp_ord)
  ultimately show ?thesis using ev(2) by (auto simp: in_span_def)
next
  case (BAnyOf vs)
  then obtain v where v: "v \<in> set vs" "compare_values x v = Some Equal" using m by auto
  obtain ev where ev: "encode_value v = Some ev" "(Included ev, Included ev) \<in> set spans"
    using encode_points_covers [OF _ v(1)] spans BAnyOf by auto
  obtain ex where ex: "encode_value x = Some ex" using v(2) ev(1) encodable_compare by blast
  have "ex = ev"
    using encode_follows_compare [OF exact(1) _ v(2) ex ev(1)] exact(2) v(1) BAnyOf by (auto simp: cmp_ord)
  then show ?thesis using ev(2) ex by (force simp: in_span_def)
next
  case (BRange low high)
  then obtain s e where se: "encode_end low = Some s" "encode_end high = Some e" "spans = [(s, e)]"
    using spans by (auto split: option.splits)
  have "\<exists>ex. encode_value x = Some ex"
    using m BRange ne se(1,2)
    by (auto simp: encode_end_def split: option.splits prod.splits dest: encodable_compare)
  then obtain ex where ex: "encode_value x = Some ex" ..
  have low: "case s of Included a \<Rightarrow> a \<le> ex | Excluded a \<Rightarrow> a < ex | Unbounded \<Rightarrow> True"
    using se(1) m exact BRange encode_follows_compare [OF exact(1) _ _ ex]
    by (fastforce simp: encode_end_def cmp_ord split: option.splits if_splits)
  have high: "case e of Included b \<Rightarrow> ex \<le> b | Excluded b \<Rightarrow> ex < b | Unbounded \<Rightarrow> True"
    using se(2) m exact BRange encode_follows_compare [OF exact(1) _ _ ex]
    by (fastforce simp: encode_end_def cmp_ord split: option.splits if_splits)
  show ?thesis using ex se(3) low high by (auto simp: in_span_def)
qed

text \<open>An index key range never leaves out a value the executor would match: if a bound
  can be served from an index and the executor's comparison accepts a value for it, the
  value is indexed and its key lies in one of the spans swept, provided no integer
  exceeds \<open>2 ^ 53\<close> in magnitude and no float is the negative zero.\<close>

theorem encoded_range_covers:
  assumes "index_exact x" and "\<forall>v \<in> set (bound_values bound). index_exact v"
    and "encoded_range bound = Some spans" and "bound_matches bound x"
    and "bound_values bound \<noteq> []"
  shows "\<exists>key sp. encode_value x = Some key \<and> sp \<in> set spans \<and> in_span key sp"
  using encoded_range_covers_aux [OF assms] .

lemma encoded_range_covers_witness:
  "\<exists>key sp. encode_value (VInt 5) = Some key \<and>
     sp \<in> set (the (encoded_range (BRange (Some (VInt 5, True)) None))) \<and> in_span key sp"
  by (rule encoded_range_covers [where bound = "BRange (Some (VInt 5, True)) None"]) (auto simp: encode_end_def)

text \<open>Outside those bounds it does leave values out: a stored \<open>2 ^ 53 + 1\<close> is greater
  than \<open>2 ^ 53\<close> for the executor and has the same key, and the two zeros are equal for
  the executor and have different keys.\<close>

lemma bit_length_2_53: "bit_length 9007199254740992 = 54" "bit_length 9007199254740993 = 54"
  by (simp_all add: bit_length.simps)

lemma index_key_collision:
  "compare_values (VInt 9007199254740993) (VInt 9007199254740992) = Some Greater"
  "encode_value (VInt 9007199254740993) = encode_value (VInt 9007199254740992)"
proof -
  have "f64_of_int 9007199254740993 = f64_of_int 9007199254740992"
    by (simp add: f64_of_int_def f64_mag_of_nat_def bit_length_2_53 round_significand_def Let_def)
  then show "encode_value (VInt 9007199254740993) = encode_value (VInt 9007199254740992)" by simp
qed simp

lemma index_key_zeros:
  "compare_values (VFloat 0) (VFloat 0x8000000000000000) = Some Equal"
  "encode_value (VFloat 0) \<noteq> encode_value (VFloat 0x8000000000000000)"
proof -
  have "f64_order 0 \<noteq> f64_order 0x8000000000000000"
    by (simp add: f64_order_def f64_neg_def f64_mag_def)
  then show "encode_value (VFloat 0) \<noteq> encode_value (VFloat 0x8000000000000000)"
    using be_bytes_eq [OF f64_order_bound f64_order_bound] by (simp add: order_preserving_f64_alt)
  show "compare_values (VFloat 0) (VFloat 0x8000000000000000) = Some Equal"
    by (simp add: f64_partial_cmp_def f64_nan_def f64_mag_def f64_rank_def)
qed

end
