(* ===== verification/Query_Plan.thy ===== *)
theory Query_Plan
  imports Core_Hash Core_Address Core_Index
begin

text \<open>
  The typed plan (\<open>theta-query/src/plan.rs\<close>), the parameters it asks for, and the
  canonical encoding its hash is taken over.  Two plans that encode to the same bytes are
  the same plan, except that an aggregate over the column with the empty name encodes like
  one over no column.
\<close>

section \<open>Plans\<close>

datatype expr =
    ELiteral val
  | EColumn string
  | EParam string "value_type option"

datatype predicate =
    PTrue
  | PEq string expr
  | PNe string expr
  | PLt string expr
  | PLte string expr
  | PGt string expr
  | PGte string expr
  | PIn string "expr list"
  | PIsNull string
  | PAnd "predicate list"
  | POr "predicate list"
  | PNot predicate

datatype sort_order = Asc | Desc

datatype agg_func = AggCount | AggSum | AggMin | AggMax | AggAvg

record aggregate =
  ag_func :: agg_func
  ag_column :: "string option"
  ag_alias :: string

datatype plan =
    Scan string
  | PointLookup string expr
  | IndexScan string string predicate
  | Filter plan predicate
  | Project plan "string list"
  | Sort plan "(string \<times> sort_order) list"
  | Limit plan nat nat
  | Aggregate plan "string list" "aggregate list"
  | Join plan plan string string

fun source_table :: "plan \<Rightarrow> string" where
  "source_table (Scan t) = t"
| "source_table (PointLookup t _) = t"
| "source_table (IndexScan t _ _) = t"
| "source_table (Filter p _) = source_table p"
| "source_table (Project p _) = source_table p"
| "source_table (Sort p _) = source_table p"
| "source_table (Limit p _ _) = source_table p"
| "source_table (Aggregate p _ _) = source_table p"
| "source_table (Join p _ _ _) = source_table p"

fun expr_params :: "expr \<Rightarrow> (string \<times> value_type option) list" where
  "expr_params (EParam name ty) = [(name, ty)]"
| "expr_params _ = []"

fun pred_params :: "predicate \<Rightarrow> (string \<times> value_type option) list" where
  "pred_params PTrue = []"
| "pred_params (PIsNull _) = []"
| "pred_params (PEq _ e) = expr_params e"
| "pred_params (PNe _ e) = expr_params e"
| "pred_params (PLt _ e) = expr_params e"
| "pred_params (PLte _ e) = expr_params e"
| "pred_params (PGt _ e) = expr_params e"
| "pred_params (PGte _ e) = expr_params e"
| "pred_params (PIn _ es) = concat (map expr_params es)"
| "pred_params (PAnd ps) = concat (map pred_params ps)"
| "pred_params (POr ps) = concat (map pred_params ps)"
| "pred_params (PNot p) = pred_params p"

text \<open>A join takes its own binding out of everything collected so far, which includes
  what the plan's enclosing operators had collected before it.\<close>

fun collect_params :: "plan \<Rightarrow> (string \<times> value_type option) list \<Rightarrow> (string \<times> value_type option) list" where
  "collect_params (Scan _) out = out"
| "collect_params (PointLookup _ e) out = out @ expr_params e"
| "collect_params (IndexScan _ _ p) out = out @ pred_params p"
| "collect_params (Filter i p) out = collect_params i out @ pred_params p"
| "collect_params (Project i _) out = collect_params i out"
| "collect_params (Sort i _) out = collect_params i out"
| "collect_params (Limit i _ _) out = collect_params i out"
| "collect_params (Aggregate i _ _) out = collect_params i out"
| "collect_params (Join outer inner _ binds) out =
     filter (\<lambda>(name, _). name \<noteq> binds) (collect_params inner (collect_params outer out))"

definition plan_params :: "plan \<Rightarrow> (string \<times> value_type option) list" where
  "plan_params p = collect_params p []"

section \<open>The canonical encoding\<close>

definition enc_str :: "string \<Rightarrow> byte list" where
  "enc_str s = le64 (length s) @ text_bytes s"

fun enc_val :: "val \<Rightarrow> byte list" where
  "enc_val VNull = [50]"
| "enc_val (VBool b) = [51, if b then 1 else 0]"
| "enc_val (VInt n) = 52 # le64_i n"
| "enc_val (VFloat f) = 53 # le64 (unat f)"
| "enc_val (VText s) = 54 # enc_str s"
| "enc_val (VBytes b) = 55 # le64 (length b) @ b"
| "enc_val (VTimestamp t) = 56 # le64_i t"
| "enc_val (VList vs) = 57 # le64 (length vs) @ concat (map enc_val vs)"
| "enc_val (VMap kvs) = 58 # le64 (length kvs) @ concat (map (\<lambda>(k, v). enc_str k @ enc_val v) kvs)"

fun enc_expr :: "expr \<Rightarrow> byte list" where
  "enc_expr (ELiteral v) = 40 # enc_val v"
| "enc_expr (EColumn c) = 41 # enc_str c"
| "enc_expr (EParam name ty) = 42 # enc_str name @ enc_str (case ty of None \<Rightarrow> [] | Some t \<Rightarrow> type_name t)"

fun enc_pred :: "predicate \<Rightarrow> byte list" where
  "enc_pred PTrue = [20]"
| "enc_pred (PEq c e) = 21 # enc_str c @ enc_expr e"
| "enc_pred (PNe c e) = 22 # enc_str c @ enc_expr e"
| "enc_pred (PLt c e) = 23 # enc_str c @ enc_expr e"
| "enc_pred (PLte c e) = 24 # enc_str c @ enc_expr e"
| "enc_pred (PGt c e) = 25 # enc_str c @ enc_expr e"
| "enc_pred (PGte c e) = 26 # enc_str c @ enc_expr e"
| "enc_pred (PIn c es) = 27 # enc_str c @ le64 (length es) @ concat (map enc_expr es)"
| "enc_pred (PIsNull c) = 28 # enc_str c"
| "enc_pred (PAnd ps) = 29 # le64 (length ps) @ concat (map enc_pred ps)"
| "enc_pred (POr ps) = 30 # le64 (length ps) @ concat (map enc_pred ps)"
| "enc_pred (PNot p) = 31 # enc_pred p"

fun enc_order :: "sort_order \<Rightarrow> byte" where
  "enc_order Asc = 0"
| "enc_order Desc = 1"

fun enc_func :: "agg_func \<Rightarrow> byte" where
  "enc_func AggCount = 0"
| "enc_func AggSum = 1"
| "enc_func AggMin = 2"
| "enc_func AggMax = 3"
| "enc_func AggAvg = 4"

definition enc_aggregate :: "aggregate \<Rightarrow> byte list" where
  "enc_aggregate a =
     enc_func (ag_func a) # enc_str (case ag_column a of None \<Rightarrow> [] | Some c \<Rightarrow> c) @ enc_str (ag_alias a)"

fun enc_plan :: "plan \<Rightarrow> byte list" where
  "enc_plan (Scan t) = 1 # enc_str t"
| "enc_plan (PointLookup t e) = 2 # enc_str t @ enc_expr e"
| "enc_plan (IndexScan t i p) = 3 # enc_str t @ enc_str i @ enc_pred p"
| "enc_plan (Filter i p) = 4 # enc_plan i @ enc_pred p"
| "enc_plan (Project i cs) = 5 # enc_plan i @ le64 (length cs) @ concat (map enc_str cs)"
| "enc_plan (Sort i by') =
     6 # enc_plan i @ le64 (length by') @ concat (map (\<lambda>(c, ord). enc_str c @ [enc_order ord]) by')"
| "enc_plan (Limit i count offset) = 7 # enc_plan i @ le64 count @ le64 offset"
| "enc_plan (Aggregate i gs as) =
     8 # enc_plan i @ le64 (length gs) @ concat (map enc_str gs) @ le64 (length as) @ concat (map enc_aggregate as)"
| "enc_plan (Join outer inner c b) = 9 # enc_plan outer @ enc_plan inner @ enc_str c @ enc_str b"

text \<open>The hash: the first eight bytes of the digest, little endian.\<close>

definition le_value :: "byte list \<Rightarrow> nat" where
  "le_value bs = foldr (\<lambda>b n. unat b + 256 * n) bs 0"

definition plan_hash :: "(byte list \<Rightarrow> hash) \<Rightarrow> plan \<Rightarrow> nat" where
  "plan_hash blake3 p = le_value (take 8 (blake3 (enc_plan p)))"

section \<open>The encoding is prefix free\<close>

text \<open>What the Rust types guarantee of a plan: lengths and integers are in range.  The
  condition on an aggregate's column is the one the encoding needs beyond them.\<close>

abbreviation fits :: "'a list \<Rightarrow> bool" where
  "fits xs \<equiv> length xs \<le> u64_max"

fun val_fits :: "val \<Rightarrow> bool" where
  "val_fits (VInt n) \<longleftrightarrow> i64_min \<le> n \<and> n \<le> i64_max"
| "val_fits (VTimestamp n) \<longleftrightarrow> i64_min \<le> n \<and> n \<le> i64_max"
| "val_fits (VText s) \<longleftrightarrow> fits s"
| "val_fits (VBytes b) \<longleftrightarrow> fits b"
| "val_fits (VList vs) \<longleftrightarrow> fits vs \<and> list_all val_fits vs"
| "val_fits (VMap kvs) \<longleftrightarrow> fits kvs \<and> list_all (\<lambda>(k, v). fits k \<and> val_fits v) kvs"
| "val_fits _ \<longleftrightarrow> True"

fun expr_fits :: "expr \<Rightarrow> bool" where
  "expr_fits (ELiteral v) \<longleftrightarrow> val_fits v"
| "expr_fits (EColumn c) \<longleftrightarrow> fits c"
| "expr_fits (EParam n _) \<longleftrightarrow> fits n"

fun pred_fits :: "predicate \<Rightarrow> bool" where
  "pred_fits PTrue \<longleftrightarrow> True"
| "pred_fits (PEq c e) \<longleftrightarrow> fits c \<and> expr_fits e"
| "pred_fits (PNe c e) \<longleftrightarrow> fits c \<and> expr_fits e"
| "pred_fits (PLt c e) \<longleftrightarrow> fits c \<and> expr_fits e"
| "pred_fits (PLte c e) \<longleftrightarrow> fits c \<and> expr_fits e"
| "pred_fits (PGt c e) \<longleftrightarrow> fits c \<and> expr_fits e"
| "pred_fits (PGte c e) \<longleftrightarrow> fits c \<and> expr_fits e"
| "pred_fits (PIn c es) \<longleftrightarrow> fits c \<and> fits es \<and> list_all expr_fits es"
| "pred_fits (PIsNull c) \<longleftrightarrow> fits c"
| "pred_fits (PAnd ps) \<longleftrightarrow> fits ps \<and> list_all pred_fits ps"
| "pred_fits (POr ps) \<longleftrightarrow> fits ps \<and> list_all pred_fits ps"
| "pred_fits (PNot p) \<longleftrightarrow> pred_fits p"

definition aggregate_fits :: "aggregate \<Rightarrow> bool" where
  "aggregate_fits a \<longleftrightarrow> ag_column a \<noteq> Some [] \<and> fits (ag_alias a) \<and>
     (case ag_column a of None \<Rightarrow> True | Some c \<Rightarrow> fits c)"

fun plan_fits :: "plan \<Rightarrow> bool" where
  "plan_fits (Scan t) \<longleftrightarrow> fits t"
| "plan_fits (PointLookup t e) \<longleftrightarrow> fits t \<and> expr_fits e"
| "plan_fits (IndexScan t i p) \<longleftrightarrow> fits t \<and> fits i \<and> pred_fits p"
| "plan_fits (Filter i p) \<longleftrightarrow> plan_fits i \<and> pred_fits p"
| "plan_fits (Project i cs) \<longleftrightarrow> plan_fits i \<and> fits cs \<and> list_all fits cs"
| "plan_fits (Sort i by') \<longleftrightarrow> plan_fits i \<and> fits by' \<and> list_all (\<lambda>(c, _). fits c) by'"
| "plan_fits (Limit i count offset) \<longleftrightarrow> plan_fits i \<and> count \<le> u64_max \<and> offset \<le> u64_max"
| "plan_fits (Aggregate i gs as) \<longleftrightarrow>
     plan_fits i \<and> fits gs \<and> list_all fits gs \<and> fits as \<and> list_all aggregate_fits as"
| "plan_fits (Join outer inner c b) \<longleftrightarrow> plan_fits outer \<and> plan_fits inner \<and> fits c \<and> fits b"

lemma append_same_length: "length a = length b \<Longrightarrow> a @ r = b @ s \<Longrightarrow> a = b \<and> r = s"
  by simp

lemma le64_pf:
  assumes "m \<le> u64_max" and "n \<le> u64_max" and "le64 m @ r = le64 n @ s"
  shows "m = n \<and> r = s"
proof -
  have "length (le64 m) = length (le64 n)" by (simp only: le64_length)
  then have "le64 m = le64 n \<and> r = s" using assms(3) by (rule append_same_length)
  then show ?thesis using le64_inj [OF _ assms(1,2)] by blast
qed

lemma le64_i_pf:
  assumes "i64_min \<le> m" "m \<le> i64_max" "i64_min \<le> n" "n \<le> i64_max" and "le64_i m @ r = le64_i n @ s"
  shows "m = n \<and> r = s"
proof -
  have "length (le64_i m) = length (le64_i n)" by (simp only: le64_i_def le_bytes_length)
  then have "le64_i m = le64_i n \<and> r = s" using assms(5) by (rule append_same_length)
  then show ?thesis using le64_i_inj [OF _ assms(1-4)] by blast
qed

lemma text_bytes_length: "length (text_bytes s) = length s"
  by (simp add: text_bytes_def)

lemma enc_str_pf:
  assumes "fits s" and "fits t" and "enc_str s @ r = enc_str t @ u"
  shows "s = t \<and> r = u"
proof -
  have "length s = length t \<and> text_bytes s @ r = text_bytes t @ u"
    by (rule le64_pf [OF assms(1,2)]) (use assms(3) in \<open>simp only: enc_str_def append_assoc\<close>)
  then have "text_bytes s = text_bytes t \<and> r = u"
    by (intro append_same_length) (simp_all only: text_bytes_length)
  then show ?thesis by (simp only: text_bytes_eq)
qed

text \<open>A counted list of prefix-free encodings is prefix free.\<close>

lemma concat_pf:
  assumes "\<And>x y r s. x \<in> set xs \<Longrightarrow> y \<in> set ys \<Longrightarrow> f x @ r = f y @ s \<Longrightarrow> x = y \<and> r = s"
    and "length xs = length ys" and "concat (map f xs) @ r = concat (map f ys) @ s"
  shows "xs = ys \<and> r = s"
  using assms(2,1,3)
proof (induction xs ys rule: list_induct2)
  case Nil
  then show ?case by simp
next
  case (Cons x xs y ys)
  have e: "f x @ concat (map f xs) @ r = f y @ concat (map f ys) @ s" using Cons.prems(2) by simp
  have "x = y \<and> concat (map f xs) @ r = concat (map f ys) @ s"
    by (rule Cons.prems(1) [OF _ _ e]) simp_all
  moreover have "xs = ys \<and> r = s"
    by (rule Cons.IH) (use Cons.prems(1) calculation in auto)
  ultimately show ?case by simp
qed

lemma counted_pf:
  assumes "\<And>x y r s. x \<in> set xs \<Longrightarrow> y \<in> set ys \<Longrightarrow> f x @ r = f y @ s \<Longrightarrow> x = y \<and> r = s"
    and "fits xs" "fits ys"
    and "le64 (length xs) @ concat (map f xs) @ r = le64 (length ys) @ concat (map f ys) @ s"
  shows "xs = ys \<and> r = s"
proof -
  have "length xs = length ys \<and> concat (map f xs) @ r = concat (map f ys) @ s"
    by (rule le64_pf [OF assms(2,3,4)])
  then show ?thesis using concat_pf [of xs ys f r s] assms(1) by blast
qed

lemma unat64_pf: "le64 (unat (f :: f64)) @ r = le64 (unat g) @ s \<Longrightarrow> f = g \<and> r = s"
proof -
  assume e: "le64 (unat f) @ r = le64 (unat g) @ s"
  have "unat f \<le> u64_max" "unat g \<le> u64_max" using unat64_less [of f] unat64_less [of g] by simp_all
  from le64_pf [OF this e] show ?thesis by (simp add: word_unat_eq_iff)
qed

lemma bytes_pf: "fits b \<Longrightarrow> fits c \<Longrightarrow> le64 (length b) @ b @ r = le64 (length c) @ c @ s \<Longrightarrow> b = c \<and> r = s"
  using le64_pf [of "length b" "length c" "b @ r" "c @ s"] append_same_length [of b c r s] by blast

lemma enc_val_pf: "val_fits v \<Longrightarrow> val_fits w \<Longrightarrow> enc_val v @ r = enc_val w @ s \<Longrightarrow> v = w \<and> r = s"
proof (induction v arbitrary: w r s)
  case VNull
  then show ?case by (cases w) simp_all
next
  case (VBool b)
  then show ?case by (cases w) (simp_all split: if_splits)
next
  case (VInt n)
  then obtain m where w: "w = VInt m" by (cases w) simp_all
  have "n = m \<and> r = s" by (rule le64_i_pf) (use VInt w in \<open>simp_all only: val_fits.simps enc_val.simps list.inject append_Cons\<close>)
  then show ?case by (simp add: w)
next
  case (VFloat f)
  then show ?case using unat64_pf [of f r _ s] by (cases w) simp_all
next
  case (VText t)
  then show ?case using enc_str_pf [of t _ r s] by (cases w) simp_all
next
  case (VBytes b)
  then show ?case using bytes_pf [of b _ r s] by (cases w) simp_all
next
  case (VTimestamp n)
  then obtain m where w: "w = VTimestamp m" by (cases w) simp_all
  have "n = m \<and> r = s" by (rule le64_i_pf) (use VTimestamp w in \<open>simp_all only: val_fits.simps enc_val.simps list.inject append_Cons\<close>)
  then show ?case by (simp add: w)
next
  case (VList vs)
  then obtain ws where w: "w = VList ws" by (cases w) simp_all
  have "vs = ws \<and> r = s"
  proof (rule counted_pf [where f = enc_val])
    show "x = y \<and> r = s" if "x \<in> set vs" "y \<in> set ws" "enc_val x @ r = enc_val y @ s" for x y r s
      using VList.IH [OF that(1) _ _ that(3)] VList.prems(1,2) that(1,2) by (simp add: w list_all_iff)
  qed (use VList.prems w in simp_all)
  then show ?case by (simp add: w)
next
  case (VMap kvs)
  then obtain lws where w: "w = VMap lws" by (cases w) simp_all
  have "kvs = lws \<and> r = s"
  proof (rule counted_pf [where f = "\<lambda>(k, v). enc_str k @ enc_val v"])
    show "x = y \<and> r = s" if xy: "x \<in> set kvs" "y \<in> set lws"
      "(case x of (k, v) \<Rightarrow> enc_str k @ enc_val v) @ r = (case y of (k, v) \<Rightarrow> enc_str k @ enc_val v) @ s" for x y r s
    proof -
      obtain k v l u where p: "x = (k, v)" "y = (l, u)" by (cases x; cases y)
      have f: "fits k" "val_fits v" "fits l" "val_fits u"
        using VMap.prems(1,2) xy(1,2) by (auto simp: w p list_all_iff)
      have "k = l \<and> enc_val v @ r = enc_val u @ s"
        using xy(3) by (intro enc_str_pf [OF f(1,3)]) (simp add: p)
      moreover have "v = u \<and> r = s"
        by (rule VMap.IH [OF xy(1) _ f(2,4)]) (use calculation p in simp_all)
      ultimately show ?thesis by (simp add: p)
    qed
  qed (use VMap.prems w in simp_all)
  then show ?case by (simp add: w)
qed

lemma type_name_inj: "type_name a = type_name b \<Longrightarrow> a = b"
  by (cases a; cases b) simp_all

lemma type_name_shape: "type_name a \<noteq> []" "fits (type_name a)"
  by (cases a; simp)+

lemma type_text_inj:
  "(case ty of None \<Rightarrow> [] | Some t \<Rightarrow> type_name t) = (case ty' of None \<Rightarrow> [] | Some t \<Rightarrow> type_name t) \<Longrightarrow> ty = ty'"
proof (cases ty; cases ty')
  fix t t'
  assume "(case ty of None \<Rightarrow> [] | Some t \<Rightarrow> type_name t) = (case ty' of None \<Rightarrow> [] | Some t \<Rightarrow> type_name t)"
    and t: "ty = Some t" "ty' = Some t'"
  then have "t = t'" by (intro type_name_inj) simp
  then show ?thesis using t by simp
qed (auto simp: type_name_shape type_name_shape(1) [symmetric])

lemma enc_expr_pf: "expr_fits a \<Longrightarrow> expr_fits b \<Longrightarrow> enc_expr a @ r = enc_expr b @ s \<Longrightarrow> a = b \<and> r = s"
proof (cases a)
  case (ELiteral v)
  assume "expr_fits a" "expr_fits b" "enc_expr a @ r = enc_expr b @ s"
  then show ?thesis using ELiteral enc_val_pf [of v _ r s] by (cases b) simp_all
next
  case (EColumn c)
  assume "expr_fits a" "expr_fits b" "enc_expr a @ r = enc_expr b @ s"
  then show ?thesis using EColumn enc_str_pf [of c _ r s] by (cases b) simp_all
next
  case (EParam n ty)
  assume h: "expr_fits a" "expr_fits b" "enc_expr a @ r = enc_expr b @ s"
  then obtain m ty' where b: "b = EParam m ty'" using EParam by (cases b) simp_all
  let ?t = "\<lambda>ty. case ty of None \<Rightarrow> [] | Some t \<Rightarrow> type_name t"
  have ft: "fits (?t ty)" for ty by (cases ty) (simp_all add: type_name_shape(2))
  have "n = m \<and> enc_str (?t ty) @ r = enc_str (?t ty') @ s"
    using h by (intro enc_str_pf) (simp_all add: EParam b)
  moreover have "?t ty = ?t ty' \<and> r = s" using enc_str_pf [OF ft ft] calculation by blast
  moreover have "ty = ty'" using calculation by (intro type_text_inj) simp
  ultimately show ?thesis by (simp add: EParam b)
qed

lemma column_expr_pf:
  "fits c \<Longrightarrow> fits d \<Longrightarrow> expr_fits a \<Longrightarrow> expr_fits b \<Longrightarrow> enc_str c @ enc_expr a @ r = enc_str d @ enc_expr b @ s \<Longrightarrow>
     c = d \<and> a = b \<and> r = s"
  using enc_str_pf [of c d "enc_expr a @ r" "enc_expr b @ s"] enc_expr_pf [of a b r s] by blast

lemma enc_pred_pf: "pred_fits p \<Longrightarrow> pred_fits q \<Longrightarrow> enc_pred p @ r = enc_pred q @ s \<Longrightarrow> p = q \<and> r = s"
proof (induction p arbitrary: q r s)
  case (PIn c es)
  from PIn.prems(3) obtain d fs where q: "q = PIn d fs" by (cases q) simp_all
  have c: "c = d \<and> le64 (length es) @ concat (map enc_expr es) @ r = le64 (length fs) @ concat (map enc_expr fs) @ s"
    using PIn by (intro enc_str_pf) (simp_all add: q)
  have "es = fs \<and> r = s"
  proof (rule counted_pf [where f = enc_expr])
    show "x = y \<and> r = s" if "x \<in> set es" "y \<in> set fs" "enc_expr x @ r = enc_expr y @ s" for x y r s
      using enc_expr_pf [OF _ _ that(3)] PIn.prems(1,2) that(1,2) by (simp add: q list_all_iff)
  qed (use PIn.prems c q in simp_all)
  then show ?case using c q by simp
next
  case (PIsNull c)
  then show ?case using enc_str_pf [of c _ r s] by (cases q) simp_all
next
  case (PAnd ps)
  from PAnd.prems(3) obtain qs where q: "q = PAnd qs" by (cases q) simp_all
  have "ps = qs \<and> r = s"
  proof (rule counted_pf [where f = enc_pred])
    show "x = y \<and> r = s" if "x \<in> set ps" "y \<in> set qs" "enc_pred x @ r = enc_pred y @ s" for x y r s
      using PAnd.IH [OF that(1) _ _ that(3)] PAnd.prems(1,2) that(1,2) by (simp add: q list_all_iff)
  qed (use PAnd.prems q in simp_all)
  then show ?case by (simp add: q)
next
  case (POr ps)
  from POr.prems(3) obtain qs where q: "q = POr qs" by (cases q) simp_all
  have "ps = qs \<and> r = s"
  proof (rule counted_pf [where f = enc_pred])
    show "x = y \<and> r = s" if "x \<in> set ps" "y \<in> set qs" "enc_pred x @ r = enc_pred y @ s" for x y r s
      using POr.IH [OF that(1) _ _ that(3)] POr.prems(1,2) that(1,2) by (simp add: q list_all_iff)
  qed (use POr.prems q in simp_all)
  then show ?case by (simp add: q)
next
  case (PNot p)
  from PNot.prems(3) obtain p' where q: "q = PNot p'" by (cases q) simp_all
  have "p = p' \<and> r = s" by (rule PNot.IH) (use PNot.prems q in simp_all)
  then show ?case by (simp add: q)
next
  case PTrue
  then show ?case by (cases q) simp_all
next
  case (PEq c e)
  from PEq.prems(3) obtain d f where q: "q = PEq d f" by (cases q) simp_all
  have "c = d \<and> e = f \<and> r = s" by (rule column_expr_pf) (use PEq.prems q in simp_all)
  then show ?case by (simp add: q)
next
  case (PNe c e)
  from PNe.prems(3) obtain d f where q: "q = PNe d f" by (cases q) simp_all
  have "c = d \<and> e = f \<and> r = s" by (rule column_expr_pf) (use PNe.prems q in simp_all)
  then show ?case by (simp add: q)
next
  case (PLt c e)
  from PLt.prems(3) obtain d f where q: "q = PLt d f" by (cases q) simp_all
  have "c = d \<and> e = f \<and> r = s" by (rule column_expr_pf) (use PLt.prems q in simp_all)
  then show ?case by (simp add: q)
next
  case (PLte c e)
  from PLte.prems(3) obtain d f where q: "q = PLte d f" by (cases q) simp_all
  have "c = d \<and> e = f \<and> r = s" by (rule column_expr_pf) (use PLte.prems q in simp_all)
  then show ?case by (simp add: q)
next
  case (PGt c e)
  from PGt.prems(3) obtain d f where q: "q = PGt d f" by (cases q) simp_all
  have "c = d \<and> e = f \<and> r = s" by (rule column_expr_pf) (use PGt.prems q in simp_all)
  then show ?case by (simp add: q)
next
  case (PGte c e)
  from PGte.prems(3) obtain d f where q: "q = PGte d f" by (cases q) simp_all
  have "c = d \<and> e = f \<and> r = s" by (rule column_expr_pf) (use PGte.prems q in simp_all)
  then show ?case by (simp add: q)
qed

lemma column_text_inj:
  assumes "(case x of None \<Rightarrow> [] | Some c \<Rightarrow> c) = (case y of None \<Rightarrow> [] | Some c \<Rightarrow> c)" and "x \<noteq> Some []" and "y \<noteq> Some []"
  shows "x = y"
  using assms by (cases x; cases y) simp_all

lemma enc_aggregate_pf:
  assumes "aggregate_fits a" and "aggregate_fits b" and "enc_aggregate a @ r = enc_aggregate b @ s"
  shows "a = b \<and> r = s"
proof -
  let ?c = "\<lambda>a. case ag_column a of None \<Rightarrow> [] | Some c \<Rightarrow> c"
  have f: "fits (?c a)" "fits (?c b)" using assms(1,2) by (simp_all add: aggregate_fits_def split: option.splits)
  have func: "enc_func (ag_func a) = enc_func (ag_func b)"
    and rest: "enc_str (?c a) @ enc_str (ag_alias a) @ r = enc_str (?c b) @ enc_str (ag_alias b) @ s"
    using assms(3) by (simp_all add: enc_aggregate_def)
  have "?c a = ?c b \<and> enc_str (ag_alias a) @ r = enc_str (ag_alias b) @ s" by (rule enc_str_pf [OF f rest])
  moreover have "ag_alias a = ag_alias b \<and> r = s"
    using assms(1,2) calculation by (intro enc_str_pf) (simp_all add: aggregate_fits_def)
  moreover have "ag_column a = ag_column b"
    by (rule column_text_inj) (use calculation assms(1,2) in \<open>simp_all add: aggregate_fits_def\<close>)
  moreover have "ag_func a = ag_func b" using func by (cases "ag_func a"; cases "ag_func b") simp_all
  ultimately show ?thesis by simp
qed

lemma enc_order_inj: "enc_order a = enc_order b \<Longrightarrow> a = b"
  by (cases a; cases b) simp_all

lemma sort_item_pf:
  "fits c \<Longrightarrow> fits d \<Longrightarrow> (enc_str c @ [enc_order a]) @ r = (enc_str d @ [enc_order b]) @ s \<Longrightarrow> (c, a) = (d, b) \<and> r = s"
  using enc_str_pf [of c d "enc_order a # r" "enc_order b # s"] enc_order_inj [of a b] by simp

lemma names_pf:
  "fits xs \<Longrightarrow> fits ys \<Longrightarrow> list_all fits xs \<Longrightarrow> list_all fits ys \<Longrightarrow>
     le64 (length xs) @ concat (map enc_str xs) @ r = le64 (length ys) @ concat (map enc_str ys) @ s \<Longrightarrow> xs = ys \<and> r = s"
proof (erule (2) counted_pf [rotated])
  assume f: "list_all fits xs" "list_all fits ys"
  show "x = y \<and> r = s" if "x \<in> set xs" "y \<in> set ys" "enc_str x @ r = enc_str y @ s" for x y r s
    by (rule enc_str_pf [OF _ _ that(3)]) (use f that(1,2) in \<open>simp_all only: list_all_iff\<close>)
qed

lemma enc_plan_pf: "plan_fits p \<Longrightarrow> plan_fits q \<Longrightarrow> enc_plan p @ r = enc_plan q @ s \<Longrightarrow> p = q \<and> r = s"
proof (induction p arbitrary: q r s)
  case (Scan t)
  then show ?case using enc_str_pf [of t _ r s] by (cases q) simp_all
next
  case (PointLookup t e)
  from PointLookup.prems(3) obtain t' e' where q: "q = PointLookup t' e'" by (cases q) simp_all
  have "t = t' \<and> e = e' \<and> r = s" by (rule column_expr_pf) (use PointLookup q in simp_all)
  then show ?case by (simp add: q)
next
  case (IndexScan t i p)
  from IndexScan.prems(3) obtain t' i' p' where q: "q = IndexScan t' i' p'" by (cases q) simp_all
  have "t = t' \<and> enc_str i @ enc_pred p @ r = enc_str i' @ enc_pred p' @ s"
    by (rule enc_str_pf) (use IndexScan q in simp_all)
  moreover have "i = i' \<and> enc_pred p @ r = enc_pred p' @ s"
    by (rule enc_str_pf) (use IndexScan q calculation in simp_all)
  moreover have "p = p' \<and> r = s" by (rule enc_pred_pf) (use IndexScan q calculation in simp_all)
  ultimately show ?case by (simp add: q)
next
  case (Filter i p)
  from Filter.prems(3) obtain i' p' where q: "q = Filter i' p'" by (cases q) simp_all
  have "i = i' \<and> enc_pred p @ r = enc_pred p' @ s" by (rule Filter.IH) (use Filter.prems q in simp_all)
  moreover have "p = p' \<and> r = s" by (rule enc_pred_pf) (use Filter.prems q calculation in simp_all)
  ultimately show ?case by (simp add: q)
next
  case (Project i cs)
  from Project.prems(3) obtain i' cs' where q: "q = Project i' cs'" by (cases q) simp_all
  have "i = i' \<and> le64 (length cs) @ concat (map enc_str cs) @ r = le64 (length cs') @ concat (map enc_str cs') @ s"
    by (rule Project.IH) (use Project.prems q in simp_all)
  moreover have "cs = cs' \<and> r = s" by (rule names_pf) (use Project.prems q calculation in simp_all)
  ultimately show ?case by (simp add: q)
next
  case (Sort i by')
  from Sort.prems(3) obtain i' by2 where q: "q = Sort i' by2" by (cases q) simp_all
  let ?f = "\<lambda>(c, ord). enc_str c @ [enc_order ord]"
  have "i = i' \<and> le64 (length by') @ concat (map ?f by') @ r = le64 (length by2) @ concat (map ?f by2) @ s"
    by (rule Sort.IH) (use Sort.prems q in simp_all)
  moreover have "by' = by2 \<and> r = s"
  proof (rule counted_pf [where f = ?f])
    show "x = y \<and> r = s" if xy: "x \<in> set by'" "y \<in> set by2" "?f x @ r = ?f y @ s" for x y r s
    proof -
      obtain c a d b where p: "x = (c, a)" "y = (d, b)" by (cases x; cases y)
      have "fits c" "fits d" using Sort.prems(1,2) xy(1,2) by (auto simp: q p list_all_iff)
      then show ?thesis using sort_item_pf [of c d a r b s] xy(3) unfolding p by simp
    qed
  qed (use Sort.prems q calculation in simp_all)
  ultimately show ?case by (simp add: q)
next
  case (Limit i n m)
  from Limit.prems(3) obtain i' n' m' where q: "q = Limit i' n' m'" by (cases q) simp_all
  have "i = i' \<and> le64 n @ le64 m @ r = le64 n' @ le64 m' @ s" by (rule Limit.IH) (use Limit.prems q in simp_all)
  moreover have "n = n' \<and> le64 m @ r = le64 m' @ s" by (rule le64_pf) (use Limit.prems q calculation in simp_all)
  moreover have "m = m' \<and> r = s" by (rule le64_pf) (use Limit.prems q calculation in simp_all)
  ultimately show ?case by (simp add: q)
next
  case (Aggregate i gs as)
  from Aggregate.prems(3) obtain i' gs' as' where q: "q = Aggregate i' gs' as'" by (cases q) simp_all
  let ?rest = "\<lambda>as r. le64 (length as) @ concat (map enc_aggregate as) @ r"
  have "i = i' \<and> le64 (length gs) @ concat (map enc_str gs) @ ?rest as r =
      le64 (length gs') @ concat (map enc_str gs') @ ?rest as' s"
    by (rule Aggregate.IH) (use Aggregate.prems q in simp_all)
  moreover have "gs = gs' \<and> ?rest as r = ?rest as' s"
    by (rule names_pf) (use Aggregate.prems q calculation in simp_all)
  moreover have "as = as' \<and> r = s"
  proof (rule counted_pf [where f = enc_aggregate])
    show "x = y \<and> r = s" if "x \<in> set as" "y \<in> set as'" "enc_aggregate x @ r = enc_aggregate y @ s" for x y r s
      using enc_aggregate_pf [OF _ _ that(3)] Aggregate.prems(1,2) that(1,2) by (simp add: q list_all_iff)
  qed (use Aggregate.prems q calculation in simp_all)
  ultimately show ?case by (simp add: q)
next
  case (Join p1 p2 c b)
  from Join.prems(3) obtain q1 q2 d e where q: "q = Join q1 q2 d e" by (cases q) simp_all
  have "p1 = q1 \<and> enc_plan p2 @ enc_str c @ enc_str b @ r = enc_plan q2 @ enc_str d @ enc_str e @ s"
    by (rule Join.IH(1)) (use Join.prems q in simp_all)
  moreover have "p2 = q2 \<and> enc_str c @ enc_str b @ r = enc_str d @ enc_str e @ s"
    by (rule Join.IH(2)) (use Join.prems q calculation in simp_all)
  moreover have "c = d \<and> enc_str b @ r = enc_str e @ s"
    by (rule enc_str_pf) (use Join.prems q calculation in simp_all)
  moreover have "b = e \<and> r = s" by (rule enc_str_pf) (use Join.prems q calculation in simp_all)
  ultimately show ?case by (simp add: q)
qed

lemma enc_plan_inj: "plan_fits p \<Longrightarrow> plan_fits q \<Longrightarrow> enc_plan p = enc_plan q \<Longrightarrow> p = q"
  using enc_plan_pf [of p q "[]" "[]"] by simp

text \<open>C23: Two plans with the same canonical encoding are the same plan, so equal plan
  hashes mean equal plans or a collision of the hash function in its first eight bytes;
  no aggregate names the empty column.\<close>

theorem plan_encoding_injective:
  assumes "plan_fits p" and "plan_fits q"
  shows "enc_plan p = enc_plan q \<longleftrightarrow> p = q"
  using enc_plan_inj [OF assms] by blast

lemma plan_encoding_injective_witness:
  "enc_plan (Filter (Scan ''t'') (PEq ''c'' (ELiteral (VInt 1)))) \<noteq>
   enc_plan (Filter (Scan ''t'') (PEq ''c'' (ELiteral (VInt 2))))"
  using plan_encoding_injective [of "Filter (Scan ''t'') (PEq ''c'' (ELiteral (VInt 1)))"
      "Filter (Scan ''t'') (PEq ''c'' (ELiteral (VInt 2)))"] by simp

text \<open>The exception: counting rows and counting the column with the empty name share an
  encoding, and with it a plan hash.\<close>

lemma plan_encoding_collides:
  "enc_plan (Aggregate (Scan t) [] [\<lparr>ag_func = AggCount, ag_column = None, ag_alias = a\<rparr>]) =
   enc_plan (Aggregate (Scan t) [] [\<lparr>ag_func = AggCount, ag_column = Some [], ag_alias = a\<rparr>])"
  by (simp add: enc_aggregate_def)

end
