(* ===== verification/Core_Float.thy ===== *)
theory Core_Float
  imports Core_Value
begin

text \<open>
  The binary64 addition and division the aggregates use, on bit patterns: the exact result
  is a ratio of naturals, rounded to nearest with ties to even.  The NaN an operation
  produces is the quiet one; which NaN it is has no observer in the code.
\<close>

definition f64_quiet_nan :: f64 where
  "f64_quiet_nan = 0x7FF8000000000000"

definition f64_inf_mag :: nat where
  "f64_inf_mag = 9218868437227405312"

definition f64_make :: "bool \<Rightarrow> nat \<Rightarrow> f64" where
  "f64_make neg mag = word_of_nat (if neg then 9223372036854775808 + mag else mag)"

text \<open>The significand and the exponent of a finite magnitude, whose value is
  \<open>sig * 2 ^ (exp - 1075)\<close>; subnormals share the exponent of the smallest normals.\<close>

definition mag_sig :: "nat \<Rightarrow> nat" where
  "mag_sig m = (if m div 2 ^ 52 = 0 then m mod 2 ^ 52 else 2 ^ 52 + m mod 2 ^ 52)"

definition mag_exp :: "nat \<Rightarrow> nat" where
  "mag_exp m = max 1 (m div 2 ^ 52)"

text \<open>The magnitude nearest to \<open>num / den * 2 ^ (- 1075 + e)\<close>: \<open>k\<close> is the exponent
  of the last place, at least that of a subnormal.\<close>

definition round_mag :: "nat \<Rightarrow> nat \<Rightarrow> int \<Rightarrow> nat" where
  "round_mag num den e =
     (if num = 0 then 0
      else let top = int (bit_length num) - int (bit_length den) + e;
               floor = (if num * 2 ^ nat (e - top) < den * 2 ^ nat (top - e) then top - 1 else top);
               k = max 1 (floor - 52);
               n = num * 2 ^ nat (e - k);
               d = den * 2 ^ nat (k - e);
               q = n div d;
               r = n mod d;
               q' = (if d < 2 * r \<or> (2 * r = d \<and> odd q) then q + 1 else q);
               bits = nat (k - 1) * 2 ^ 52 + q'
           in min bits f64_inf_mag)"

definition f64_is_inf :: "f64 \<Rightarrow> bool" where
  "f64_is_inf a \<longleftrightarrow> f64_mag a = f64_inf_mag"

definition f64_signed :: "f64 \<Rightarrow> nat \<Rightarrow> int" where
  "f64_signed a e = (let s = int (mag_sig (f64_mag a) * 2 ^ (mag_exp (f64_mag a) - e)) in if f64_neg a then - s else s)"

definition f64_add :: "f64 \<Rightarrow> f64 \<Rightarrow> f64" where
  "f64_add a b =
     (if f64_nan a \<or> f64_nan b then f64_quiet_nan
      else if f64_is_inf a then (if f64_is_inf b \<and> f64_neg a \<noteq> f64_neg b then f64_quiet_nan else a)
      else if f64_is_inf b then b
      else let e = min (mag_exp (f64_mag a)) (mag_exp (f64_mag b));
               s = f64_signed a e + f64_signed b e
           in if s = 0 then f64_make (f64_neg a \<and> f64_neg b) 0
              else f64_make (s < 0) (round_mag (nat \<bar>s\<bar>) 1 (int e)))"

definition f64_div :: "f64 \<Rightarrow> f64 \<Rightarrow> f64" where
  "f64_div a b =
     (let neg = (f64_neg a \<noteq> f64_neg b) in
      if f64_nan a \<or> f64_nan b then f64_quiet_nan
      else if f64_is_inf a then (if f64_is_inf b then f64_quiet_nan else f64_make neg f64_inf_mag)
      else if f64_is_inf b then f64_make neg 0
      else if f64_mag b = 0 then (if f64_mag a = 0 then f64_quiet_nan else f64_make neg f64_inf_mag)
      else f64_make neg (round_mag (mag_sig (f64_mag a)) (mag_sig (f64_mag b))
             (int (mag_exp (f64_mag a)) - int (mag_exp (f64_mag b)) + 1075)))"

text \<open>Whole numbers: sums and quotients that have to come out exactly.\<close>


end
