(* ===== verification/Query_Exec.thy ===== *)
theory Query_Exec
  imports Query_Plan Core_Float
begin

text \<open>
  Plan execution (\<open>theta-query/src/exec.rs\<close>) against a source of rows, which is the
  record \<open>row_source\<close> of the functions of the trait of that name
  (\<open>theta-core/src/address.rs\<close>).  The JSON text of a value comes from a library and is
  the argument \<open>js\<close>.  \<open>sort_by\<close> is a stable insertion sort; where the comparator is
  not a total order, as with incomparable columns, Rust leaves the order unspecified.
\<close>

section \<open>Errors, bindings and rows\<close>

datatype exec_error =
    UnboundParameter string
  | ParameterType string value_type value_type
  | Incomparable value_type value_type
  | Unsupported string

type_synonym bindings = "string \<Rightarrow> val option"

record qrow =
  qr_pk :: string
  qr_value :: val

record row_source =
  rs_scan :: "string \<Rightarrow> (string \<times> val) list"
  rs_row :: "string \<Rightarrow> string \<Rightarrow> val option"
  rs_scan_up_to :: "string \<Rightarrow> nat option \<Rightarrow> (string \<times> val) list"
  rs_column_type :: "string \<Rightarrow> string \<Rightarrow> value_type option"
  rs_index_candidates :: "string \<Rightarrow> string \<Rightarrow> index_bound \<Rightarrow> string list option"

text \<open>The \<open>?\<close> operator.\<close>

fun and_then :: "'e + 'a \<Rightarrow> ('a \<Rightarrow> 'e + 'b) \<Rightarrow> 'e + 'b" where
  "and_then (Inl e) f = Inl e"
| "and_then (Inr x) f = f x"

definition row_col :: "qrow \<Rightarrow> string \<Rightarrow> val option" where
  "row_col r name = row_column (qr_value r) (qr_pk r) name"

definition mk_row :: "string \<times> val \<Rightarrow> qrow" where
  "mk_row kx = \<lparr>qr_pk = fst kx, qr_value = snd kx\<rparr>"

fun check_params :: "(string \<times> value_type option) list \<Rightarrow> bindings \<Rightarrow> exec_error + unit" where
  "check_params [] b = Inr ()"
| "check_params ((name, declared) # ps) b =
     (case b name of
        None \<Rightarrow> Inl (UnboundParameter name)
      | Some v \<Rightarrow>
          (case declared of
             Some d \<Rightarrow> if accepts d v then check_params ps b else Inl (ParameterType name d (inferred_type v))
           | None \<Rightarrow> check_params ps b))"

definition check_bindings :: "plan \<Rightarrow> bindings \<Rightarrow> exec_error + unit" where
  "check_bindings p b = check_params (plan_params p) b"

section \<open>Predicates\<close>

fun resolve :: "expr \<Rightarrow> bindings \<Rightarrow> exec_error + val" where
  "resolve (ELiteral v) b = Inr v"
| "resolve (EParam name _) b = (case b name of None \<Rightarrow> Inl (UnboundParameter name) | Some v \<Rightarrow> Inr v)"
| "resolve (EColumn name) b =
     Inl (Unsupported (if name = [] then ''empty column reference'' else ''column reference in a value position''))"

definition order_of :: "val option \<Rightarrow> val option \<Rightarrow> ordering option" where
  "order_of l r = (case (l, r) of (Some a, Some b) \<Rightarrow> compare_values a b | _ \<Rightarrow> None)"

definition compare_col :: "qrow \<Rightarrow> bindings \<Rightarrow> string \<Rightarrow> expr \<Rightarrow> exec_error + ordering option" where
  "compare_col row b c e = and_then (resolve e b) (\<lambda>v. Inr (order_of (row_col row c) (Some v)))"

definition compare_in :: "qrow \<Rightarrow> bindings \<Rightarrow> string \<Rightarrow> expr \<Rightarrow> ordering set \<Rightarrow> exec_error + bool" where
  "compare_in row b c e want = and_then (compare_col row b c e) (\<lambda>o'. Inr (o' \<in> Some ` want))"

fun any_equal :: "qrow \<Rightarrow> bindings \<Rightarrow> string \<Rightarrow> expr list \<Rightarrow> exec_error + bool" where
  "any_equal row b c [] = Inr False"
| "any_equal row b c (e # es) =
     and_then (compare_in row b c e {Equal}) (\<lambda>m. if m then Inr True else any_equal row b c es)"

fun matches :: "qrow \<Rightarrow> bindings \<Rightarrow> predicate \<Rightarrow> exec_error + bool"
  and all_match :: "qrow \<Rightarrow> bindings \<Rightarrow> predicate list \<Rightarrow> exec_error + bool"
  and any_match :: "qrow \<Rightarrow> bindings \<Rightarrow> predicate list \<Rightarrow> exec_error + bool" where
  "matches row b PTrue = Inr True"
| "matches row b (PEq c e) = compare_in row b c e {Equal}"
| "matches row b (PNe c e) = compare_in row b c e {Less, Greater}"
| "matches row b (PLt c e) = compare_in row b c e {Less}"
| "matches row b (PLte c e) = compare_in row b c e {Less, Equal}"
| "matches row b (PGt c e) = compare_in row b c e {Greater}"
| "matches row b (PGte c e) = compare_in row b c e {Greater, Equal}"
| "matches row b (PIn c es) = any_equal row b c es"
| "matches row b (PIsNull c) = Inr (row_col row c \<in> {None, Some VNull})"
| "matches row b (PAnd ps) = all_match row b ps"
| "matches row b (POr ps) = any_match row b ps"
| "matches row b (PNot p) = and_then (matches row b p) (\<lambda>m. Inr (\<not> m))"
| "all_match row b [] = Inr True"
| "all_match row b (p # ps) = and_then (matches row b p) (\<lambda>m. if m then all_match row b ps else Inr False)"
| "any_match row b [] = Inr False"
| "any_match row b (p # ps) = and_then (matches row b p) (\<lambda>m. if m then Inr True else any_match row b ps)"

definition reached :: "nat option \<Rightarrow> nat \<Rightarrow> bool" where
  "reached budget n = (case budget of None \<Rightarrow> False | Some k \<Rightarrow> k \<le> n)"

text \<open>\<open>n\<close> counts the rows kept so far.\<close>

fun filter_up_to :: "predicate \<Rightarrow> bindings \<Rightarrow> nat option \<Rightarrow> nat \<Rightarrow> qrow list \<Rightarrow> exec_error + qrow list" where
  "filter_up_to p b budget n [] = Inr []"
| "filter_up_to p b budget n (r # rs) =
     (if reached budget n then Inr []
      else and_then (matches r b p) (\<lambda>m.
        if m then and_then (filter_up_to p b budget (n + 1) rs) (\<lambda>out. Inr (r # out))
        else filter_up_to p b budget n rs))"

section \<open>Index candidates\<close>

fun resolve_all :: "expr list \<Rightarrow> bindings \<Rightarrow> val list option" where
  "resolve_all [] b = Some []"
| "resolve_all (e # es) b =
     (case resolve e b of Inl _ \<Rightarrow> None | Inr v \<Rightarrow> map_option ((#) v) (resolve_all es b))"

definition with_bound :: "expr \<Rightarrow> bindings \<Rightarrow> (val \<Rightarrow> index_bound) \<Rightarrow> (index_bound \<Rightarrow> string list option) \<Rightarrow> string list option" where
  "with_bound e b mk lookup = (case resolve e b of Inl _ \<Rightarrow> None | Inr v \<Rightarrow> lookup (mk v))"

definition key_set :: "string list \<Rightarrow> string list" where
  "key_set ks = omkeys (fold (\<lambda>k. omput k ()) ks omempty)"

fun index_candidates :: "row_source \<Rightarrow> string \<Rightarrow> bindings \<Rightarrow> predicate \<Rightarrow> string list option"
  and first_candidates :: "row_source \<Rightarrow> string \<Rightarrow> bindings \<Rightarrow> predicate list \<Rightarrow> string list option"
  and union_candidates :: "row_source \<Rightarrow> string \<Rightarrow> bindings \<Rightarrow> predicate list \<Rightarrow> string list option" where
  "index_candidates src t b (PEq c e) = with_bound e b BEq (rs_index_candidates src t c)"
| "index_candidates src t b (PIn c es) =
     (case resolve_all es b of None \<Rightarrow> None | Some vs \<Rightarrow> rs_index_candidates src t c (BAnyOf vs))"
| "index_candidates src t b (PLt c e) =
     with_bound e b (\<lambda>v. BRange None (Some (v, False))) (rs_index_candidates src t c)"
| "index_candidates src t b (PLte c e) =
     with_bound e b (\<lambda>v. BRange None (Some (v, True))) (rs_index_candidates src t c)"
| "index_candidates src t b (PGt c e) =
     with_bound e b (\<lambda>v. BRange (Some (v, False)) None) (rs_index_candidates src t c)"
| "index_candidates src t b (PGte c e) =
     with_bound e b (\<lambda>v. BRange (Some (v, True)) None) (rs_index_candidates src t c)"
| "index_candidates src t b (PAnd ps) = first_candidates src t b ps"
| "index_candidates src t b (POr ps) = map_option key_set (union_candidates src t b ps)"
| "index_candidates src t b PTrue = None"
| "index_candidates src t b (PNe c e) = None"
| "index_candidates src t b (PIsNull c) = None"
| "index_candidates src t b (PNot p) = None"
| "first_candidates src t b [] = None"
| "first_candidates src t b (p # ps) =
     (case index_candidates src t b p of Some ks \<Rightarrow> Some ks | None \<Rightarrow> first_candidates src t b ps)"
| "union_candidates src t b [] = Some []"
| "union_candidates src t b (p # ps) =
     (case index_candidates src t b p of
        None \<Rightarrow> None
      | Some ks \<Rightarrow> map_option ((@) ks) (union_candidates src t b ps))"

section \<open>Sorting, joining, aggregating\<close>

definition compare_cols :: "val option \<Rightarrow> val option \<Rightarrow> ordering" where
  "compare_cols a b =
     (case (a, b) of
        (Some x, Some y) \<Rightarrow> (case compare_values x y of None \<Rightarrow> Equal | Some o' \<Rightarrow> o')
      | (Some _, None) \<Rightarrow> Less
      | (None, Some _) \<Rightarrow> Greater
      | (None, None) \<Rightarrow> Equal)"

fun compare_rows :: "(string \<times> sort_order) list \<Rightarrow> qrow \<Rightarrow> qrow \<Rightarrow> ordering" where
  "compare_rows [] a b = cmp (qr_pk a) (qr_pk b)"
| "compare_rows ((c, ord) # by') a b =
     ord_then (case ord of Asc \<Rightarrow> compare_cols (row_col a c) (row_col b c)
                         | Desc \<Rightarrow> ord_reverse (compare_cols (row_col a c) (row_col b c)))
       (compare_rows by' a b)"

fun insert_row :: "(qrow \<Rightarrow> qrow \<Rightarrow> ordering) \<Rightarrow> qrow \<Rightarrow> qrow list \<Rightarrow> qrow list" where
  "insert_row f x [] = [x]"
| "insert_row f x (y # ys) = (if f x y = Greater then y # insert_row f x ys else x # y # ys)"

definition sort_rows :: "(string \<times> sort_order) list \<Rightarrow> qrow list \<Rightarrow> qrow list" where
  "sort_rows by' rows = foldr (insert_row (compare_rows by')) rows []"

definition combine :: "qrow \<Rightarrow> qrow \<Rightarrow> qrow" where
  "combine outer inner =
     (let fields1 = (case qr_value outer of VMap kvs \<Rightarrow> kvs | other \<Rightarrow> [(''outer'', other)]);
          fields2 = (case qr_value inner of VMap kvs \<Rightarrow> fold (\<lambda>(k, v). al_put k v) kvs fields1
                     | other \<Rightarrow> al_put ''inner'' other fields1)
      in \<lparr>qr_pk = qr_pk outer, qr_value = VMap fields2\<rparr>)"

fun join_rows :: "(bindings \<Rightarrow> exec_error + qrow list) \<Rightarrow> string \<Rightarrow> string \<Rightarrow> bindings \<Rightarrow> nat option \<Rightarrow> nat \<Rightarrow>
    qrow list \<Rightarrow> exec_error + qrow list" where
  "join_rows inner c binds b budget n [] = Inr []"
| "join_rows inner c binds b budget n (r # rs) =
     (case row_col r c of
        None \<Rightarrow> join_rows inner c binds b budget n rs
      | Some key \<Rightarrow> and_then (inner (b(binds \<mapsto> key))) (\<lambda>ms.
          if reached budget (n + length ms) then Inr (map (combine r) ms)
          else and_then (join_rows inner c binds b budget (n + length ms) rs)
                 (\<lambda>out. Inr (map (combine r) ms @ out))))"

definition encode_key :: "(val \<Rightarrow> string) \<Rightarrow> val \<Rightarrow> string" where
  "encode_key js v = (case v of VText s \<Rightarrow> s | other \<Rightarrow> js other)"

fun sum_step :: "val \<Rightarrow> int \<times> f64 \<times> bool \<Rightarrow> int \<times> f64 \<times> bool" where
  "sum_step (VInt v) (i, f, any) = (sat_i64 (i + v), f64_add f (f64_of_int v), any)"
| "sum_step (VFloat v) (i, f, any) = (i, f64_add f v, True)"
| "sum_step _ acc = acc"

definition sum_of :: "val list \<Rightarrow> val" where
  "sum_of vs = (case fold sum_step vs (0, 0, False) of (i, f, any) \<Rightarrow> if any then VFloat f else VInt i)"

fun extreme :: "ordering \<Rightarrow> val option \<Rightarrow> val list \<Rightarrow> val" where
  "extreme want best [] = (case best of None \<Rightarrow> VNull | Some v \<Rightarrow> v)"
| "extreme want best (v # vs) =
     extreme want (case best of
         None \<Rightarrow> Some v
       | Some current \<Rightarrow> if compare_values v current = Some want then Some v else Some current) vs"

definition agg_values :: "aggregate \<Rightarrow> qrow list \<Rightarrow> val list" where
  "agg_values a rows =
     (case ag_column a of
        None \<Rightarrow> []
      | Some c \<Rightarrow> filter (\<lambda>v. v \<noteq> VNull) (List.map_filter (\<lambda>r. row_col r c) rows))"

definition apply_aggregate :: "aggregate \<Rightarrow> qrow list \<Rightarrow> val" where
  "apply_aggregate a rows =
     (let vs = agg_values a rows in
      case ag_func a of
        AggCount \<Rightarrow> VInt (wrap_i64 (int (case ag_column a of None \<Rightarrow> length rows | Some _ \<Rightarrow> length vs)))
      | AggSum \<Rightarrow> sum_of vs
      | AggAvg \<Rightarrow>
          (if vs = [] then VNull
           else case sum_of vs of
             VInt t \<Rightarrow> VFloat (f64_div (f64_of_int t) (f64_of_int (int (length vs))))
           | VFloat t \<Rightarrow> VFloat (f64_div t (f64_of_int (int (length vs))))
           | other \<Rightarrow> other)
      | AggMin \<Rightarrow> extreme Less None vs
      | AggMax \<Rightarrow> extreme Greater None vs)"

definition group_key :: "(val \<Rightarrow> string) \<Rightarrow> string list \<Rightarrow> qrow \<Rightarrow> string" where
  "group_key js gs r =
     join_with [CHR 0x01] (map (\<lambda>c. encode_key js (case row_col r c of None \<Rightarrow> VNull | Some v \<Rightarrow> v)) gs)"

definition group_rows :: "(val \<Rightarrow> string) \<Rightarrow> string list \<Rightarrow> qrow list \<Rightarrow> (string, qrow list) omap" where
  "group_rows js gs rows =
     fold (\<lambda>r m. omput (group_key js gs r) (omget_or [] m (group_key js gs r) @ [r]) m) rows omempty"

definition group_result :: "string list \<Rightarrow> aggregate list \<Rightarrow> string \<times> qrow list \<Rightarrow> qrow" where
  "group_result gs as g =
     (case g of (key, members) \<Rightarrow>
        let col = (\<lambda>c. case members of [] \<Rightarrow> VNull | r # _ \<Rightarrow> (case row_col r c of None \<Rightarrow> VNull | Some v \<Rightarrow> v));
            fields1 = fold (\<lambda>c. al_put c (col c)) gs [];
            fields2 = fold (\<lambda>a. al_put (ag_alias a) (apply_aggregate a members)) as fields1
        in \<lparr>qr_pk = key, qr_value = VMap fields2\<rparr>)"

definition aggregate_rows :: "(val \<Rightarrow> string) \<Rightarrow> string list \<Rightarrow> aggregate list \<Rightarrow> qrow list \<Rightarrow> qrow list" where
  "aggregate_rows js gs as rows =
     (if gs = []
      then [\<lparr>qr_pk = [], qr_value = VMap (fold (\<lambda>a. al_put (ag_alias a) (apply_aggregate a rows)) as [])\<rparr>]
      else map (group_result gs as) (omlist (group_rows js gs rows)))"

section \<open>Evaluation\<close>

definition scan_rows :: "row_source \<Rightarrow> string \<Rightarrow> nat option \<Rightarrow> qrow list" where
  "scan_rows src t budget = map mk_row (rs_scan_up_to src t budget)"

definition lookup_rows :: "row_source \<Rightarrow> string \<Rightarrow> string list \<Rightarrow> qrow list" where
  "lookup_rows src t keys = List.map_filter (\<lambda>pk. map_option (\<lambda>v. mk_row (pk, v)) (rs_row src t pk)) keys"

definition limit_budget :: "nat \<Rightarrow> nat \<Rightarrow> nat option \<Rightarrow> nat" where
  "limit_budget count offset budget =
     (case budget of
        Some outer \<Rightarrow> min (sat_add64 offset count) outer
      | None \<Rightarrow> sat_add64 offset count)"

fun eval :: "row_source \<Rightarrow> (val \<Rightarrow> string) \<Rightarrow> plan \<Rightarrow> bindings \<Rightarrow> nat option \<Rightarrow> exec_error + qrow list" where
  "eval src js (Scan t) b budget = Inr (scan_rows src t budget)"
| "eval src js (PointLookup t key) b budget =
     and_then (resolve key b) (\<lambda>k. Inr (lookup_rows src t [encode_key js k]))"
| "eval src js (IndexScan t index p) b budget =
     (let rows = (case index_candidates src t b p of
                    Some keys \<Rightarrow> lookup_rows src t keys
                  | None \<Rightarrow> scan_rows src t None)
      in filter_up_to p b None 0 rows)"
| "eval src js (Join outer inner c binds) b budget =
     and_then (eval src js outer b None)
       (join_rows (\<lambda>b'. eval src js inner b' None) c binds b budget 0)"
| "eval src js (Filter i p) b budget =
     and_then (eval src js i b None) (filter_up_to p b budget 0)"
| "eval src js (Project i cs) b budget = eval src js i b budget"
| "eval src js (Sort i by') b budget = and_then (eval src js i b None) (\<lambda>rows. Inr (sort_rows by' rows))"
| "eval src js (Limit i count offset) b budget =
     and_then (eval src js i b (Some (limit_budget count offset budget)))
       (\<lambda>rows. Inr (take count (drop offset rows)))"
| "eval src js (Aggregate i gs as) b budget =
     and_then (eval src js i b None) (\<lambda>rows. Inr (aggregate_rows js gs as rows))"

section \<open>Result sets\<close>

record column =
  cl_name :: string
  cl_ty :: value_type
  cl_nullable :: bool

record result_set =
  res_columns :: "column list"
  res_rows :: "val list list"

fun explicit_projection :: "plan \<Rightarrow> string list option" where
  "explicit_projection (Project _ cs) = Some cs"
| "explicit_projection (Aggregate _ gs as) = Some (gs @ map ag_alias as)"
| "explicit_projection (Sort i _) = explicit_projection i"
| "explicit_projection (Limit i _ _) = explicit_projection i"
| "explicit_projection _ = None"

fun see_columns :: "string list \<Rightarrow> string list \<Rightarrow> string list" where
  "see_columns [] names = names"
| "see_columns (c # cs) names = see_columns cs (if c \<in> set (tl names) then names else names @ [c])"

definition projected_columns :: "plan \<Rightarrow> qrow list \<Rightarrow> string list" where
  "projected_columns p rows =
     (case explicit_projection p of
        Some cs \<Rightarrow> cs
      | None \<Rightarrow> see_columns (concat (map (\<lambda>r. columns_of (qr_value r)) rows)) [key_column])"

definition infer_column_type :: "qrow list \<Rightarrow> string \<Rightarrow> value_type option" where
  "infer_column_type rows name =
     (if name = key_column then Some TText
      else map_option inferred_type (find_first (\<lambda>v. v \<noteq> VNull) (List.map_filter (\<lambda>r. row_col r name) rows)))"

definition column_for :: "row_source \<Rightarrow> string \<Rightarrow> qrow list \<Rightarrow> string \<Rightarrow> column" where
  "column_for src t rows name =
     \<lparr>cl_name = name,
      cl_ty = (case rs_column_type src t name of
                 Some ty \<Rightarrow> ty
               | None \<Rightarrow> (case infer_column_type rows name of Some ty \<Rightarrow> ty | None \<Rightarrow> TText)),
      cl_nullable = True\<rparr>"

definition materialize :: "row_source \<Rightarrow> string \<Rightarrow> plan \<Rightarrow> qrow list \<Rightarrow> result_set" where
  "materialize src t p rows =
     (let names = projected_columns p rows in
      \<lparr>res_columns = map (column_for src t rows) names,
       res_rows = map (\<lambda>r. map (\<lambda>name. case row_col r name of None \<Rightarrow> VNull | Some v \<Rightarrow> v) names) rows\<rparr>)"

definition execute :: "row_source \<Rightarrow> (val \<Rightarrow> string) \<Rightarrow> plan \<Rightarrow> bindings \<Rightarrow> exec_error + result_set" where
  "execute src js p b =
     and_then (check_bindings p b) (\<lambda>_.
       and_then (eval src js p b None) (\<lambda>rows. Inr (materialize src (source_table p) p rows)))"

end
