(* ===== verification/Query_Sem.thy ===== *)
theory Query_Sem
  imports Query_Exec
begin

text \<open>
  What a plan means, without budgets and indexes, and the contract of a row source under
  which the executor computes it.  The contract is the locale \<open>row_source_laws\<close>: what
  the documentation of the trait \<open>RowSource\<close> promises, for the tables it \<open>serves\<close> and
  the index bounds that are \<open>exact\<close>.
\<close>

section \<open>Predicates without errors\<close>

definition resolved :: "bindings \<Rightarrow> expr \<Rightarrow> val" where
  "resolved b e = (case resolve e b of Inl _ \<Rightarrow> VNull | Inr v \<Rightarrow> v)"

fun expr_resolves :: "bindings \<Rightarrow> expr \<Rightarrow> bool" where
  "expr_resolves b (ELiteral _) \<longleftrightarrow> True"
| "expr_resolves b (EParam n _) \<longleftrightarrow> b n \<noteq> None"
| "expr_resolves b (EColumn _) \<longleftrightarrow> False"

fun pred_exprs :: "predicate \<Rightarrow> expr list" where
  "pred_exprs PTrue = []"
| "pred_exprs (PEq _ e) = [e]"
| "pred_exprs (PNe _ e) = [e]"
| "pred_exprs (PLt _ e) = [e]"
| "pred_exprs (PLte _ e) = [e]"
| "pred_exprs (PGt _ e) = [e]"
| "pred_exprs (PGte _ e) = [e]"
| "pred_exprs (PIn _ es) = es"
| "pred_exprs (PIsNull _) = []"
| "pred_exprs (PAnd ps) = concat (map pred_exprs ps)"
| "pred_exprs (POr ps) = concat (map pred_exprs ps)"
| "pred_exprs (PNot p) = pred_exprs p"

definition pred_resolves :: "bindings \<Rightarrow> predicate \<Rightarrow> bool" where
  "pred_resolves b p \<longleftrightarrow> list_all (expr_resolves b) (pred_exprs p)"

lemma resolve_resolved: "expr_resolves b e \<Longrightarrow> resolve e b = Inr (resolved b e)"
  by (cases e) (auto simp: resolved_def)

definition cmp_in :: "qrow \<Rightarrow> bindings \<Rightarrow> string \<Rightarrow> expr \<Rightarrow> ordering set \<Rightarrow> bool" where
  "cmp_in row b c e want \<longleftrightarrow> order_of (row_col row c) (Some (resolved b e)) \<in> Some ` want"

fun holds :: "qrow \<Rightarrow> bindings \<Rightarrow> predicate \<Rightarrow> bool" where
  "holds row b PTrue \<longleftrightarrow> True"
| "holds row b (PEq c e) \<longleftrightarrow> cmp_in row b c e {Equal}"
| "holds row b (PNe c e) \<longleftrightarrow> cmp_in row b c e {Less, Greater}"
| "holds row b (PLt c e) \<longleftrightarrow> cmp_in row b c e {Less}"
| "holds row b (PLte c e) \<longleftrightarrow> cmp_in row b c e {Less, Equal}"
| "holds row b (PGt c e) \<longleftrightarrow> cmp_in row b c e {Greater}"
| "holds row b (PGte c e) \<longleftrightarrow> cmp_in row b c e {Greater, Equal}"
| "holds row b (PIn c es) \<longleftrightarrow> list_ex (\<lambda>e. cmp_in row b c e {Equal}) es"
| "holds row b (PIsNull c) \<longleftrightarrow> row_col row c \<in> {None, Some VNull}"
| "holds row b (PAnd ps) \<longleftrightarrow> list_all (holds row b) ps"
| "holds row b (POr ps) \<longleftrightarrow> list_ex (holds row b) ps"
| "holds row b (PNot p) \<longleftrightarrow> \<not> holds row b p"

lemma compare_in_cmp: "expr_resolves b e \<Longrightarrow> compare_in row b c e want = Inr (cmp_in row b c e want)"
  by (simp add: compare_in_def compare_col_def resolve_resolved cmp_in_def)

lemma any_equal_holds:
  "list_all (expr_resolves b) es \<Longrightarrow> any_equal row b c es = Inr (list_ex (\<lambda>e. cmp_in row b c e {Equal}) es)"
  by (induction es) (auto simp: compare_in_cmp)

lemma matches_holds_aux:
  "list_all (expr_resolves b) (pred_exprs p) \<Longrightarrow> matches row b p = Inr (holds row b p)"
  "list_all (expr_resolves b) (concat (map pred_exprs ps)) \<Longrightarrow> all_match row b ps = Inr (list_all (holds row b) ps)"
  "list_all (expr_resolves b) (concat (map pred_exprs ps)) \<Longrightarrow> any_match row b ps = Inr (list_ex (holds row b) ps)"
  by (induction row b p and row b ps and row b ps rule: matches_all_match_any_match.induct)
    (auto simp: compare_in_cmp any_equal_holds)

lemma matches_holds: "pred_resolves b p \<Longrightarrow> matches row b p = Inr (holds row b p)"
  by (simp add: pred_resolves_def matches_holds_aux)

lemma filter_up_to_take:
  assumes "pred_resolves b p"
  shows "filter_up_to p b budget n rows =
     Inr (case budget of None \<Rightarrow> filter (\<lambda>r. holds r b p) rows
          | Some k \<Rightarrow> take (k - n) (filter (\<lambda>r. holds r b p) rows))"
proof (induction rows arbitrary: n)
  case Nil
  then show ?case by (simp split: option.splits)
next
  case (Cons r rows)
  show ?case
  proof (cases budget)
    case None
    then show ?thesis using Cons by (simp add: matches_holds [OF assms] reached_def)
  next
    case (Some k)
    show ?thesis
    proof (cases "k \<le> n")
      case True
      then show ?thesis using Some by (simp add: reached_def)
    next
      case False
      then obtain m where "k - n = Suc m" "k - (n + 1) = m" by (cases "k - n") auto
      then show ?thesis using Cons False Some by (simp add: matches_holds [OF assms] reached_def)
    qed
  qed
qed

section \<open>The reference semantics\<close>

text \<open>Plans without budgets; an index scan is a filter over a full scan.\<close>

fun denote :: "row_source \<Rightarrow> (val \<Rightarrow> string) \<Rightarrow> plan \<Rightarrow> bindings \<Rightarrow> exec_error + qrow list" where
  "denote src js (Scan t) b = Inr (map mk_row (rs_scan src t))"
| "denote src js (PointLookup t key) b =
     and_then (resolve key b) (\<lambda>k. Inr (lookup_rows src t [encode_key js k]))"
| "denote src js (IndexScan t index p) b = filter_up_to p b None 0 (map mk_row (rs_scan src t))"
| "denote src js (Join outer inner c binds) b =
     and_then (denote src js outer b) (join_rows (denote src js inner) c binds b None 0)"
| "denote src js (Filter i p) b = and_then (denote src js i b) (filter_up_to p b None 0)"
| "denote src js (Project i cs) b = denote src js i b"
| "denote src js (Sort i by') b = and_then (denote src js i b) (\<lambda>rows. Inr (sort_rows by' rows))"
| "denote src js (Limit i count offset) b =
     and_then (denote src js i b) (\<lambda>rows. Inr (take count (drop offset rows)))"
| "denote src js (Aggregate i gs as) b =
     and_then (denote src js i b) (\<lambda>rows. Inr (aggregate_rows js gs as rows))"

text \<open>A plan that may be given a budget: no offset is under it.\<close>

fun budget_safe :: "plan \<Rightarrow> bool" where
  "budget_safe (Limit i count offset) \<longleftrightarrow> offset = 0 \<and> budget_safe i"
| "budget_safe (Project i _) \<longleftrightarrow> budget_safe i"
| "budget_safe _ \<longleftrightarrow> True"

text \<open>The plans the executor computes: predicates resolve, index scans are over served
  tables and exact bounds, limits do not overflow and are not nested over an offset.\<close>

fun pred_exact :: "(index_bound \<Rightarrow> bool) \<Rightarrow> bindings \<Rightarrow> predicate \<Rightarrow> bool" where
  "pred_exact exact b (PEq _ e) \<longleftrightarrow> exact (BEq (resolved b e))"
| "pred_exact exact b (PLt _ e) \<longleftrightarrow> exact (BRange None (Some (resolved b e, False)))"
| "pred_exact exact b (PLte _ e) \<longleftrightarrow> exact (BRange None (Some (resolved b e, True)))"
| "pred_exact exact b (PGt _ e) \<longleftrightarrow> exact (BRange (Some (resolved b e, False)) None)"
| "pred_exact exact b (PGte _ e) \<longleftrightarrow> exact (BRange (Some (resolved b e, True)) None)"
| "pred_exact exact b (PIn _ es) \<longleftrightarrow> exact (BAnyOf (map (resolved b) es))"
| "pred_exact exact b (PAnd ps) \<longleftrightarrow> list_all (pred_exact exact b) ps"
| "pred_exact exact b (POr ps) \<longleftrightarrow> list_all (pred_exact exact b) ps"
| "pred_exact exact b _ \<longleftrightarrow> True"

fun plan_ok :: "row_source \<Rightarrow> (string \<Rightarrow> bool) \<Rightarrow> (index_bound \<Rightarrow> bool) \<Rightarrow> (val \<Rightarrow> string) \<Rightarrow> plan \<Rightarrow> bindings \<Rightarrow> bool" where
  "plan_ok src serves exact js (Scan t) b \<longleftrightarrow> True"
| "plan_ok src serves exact js (PointLookup t key) b \<longleftrightarrow> True"
| "plan_ok src serves exact js (IndexScan t i p) b \<longleftrightarrow> serves t \<and> pred_resolves b p \<and> pred_exact exact b p"
| "plan_ok src serves exact js (Filter i p) b \<longleftrightarrow> plan_ok src serves exact js i b \<and> pred_resolves b p"
| "plan_ok src serves exact js (Project i cs) b \<longleftrightarrow> plan_ok src serves exact js i b"
| "plan_ok src serves exact js (Sort i by') b \<longleftrightarrow> plan_ok src serves exact js i b"
| "plan_ok src serves exact js (Limit i count offset) b \<longleftrightarrow>
     plan_ok src serves exact js i b \<and> budget_safe i \<and> offset + count \<le> u64_max"
| "plan_ok src serves exact js (Aggregate i gs as) b \<longleftrightarrow> plan_ok src serves exact js i b"
| "plan_ok src serves exact js (Join outer inner c binds) b \<longleftrightarrow>
     plan_ok src serves exact js outer b \<and>
     (case denote src js outer b of Inl _ \<Rightarrow> True
      | Inr rows \<Rightarrow> list_all (\<lambda>r. case row_col r c of None \<Rightarrow> True
          | Some key \<Rightarrow> plan_ok src serves exact js inner (b(binds \<mapsto> key))) rows)"

section \<open>The contract\<close>

locale row_source_laws =
  fixes src :: row_source
    and serves :: "string \<Rightarrow> bool"
    and exact :: "index_bound \<Rightarrow> bool"
  assumes bounded: "rs_scan_up_to src t m = (case m of None \<Rightarrow> rs_scan src t | Some n \<Rightarrow> take n (rs_scan src t))"
    and scan_sorted: "serves t \<Longrightarrow> sorted_wrt (<) (map fst (rs_scan src t))"
    and row_scan: "serves t \<Longrightarrow> rs_row src t pk = map_of (rs_scan src t) pk"
    and candidates_sorted: "rs_index_candidates src t c bound = Some ks \<Longrightarrow> sorted_wrt (<) ks"
    and candidates: "serves t \<Longrightarrow> exact bound \<Longrightarrow> rs_index_candidates src t c bound = Some ks \<Longrightarrow>
      (pk, row) \<in> set (rs_scan src t) \<Longrightarrow> row_column row pk c = Some x \<Longrightarrow> bound_matches bound x \<Longrightarrow> pk \<in> set ks"
begin

lemma key_set_set: "set (key_set ks) = set ks" and key_set_sorted: "sorted_wrt (<) (key_set ks)"
proof -
  have "omhas (fold (\<lambda>k. omput k ()) ks m) k \<longleftrightarrow> k \<in> set ks \<or> omhas m k" for k and m :: "(string, unit) omap"
    by (induction ks arbitrary: m) auto
  then show "set (key_set ks) = set ks" by (auto simp: key_set_def omkeys_set omhas_def)
  show "sorted_wrt (<) (key_set ks)" by (simp add: key_set_def)
qed

lemma index_candidates_sorted_aux:
  "s = src \<Longrightarrow> index_candidates s t b p = Some ks \<Longrightarrow> sorted_wrt (<) ks"
  "s = src \<Longrightarrow> first_candidates s t b ps = Some ks \<Longrightarrow> sorted_wrt (<) ks"
  "s = src \<Longrightarrow> union_candidates s t b ps = Some ks \<Longrightarrow> True"
  by (induction s t b p and s t b ps and s t b ps arbitrary: ks and ks and ks
      rule: index_candidates_first_candidates_union_candidates.induct)
    (auto simp: with_bound_def key_set_sorted candidates_sorted split: sum.splits option.splits)

lemma index_candidates_sorted: "index_candidates src t b p = Some ks \<Longrightarrow> sorted_wrt (<) ks"
  by (rule index_candidates_sorted_aux(1) [OF refl])

lemma row_col_mk [simp]: "row_col (mk_row (pk, row)) c = row_column row pk c"
  by (simp add: row_col_def mk_row_def)

lemma bound_candidates:
  assumes "serves t" and "exact (mk (resolved b e))" and "with_bound e b mk (rs_index_candidates src t c) = Some ks"
    and "(pk, row) \<in> set (rs_scan src t)" and "cmp_in (mk_row (pk, row)) b c e want"
    and "\<And>x o'. compare_values x (resolved b e) = Some o' \<Longrightarrow> o' \<in> want \<Longrightarrow> bound_matches (mk (resolved b e)) x"
  shows "pk \<in> set ks"
proof -
  have ks: "rs_index_candidates src t c (mk (resolved b e)) = Some ks"
    using assms(3) by (auto simp: with_bound_def resolved_def split: sum.splits)
  obtain x o' where "row_column row pk c = Some x" "compare_values x (resolved b e) = Some o'" "o' \<in> want"
    using assms(5) by (auto simp: cmp_in_def order_of_def split: option.splits)
  then show ?thesis using candidates [OF assms(1,2) ks assms(4)] assms(6) by blast
qed

lemma resolve_all_map: "resolve_all es b = Some vs \<Longrightarrow> vs = map (resolved b) es"
  by (induction es arbitrary: vs) (auto simp: resolved_def split: sum.splits)

lemma in_candidates:
  assumes "serves t" and "exact (BAnyOf (map (resolved b) es))" and "resolve_all es b = Some vs"
    and "rs_index_candidates src t c (BAnyOf vs) = Some ks"
    and "(pk, row) \<in> set (rs_scan src t)" and "list_ex (\<lambda>e. cmp_in (mk_row (pk, row)) b c e {Equal}) es"
  shows "pk \<in> set ks"
proof -
  have vs: "vs = map (resolved b) es" using assms(3) by (rule resolve_all_map)
  obtain e x where "e \<in> set es" "row_column row pk c = Some x" "compare_values x (resolved b e) = Some Equal"
    using assms(6) by (auto simp: list_ex_iff cmp_in_def order_of_def split: option.splits)
  then show ?thesis using candidates [OF assms(1) _ assms(4,5)] assms(2) vs by auto
qed

lemma index_candidates_superset_aux:
  assumes "serves t" and "(pk, row) \<in> set (rs_scan src t)"
  shows "s = src \<Longrightarrow> t' = t \<Longrightarrow> pred_exact exact b p \<Longrightarrow> index_candidates s t' b p = Some ks \<Longrightarrow>
      holds (mk_row (pk, row)) b p \<Longrightarrow> pk \<in> set ks"
    and "s = src \<Longrightarrow> t' = t \<Longrightarrow> list_all (pred_exact exact b) ps \<Longrightarrow> first_candidates s t' b ps = Some ks \<Longrightarrow>
      list_all (holds (mk_row (pk, row)) b) ps \<Longrightarrow> pk \<in> set ks"
    and "s = src \<Longrightarrow> t' = t \<Longrightarrow> list_all (pred_exact exact b) ps \<Longrightarrow> union_candidates s t' b ps = Some ks \<Longrightarrow>
      list_ex (holds (mk_row (pk, row)) b) ps \<Longrightarrow> pk \<in> set ks"
proof (induction s t' b p and s t' b ps and s t' b ps arbitrary: ks and ks and ks
    rule: index_candidates_first_candidates_union_candidates.induct)
  case (1 s t' b c e ks)
  then show ?case using bound_candidates [OF assms(1) _ _ assms(2), of BEq b e c ks "{Equal}"] by auto
next
  case (2 s t' b c es)
  then show ?case using in_candidates [OF assms(1) _ _ _ assms(2), of b es _ c] by (auto split: option.splits)
next
  case (3 s t' b c e ks)
  then show ?case using bound_candidates [OF assms(1) _ _ assms(2), of "\<lambda>v. BRange None (Some (v, False))" b e c ks "{Less}"] by auto
next
  case (4 s t' b c e ks)
  then show ?case using bound_candidates [OF assms(1) _ _ assms(2), of "\<lambda>v. BRange None (Some (v, True))" b e c ks "{Less, Equal}"] by auto
next
  case (5 s t' b c e ks)
  then show ?case using bound_candidates [OF assms(1) _ _ assms(2), of "\<lambda>v. BRange (Some (v, False)) None" b e c ks "{Greater}"] by auto
next
  case (6 s t' b c e ks)
  then show ?case using bound_candidates [OF assms(1) _ _ assms(2), of "\<lambda>v. BRange (Some (v, True)) None" b e c ks "{Greater, Equal}"] by auto
next
  case (8 s t' b ps)
  then show ?case by (auto simp: key_set_set)
next
  case (14 s t' b p ps)
  then show ?case by (auto split: option.splits)
next
  case (16 s t' b p ps)
  then show ?case by (auto split: option.splits)
qed auto

lemma index_candidates_superset:
  "serves t \<Longrightarrow> pred_exact exact b p \<Longrightarrow> index_candidates src t b p = Some ks \<Longrightarrow> (pk, row) \<in> set (rs_scan src t) \<Longrightarrow>
     holds (mk_row (pk, row)) b p \<Longrightarrow> pk \<in> set ks"
  by (rule index_candidates_superset_aux(1) [OF _ _ refl refl])

text \<open>Reading the candidates and filtering gives what filtering the scan gives.\<close>

lemma lookup_filter:
  assumes "serves t" and sorted: "sorted_wrt (<) ks"
    and super: "\<And>pk row. (pk, row) \<in> set (rs_scan src t) \<Longrightarrow> holds (mk_row (pk, row)) b p \<Longrightarrow> pk \<in> set ks"
  shows "filter (\<lambda>r. holds r b p) (lookup_rows src t ks) = filter (\<lambda>r. holds r b p) (map mk_row (rs_scan src t))"
proof -
  let ?scan = "rs_scan src t"
  let ?l = "filter (\<lambda>r. holds r b p) (lookup_rows src t ks)" and ?r = "filter (\<lambda>r. holds r b p) (map mk_row ?scan)"
  have ss: "sorted_wrt (<) (map fst ?scan)" using scan_sorted [OF assms(1)] .
  then have dist: "distinct (map fst ?scan)" by (simp add: strict_sorted_iff)
  have get: "rs_row src t pk = Some row \<longleftrightarrow> (pk, row) \<in> set ?scan" for pk row
    using row_scan [OF assms(1)] dist by simp
  have "sorted_wrt (\<lambda>x y. qr_pk x < qr_pk y) (lookup_rows src t ks)"
    unfolding lookup_rows_def using sorted
  proof (induction ks)
    case (Cons k ks)
    then show ?case by (auto simp: map_filter_simps map_filter_def mk_row_def split: option.splits)
  qed (simp add: map_filter_simps)
  then have ls: "sorted_wrt (<) (map qr_pk ?l)" by (auto simp: sorted_wrt_map intro: sorted_wrt_filter)
  have "sorted_wrt (\<lambda>x y. qr_pk x < qr_pk y) (map mk_row ?scan)"
    using ss by (simp add: sorted_wrt_map mk_row_def)
  then have rs: "sorted_wrt (<) (map qr_pk ?r)" by (auto simp: sorted_wrt_map intro: sorted_wrt_filter)
  have mem: "r \<in> set (lookup_rows src t ks) \<longleftrightarrow> (\<exists>pk row. r = mk_row (pk, row) \<and> pk \<in> set ks \<and> (pk, row) \<in> set ?scan)" for r
    by (auto simp: lookup_rows_def map_filter_set get)
  have "set ?l = set ?r"
  proof (intro set_eqI iffI)
    fix r assume "r \<in> set ?l"
    then show "r \<in> set ?r" by (auto simp: mem)
  next
    fix r assume r: "r \<in> set ?r"
    then obtain pk row where "r = mk_row (pk, row)" "(pk, row) \<in> set ?scan" "holds r b p" by auto
    with super show "r \<in> set ?l" by (auto simp: mem)
  qed
  moreover have "inj_on qr_pk (set ?l \<union> set ?r)"
  proof -
    have "inj_on qr_pk (set ?r)" using rs by (simp add: strict_sorted_iff distinct_map)
    then show ?thesis using calculation by simp
  qed
  ultimately show ?thesis using ls rs
    by (intro map_sorted_distinct_set_unique [where f = qr_pk]) (auto simp: strict_sorted_iff distinct_map)
qed

lemma index_scan_rows:
  assumes "serves t" and "pred_resolves b p" and "pred_exact exact b p"
  shows "eval src js (IndexScan t i p) b budget = denote src js (IndexScan t i p) b"
proof (cases "index_candidates src t b p")
  case None
  then show ?thesis by (simp add: scan_rows_def bounded)
next
  case (Some ks)
  have "filter (\<lambda>r. holds r b p) (lookup_rows src t ks) = filter (\<lambda>r. holds r b p) (map mk_row (rs_scan src t))"
    using index_candidates_superset [OF assms(1,3) Some] index_candidates_sorted [OF Some]
    by (intro lookup_filter [OF assms(1)])
  then show ?thesis using Some by (simp add: filter_up_to_take [OF assms(2)] del: filter_map)
qed

lemma join_rows_cong:
  assumes "\<And>r key ms. r \<in> set rows \<Longrightarrow> row_col r c = Some key \<Longrightarrow> g (b(binds \<mapsto> key)) = Inr ms \<Longrightarrow> f (b(binds \<mapsto> key)) = Inr ms"
    and "join_rows g c binds b None n rows = Inr out"
  shows "join_rows f c binds b None n rows = Inr out \<and>
     (\<forall>k. \<exists>out'. join_rows f c binds b (Some k) n rows = Inr out' \<and> take (k - n) out' = take (k - n) out)"
  using assms
proof (induction rows arbitrary: n out)
  case Nil
  then show ?case by simp
next
  case (Cons r rows)
  show ?case
  proof (cases "row_col r c")
    case None
    then have o': "join_rows g c binds b None n rows = Inr out" using Cons.prems(2) by simp
    have "join_rows f c binds b None n rows = Inr out \<and>
       (\<forall>k. \<exists>out'. join_rows f c binds b (Some k) n rows = Inr out' \<and> take (k - n) out' = take (k - n) out)"
      by (rule Cons.IH [OF _ o']) (rule Cons.prems(1), auto)
    then show ?thesis using None by simp
  next
    case (Some key)
    obtain ms where ms: "g (b(binds \<mapsto> key)) = Inr ms"
      using Cons.prems(2) Some by (cases "g (b(binds \<mapsto> key))") auto
    have f: "f (b(binds \<mapsto> key)) = Inr ms" by (rule Cons.prems(1) [OF _ Some ms]) simp
    obtain out1 where out1: "join_rows g c binds b None (n + length ms) rows = Inr out1"
      using Cons.prems(2) Some ms
      by (cases "join_rows g c binds b None (n + length ms) rows") (auto simp: reached_def)
    have out: "out = map (combine r) ms @ out1" using Cons.prems(2) Some ms out1 by (simp add: reached_def)
    have IH: "join_rows f c binds b None (n + length ms) rows = Inr out1"
      "\<And>k. \<exists>out'. join_rows f c binds b (Some k) (n + length ms) rows = Inr out' \<and>
         take (k - (n + length ms)) out' = take (k - (n + length ms)) out1"
      using Cons.IH [OF _ out1] Cons.prems(1) by auto
    have "\<exists>out'. join_rows f c binds b (Some k) n (r # rows) = Inr out' \<and> take (k - n) out' = take (k - n) out" for k
    proof (cases "k \<le> n + length ms")
      case True
      then show ?thesis using Some f out by (simp add: reached_def)
    next
      case False
      obtain out' where "join_rows f c binds b (Some k) (n + length ms) rows = Inr out'"
        "take (k - (n + length ms)) out' = take (k - (n + length ms)) out1" using IH(2) by blast
      then show ?thesis using Some f out False by (simp add: reached_def diff_diff_add)
    qed
    then show ?thesis using Some f IH(1) out by (simp add: reached_def)
  qed
qed

text \<open>A budget is only permission to stop early: the executor returns the reference
  result, or with a budget some list that agrees with it up to the budget.\<close>

lemma eval_denote_aux:
  "plan_ok src serves exact js p b \<Longrightarrow> denote src js p b = Inr rows \<Longrightarrow>
     eval src js p b None = Inr rows \<and>
     (budget_safe p \<longrightarrow> (\<forall>n. \<exists>rows'. eval src js p b (Some n) = Inr rows' \<and> take n rows' = take n rows))"
proof (induction p arbitrary: b rows)
  case (Scan t)
  then show ?case by (auto simp: scan_rows_def bounded take_map)
next
  case (PointLookup t e)
  then show ?case by simp
next
  case (IndexScan t i p)
  have "eval src js (IndexScan t i p) b budget = denote src js (IndexScan t i p) b" for budget
    using IndexScan.prems(1) by (intro index_scan_rows) simp_all
  then show ?case using IndexScan.prems(2) by auto
next
  case (Filter i p)
  obtain rs where rs: "denote src js i b = Inr rs" "filter_up_to p b None 0 rs = Inr rows"
    using Filter.prems(2) by (cases "denote src js i b") auto
  have res: "pred_resolves b p" using Filter.prems(1) by simp
  have "eval src js i b None = Inr rs" using Filter.IH [OF _ rs(1)] Filter.prems(1) by simp
  then show ?case using rs(2) by (simp add: filter_up_to_take [OF res])
next
  case (Project i cs)
  then show ?case by simp
next
  case (Sort i by')
  obtain rs where rs: "denote src js i b = Inr rs" using Sort.prems(2) by (cases "denote src js i b") auto
  have "eval src js i b None = Inr rs" using Sort.IH [OF _ rs] Sort.prems(1) by simp
  then show ?case using rs Sort.prems(2) by simp
next
  case (Limit i count offset)
  obtain rs where rs: "denote src js i b = Inr rs" "rows = take count (drop offset rs)"
    using Limit.prems(2) by (cases "denote src js i b") auto
  have fit: "sat_add64 offset count = offset + count" using Limit.prems(1) by (simp add: sat_add64_def)
  have bs: "budget_safe i" using Limit.prems(1) by simp
  have IH: "\<exists>rs'. eval src js i b (Some n) = Inr rs' \<and> take n rs' = take n rs" for n
    using Limit.IH [OF _ rs(1)] Limit.prems(1) by simp
  obtain rs0 where rs0: "eval src js i b (Some (offset + count)) = Inr rs0"
    "take (offset + count) rs0 = take (offset + count) rs" using IH by blast
  have "take count (drop offset rs0) = take count (drop offset rs)"
    using rs0(2) by (simp add: take_drop add.commute)
  then have "eval src js (Limit i count offset) b None = Inr rows"
    using rs0(1) rs(2) by (simp add: limit_budget_def fit)
  moreover have "\<exists>rows'. eval src js (Limit i count offset) b (Some n) = Inr rows' \<and> take n rows' = take n rows"
    if "budget_safe (Limit i count offset)" for n
  proof -
    have off: "offset = 0" using that by simp
    obtain rs1 where rs1: "eval src js i b (Some (min count n)) = Inr rs1"
      "take (min count n) rs1 = take (min count n) rs" using IH by blast
    have "take n (take count rs1) = take n (take count rs)" using rs1(2) by (simp add: min.commute)
    then show ?thesis using rs1(1) rs(2) off by (simp add: limit_budget_def fit [unfolded off])
  qed
  ultimately show ?case by blast
next
  case (Aggregate i gs as)
  obtain rs where rs: "denote src js i b = Inr rs" using Aggregate.prems(2) by (cases "denote src js i b") auto
  have "eval src js i b None = Inr rs" using Aggregate.IH [OF _ rs] Aggregate.prems(1) by simp
  then show ?case using rs Aggregate.prems(2) by simp
next
  case (Join outer inner c binds)
  obtain rs where rs: "denote src js outer b = Inr rs" "join_rows (denote src js inner) c binds b None 0 rs = Inr rows"
    using Join.prems(2) by (cases "denote src js outer b") auto
  have outer: "eval src js outer b None = Inr rs" using Join.IH(1) [OF _ rs(1)] Join.prems(1) by simp
  have inner: "eval src js inner (b(binds \<mapsto> key)) None = Inr ms"
    if "r \<in> set rs" "row_col r c = Some key" "denote src js inner (b(binds \<mapsto> key)) = Inr ms" for r key ms
  proof -
    have "\<forall>r \<in> set rs. case row_col r c of None \<Rightarrow> True | Some key \<Rightarrow> plan_ok src serves exact js inner (b(binds \<mapsto> key))"
      using Join.prems(1) rs(1) by (simp add: list_all_iff)
    from bspec [OF this that(1)] that(2) have "plan_ok src serves exact js inner (b(binds \<mapsto> key))" by simp
    from Join.IH(2) [OF this that(3)] show ?thesis by blast
  qed
  have "join_rows (\<lambda>b'. eval src js inner b' None) c binds b None 0 rs = Inr rows \<and>
     (\<forall>k. \<exists>out'. join_rows (\<lambda>b'. eval src js inner b' None) c binds b (Some k) 0 rs = Inr out' \<and>
        take (k - 0) out' = take (k - 0) rows)"
    using inner by (intro join_rows_cong [OF _ rs(2)]) blast
  then show ?case using outer by simp
qed

lemma eval_denote:
  "plan_ok src serves exact js p b \<Longrightarrow> denote src js p b = Inr rows \<Longrightarrow> eval src js p b None = Inr rows"
  using eval_denote_aux by blast

lemma limited_eval_denote:
  "plan_ok src serves exact js (Limit p n k) b \<Longrightarrow> denote src js p b = Inr rows \<Longrightarrow>
     eval src js (Limit p n k) b None = Inr (take n (drop k rows))"
  by (rule eval_denote) simp_all

end

end
