(* ===== verification/Query_Optimize.thy ===== *)
theory Query_Optimize
  imports Query_Sem
begin

text \<open>
  The optimizer passes (\<open>theta-query/src/optimize.rs\<close>) and the statistics they read
  (\<open>theta-query/src/stats.rs\<close>).  The passes keep the rows of a plan; they do not keep
  its columns, because the executor looks for a projection under a sort or a limit and not
  under a filter.
\<close>

section \<open>Statistics\<close>

record table_stats =
  ts_rows :: nat
  ts_distinct :: "(string, nat) omap"
  ts_indexes :: "(string, string) omap"

type_synonym statistics = "(string, table_stats) omap"

definition table_stats_default :: table_stats where
  "table_stats_default = \<lparr>ts_rows = 0, ts_distinct = omempty, ts_indexes = omempty\<rparr>"

definition stats_table :: "statistics \<Rightarrow> string \<Rightarrow> table_stats option" where
  "stats_table s t = omget s t"

definition set_table :: "string \<Rightarrow> table_stats \<Rightarrow> statistics \<Rightarrow> statistics" where
  "set_table t ts s = omput t ts s"

definition note_value :: "(val \<Rightarrow> string) \<Rightarrow> val \<Rightarrow> string \<Rightarrow> (string, (string, unit) omap) omap \<Rightarrow> (string, (string, unit) omap) omap" where
  "note_value js row c m =
     (case row_column row [] c of
        None \<Rightarrow> m
      | Some v \<Rightarrow> omput c (omput (js v) () (omget_or omempty m c)) m)"

definition analyze :: "(val \<Rightarrow> string) \<Rightarrow> string \<Rightarrow> (string \<times> val) list \<Rightarrow> statistics \<Rightarrow> statistics" where
  "analyze js t rows s =
     (let distinct' = fold (\<lambda>(_, row). fold (note_value js row) (columns_of row)) rows omempty;
          existing = (case omget s t of None \<Rightarrow> omempty | Some ts \<Rightarrow> ts_indexes ts)
      in omput t \<lparr>ts_rows = length rows,
           ts_distinct = ommap (\<lambda>_ vs. length (omlist vs)) distinct', ts_indexes = existing\<rparr> s)"

definition declare_index :: "string \<Rightarrow> string \<Rightarrow> string \<Rightarrow> statistics \<Rightarrow> statistics" where
  "declare_index t c i s =
     (let ts = omget_or table_stats_default s t
      in omput t (ts\<lparr>ts_indexes := omput c i (ts_indexes ts)\<rparr>) s)"

section \<open>Passes\<close>

function push_down_predicates :: "plan \<Rightarrow> plan" where
  "push_down_predicates (Filter (Project i cs) p) = Project (push_down_predicates (Filter i p)) cs"
| "push_down_predicates (Filter (Sort i by') p) = Sort (push_down_predicates (Filter i p)) by'"
| "push_down_predicates (Filter (Scan t) p) = Filter (push_down_predicates (Scan t)) p"
| "push_down_predicates (Filter (PointLookup t e) p) = Filter (push_down_predicates (PointLookup t e)) p"
| "push_down_predicates (Filter (IndexScan t i q) p) = Filter (push_down_predicates (IndexScan t i q)) p"
| "push_down_predicates (Filter (Filter i q) p) = Filter (push_down_predicates (Filter i q)) p"
| "push_down_predicates (Filter (Limit i n m) p) = Filter (push_down_predicates (Limit i n m)) p"
| "push_down_predicates (Filter (Aggregate i gs as) p) = Filter (push_down_predicates (Aggregate i gs as)) p"
| "push_down_predicates (Filter (Join q1 q2 c b) p) = Filter (push_down_predicates (Join q1 q2 c b)) p"
| "push_down_predicates (Project i cs) = Project (push_down_predicates i) cs"
| "push_down_predicates (Sort i by') = Sort (push_down_predicates i) by'"
| "push_down_predicates (Limit i n m) = Limit (push_down_predicates i) n m"
| "push_down_predicates (Aggregate i gs as) = Aggregate (push_down_predicates i) gs as"
| "push_down_predicates (Scan t) = Scan t"
| "push_down_predicates (PointLookup t e) = PointLookup t e"
| "push_down_predicates (IndexScan t i q) = IndexScan t i q"
| "push_down_predicates (Join q1 q2 c b) = Join q1 q2 c b"
  by pat_completeness auto
termination by (relation "measure size") auto

fun index_for :: "statistics \<Rightarrow> string \<Rightarrow> predicate \<Rightarrow> string option"
  and first_index :: "statistics \<Rightarrow> string \<Rightarrow> predicate list \<Rightarrow> string option" where
  "index_for s t (PEq c _) = Option.bind (stats_table s t) (\<lambda>ts. omget (ts_indexes ts) c)"
| "index_for s t (PLt c _) = Option.bind (stats_table s t) (\<lambda>ts. omget (ts_indexes ts) c)"
| "index_for s t (PLte c _) = Option.bind (stats_table s t) (\<lambda>ts. omget (ts_indexes ts) c)"
| "index_for s t (PGt c _) = Option.bind (stats_table s t) (\<lambda>ts. omget (ts_indexes ts) c)"
| "index_for s t (PGte c _) = Option.bind (stats_table s t) (\<lambda>ts. omget (ts_indexes ts) c)"
| "index_for s t (PIn c _) = Option.bind (stats_table s t) (\<lambda>ts. omget (ts_indexes ts) c)"
| "index_for s t (PAnd ps) = Option.bind (stats_table s t) (\<lambda>_. first_index s t ps)"
| "index_for s t (POr _) = None"
| "index_for s t (PNot _) = None"
| "index_for s t (PNe _ _) = None"
| "index_for s t (PIsNull _) = None"
| "index_for s t PTrue = None"
| "first_index s t [] = None"
| "first_index s t (p # ps) = (case index_for s t p of Some i \<Rightarrow> Some i | None \<Rightarrow> first_index s t ps)"

fun select_indexes :: "statistics \<Rightarrow> plan \<Rightarrow> plan" where
  "select_indexes s (Filter i p) =
     (case select_indexes s i of
        Scan t \<Rightarrow> (case index_for s t p of
            None \<Rightarrow> Filter (Scan t) p
          | Some index \<Rightarrow> IndexScan t index p)
      | other \<Rightarrow> Filter other p)"
| "select_indexes s (Project i cs) = Project (select_indexes s i) cs"
| "select_indexes s (Sort i by') = Sort (select_indexes s i) by'"
| "select_indexes s (Limit i n m) = Limit (select_indexes s i) n m"
| "select_indexes s (Aggregate i gs as) = Aggregate (select_indexes s i) gs as"
| "select_indexes s leaf = leaf"

fun is_point_lookup :: "plan \<Rightarrow> bool" where
  "is_point_lookup (PointLookup _ _) = True"
| "is_point_lookup _ = False"

fun simplify :: "plan \<Rightarrow> plan" where
  "simplify (Filter i p) = (if p = PTrue then simplify i else Filter (simplify i) p)"
| "simplify (Limit i count offset) =
     (if is_point_lookup (simplify i) \<and> offset = 0 \<and> 1 \<le> count then simplify i
      else Limit (simplify i) count offset)"
| "simplify (Project i cs) = Project (simplify i) cs"
| "simplify (Sort i by') = Sort (simplify i) by'"
| "simplify (Aggregate i gs as) = Aggregate (simplify i) gs as"
| "simplify leaf = leaf"

definition optimize :: "statistics \<Rightarrow> plan \<Rightarrow> plan" where
  "optimize s p = simplify (select_indexes s (push_down_predicates p))"

section \<open>The passes keep the rows\<close>

lemma denote_filter:
  "pred_resolves b p \<Longrightarrow> denote src js (Filter i p) b = and_then (denote src js i b) (\<lambda>rows. Inr (filter (\<lambda>r. holds r b p) rows))"
  by (cases "denote src js i b") (simp_all add: filter_up_to_take)

text \<open>Index selection and simplification leave the meaning of every plan alone, errors
  included, except that a trivially true filter is no longer evaluated.\<close>

lemma select_indexes_denote: "denote src js (select_indexes s p) b = denote src js p b"
proof (induction p arbitrary: b)
  case (Filter i p)
  have "denote src js (Filter (select_indexes s i) p) b = denote src js (Filter i p) b" by (simp add: Filter)
  moreover have "denote src js (select_indexes s (Filter i p)) b = denote src js (Filter (select_indexes s i) p) b"
    by (cases "select_indexes s i") (auto split: option.splits)
  ultimately show ?case by simp
qed simp_all

lemma point_lookup_rows: "denote src js (PointLookup t e) b = Inr rows \<Longrightarrow> length rows \<le> 1"
  by (cases "resolve e b") (auto simp: lookup_rows_def map_filter_simps split: option.splits)

lemma simplify_denote: "denote src js (simplify p) b = denote src js p b"
proof (induction p arbitrary: b)
  case (Filter i p)
  then show ?case by (cases "denote src js i b") (auto simp: filter_up_to_take pred_resolves_def)
next
  case (Limit i count offset)
  show ?case
  proof (cases "is_point_lookup (simplify i) \<and> offset = 0 \<and> 1 \<le> count")
    case True
    then obtain t e where pl: "simplify i = PointLookup t e" by (cases "simplify i") auto
    then have di: "denote src js (PointLookup t e) b = denote src js i b" using Limit [of b] by simp
    have "denote src js (simplify (Limit i count offset)) b = denote src js i b" using True Limit by simp
    moreover have "denote src js (Limit i count offset) b = denote src js i b"
    proof (cases "denote src js i b")
      case (Inr rows)
      then have "take count rows = rows" using point_lookup_rows [of src js t e b rows] True di by simp
      then show ?thesis using True Inr by simp
    qed simp
    ultimately show ?thesis by simp
  next
    case False
    then have "simplify (Limit i count offset) = Limit (simplify i) count offset"
      by (simp only: simplify.simps if_False)
    then show ?thesis by (simp add: Limit)
  qed
qed simp_all

section \<open>Filtering and sorting commute\<close>

text \<open>Where the comparator is transitive on the rows at hand; it is antisymmetric on all.\<close>

definition sortable :: "(string \<times> sort_order) list \<Rightarrow> qrow list \<Rightarrow> bool" where
  "sortable by' rows \<longleftrightarrow>
     list_all (\<lambda>a. list_all (\<lambda>b. list_all (\<lambda>c.
       compare_rows by' a b \<noteq> Greater \<longrightarrow> compare_rows by' b c \<noteq> Greater \<longrightarrow> compare_rows by' a c \<noteq> Greater) rows) rows) rows"

lemma ord_reverse_simps [simp]: "ord_reverse (ord_reverse o') = o'" "ord_reverse (cmp a b) = cmp b a"
  by (cases o') (auto simp: cmp_def)

lemma f64_cmp_reverse: "f64_partial_cmp a b = map_option ord_reverse (f64_partial_cmp b a)"
  by (simp add: f64_partial_cmp_def)

lemma compare_values_reverse: "compare_values a b = map_option ord_reverse (compare_values b a)"
  by (cases a; cases b) (simp_all add: f64_cmp_reverse [symmetric])

lemma compare_cols_reverse: "compare_cols a b = ord_reverse (compare_cols b a)"
proof (cases a; cases b)
  fix x y
  assume "a = Some x" and "b = Some y"
  then show ?thesis using compare_values_reverse [of x y]
    by (cases "compare_values y x") (simp_all add: compare_cols_def)
qed (simp_all add: compare_cols_def)

lemma ord_then_reverse: "ord_reverse (ord_then a b) = ord_then (ord_reverse a) (ord_reverse b)"
  by (cases a) auto

lemma compare_rows_reverse: "compare_rows by' a b = ord_reverse (compare_rows by' b a)"
proof (induction by')
  case (Cons x by')
  obtain c ord where x: "x = (c, ord)" by (cases x)
  show ?case
    using Cons compare_cols_reverse [of "row_col a c" "row_col b c"]
    by (cases ord) (simp_all add: x ord_then_reverse)
qed simp

lemma compare_rows_total: "compare_rows by' a b = Greater \<Longrightarrow> compare_rows by' b a \<noteq> Greater"
  using compare_rows_reverse [of by' a b] by (cases "compare_rows by' b a") auto

lemma set_insert_row: "set (insert_row f x ys) = insert x (set ys)"
  by (induction f x ys rule: insert_row.induct) auto

lemma set_sort_rows: "set (sort_rows by' rows) = set rows"
  unfolding sort_rows_def by (induction rows) (auto simp: set_insert_row)

abbreviation rows_le :: "(string \<times> sort_order) list \<Rightarrow> qrow \<Rightarrow> qrow \<Rightarrow> bool" where
  "rows_le by' a b \<equiv> compare_rows by' a b \<noteq> Greater"

definition rows_trans :: "(string \<times> sort_order) list \<Rightarrow> qrow set \<Rightarrow> bool" where
  "rows_trans by' A \<longleftrightarrow> (\<forall>a \<in> A. \<forall>b \<in> A. \<forall>c \<in> A. rows_le by' a b \<longrightarrow> rows_le by' b c \<longrightarrow> rows_le by' a c)"

lemma sortable_trans: "sortable by' rows \<longleftrightarrow> rows_trans by' (set rows)"
  by (simp add: sortable_def rows_trans_def list_all_iff)

lemma rows_trans_subset: "rows_trans by' A \<Longrightarrow> B \<subseteq> A \<Longrightarrow> rows_trans by' B"
  unfolding rows_trans_def by blast

lemma rows_transD: "rows_trans by' A \<Longrightarrow> a \<in> A \<Longrightarrow> b \<in> A \<Longrightarrow> c \<in> A \<Longrightarrow> rows_le by' a b \<Longrightarrow> rows_le by' b c \<Longrightarrow> rows_le by' a c"
  unfolding rows_trans_def by blast

lemma insert_row_sorted:
  "rows_trans by' (insert x (set ys)) \<Longrightarrow> sorted_wrt (rows_le by') ys \<Longrightarrow> sorted_wrt (rows_le by') (insert_row (compare_rows by') x ys)"
proof (induction ys)
  case (Cons y ys)
  have IH: "sorted_wrt (rows_le by') (insert_row (compare_rows by') x ys)"
    using Cons.prems rows_trans_subset [OF Cons.prems(1), of "insert x (set ys)"] by (intro Cons.IH) auto
  show ?case
  proof (cases "compare_rows by' x y = Greater")
    case True
    then show ?thesis using IH Cons.prems(2) compare_rows_total [OF True] by (simp add: set_insert_row)
  next
    case False
    then have "\<forall>z \<in> set ys. rows_le by' x z"
      using Cons.prems rows_transD [OF Cons.prems(1), of x y] by auto
    then show ?thesis using False Cons.prems(2) by simp
  qed
qed simp

lemma sort_rows_sorted: "rows_trans by' (set rows) \<Longrightarrow> sorted_wrt (rows_le by') (sort_rows by' rows)"
  unfolding sort_rows_def
proof (induction rows)
  case (Cons r rows)
  have t: "rows_trans by' (set rows)" using Cons.prems by (rule rows_trans_subset) auto
  show ?case using Cons.IH [OF t] Cons.prems set_sort_rows [of by' rows, unfolded sort_rows_def]
    by (simp add: insert_row_sorted)
qed simp

lemma insert_row_front: "\<forall>z \<in> set zs. rows_le by' x z \<Longrightarrow> insert_row (compare_rows by') x zs = x # zs"
  by (cases zs) auto

lemma filter_insert_row:
  "rows_trans by' (insert x (set ys)) \<Longrightarrow> sorted_wrt (rows_le by') ys \<Longrightarrow>
     filter P (insert_row (compare_rows by') x ys) =
     (if P x then insert_row (compare_rows by') x (filter P ys) else filter P ys)"
proof (induction ys)
  case (Cons y ys)
  show ?case
  proof (cases "compare_rows by' x y = Greater")
    case True
    have "filter P (insert_row (compare_rows by') x ys) =
        (if P x then insert_row (compare_rows by') x (filter P ys) else filter P ys)"
      using Cons.prems rows_trans_subset [OF Cons.prems(1), of "insert x (set ys)"] by (intro Cons.IH) auto
    then show ?thesis using True by simp
  next
    case False
    then have "\<forall>z \<in> set (y # ys). rows_le by' x z"
      using Cons.prems rows_transD [OF Cons.prems(1), of x y] by auto
    then have "insert_row (compare_rows by') x (filter P (y # ys)) = x # filter P (y # ys)"
      by (intro insert_row_front) auto
    then show ?thesis using False by simp
  qed
qed simp

lemma filter_sort_rows: "rows_trans by' (set rows) \<Longrightarrow> filter P (sort_rows by' rows) = sort_rows by' (filter P rows)"
proof (induction rows)
  case Nil
  then show ?case by (simp add: sort_rows_def)
next
  case (Cons r rows)
  have t: "rows_trans by' (set rows)" using Cons.prems by (rule rows_trans_subset) auto
  have u: "sort_rows by' (r # rs) = insert_row (compare_rows by') r (sort_rows by' rs)" for rs
    by (simp add: sort_rows_def)
  have "filter P (sort_rows by' (r # rows)) =
      (if P r then insert_row (compare_rows by') r (filter P (sort_rows by' rows)) else filter P (sort_rows by' rows))"
    unfolding u using Cons.prems sort_rows_sorted [OF t]
    by (intro filter_insert_row) (simp_all add: set_sort_rows)
  then show ?case using Cons.IH [OF t] by (simp add: u)
qed

section \<open>Pushing filters down\<close>

text \<open>The filters of the plan resolve, and its sorts compare what they sort.\<close>

fun sorts_ok :: "row_source \<Rightarrow> (val \<Rightarrow> string) \<Rightarrow> plan \<Rightarrow> bindings \<Rightarrow> bool" where
  "sorts_ok src js (Filter i p) b \<longleftrightarrow> sorts_ok src js i b \<and> pred_resolves b p"
| "sorts_ok src js (Sort i by') b \<longleftrightarrow> sorts_ok src js i b \<and>
     (case denote src js i b of Inl _ \<Rightarrow> True | Inr rows \<Rightarrow> sortable by' rows)"
| "sorts_ok src js (Project i _) b \<longleftrightarrow> sorts_ok src js i b"
| "sorts_ok src js (Limit i _ _) b \<longleftrightarrow> sorts_ok src js i b"
| "sorts_ok src js (Aggregate i _ _) b \<longleftrightarrow> sorts_ok src js i b"
| "sorts_ok src js _ b \<longleftrightarrow> True"

lemma filter_sort_denote:
  assumes "pred_resolves b p" and "case denote src js i b of Inl _ \<Rightarrow> True | Inr rows \<Rightarrow> sortable by' rows"
  shows "denote src js (Filter (Sort i by') p) b = denote src js (Sort (Filter i p) by') b"
  using assms by (cases "denote src js i b") (simp_all add: filter_up_to_take sortable_trans filter_sort_rows)

lemma push_down_denote: "sorts_ok src js p b \<Longrightarrow> denote src js (push_down_predicates p) b = denote src js p b"
proof (induction p rule: push_down_predicates.induct)
  case (2 i by' p)
  have "denote src js (push_down_predicates (Filter (Sort i by') p)) b = denote src js (Sort (Filter i p) by') b"
    using 2 by simp
  also have "\<dots> = denote src js (Filter (Sort i by') p) b"
    using "2.prems" by (intro filter_sort_denote [symmetric]) simp_all
  finally show ?case .
qed simp_all

lemma optimize_denote: "sorts_ok src js p b \<Longrightarrow> denote src js (optimize s p) b = denote src js p b"
  by (simp add: optimize_def simplify_denote select_indexes_denote push_down_denote)

end
