(* ===== verification/Query_Check.thy ===== *)
theory Query_Check
  imports Query_Optimize "HOL-Library.Multiset"
begin

text \<open>
  What a caller of the executor can rely on: which errors a plan that passed
  \<open>check_bindings\<close> can still give, the shape of a result set, and what a sort returns.
\<close>

section \<open>Errors after the bindings are checked\<close>

text \<open>The parameters a plan needs from its caller, with joins scoped: a join binds its name
  in its inner side only.\<close>

fun free_params :: "plan \<Rightarrow> string list" where
  "free_params (Scan _) = []"
| "free_params (PointLookup _ e) = map fst (expr_params e)"
| "free_params (IndexScan _ _ p) = map fst (pred_params p)"
| "free_params (Filter i p) = free_params i @ map fst (pred_params p)"
| "free_params (Project i _) = free_params i"
| "free_params (Sort i _) = free_params i"
| "free_params (Limit i _ _) = free_params i"
| "free_params (Aggregate i _ _) = free_params i"
| "free_params (Join outer inner _ binds) = free_params outer @ filter (\<lambda>n. n \<noteq> binds) (free_params inner)"

definition covers_params :: "bindings \<Rightarrow> string list \<Rightarrow> bool" where
  "covers_params b ns \<longleftrightarrow> list_all (\<lambda>n. b n \<noteq> None) ns"

definition only_unsupported :: "exec_error + 'a \<Rightarrow> bool" where
  "only_unsupported r \<longleftrightarrow> (case r of Inl (Unsupported _) \<Rightarrow> True | Inl _ \<Rightarrow> False | Inr _ \<Rightarrow> True)"

named_theorems unsupported

lemma unsupported_Inr [simp]: "only_unsupported (Inr x)"
  by (simp add: only_unsupported_def)

lemma unsupported_then [simp]:
  "only_unsupported (and_then r f) \<longleftrightarrow> only_unsupported r \<and> (\<forall>x. r = Inr x \<longrightarrow> only_unsupported (f x))"
  by (cases r) (simp_all add: only_unsupported_def)

lemma covers_simps [simp]:
  "covers_params b []" "covers_params b (n # ns) \<longleftrightarrow> b n \<noteq> None \<and> covers_params b ns"
  "covers_params b (ns @ ms) \<longleftrightarrow> covers_params b ns \<and> covers_params b ms"
  by (simp_all add: covers_params_def)

lemma covers_update: "covers_params b (filter (\<lambda>n. n \<noteq> x) ns) \<Longrightarrow> covers_params (b(x \<mapsto> v)) ns"
  by (auto simp: covers_params_def list_all_iff)

lemma resolve_unsupported [unsupported]: "covers_params b (map fst (expr_params e)) \<Longrightarrow> only_unsupported (resolve e b)"
  by (cases e) (auto simp: only_unsupported_def)

lemma compare_in_unsupported [unsupported]:
  "covers_params b (map fst (expr_params e)) \<Longrightarrow> only_unsupported (compare_in row b c e want)"
  by (simp add: compare_in_def compare_col_def unsupported)

lemma any_equal_unsupported [unsupported]:
  "covers_params b (map fst (concat (map expr_params es))) \<Longrightarrow> only_unsupported (any_equal row b c es)"
  by (induction es) (simp_all add: unsupported)

lemma matches_unsupported_aux:
  "covers_params b (map fst (pred_params p)) \<Longrightarrow> only_unsupported (matches row b p)"
  "covers_params b (map fst (concat (map pred_params ps))) \<Longrightarrow> only_unsupported (all_match row b ps)"
  "covers_params b (map fst (concat (map pred_params ps))) \<Longrightarrow> only_unsupported (any_match row b ps)"
  by (induction row b p and row b ps and row b ps rule: matches_all_match_any_match.induct)
    (simp_all add: unsupported)

lemma filter_up_to_unsupported [unsupported]:
  "covers_params b (map fst (pred_params p)) \<Longrightarrow> only_unsupported (filter_up_to p b budget n rows)"
  by (induction p b budget n rows rule: filter_up_to.induct)
    (simp_all add: matches_unsupported_aux)

lemma join_unsupported [unsupported]:
  "(\<And>v. only_unsupported (inner (b(binds \<mapsto> v)))) \<Longrightarrow> only_unsupported (join_rows inner c binds b budget n rows)"
  by (induction inner c binds b budget n rows rule: join_rows.induct)
    (simp_all split: option.splits)

lemma eval_unsupported: "covers_params b (free_params p) \<Longrightarrow> only_unsupported (eval src js p b budget)"
proof (induction p arbitrary: b budget)
  case (Join outer inner c binds)
  have "only_unsupported (eval src js inner (b(binds \<mapsto> v)) None)" for v
    using Join.prems by (intro Join.IH(2) covers_update) simp
  moreover have "only_unsupported (eval src js outer b None)" using Join by simp
  ultimately show ?case by (simp add: join_unsupported)
qed (simp_all add: unsupported Let_def)

lemma check_params_bound: "check_params ps b = Inr () \<Longrightarrow> covers_params b (map fst ps)"
  by (induction ps b rule: check_params.induct) (auto split: option.splits if_splits)

text \<open>A plan whose bindings pass the check never fails on a parameter: the only error
  left is a shape the executor does not support, for every plan in which no join's binding
  hides a parameter from the check.\<close>

theorem checked_plan_only_unsupported:
  assumes "set (free_params p) \<subseteq> set (map fst (plan_params p))"
    and "check_bindings p b = Inr ()" and "execute src js p b = Inl e"
  shows "\<exists>what. e = Unsupported what"
proof -
  have "covers_params b (map fst (plan_params p))"
    using assms(2) by (simp add: check_bindings_def check_params_bound)
  then have "covers_params b (free_params p)"
    using assms(1) unfolding covers_params_def list_all_iff by blast
  from eval_unsupported [OF this, of src js None] show ?thesis
    using assms(2,3) by (cases "eval src js p b None")
      (auto simp: execute_def only_unsupported_def split: exec_error.splits)
qed

definition no_rows :: row_source where
  "no_rows = \<lparr>rs_scan = \<lambda>_. [], rs_row = \<lambda>_ _. None, rs_scan_up_to = \<lambda>_ _. [],
     rs_column_type = \<lambda>_ _. None, rs_index_candidates = \<lambda>_ _ _. None\<rparr>"

lemma checked_plan_only_unsupported_witness:
  "\<exists>what. Unsupported ''empty column reference'' = Unsupported what"
  by (rule checked_plan_only_unsupported [of "PointLookup ''t'' (EColumn '''')" Map.empty no_rows "\<lambda>_. []"])
    (simp_all add: plan_params_def check_bindings_def execute_def)

text \<open>With such a join the check passes and the plan fails: the join takes its binding out of
  the parameters of its outer side too.\<close>

lemma join_hides_a_parameter:
  "check_bindings (Join (PointLookup ''t'' (EParam ''p'' None)) (Scan ''u'') ''c'' ''p'') Map.empty = Inr ()"
  "execute src js (Join (PointLookup ''t'' (EParam ''p'' None)) (Scan ''u'') ''c'' ''p'') Map.empty = Inl (UnboundParameter ''p'')"
  by (simp_all add: check_bindings_def plan_params_def execute_def)

lemma check_params_spec:
  "check_params ps b = Inr () \<longleftrightarrow>
     list_all (\<lambda>(n, ty). case b n of None \<Rightarrow> False | Some v \<Rightarrow> (case ty of None \<Rightarrow> True | Some d \<Rightarrow> accepts d v)) ps"
  by (induction ps b rule: check_params.induct) (auto split: option.splits)

definition refuses :: "bindings \<Rightarrow> exec_error \<Rightarrow> string \<times> value_type option \<Rightarrow> bool" where
  "refuses b e np = (case np of (n, ty) \<Rightarrow> (case b n of
     None \<Rightarrow> e = UnboundParameter n
   | Some v \<Rightarrow> (case ty of None \<Rightarrow> False
       | Some d \<Rightarrow> \<not> accepts d v \<and> e = ParameterType n d (inferred_type v))))"

lemma check_params_error:
  "check_params ps b = Inl e \<Longrightarrow> list_ex (refuses b e) ps"
proof (induction ps b rule: check_params.induct)
  case (2 name declared ps b)
  then show ?case by (cases "b name"; cases declared) (auto simp: refuses_def [where np = "(n, ty)" for n ty] split: if_splits)
qed simp

text \<open>C24: Bindings pass the check exactly when every parameter the plan lists has a value
  that its declared type accepts; a refusal names a listed parameter and what is wrong
  with its value.\<close>

theorem bindings_check_types:
  "(check_bindings p b = Inr () \<longleftrightarrow> list_all (\<lambda>(n, ty).
      case b n of None \<Rightarrow> False | Some v \<Rightarrow> (case ty of None \<Rightarrow> True | Some d \<Rightarrow> accepts d v)) (plan_params p)) \<and>
   (\<forall>e. check_bindings p b = Inl e \<longrightarrow> list_ex (refuses b e) (plan_params p))"
  by (simp add: check_bindings_def check_params_spec check_params_error)

lemma bindings_check_types_witness:
  "\<exists>n d v. check_bindings (PointLookup ''t'' (EParam ''p'' (Some TInt))) [''p'' \<mapsto> VText ''x''] =
     Inl (ParameterType n d (inferred_type v)) \<and> \<not> accepts d v"
proof -
  let ?p = "PointLookup ''t'' (EParam ''p'' (Some TInt))" and ?b = "[''p'' \<mapsto> VText ''x'']"
  have "check_bindings ?p ?b = Inl (ParameterType ''p'' TInt TText)"
    by (simp add: check_bindings_def plan_params_def accepts_def)
  moreover from this have "\<not> accepts TInt (VText ''x'')"
    using bindings_check_types [of ?p ?b] by (auto simp: plan_params_def refuses_def)
  ultimately show ?thesis by (intro exI [of _ "''p''"] exI [of _ TInt] exI [of _ "VText ''x''"]) simp
qed

section \<open>Result sets\<close>

lemma see_columns_set: "set (see_columns cs (n # ns)) = insert n (set ns \<union> set cs)"
  by (induction cs arbitrary: ns) auto

lemma columns_of_col: "row_column row pk c = Some x \<Longrightarrow> c = key_column \<or> c \<in> set (columns_of row)"
  by (cases row) (auto simp: row_column_def columns_of_def split: if_splits dest: map_of_SomeD intro: rev_image_eqI)

text \<open>A result set without a projection loses no value: whatever can be read from a
  row of the result, its key included, is in that row of the result set under the column
  of its name.\<close>

theorem result_keeps_every_value:
  assumes "explicit_projection p = None" and "j < length rows" and "row_col (rows ! j) c = Some x"
  shows "\<exists>i < length (res_columns (materialize src t p rows)).
     cl_name (res_columns (materialize src t p rows) ! i) = c \<and> res_rows (materialize src t p rows) ! j ! i = x"
proof -
  let ?names = "projected_columns p rows"
  have "c \<in> set ?names"
    using assms columns_of_col [of "qr_value (rows ! j)" "qr_pk (rows ! j)" c x] nth_mem [OF assms(2)]
    by (auto simp: projected_columns_def see_columns_set row_col_def)
  then obtain i where "i < length ?names" "?names ! i = c" by (auto simp: in_set_conv_nth)
  then show ?thesis using assms(2,3)
    by (intro exI [of _ i]) (simp add: materialize_def Let_def column_for_def)
qed

lemma result_keeps_every_value_witness:
  "\<exists>i < length (res_columns (materialize no_rows ''t'' (Scan ''t'') [mk_row (''1'', VInt 7)])).
     cl_name (res_columns (materialize no_rows ''t'' (Scan ''t'') [mk_row (''1'', VInt 7)]) ! i) = ''value'' \<and>
     res_rows (materialize no_rows ''t'' (Scan ''t'') [mk_row (''1'', VInt 7)]) ! 0 ! i = VInt 7"
  by (rule result_keeps_every_value) (simp_all add: row_col_def mk_row_def row_column_def key_column_def value_column_def)

section \<open>Sorting and grouping\<close>

lemma mset_insert_row: "mset (insert_row f x ys) = add_mset x (mset ys)"
  by (induction f x ys rule: insert_row.induct) auto

text \<open>A sort returns the rows it was given, each as often, and in the order of its
  columns with ties broken by key, wherever the comparison of its columns is transitive.\<close>

theorem sort_orders_the_rows:
  "mset (sort_rows by' rows) = mset rows \<and>
   (sortable by' rows \<longrightarrow> sorted_wrt (\<lambda>a b. compare_rows by' a b \<noteq> Greater) (sort_rows by' rows))"
proof
  show "mset (sort_rows by' rows) = mset rows"
    unfolding sort_rows_def by (induction rows) (auto simp: mset_insert_row)
  show "sortable by' rows \<longrightarrow> sorted_wrt (\<lambda>a b. compare_rows by' a b \<noteq> Greater) (sort_rows by' rows)"
    using sort_rows_sorted [of by' rows] by (simp add: sortable_trans)
qed

lemma sort_orders_the_rows_witness:
  "sorted_wrt (\<lambda>a b. compare_rows [(''value'', Desc)] a b \<noteq> Greater)
     (sort_rows [(''value'', Desc)] [mk_row (''1'', VInt 3), mk_row (''2'', VInt 5)])"
proof -
  have "sortable [(''value'', Desc)] [mk_row (''1'', VInt 3), mk_row (''2'', VInt 5)]"
    by (simp add: sortable_def mk_row_def row_col_def row_column_def key_column_def value_column_def compare_cols_def cmp_def)
  then show ?thesis using sort_orders_the_rows [of "[(''value'', Desc)]"] by blast
qed

text \<open>Grouping partitions the rows: the group of a key is exactly the rows that have it,
  in their order, and no group is empty.\<close>

theorem grouping_partitions_rows:
  "omget (group_rows js gs rows) k =
     (if filter (\<lambda>r. group_key js gs r = k) rows = [] then None
      else Some (filter (\<lambda>r. group_key js gs r = k) rows))"
proof (induction rows rule: rev_induct)
  case Nil
  then show ?case by (simp add: group_rows_def)
next
  case (snoc r rows)
  let ?g = "group_rows js gs rows"
  have step: "group_rows js gs (rows @ [r]) = omput (group_key js gs r) (omget_or [] ?g (group_key js gs r) @ [r]) ?g"
    by (simp add: group_rows_def)
  show ?case
  proof (cases "k = group_key js gs r")
    case True
    then show ?thesis using snoc by (auto simp: step omget_or_def)
  next
    case False
    then show ?thesis using snoc by (simp add: step)
  qed
qed

end
