(* ===== verification/Store_View.thy ===== *)
theory Store_View
  imports Crdt_State Core_Address Core_Index
begin

text \<open>
  The materialized view: the fold of the log that every read is served from
  (\<open>theta-storage/src/view.rs\<close>).  An \<open>Arc\<close> is the value it points to; the canonical
  encoding of a set element is the argument \<open>enc\<close> of the replicated types.

  The file holds the model and the facts about one step of the fold.  What the fold means
  for one key, the scans and the secondary indexes have theories of their own.
\<close>

section \<open>Key ranges\<close>

definition starts_with :: "string \<Rightarrow> string \<Rightarrow> bool" where
  "starts_with p s \<longleftrightarrow> take (length p) s = p"

text \<open>\<open>range(prefix..).take_while(starts_with(prefix))\<close>.\<close>

definition prefix_range :: "string \<Rightarrow> (string, 'v) omap \<Rightarrow> (string \<times> 'v) list" where
  "prefix_range p m = takeWhile (\<lambda>(k, _). starts_with p k) (dropWhile (\<lambda>(k, _). k < p) (omlist m))"

section \<open>Secondary indexes\<close>

type_synonym column_index = "(byte list, (string, unit) omap) omap"
type_synonym table_indexes = "(string, column_index) omap"
type_synonym indexes = "(string, table_indexes) omap"

definition ix_insert :: "string \<Rightarrow> string \<Rightarrow> byte list \<Rightarrow> string \<Rightarrow> indexes \<Rightarrow> indexes" where
  "ix_insert t c e pk ix =
     (let columns = omget_or omempty ix t;
          column = omget_or omempty columns c;
          pks = omget_or omempty column e
      in omput t (omput c (omput e (omput pk () pks) column) columns) ix)"

definition ix_remove :: "string \<Rightarrow> string \<Rightarrow> byte list \<Rightarrow> string \<Rightarrow> indexes \<Rightarrow> indexes" where
  "ix_remove t c e pk ix =
     (case omget ix t of None \<Rightarrow> ix
      | Some columns \<Rightarrow> (case omget columns c of None \<Rightarrow> ix
        | Some column \<Rightarrow> (case omget column e of None \<Rightarrow> ix
          | Some pks \<Rightarrow>
              let pks' = omdel pk pks;
                  column' = (if omlist pks' = [] then omdel e column else omput e pks' column)
              in omput t (omput c column' columns) ix)))"

definition ix_covers :: "indexes \<Rightarrow> string \<Rightarrow> string \<Rightarrow> bool" where
  "ix_covers ix t c = (case omget ix t of None \<Rightarrow> False | Some columns \<Rightarrow> omhas columns c)"

text \<open>The sweep of one span; \<open>BTreeMap::range\<close> panics where \<open>span_panics\<close> holds, which
  the one-sided bounds of the executor exclude.\<close>

definition sweep_span :: "column_index \<Rightarrow> encoded_span \<Rightarrow> string list" where
  "sweep_span column sp = concat (map (\<lambda>(e, pks). omkeys pks) (filter (\<lambda>(e, _). in_span e sp) (omlist column)))"

definition span_panics :: "encoded_span \<Rightarrow> bool" where
  "span_panics sp = (case sp of
       (Excluded a, Excluded b) \<Rightarrow> b \<le> a
     | (Included a, Included b) \<Rightarrow> b < a
     | (Included a, Excluded b) \<Rightarrow> b < a
     | (Excluded a, Included b) \<Rightarrow> b < a
     | _ \<Rightarrow> False)"

definition ix_candidates :: "indexes \<Rightarrow> string \<Rightarrow> string \<Rightarrow> index_bound \<Rightarrow> string list option" where
  "ix_candidates ix t c bound =
     (case omget ix t of None \<Rightarrow> None
      | Some columns \<Rightarrow> (case omget columns c of None \<Rightarrow> None
        | Some column \<Rightarrow> (case encoded_range bound of None \<Rightarrow> None
          | Some spans \<Rightarrow> Some (omkeys (fold (\<lambda>pk. omput pk ()) (concat (map (sweep_span column) spans)) omempty)))))"

definition column_value :: "val \<Rightarrow> string \<Rightarrow> val option" where
  "column_value row c = (case row of VMap kvs \<Rightarrow> map_of kvs c | _ \<Rightarrow> None)"

section \<open>The view\<close>

record rejected_op =
  ro_key :: string
  ro_reason :: string

record view =
  vw_keys :: "(string, val) omap"
  vw_versions :: "(string, nat) omap"
  vw_crdts :: "(string, crdt_state) omap"
  vw_schema :: schema
  vw_applied :: nat
  vw_rejected :: "rejected_op list"
  vw_indexes :: indexes

definition view_new :: view where
  "view_new = \<lparr>vw_keys = omempty, vw_versions = omempty, vw_crdts = omempty, vw_schema = schema_default,
     vw_applied = 0, vw_rejected = [], vw_indexes = omempty\<rparr>"

definition version_of :: "view \<Rightarrow> string \<Rightarrow> nat option" where
  "version_of v k = omget (vw_versions v) k"

definition view_get :: "view \<Rightarrow> string \<Rightarrow> val option" where
  "view_get v k = omget (vw_keys v) k"

definition get_crdt :: "view \<Rightarrow> string \<Rightarrow> val option" where
  "get_crdt v k = map_option state_value (omget (vw_crdts v) k)"

definition indexed_columns :: "view \<Rightarrow> string \<Rightarrow> string list" where
  "indexed_columns v t =
     (case schema_table (vw_schema v) t of
        None \<Rightarrow> []
      | Some td \<Rightarrow> map (\<lambda>i. hd (ix_columns i)) (filter (\<lambda>i. length (ix_columns i) = 1) (td_indexes td)))"

definition reindex_column ::
  "string \<Rightarrow> string \<Rightarrow> val option \<Rightarrow> val option \<Rightarrow> string \<Rightarrow> indexes \<Rightarrow> indexes" where
  "reindex_column t pk before after c ix =
     (let old = Option.bind before (\<lambda>x. column_value x c);
          new = Option.bind after (\<lambda>x. column_value x c)
      in if value_option_eq old new then ix
         else let ix1 = (case Option.bind old encode_value of None \<Rightarrow> ix | Some e \<Rightarrow> ix_remove t c e pk ix)
              in (case Option.bind new encode_value of None \<Rightarrow> ix1 | Some e \<Rightarrow> ix_insert t c e pk ix1))"

definition reindex_row :: "string \<Rightarrow> val option \<Rightarrow> val option \<Rightarrow> view \<Rightarrow> view" where
  "reindex_row key before after v =
     (case parse_address key of
        None \<Rightarrow> v
      | Some a \<Rightarrow> v\<lparr>vw_indexes :=
          fold (reindex_column (ra_table a) (ra_primary_key a) before after)
            (indexed_columns v (ra_table a)) (vw_indexes v)\<rparr>)"

definition rebuild_table :: "string \<Rightarrow> view \<Rightarrow> view" where
  "rebuild_table t v =
     (if indexed_columns v t = [] then v
      else fold (\<lambda>(key, x). reindex_row key None (Some x)) (prefix_range (address_prefix t) (vw_keys v)) v)"

definition rebuild_indexes :: "view \<Rightarrow> view" where
  "rebuild_indexes v = fold rebuild_table (omkeys (sc_tables (vw_schema v))) (v\<lparr>vw_indexes := omempty\<rparr>)"

text \<open>\<open>table_mut\<close> followed by an update through the reference: a missing table is declared.\<close>

definition table_mut :: "string \<Rightarrow> (table_def \<Rightarrow> table_def) \<Rightarrow> view \<Rightarrow> view" where
  "table_mut t f v =
     v\<lparr>vw_schema := (vw_schema v)\<lparr>sc_tables :=
        omput t (f (omget_or (table_default t) (sc_tables (vw_schema v)) t)) (sc_tables (vw_schema v))\<rparr>\<rparr>"

text \<open>\<open>if let Some(field) = fields.get_mut(column)\<close>.\<close>

definition field_mut :: "string \<Rightarrow> (field_def \<Rightarrow> field_def) \<Rightarrow> table_def \<Rightarrow> table_def" where
  "field_mut c f td =
     (case omget (td_fields td) c of
        None \<Rightarrow> td
      | Some fd \<Rightarrow> td\<lparr>td_fields := omput c (f fd) (td_fields td)\<rparr>)"

definition addressed :: "string \<Rightarrow> (string, 'v) omap \<Rightarrow> string list" where
  "addressed t m = filter (\<lambda>k. parse_address k \<noteq> None) (map fst (prefix_range (address_prefix t) m))"

definition keys_of :: "view \<Rightarrow> string \<Rightarrow> string list \<times> string list" where
  "keys_of v t = (addressed t (vw_keys v), addressed t (vw_crdts v))"

definition drop_rows :: "string \<Rightarrow> view \<Rightarrow> view" where
  "drop_rows t v =
     (case keys_of v t of (plain, merged) \<Rightarrow>
        v\<lparr>vw_keys := fold omdel plain (vw_keys v), vw_crdts := fold omdel merged (vw_crdts v)\<rparr>)"

definition drop_value :: "string \<Rightarrow> string \<Rightarrow> (string, val) omap \<Rightarrow> (string, val) omap" where
  "drop_value c key m =
     (case omget m key of
        None \<Rightarrow> m
      | Some (VMap kvs) \<Rightarrow>
          (if al_del c kvs = [] then omdel key m else omput key (VMap (al_del c kvs)) m)
      | Some _ \<Rightarrow> if c = value_column then omdel key m else m)"

definition drop_column_values :: "string \<Rightarrow> string \<Rightarrow> view \<Rightarrow> view" where
  "drop_column_values t c v =
     (case keys_of v t of (plain, merged) \<Rightarrow>
        let v1 = v\<lparr>vw_keys := fold (drop_value c) plain (vw_keys v)\<rparr>
        in if c = value_column then v1\<lparr>vw_crdts := fold omdel merged (vw_crdts v1)\<rparr> else v1)"

definition rename_value :: "string \<Rightarrow> string \<Rightarrow> string \<Rightarrow> (string, val) omap \<Rightarrow> (string, val) omap" where
  "rename_value from' to' key m =
     (case omget m key of
        Some (VMap kvs) \<Rightarrow>
          (case map_of kvs from' of
             Some x \<Rightarrow> omput key (VMap (al_put to' x (al_del from' kvs))) m
           | None \<Rightarrow> m)
      | _ \<Rightarrow> m)"

definition rename_column_values :: "string \<Rightarrow> string \<Rightarrow> string \<Rightarrow> view \<Rightarrow> view" where
  "rename_column_values t from' to' v =
     (if from' = to' then v
      else v\<lparr>vw_keys := fold (rename_value from' to') (fst (keys_of v t)) (vw_keys v)\<rparr>)"

definition rename_field :: "string \<Rightarrow> string \<Rightarrow> table_def \<Rightarrow> table_def" where
  "rename_field from' to' td =
     (case omget (td_fields td) from' of
        None \<Rightarrow> td
      | Some fd \<Rightarrow> td\<lparr>td_fields := omput to' (fd\<lparr>fd_name := to'\<rparr>) (omdel from' (td_fields td))\<rparr>)"

fun apply_schema :: "schema_change \<Rightarrow> view \<Rightarrow> view" where
  "apply_schema (AddTable td) v =
     v\<lparr>vw_schema := (vw_schema v)\<lparr>sc_tables := omput (td_name td) td (sc_tables (vw_schema v))\<rparr>\<rparr>"
| "apply_schema (DropTable t) v =
     drop_rows t (v\<lparr>vw_schema := (vw_schema v)\<lparr>sc_tables := omdel t (sc_tables (vw_schema v))\<rparr>\<rparr>)"
| "apply_schema (AddColumn t fd) v =
     table_mut t (\<lambda>td. td\<lparr>td_fields := omput (fd_name fd) fd (td_fields td)\<rparr>) v"
| "apply_schema (DropColumn t c) v =
     drop_column_values t c (table_mut t (\<lambda>td. td\<lparr>td_fields := omdel c (td_fields td)\<rparr>) v)"
| "apply_schema (AlterColumnType t c old to') v = table_mut t (field_mut c (fd_ty_update (\<lambda>_. to'))) v"
| "apply_schema (SetNullable t c nullable fill) v = table_mut t (field_mut c (fd_nullable_update (\<lambda>_. nullable))) v"
| "apply_schema (AddIndex t i) v =
     rebuild_indexes (table_mut t (\<lambda>td. td\<lparr>td_indexes :=
       filter (\<lambda>j. ix_name j \<noteq> ix_name i) (td_indexes td) @ [i]\<rparr>) v)"
| "apply_schema (DropIndex t name) v =
     rebuild_indexes (table_mut t (\<lambda>td. td\<lparr>td_indexes := filter (\<lambda>j. ix_name j \<noteq> name) (td_indexes td)\<rparr>) v)"
| "apply_schema (RenameColumn t from' to') v =
     rename_column_values t from' to' (table_mut t (rename_field from' to') v)"
| "apply_schema (SetCrdt t c kind) v = table_mut t (field_mut c (fd_crdt_update (\<lambda>_. kind))) v"

fun kind_debug :: "crdt_kind \<Rightarrow> string" where
  "kind_debug KCounter = ''Counter''"
| "kind_debug KRegister = ''Register''"
| "kind_debug KSet = ''Set''"
| "kind_debug KSequence = ''Sequence''"

definition declared_kind :: "view \<Rightarrow> string \<Rightarrow> crdt_kind option" where
  "declared_kind v key =
     Option.bind (Option.bind (parse_address key) (\<lambda>a. schema_field (vw_schema v) (ra_table a) value_column)) fd_crdt"

definition apply_crdt :: "(val \<Rightarrow> byte list) \<Rightarrow> string \<Rightarrow> crdt_op \<Rightarrow> op_context \<Rightarrow> view \<Rightarrow> view" where
  "apply_crdt enc key mutation ctx v =
     (let kind = (case declared_kind v key of Some k \<Rightarrow> k | None \<Rightarrow> op_kind mutation);
          state = omget_or (crdt_empty kind) (vw_crdts v) key
      in case apply_op enc state mutation ctx of
           Some state' \<Rightarrow> v\<lparr>vw_crdts := omput key state' (vw_crdts v)\<rparr>
         | None \<Rightarrow> v\<lparr>vw_crdts := omput key state (vw_crdts v),
             vw_rejected := vw_rejected v @ [\<lparr>ro_key = key,
               ro_reason = ''op does not apply to a '' @ kind_debug (state_kind state) @ '' field''\<rparr>]\<rparr>)"

fun view_op :: "(val \<Rightarrow> byte list) \<Rightarrow> op_context \<Rightarrow> op_type \<Rightarrow> view \<Rightarrow> view"
  and view_ops :: "(val \<Rightarrow> byte list) \<Rightarrow> op_context \<Rightarrow> op_type list \<Rightarrow> view \<Rightarrow> view" where
  "view_op enc ctx (Put key x) v =
     reindex_row key (omget (vw_keys v) key) (Some x)
       (v\<lparr>vw_keys := omput key x (vw_keys v), vw_versions := omput key (oc_commit ctx) (vw_versions v)\<rparr>)"
| "view_op enc ctx (Crdt key mutation) v =
     (let v1 = apply_crdt enc key mutation ctx v
      in v1\<lparr>vw_versions := omput key (oc_commit ctx) (vw_versions v1)\<rparr>)"
| "view_op enc ctx (Delete key) v =
     reindex_row key (omget (vw_keys v) key) None
       (v\<lparr>vw_keys := omdel key (vw_keys v), vw_versions := omdel key (vw_versions v)\<rparr>)"
| "view_op enc ctx (Transaction ops) v = view_ops enc ctx ops v"
| "view_op enc ctx (SchemaOp change) v = apply_schema change v"
| "view_op enc ctx (BranchCreate _ _) v = v"
| "view_op enc ctx (Merge _ _) v = v"
| "view_ops enc ctx [] v = v"
| "view_ops enc ctx (op # ops) v = view_ops enc ctx ops (view_op enc ctx op v)"

definition entry_ctx :: "log_entry \<Rightarrow> op_context" where
  "entry_ctx e = \<lparr>oc_replica = le_branch e, oc_commit = le_commit e, oc_ts = le_ts e\<rparr>"

definition view_apply :: "(val \<Rightarrow> byte list) \<Rightarrow> log_entry \<Rightarrow> view \<Rightarrow> view" where
  "view_apply enc e v = (let v1 = view_op enc (entry_ctx e) (le_op e) v in v1\<lparr>vw_applied := wrap64 (vw_applied v1 + 1)\<rparr>)"

definition view_replay :: "(val \<Rightarrow> byte list) \<Rightarrow> log_entry list \<Rightarrow> view" where
  "view_replay enc es = fold (view_apply enc) es view_new"

section \<open>The view as a source of rows\<close>

definition row_of :: "(string \<times> val) \<Rightarrow> (string \<times> val) option" where
  "row_of kx = (case kx of (key, x) \<Rightarrow> map_option (\<lambda>a. (ra_primary_key a, x)) (parse_address key))"

definition plain_rows :: "view \<Rightarrow> string \<Rightarrow> (string \<times> val) list" where
  "plain_rows v t = List.map_filter row_of (prefix_range (address_prefix t) (vw_keys v))"

definition crdt_rows :: "view \<Rightarrow> string \<Rightarrow> (string \<times> val) list" where
  "crdt_rows v t =
     List.map_filter row_of (map (\<lambda>(k, st). (k, state_value st)) (prefix_range (address_prefix t) (vw_crdts v)))"

definition view_scan :: "view \<Rightarrow> string \<Rightarrow> (string \<times> val) list" where
  "view_scan v t = sort_key fst (plain_rows v t @ crdt_rows v t)"

definition view_row :: "view \<Rightarrow> string \<Rightarrow> string \<Rightarrow> val option" where
  "view_row v t pk =
     (let key = t @ '':'' @ pk in
      case omget (vw_keys v) key of
        Some x \<Rightarrow> Some x
      | None \<Rightarrow> map_option state_value (omget (vw_crdts v) key))"

definition has_crdt_rows :: "view \<Rightarrow> string \<Rightarrow> bool" where
  "has_crdt_rows v t =
     list_ex (\<lambda>(k, _). starts_with (address_prefix t) k)
       (dropWhile (\<lambda>(k, _). k < address_prefix t) (omlist (vw_crdts v)))"

definition view_scan_up_to :: "view \<Rightarrow> string \<Rightarrow> nat option \<Rightarrow> (string \<times> val) list" where
  "view_scan_up_to v t m =
     (case m of
        None \<Rightarrow> view_scan v t
      | Some n \<Rightarrow>
          if n = 0 then []
          else if has_crdt_rows v t then take n (view_scan v t)
          else take n (plain_rows v t))"

definition view_column_type :: "view \<Rightarrow> string \<Rightarrow> string \<Rightarrow> value_type option" where
  "view_column_type v t c = map_option fd_ty (schema_field (vw_schema v) t c)"

definition view_index_candidates :: "view \<Rightarrow> string \<Rightarrow> string \<Rightarrow> index_bound \<Rightarrow> string list option" where
  "view_index_candidates v t c bound =
     (if \<not> ix_covers (vw_indexes v) t c then None else ix_candidates (vw_indexes v) t c bound)"

end
