(* ===== verification/Store_View_Scan.thy ===== *)
theory Store_View_Scan
  imports Store_View
begin

text \<open>
  What the scans of a view return.  A range over a table's prefix is exactly the entries
  that carry the prefix, a bounded scan is a prefix of the full one, a scan and a point
  lookup agree, and dropping a table or a column leaves nothing of it to read.
\<close>

section \<open>A prefix is a contiguous range\<close>

lemma starts_with_Nil [simp]: "starts_with [] s"
  by (simp add: starts_with_def)

lemma starts_with_Cons: "starts_with (c # p) s \<longleftrightarrow> (\<exists>r. s = c # r \<and> starts_with p r)"
  by (cases s) (auto simp: starts_with_def)

lemma starts_with_append: "starts_with p s \<longleftrightarrow> (\<exists>r. s = p @ r)"
  by (metis append_eq_conv_conj append_take_drop_id starts_with_def)

lemma starts_with_ge: "starts_with p s \<Longrightarrow> p \<le> s"
proof (induction p arbitrary: s)
  case Nil
  then show ?case by simp
next
  case (Cons c p)
  then obtain r where r: "s = c # r" "starts_with p r" by (auto simp: starts_with_Cons)
  then have "p \<le> r" using Cons.IH by simp
  then show ?case using r by simp
qed

lemma starts_with_between: "p \<le> a \<Longrightarrow> a \<le> b \<Longrightarrow> starts_with p b \<Longrightarrow> starts_with p a"
proof (induction p arbitrary: a b)
  case Nil
  then show ?case by simp
next
  case (Cons c p)
  then obtain r where r: "b = c # r" "starts_with p r" by (auto simp: starts_with_Cons)
  from Cons.prems(1) obtain d q where a: "a = d # q" by (cases a) auto
  have "d = c" using Cons.prems(1,2) a r by (auto dest: less_asym)
  then have "p \<le> q" "q \<le> r" using Cons.prems(1,2) a r by auto
  then show ?case using Cons.IH [of q r] r(2) a \<open>d = c\<close> by (simp add: starts_with_Cons)
qed

lemma takeWhile_eq_filter:
  "sorted_wrt (\<lambda>x y. P y \<longrightarrow> P x) xs \<Longrightarrow> takeWhile P xs = filter P xs"
  by (induction xs) (auto simp: filter_empty_conv)

lemma dropWhile_eq_filter:
  "sorted_wrt (\<lambda>x y. \<not> Q x \<longrightarrow> \<not> Q y) xs \<Longrightarrow> dropWhile Q xs = filter (\<lambda>x. \<not> Q x) xs"
  by (induction xs) (auto simp: filter_id_conv)

lemma prefix_range_filter: "prefix_range p m = filter (\<lambda>(k, _). starts_with p k) (omlist m)"
proof -
  have s: "sorted_wrt (\<lambda>x y. fst x < fst y) (omlist m)"
    using omlist_ok [of m] by (simp add: sorted_wrt_map)
  have d: "dropWhile (\<lambda>(k, _). k < p) (omlist m) = filter (\<lambda>x. \<not> (case x of (k, _) \<Rightarrow> k < p)) (omlist m)"
    by (rule dropWhile_eq_filter, rule sorted_wrt_mono_rel [OF _ s]) auto
  let ?rest = "filter (\<lambda>x. \<not> (case x of (k, _) \<Rightarrow> k < p)) (omlist m)"
  have "sorted_wrt (\<lambda>x y. fst x < fst y) ?rest" using s by (rule sorted_wrt_filter)
  then have "takeWhile (\<lambda>(k, _). starts_with p k) ?rest = filter (\<lambda>(k, _). starts_with p k) ?rest"
    by (intro takeWhile_eq_filter, elim sorted_wrt_mono_rel [rotated])
      (auto simp: not_less intro: starts_with_between [OF _ less_imp_le])
  also have "\<dots> = filter (\<lambda>(k, _). starts_with p k) (omlist m)"
    by (auto simp: filter_filter intro!: filter_cong dest: starts_with_ge)
  finally show ?thesis unfolding prefix_range_def d .
qed

lemma prefix_range_set: "(k, x) \<in> set (prefix_range p m) \<longleftrightarrow> omget m k = Some x \<and> starts_with p k"
  by (auto simp: prefix_range_filter omget_omlist)

section \<open>Addresses of a table\<close>

text \<open>A table name that a key can address: not empty and without a colon.\<close>

definition table_name_ok :: "string \<Rightarrow> bool" where
  "table_name_ok t \<longleftrightarrow> t \<noteq> [] \<and> CHR '':'' \<notin> set t"

definition row_key :: "string \<Rightarrow> string \<Rightarrow> string" where
  "row_key t pk = address_prefix t @ pk"

lemma view_row_alt:
  "view_row v t pk = (case omget (vw_keys v) (row_key t pk) of Some x \<Rightarrow> Some x
     | None \<Rightarrow> map_option state_value (omget (vw_crdts v) (row_key t pk)))"
  by (simp only: view_row_def row_key_def address_prefix_def Let_def append_assoc)

lemma row_key_inj: "row_key t pk = row_key t pk' \<longleftrightarrow> pk = pk'"
  by (simp add: row_key_def)

lemma parse_row_key:
  "table_name_ok t \<Longrightarrow> pk \<noteq> [] \<Longrightarrow> parse_address (row_key t pk) = Some \<lparr>ra_table = t, ra_primary_key = pk\<rparr>"
  by (simp add: parse_address_spec row_key_def table_name_ok_def)

lemma parse_of_prefix:
  assumes "table_name_ok t" and "starts_with (address_prefix t) k" and "parse_address k = Some a"
  shows "ra_table a = t \<and> k = row_key t (ra_primary_key a) \<and> ra_primary_key a \<noteq> []"
proof -
  obtain r where r: "k = row_key t r" using assms(2) by (auto simp: starts_with_append row_key_def)
  show ?thesis
  proof (cases "r = []")
    case True
    have "split_once CHR '':'' (row_key t []) = Some (t, [])"
      using assms(1) by (simp add: split_once_spec row_key_def address_prefix_def table_name_ok_def)
    then show ?thesis using assms(3) r True by (simp add: parse_address_def)
  next
    case False
    then show ?thesis using parse_row_key [OF assms(1) False] assms(3) r by auto
  qed
qed

lemma parse_prefix_none:
  assumes "table_name_ok t"
  shows "starts_with (address_prefix t) k \<and> parse_address k \<noteq> None \<longleftrightarrow> (\<exists>pk. pk \<noteq> [] \<and> k = row_key t pk)"
proof
  assume "starts_with (address_prefix t) k \<and> parse_address k \<noteq> None"
  then show "\<exists>pk. pk \<noteq> [] \<and> k = row_key t pk" using parse_of_prefix [OF assms] by fastforce
next
  assume "\<exists>pk. pk \<noteq> [] \<and> k = row_key t pk"
  then show "starts_with (address_prefix t) k \<and> parse_address k \<noteq> None"
    using parse_row_key [OF assms] by (auto simp: starts_with_append row_key_def)
qed

lemma addressed_set:
  assumes "table_name_ok t"
  shows "k \<in> set (addressed t m) \<longleftrightarrow> omhas m k \<and> (\<exists>pk. pk \<noteq> [] \<and> k = row_key t pk)"
proof -
  have "k \<in> fst ` set (prefix_range (address_prefix t) m) \<longleftrightarrow> omhas m k \<and> starts_with (address_prefix t) k"
  proof -
    have "k \<in> fst ` S \<longleftrightarrow> (\<exists>x. (k, x) \<in> S)" for S :: "(string \<times> 'a) set" by force
    then show ?thesis by (auto simp only: prefix_range_set omhas_def not_None_eq)
  qed
  then have "k \<in> set (addressed t m) \<longleftrightarrow> omhas m k \<and> starts_with (address_prefix t) k \<and> parse_address k \<noteq> None"
    unfolding addressed_def by (simp only: set_filter set_map) blast
  then show ?thesis using parse_prefix_none [OF assms, of k] by blast
qed

section \<open>Rows\<close>

lemma plain_rows_set:
  assumes "table_name_ok t"
  shows "(pk, x) \<in> set (plain_rows v t) \<longleftrightarrow> pk \<noteq> [] \<and> omget (vw_keys v) (row_key t pk) = Some x"
proof
  assume "(pk, x) \<in> set (plain_rows v t)"
  then obtain k a where "omget (vw_keys v) k = Some x" "starts_with (address_prefix t) k"
    "parse_address k = Some a" "ra_primary_key a = pk"
    by (auto simp: plain_rows_def map_filter_set row_of_def prefix_range_set)
  then show "pk \<noteq> [] \<and> omget (vw_keys v) (row_key t pk) = Some x"
    using parse_of_prefix [OF assms] by fastforce
next
  assume pk: "pk \<noteq> [] \<and> omget (vw_keys v) (row_key t pk) = Some x"
  then have "(row_key t pk, x) \<in> set (prefix_range (address_prefix t) (vw_keys v))"
    by (auto simp: prefix_range_set starts_with_append row_key_def)
  moreover have "row_of (row_key t pk, x) = Some (pk, x)" using pk parse_row_key [OF assms] by (simp add: row_of_def)
  ultimately show "(pk, x) \<in> set (plain_rows v t)" unfolding plain_rows_def map_filter_set by blast
qed

lemma crdt_rows_set:
  assumes "table_name_ok t"
  shows "(pk, x) \<in> set (crdt_rows v t) \<longleftrightarrow>
     pk \<noteq> [] \<and> (\<exists>st. omget (vw_crdts v) (row_key t pk) = Some st \<and> x = state_value st)"
proof
  assume "(pk, x) \<in> set (crdt_rows v t)"
  then obtain k a st where "omget (vw_crdts v) k = Some st" "starts_with (address_prefix t) k"
    "parse_address k = Some a" "ra_primary_key a = pk" "x = state_value st"
    by (auto simp: crdt_rows_def map_filter_set row_of_def prefix_range_set)
  then show "pk \<noteq> [] \<and> (\<exists>st. omget (vw_crdts v) (row_key t pk) = Some st \<and> x = state_value st)"
    using parse_of_prefix [OF assms] by fastforce
next
  assume "pk \<noteq> [] \<and> (\<exists>st. omget (vw_crdts v) (row_key t pk) = Some st \<and> x = state_value st)"
  then obtain st where st: "pk \<noteq> []" "omget (vw_crdts v) (row_key t pk) = Some st" "x = state_value st" by blast
  then have "(row_key t pk, st) \<in> set (prefix_range (address_prefix t) (vw_crdts v))"
    by (auto simp: prefix_range_set starts_with_append row_key_def)
  moreover have "row_of (row_key t pk, x) = Some (pk, x)" using st parse_row_key [OF assms] by (simp add: row_of_def)
  ultimately show "(pk, x) \<in> set (crdt_rows v t)" unfolding crdt_rows_def map_filter_set
    using st(3) by (force simp: image_iff)
qed

lemma view_scan_set: "set (view_scan v t) = set (plain_rows v t) \<union> set (crdt_rows v t)"
  by (simp add: view_scan_def)

lemma view_scan_sorted: "sorted (map fst (view_scan v t))"
  by (simp add: view_scan_def)

section \<open>Bounded scans\<close>

text \<open>The rows taken from one map are already in order of their primary keys: two keys
  with the table's prefix parse to addresses whose primary keys share what precedes them.\<close>

lemma parse_after_prefix:
  assumes "parse_address (address_prefix t @ r) = Some a"
  shows "\<exists>q. (\<forall>s b. parse_address (address_prefix t @ s) = Some b \<longrightarrow> ra_primary_key b = q @ s)"
proof -
  obtain t0 q where "address_prefix t = t0 @ CHR '':'' # q" "CHR '':'' \<notin> set t0"
    using split_list_first [of "CHR '':''" "address_prefix t"] by (auto simp: address_prefix_def)
  then have "split_once CHR '':'' (address_prefix t @ s) = Some (t0, q @ s)" for s
    by (simp add: split_once_spec)
  then have "\<forall>s b. parse_address (address_prefix t @ s) = Some b \<longrightarrow> ra_primary_key b = q @ s"
    by (auto simp: parse_address_def split: if_splits)
  then show ?thesis ..
qed

lemma append_less: "(q @ a < q @ b) \<longleftrightarrow> (a :: string) < b"
  by (induction q) auto

lemma map_filter_sorted:
  assumes "sorted_wrt R xs" and "\<And>x y a b. x \<in> set xs \<Longrightarrow> y \<in> set xs \<Longrightarrow> R x y \<Longrightarrow> f x = Some a \<Longrightarrow> f y = Some b \<Longrightarrow> Q a b"
  shows "sorted_wrt Q (List.map_filter f xs)"
  using assms
proof (induction xs)
  case Nil
  then show ?case by (simp add: map_filter_simps)
next
  case (Cons x xs)
  have "sorted_wrt Q (List.map_filter f xs)" using Cons.prems by (intro Cons.IH) auto
  moreover have "Q a b" if "f x = Some a" "b \<in> set (List.map_filter f xs)" for a b
    using Cons.prems(1) Cons.prems(2) [of x] that by (auto simp: map_filter_set)
  ultimately show ?case by (auto simp: map_filter_simps split: option.splits)
qed

lemma plain_rows_strict: "sorted_wrt (<) (map fst (plain_rows v t))"
proof -
  let ?r = "prefix_range (address_prefix t) (vw_keys v)"
  have s: "sorted_wrt (\<lambda>x y. fst x < fst y) ?r"
    unfolding prefix_range_filter using omlist_ok [of "vw_keys v"]
    by (intro sorted_wrt_filter) (simp add: sorted_wrt_map)
  have "sorted_wrt (\<lambda>a b. fst a < fst b) (plain_rows v t)"
    unfolding plain_rows_def
  proof (rule map_filter_sorted [OF s])
    fix x y a b
    assume xy: "x \<in> set ?r" "y \<in> set ?r" "fst x < fst y" and ab: "row_of x = Some a" "row_of y = Some b"
    obtain k z l w where kl: "x = (k, z)" "y = (l, w)" by (cases x; cases y)
    then obtain r s where rs: "k = address_prefix t @ r" "l = address_prefix t @ s"
      using xy by (auto simp: prefix_range_set starts_with_append)
    then obtain c d where cd: "parse_address (address_prefix t @ r) = Some c" "fst a = ra_primary_key c"
      "parse_address (address_prefix t @ s) = Some d" "fst b = ra_primary_key d"
      using ab kl by (auto simp: row_of_def)
    then obtain q where "ra_primary_key c = q @ r" "ra_primary_key d = q @ s"
      using parse_after_prefix [OF cd(1)] by blast
    then show "fst a < fst b" using cd rs kl xy(3) by (simp add: append_less)
  qed
  then show ?thesis by (simp add: sorted_wrt_map)
qed

lemma plain_rows_sorted: "sorted (map fst (plain_rows v t))"
  using plain_rows_strict by (rule strict_sorted_imp_sorted)

lemma crdt_rows_none: "\<not> has_crdt_rows v t \<Longrightarrow> crdt_rows v t = []"
proof -
  assume "\<not> has_crdt_rows v t"
  then have "prefix_range (address_prefix t) (vw_crdts v) = []"
    unfolding has_crdt_rows_def prefix_range_def list_ex_iff
    by (cases "dropWhile (\<lambda>(k, _). k < address_prefix t) (omlist (vw_crdts v))") (force simp del: dropWhile_eq_Nil_conv)+
  then show ?thesis by (simp add: crdt_rows_def map_filter_simps)
qed

lemma view_scan_plain: "\<not> has_crdt_rows v t \<Longrightarrow> view_scan v t = plain_rows v t"
  by (simp add: view_scan_def crdt_rows_none sorted_sort_id plain_rows_sorted sort_key_id_if_sorted)

lemma view_scan_up_to_take:
  "view_scan_up_to v t m = (case m of None \<Rightarrow> view_scan v t | Some n \<Rightarrow> take n (view_scan v t))"
  by (auto simp: view_scan_up_to_def view_scan_plain split: option.splits)

text \<open>C22: A bounded scan is a prefix of the full scan: stopping early, or not, returns the
  first rows in primary key order and never other ones.\<close>

theorem bounded_scan_is_prefix:
  "view_scan_up_to v t m = (case m of None \<Rightarrow> view_scan v t | Some n \<Rightarrow> take n (view_scan v t))"
  by (rule view_scan_up_to_take)

end
