(* ===== verification/Store_View_Fold.thy ===== *)
theory Store_View_Fold
  imports Store_View_Scan
begin

text \<open>
  What the fold means: a key reads as its last write, at the version of the commit that
  wrote it, and a table or a column that was dropped is gone.
\<close>

section \<open>Transactions, flattened\<close>

text \<open>The single operations of a log, with their contexts, oldest first.\<close>

fun op_leaves :: "op_type \<Rightarrow> op_type list" and ops_leaves :: "op_type list \<Rightarrow> op_type list" where
  "op_leaves (Transaction ops) = ops_leaves ops"
| "op_leaves (Put k x) = [Put k x]"
| "op_leaves (Crdt k m) = [Crdt k m]"
| "op_leaves (Delete k) = [Delete k]"
| "op_leaves (SchemaOp c) = [SchemaOp c]"
| "op_leaves (BranchCreate n h) = [BranchCreate n h]"
| "op_leaves (Merge b h) = [Merge b h]"
| "ops_leaves [] = []"
| "ops_leaves (op # ops) = op_leaves op @ ops_leaves ops"

lemma view_op_leaves:
  "view_op enc ctx op v = fold (view_op enc ctx) (op_leaves op) v"
  "view_ops enc ctx ops v = fold (view_op enc ctx) (ops_leaves ops) v"
  by (induction enc ctx op v and enc ctx ops v rule: view_op_view_ops.induct) simp_all

fun no_transaction :: "op_type \<Rightarrow> bool" where
  "no_transaction (Transaction _) = False"
| "no_transaction _ = True"

lemma op_leaves_flat:
  "op' \<in> set (op_leaves op) \<Longrightarrow> no_transaction op'"
  "op' \<in> set (ops_leaves ops) \<Longrightarrow> no_transaction op'"
  by (induction op and ops rule: op_leaves_ops_leaves.induct) auto

definition log_leaves :: "log_entry list \<Rightarrow> (op_context \<times> op_type) list" where
  "log_leaves es = concat (map (\<lambda>e. map (Pair (entry_ctx e)) (op_leaves (le_op e))) es)"

definition leaf_step :: "(val \<Rightarrow> byte list) \<Rightarrow> op_context \<times> op_type \<Rightarrow> view \<Rightarrow> view" where
  "leaf_step enc co v = view_op enc (fst co) (snd co) v"

section \<open>What an operation does to the rows\<close>

lemma reindex_row_fields [simp]:
  "vw_keys (reindex_row k b a v) = vw_keys v" "vw_versions (reindex_row k b a v) = vw_versions v"
  "vw_crdts (reindex_row k b a v) = vw_crdts v" "vw_schema (reindex_row k b a v) = vw_schema v"
  "vw_applied (reindex_row k b a v) = vw_applied v" "vw_rejected (reindex_row k b a v) = vw_rejected v"
  by (simp_all add: reindex_row_def split: option.splits)

lemma fold_invariant_fun: "(\<And>x s. f (g x s) = f s) \<Longrightarrow> f (fold g xs s) = f s"
  by (induction xs arbitrary: s) auto

lemma rebuild_fields [simp]:
  "vw_keys (rebuild_indexes v) = vw_keys v" "vw_versions (rebuild_indexes v) = vw_versions v"
  "vw_crdts (rebuild_indexes v) = vw_crdts v" "vw_schema (rebuild_indexes v) = vw_schema v"
  "vw_applied (rebuild_indexes v) = vw_applied v" "vw_rejected (rebuild_indexes v) = vw_rejected v"
  by (simp_all add: rebuild_indexes_def rebuild_table_def fold_invariant_fun case_prod_beta)

lemma table_mut_fields [simp]:
  "vw_keys (table_mut t f v) = vw_keys v" "vw_versions (table_mut t f v) = vw_versions v"
  "vw_crdts (table_mut t f v) = vw_crdts v" "vw_indexes (table_mut t f v) = vw_indexes v"
  "vw_applied (table_mut t f v) = vw_applied v" "vw_rejected (table_mut t f v) = vw_rejected v"
  by (simp_all add: table_mut_def)

lemma apply_crdt_fields [simp]:
  "vw_keys (apply_crdt enc k m ctx v) = vw_keys v" "vw_versions (apply_crdt enc k m ctx v) = vw_versions v"
  "vw_schema (apply_crdt enc k m ctx v) = vw_schema v" "vw_indexes (apply_crdt enc k m ctx v) = vw_indexes v"
  by (simp_all add: apply_crdt_def Let_def split: option.splits)

lemma drop_rows_fields [simp]:
  "vw_versions (drop_rows t v) = vw_versions v" "vw_schema (drop_rows t v) = vw_schema v"
  "vw_indexes (drop_rows t v) = vw_indexes v"
  by (simp_all add: drop_rows_def keys_of_def)

lemma drop_column_values_fields [simp]:
  "vw_versions (drop_column_values t c v) = vw_versions v" "vw_schema (drop_column_values t c v) = vw_schema v"
  "vw_indexes (drop_column_values t c v) = vw_indexes v"
  by (simp_all add: drop_column_values_def keys_of_def Let_def)

lemma rename_column_values_fields [simp]:
  "vw_versions (rename_column_values t a b v) = vw_versions v"
  "vw_crdts (rename_column_values t a b v) = vw_crdts v"
  "vw_schema (rename_column_values t a b v) = vw_schema v"
  "vw_indexes (rename_column_values t a b v) = vw_indexes v"
  by (simp_all add: rename_column_values_def)

lemma apply_schema_versions [simp]: "vw_versions (apply_schema c v) = vw_versions v"
  by (cases c) simp_all

section \<open>The last write\<close>

text \<open>A schema change that rewrites rows.\<close>

fun rewrites_rows :: "op_type \<Rightarrow> bool" where
  "rewrites_rows (SchemaOp (DropTable _)) = True"
| "rewrites_rows (SchemaOp (DropColumn _ _)) = True"
| "rewrites_rows (SchemaOp (RenameColumn _ _ _)) = True"
| "rewrites_rows _ = False"

fun sets_row :: "string \<Rightarrow> op_type \<Rightarrow> bool" where
  "sets_row k (Put k' _) \<longleftrightarrow> k' = k"
| "sets_row k (Delete k') \<longleftrightarrow> k' = k"
| "sets_row k _ \<longleftrightarrow> False"

fun moves_version :: "string \<Rightarrow> op_type \<Rightarrow> bool" where
  "moves_version k (Crdt k' _) \<longleftrightarrow> k' = k"
| "moves_version k op \<longleftrightarrow> sets_row k op"

text \<open>The specification: look back for the last operation on the key.\<close>

definition last_written :: "string \<Rightarrow> (op_context \<times> op_type) list \<Rightarrow> val option" where
  "last_written k ops =
     (case find_first (\<lambda>(_, op). sets_row k op) (rev ops) of
        Some (_, Put _ x) \<Rightarrow> Some x
      | _ \<Rightarrow> None)"

definition last_version :: "string \<Rightarrow> (op_context \<times> op_type) list \<Rightarrow> nat option" where
  "last_version k ops =
     (case find_first (\<lambda>(_, op). moves_version k op) (rev ops) of
        Some (ctx, Put _ _) \<Rightarrow> Some (oc_commit ctx)
      | Some (ctx, Crdt _ _) \<Rightarrow> Some (oc_commit ctx)
      | _ \<Rightarrow> None)"

lemma schema_keeps_keys: "\<not> rewrites_rows (SchemaOp c) \<Longrightarrow> vw_keys (apply_schema c v) = vw_keys v"
  by (cases c) simp_all

lemma last_written_snoc:
  assumes "no_transaction (snd co)" and "\<not> rewrites_rows (snd co)"
    and "omget (vw_keys v) k = last_written k ops"
  shows "omget (vw_keys (leaf_step enc co v)) k = last_written k (ops @ [co])"
proof -
  obtain ctx op where co: "co = (ctx, op)" by (cases co)
  show ?thesis using assms
    by (cases op) (simp_all add: co leaf_step_def last_written_def Let_def schema_keeps_keys)
qed

lemma last_version_snoc:
  assumes "no_transaction (snd co)" and "omget (vw_versions v) k = last_version k ops"
  shows "omget (vw_versions (leaf_step enc co v)) k = last_version k (ops @ [co])"
proof -
  obtain ctx op where co: "co = (ctx, op)" by (cases co)
  show ?thesis using assms
    by (cases op) (simp_all add: co leaf_step_def last_version_def Let_def)
qed

lemma fold_leaves:
  "fold (leaf_step enc) (map (Pair ctx) ops) v = fold (view_op enc ctx) ops v"
  by (induction ops arbitrary: v) (auto simp: leaf_step_def)


lemma last_written_fold:
  assumes "\<forall>co \<in> set cs. no_transaction (snd co) \<and> \<not> rewrites_rows (snd co)"
    and "omget (vw_keys v) k = last_written k ops"
  shows "omget (vw_keys (fold (leaf_step enc) cs v)) k = last_written k (ops @ cs)"
  using assms
proof (induction cs arbitrary: v ops)
  case Nil
  then show ?case by simp
next
  case (Cons c cs)
  then show ?case using Cons.IH [of "leaf_step enc c v" "ops @ [c]"] last_written_snoc [of c v k ops enc] by simp
qed

lemma last_version_fold:
  assumes "\<forall>co \<in> set cs. no_transaction (snd co)"
    and "omget (vw_versions v) k = last_version k ops"
  shows "omget (vw_versions (fold (leaf_step enc) cs v)) k = last_version k (ops @ cs)"
  using assms
proof (induction cs arbitrary: v ops)
  case Nil
  then show ?case by simp
next
  case (Cons c cs)
  then show ?case using Cons.IH [of "leaf_step enc c v" "ops @ [c]"] last_version_snoc [of c v k ops enc] by simp
qed

lemma view_replay_snoc: "view_replay enc (es @ [e]) = view_apply enc e (view_replay enc es)"
  by (simp add: view_replay_def)

lemma view_apply_leaves:
  "vw_keys (view_apply enc e v) = vw_keys (fold (leaf_step enc) (map (Pair (entry_ctx e)) (op_leaves (le_op e))) v)"
  "vw_versions (view_apply enc e v) = vw_versions (fold (leaf_step enc) (map (Pair (entry_ctx e)) (op_leaves (le_op e))) v)"
  by (simp_all add: view_apply_def Let_def fold_leaves view_op_leaves(1) [of enc _ "le_op e"])

lemma log_leaves_snoc:
  "log_leaves (es @ [e]) = log_leaves es @ map (Pair (entry_ctx e)) (op_leaves (le_op e))"
  by (simp add: log_leaves_def)

lemma view_replay_last_write:
  "\<forall>co \<in> set (log_leaves es). \<not> rewrites_rows (snd co) \<Longrightarrow>
     omget (vw_keys (view_replay enc es)) k = last_written k (log_leaves es) \<and>
     omget (vw_versions (view_replay enc es)) k = last_version k (log_leaves es)"
proof (induction es rule: rev_induct)
  case Nil
  then show ?case
    by (simp add: view_replay_def view_new_def log_leaves_def last_written_def last_version_def)
next
  case (snoc e es)
  have flat: "\<forall>co \<in> set (map (Pair (entry_ctx e)) (op_leaves (le_op e))). no_transaction (snd co)"
    by (auto intro: op_leaves_flat)
  show ?case
    using snoc flat unfolding view_replay_snoc view_apply_leaves log_leaves_snoc
    by (intro conjI last_written_fold last_version_fold) auto
qed

text \<open>C19: The view is the fold of the log: whatever was logged, transactions included, a
  key reads as the value of its last write and has the version of the commit that last
  wrote it, and a key that was deleted since has neither; schema changes that rewrite rows
  apart.\<close>

theorem view_reads_last_write:
  assumes "\<forall>co \<in> set (log_leaves es). \<not> rewrites_rows (snd co)"
  shows "view_get (view_replay enc es) k = last_written k (log_leaves es) \<and>
     version_of (view_replay enc es) k = last_version k (log_leaves es)"
  using view_replay_last_write [OF assms] by (simp add: view_get_def version_of_def)

definition put_entry :: "nat \<Rightarrow> op_type \<Rightarrow> log_entry" where
  "put_entry c op = \<lparr>le_prev = [], le_commit = c, le_branch = 0, le_op = op, le_author = System, le_ts = 0\<rparr>"

lemma view_reads_last_write_witness:
  "view_get (view_replay (\<lambda>_. []) [put_entry 1 (Put ''t:1'' (VInt 1)),
     put_entry 2 (Transaction [Delete ''t:1'', Put ''t:1'' (VInt 2), Put ''t:2'' VNull])]) ''t:1'' = Some (VInt 2) \<and>
   version_of (view_replay (\<lambda>_. []) [put_entry 1 (Put ''t:1'' (VInt 1)),
     put_entry 2 (Transaction [Delete ''t:1'', Put ''t:1'' (VInt 2), Put ''t:2'' VNull])]) ''t:1'' = Some 2"
proof -
  let ?es = "[put_entry 1 (Put ''t:1'' (VInt 1)),
     put_entry 2 (Transaction [Delete ''t:1'', Put ''t:1'' (VInt 2), Put ''t:2'' VNull])]"
  have "log_leaves ?es = [(entry_ctx (put_entry 1 (Put ''t:1'' (VInt 1))), Put ''t:1'' (VInt 1)),
      (\<lparr>oc_replica = 0, oc_commit = 2, oc_ts = 0\<rparr>, Delete ''t:1''),
      (\<lparr>oc_replica = 0, oc_commit = 2, oc_ts = 0\<rparr>, Put ''t:1'' (VInt 2)),
      (\<lparr>oc_replica = 0, oc_commit = 2, oc_ts = 0\<rparr>, Put ''t:2'' VNull)]"
    by (simp add: log_leaves_def put_entry_def entry_ctx_def)
  then show ?thesis using view_reads_last_write [of ?es "\<lambda>_. []" "''t:1''"]
    by (simp add: last_written_def last_version_def)
qed

section \<open>Dropped data is gone\<close>

lemma omget_fold_del: "omget (fold omdel ks m) k = (if k \<in> set ks then None else omget m k)"
  by (induction ks arbitrary: m) auto

definition drop_result :: "string \<Rightarrow> val \<Rightarrow> val option" where
  "drop_result c x =
     (case x of
        VMap kvs \<Rightarrow> if al_del c kvs = [] then None else Some (VMap (al_del c kvs))
      | _ \<Rightarrow> if c = value_column then None else Some x)"

lemma omget_drop_value:
  "omget (drop_value c key m) k = (if k = key then Option.bind (omget m key) (drop_result c) else omget m k)"
  by (cases "omget m key") (auto simp: drop_value_def drop_result_def split: val.splits)

lemma omget_fold_drop:
  "distinct ks \<Longrightarrow> omget (fold (drop_value c) ks m) k =
     (if k \<in> set ks then Option.bind (omget m k) (drop_result c) else omget m k)"
  by (induction ks arbitrary: m) (auto simp: omget_drop_value)

lemma addressed_distinct: "distinct (addressed t m)"
proof -
  have "distinct (map fst (filter p (omlist m)))" for p
    using omlist_ok [of m] by (simp add: al_ok_distinct distinct_map_filter)
  then show ?thesis by (simp add: addressed_def prefix_range_filter)
qed

lemma drop_result_column: "drop_result c x = Some y \<Longrightarrow> column_value y c = None \<and> (c = value_column \<longrightarrow> (\<exists>kvs. y = VMap kvs))"
  by (auto simp: drop_result_def column_value_def split: val.splits if_splits)

lemma drop_table_rows:
  "omget (vw_keys (apply_schema (DropTable t) v)) k = (if k \<in> set (addressed t (vw_keys v)) then None else omget (vw_keys v) k)"
  "omget (vw_crdts (apply_schema (DropTable t) v)) k = (if k \<in> set (addressed t (vw_crdts v)) then None else omget (vw_crdts v) k)"
  by (simp_all add: drop_rows_def keys_of_def omget_fold_del)

lemma drop_column_rows:
  "omget (vw_keys (apply_schema (DropColumn t c) v)) k =
     (if k \<in> set (addressed t (vw_keys v)) then Option.bind (omget (vw_keys v) k) (drop_result c) else omget (vw_keys v) k)"
  by (simp add: drop_column_values_def keys_of_def Let_def omget_fold_drop addressed_distinct)

lemma addressed_own:
  "table_name_ok t \<Longrightarrow> pk \<noteq> [] \<Longrightarrow> row_key t pk \<in> set (addressed t m) \<longleftrightarrow> omhas m (row_key t pk)"
  by (auto simp: addressed_set)

lemma row_key_other: "table_name_ok t \<Longrightarrow> table_name_ok t' \<Longrightarrow> row_key t pk = row_key t' pk' \<Longrightarrow> pk \<noteq> [] \<Longrightarrow> pk' \<noteq> [] \<Longrightarrow> t = t'"
  using parse_row_key by (metis option.inject row_address.ext_inject)

lemma addressed_other:
  "table_name_ok t \<Longrightarrow> table_name_ok t' \<Longrightarrow> t' \<noteq> t \<Longrightarrow> pk \<noteq> [] \<Longrightarrow> row_key t' pk \<notin> set (addressed t m)"
  using row_key_other by (fastforce simp: addressed_set)

lemma rows_gone:
  assumes "table_name_ok t"
    and "\<And>pk. pk \<noteq> [] \<Longrightarrow> omget (vw_keys v) (row_key t pk) = None \<and> omget (vw_crdts v) (row_key t pk) = None"
  shows "view_scan v t = []"
proof -
  have "(pk, x) \<notin> set (view_scan v t)" for pk x
    unfolding view_scan_set using assms(2) [of pk]
    by (cases "pk = []") (simp_all add: plain_rows_set [OF assms(1)] crdt_rows_set [OF assms(1)])
  then have "set (view_scan v t) = {}" by (metis equals0I surj_pair)
  then show ?thesis by simp
qed

text \<open>A schema change that claims to remove data removes it: after a table is dropped
  no scan and no lookup finds a row of it, after a column is dropped no plain row of the
  table has it, and every row of every other table stays as it was.\<close>

theorem schema_drop_removes_data:
  assumes "table_name_ok t" and "pk \<noteq> []"
  shows "view_scan (apply_schema (DropTable t) v) t = [] \<and>
     view_row (apply_schema (DropTable t) v) t pk = None \<and>
     (\<forall>row. omget (vw_keys (apply_schema (DropColumn t c) v)) (row_key t pk) = Some row \<longrightarrow> column_value row c = None) \<and>
     (\<forall>t'. table_name_ok t' \<and> t' \<noteq> t \<longrightarrow>
        view_row (apply_schema (DropTable t) v) t' pk = view_row v t' pk \<and>
        omget (vw_keys (apply_schema (DropColumn t c) v)) (row_key t' pk) = omget (vw_keys v) (row_key t' pk))"
proof -
  have gone: "omget (vw_keys (apply_schema (DropTable t) v)) (row_key t pk) = None \<and>
      omget (vw_crdts (apply_schema (DropTable t) v)) (row_key t pk) = None" if "pk \<noteq> []" for pk
    using addressed_own [OF assms(1) that, of "vw_keys v"] addressed_own [OF assms(1) that, of "vw_crdts v"]
    unfolding drop_table_rows by (auto simp: omhas_def)
  note row = view_row_alt
  have "view_scan (apply_schema (DropTable t) v) t = []" by (rule rows_gone [OF assms(1) gone])
  moreover have "view_row (apply_schema (DropTable t) v) t pk = None" using gone [OF assms(2)] row by simp
  moreover have "column_value r c = None" if "omget (vw_keys (apply_schema (DropColumn t c) v)) (row_key t pk) = Some r" for r
    using that addressed_own [OF assms, of "vw_keys v"] drop_result_column
    unfolding drop_column_rows by (auto simp: omhas_def bind_eq_Some_conv split: if_splits)
  moreover have "view_row (apply_schema (DropTable t) v) t' pk = view_row v t' pk \<and>
      omget (vw_keys (apply_schema (DropColumn t c) v)) (row_key t' pk) = omget (vw_keys v) (row_key t' pk)"
    if "table_name_ok t'" "t' \<noteq> t" for t'
    using addressed_other [OF assms(1) that(1) _ assms(2), of "vw_keys v"]
      addressed_other [OF assms(1) that(1) _ assms(2), of "vw_crdts v"] that(2)
    unfolding row drop_table_rows drop_column_rows by simp
  ultimately show ?thesis by blast
qed

lemma schema_drop_removes_data_witness:
  "view_scan (apply_schema (DropTable ''t'') (view_replay (\<lambda>_. []) [put_entry 1 (Put ''t:1'' (VInt 1))])) ''t'' = [] \<and>
   view_row (apply_schema (DropTable ''t'') (view_replay (\<lambda>_. []) [put_entry 1 (Put ''t:1'' (VInt 1))])) ''t'' ''1'' = None"
  using schema_drop_removes_data [of "''t''" "''1''"] by (simp add: table_name_ok_def)

end
