(* ===== verification/Store_View_Index.thy ===== *)
theory Store_View_Index
  imports Store_View_Fold
begin

text \<open>
  The secondary indexes of a view stay a superset of the plain rows: an invariant of the
  fold, from which a served range misses no row that the executor would match.  The schema
  changes after which the code loses rows are excluded by \<open>keeps_indexes\<close>, and the end
  of the file shows that they have to be.
\<close>

section \<open>Entries of an index\<close>

definition ix_has :: "indexes \<Rightarrow> string \<Rightarrow> string \<Rightarrow> byte list \<Rightarrow> string \<Rightarrow> bool" where
  "ix_has ix t c e pk =
     omhas (omget_or omempty (omget_or omempty (omget_or omempty ix t) c) e) pk"

lemma ix_has_insert:
  "ix_has (ix_insert t c e pk ix) t' c' e' pk' \<longleftrightarrow>
     (t' = t \<and> c' = c \<and> e' = e \<and> pk' = pk) \<or> ix_has ix t' c' e' pk'"
  by (auto simp: ix_has_def ix_insert_def Let_def split: if_splits)

lemma omhas_nil: "omlist m = [] \<Longrightarrow> \<not> omhas m k"
  by (simp add: omhas_def omget_map_of)

definition ix_col :: "indexes \<Rightarrow> string \<Rightarrow> string \<Rightarrow> column_index" where
  "ix_col ix t c = omget_or omempty (omget_or omempty ix t) c"

definition col_remove :: "byte list \<Rightarrow> string \<Rightarrow> column_index \<Rightarrow> column_index" where
  "col_remove e pk column =
     (case omget column e of None \<Rightarrow> column
      | Some pks \<Rightarrow> if omlist (omdel pk pks) = [] then omdel e column else omput e (omdel pk pks) column)"

lemma ix_has_col: "ix_has ix t c e pk \<longleftrightarrow> omhas (omget_or omempty (ix_col ix t c) e) pk"
  by (simp add: ix_has_def ix_col_def)

lemma ix_col_remove:
  "ix_col (ix_remove t c e pk ix) t' c' = (if t' = t \<and> c' = c then col_remove e pk (ix_col ix t c) else ix_col ix t' c')"
proof (cases "omget ix t")
  case None
  then show ?thesis by (simp add: ix_remove_def ix_col_def col_remove_def omget_or_def)
next
  case (Some columns)
  then show ?thesis
    by (cases "omget columns c"; cases "omget (the (omget columns c)) e")
      (auto simp: ix_remove_def ix_col_def col_remove_def omget_or_def Let_def)
qed

lemma col_remove_has:
  "omhas (omget_or omempty (col_remove e pk column) e') pk' \<longleftrightarrow>
     omhas (omget_or omempty column e') pk' \<and> \<not> (e' = e \<and> pk' = pk)"
proof (cases "omget column e")
  case None
  then show ?thesis by (auto simp: col_remove_def omget_or_def)
next
  case (Some pks)
  have "omlist (omdel pk pks) = [] \<Longrightarrow> \<not> omhas (omdel pk pks) pk'" by (rule omhas_nil)
  then show ?thesis using Some by (auto simp: col_remove_def omget_or_def)
qed

lemma ix_has_remove:
  "ix_has (ix_remove t c e pk ix) t' c' e' pk' \<longleftrightarrow>
     ix_has ix t' c' e' pk' \<and> \<not> (t' = t \<and> c' = c \<and> e' = e \<and> pk' = pk)"
  by (auto simp: ix_has_col ix_col_remove col_remove_has)

lemma ix_covers_insert: "ix_covers (ix_insert t c e pk ix) t' c' \<longleftrightarrow> (t' = t \<and> c' = c) \<or> ix_covers ix t' c'"
  by (auto simp: ix_covers_def ix_insert_def Let_def omget_or_def omhas_def split: option.splits)

lemma ix_covers_remove: "ix_covers (ix_remove t c e pk ix) t' c' \<longleftrightarrow> ix_covers ix t' c'"
  by (auto simp: ix_covers_def ix_remove_def Let_def omhas_def split: option.splits)

lemma ix_has_covers: "ix_has ix t c e pk \<Longrightarrow> ix_covers ix t c"
  by (auto simp: ix_has_def ix_covers_def omget_or_def omhas_def split: option.splits)

lemma sweep_span_set:
  "pk \<in> set (sweep_span column sp) \<longleftrightarrow> (\<exists>e pks. omget column e = Some pks \<and> in_span e sp \<and> omhas pks pk)"
  by (fastforce simp: sweep_span_def omget_omlist omkeys_set omhas_def)

lemma fold_put_set: "set (omkeys (fold (\<lambda>pk. omput pk ()) pks m)) = set pks \<union> set (omkeys m)"
proof -
  have "omhas (fold (\<lambda>pk. omput pk ()) pks m) k \<longleftrightarrow> k \<in> set pks \<or> omhas m k" for k
    by (induction pks arbitrary: m) auto
  then show ?thesis by (auto simp: omkeys_set omhas_def)
qed

lemma ix_candidates_set:
  assumes "ix_candidates ix t c bound = Some pks"
  obtains spans where "encoded_range bound = Some spans"
    "\<And>pk. pk \<in> set pks \<longleftrightarrow> (\<exists>e sp. sp \<in> set spans \<and> in_span e sp \<and> ix_has ix t c e pk)"
proof -
  obtain columns column spans where h: "omget ix t = Some columns" "omget columns c = Some column"
    "encoded_range bound = Some spans"
    "pks = omkeys (fold (\<lambda>pk. omput pk ()) (concat (map (sweep_span column) spans)) omempty)"
    using assms by (auto simp: ix_candidates_def split: option.splits)
  have "set pks = (\<Union>sp \<in> set spans. set (sweep_span column sp))"
    unfolding h(4) fold_put_set by (auto simp: omkeys_set)
  moreover have "ix_has ix t c e pk \<longleftrightarrow> (\<exists>pks. omget column e = Some pks \<and> omhas pks pk)" for e pk
    by (auto simp: ix_has_def h(1,2) omget_or_def split: option.splits)
  ultimately have "pk \<in> set pks \<longleftrightarrow> (\<exists>e sp. sp \<in> set spans \<and> in_span e sp \<and> ix_has ix t c e pk)" for pk
    by (auto simp: sweep_span_set)
  with h(3) that show ?thesis by blast
qed

section \<open>Reindexing one row\<close>

definition enc_of :: "val option \<Rightarrow> string \<Rightarrow> byte list option" where
  "enc_of row c = Option.bind (Option.bind row (\<lambda>x. column_value x c)) encode_value"

lemma reindex_column_other:
  "t' \<noteq> t \<or> c' \<noteq> c \<or> pk' \<noteq> pk \<Longrightarrow>
     ix_has (reindex_column t pk b a c ix) t' c' e pk' \<longleftrightarrow> ix_has ix t' c' e pk'"
  by (auto simp: reindex_column_def Let_def ix_has_insert ix_has_remove split: option.splits)

lemma reindex_column_new:
  assumes "enc_of a c = Some e"
    and "value_option_eq (Option.bind b (\<lambda>x. column_value x c)) (Option.bind a (\<lambda>x. column_value x c)) \<longrightarrow> ix_has ix t c e pk"
  shows "ix_has (reindex_column t pk b a c ix) t c e pk"
  using assms by (auto simp: reindex_column_def enc_of_def Let_def ix_has_insert)

lemma reindex_column_covers:
  "ix_covers (reindex_column t pk b a c ix) t' c' \<Longrightarrow> ix_covers ix t' c' \<or> (t' = t \<and> c' = c)"
  by (auto simp: reindex_column_def Let_def ix_covers_insert ix_covers_remove split: option.splits if_splits)

lemma reindex_columns_other:
  "t' \<noteq> t \<or> pk' \<noteq> pk \<Longrightarrow>
     ix_has (fold (reindex_column t pk b a) cs ix) t' c' e pk' \<longleftrightarrow> ix_has ix t' c' e pk'"
  by (induction cs arbitrary: ix) (auto simp: reindex_column_other)

lemma reindex_columns_new:
  assumes "c \<in> set cs" and "enc_of a c = Some e"
    and "value_option_eq (Option.bind b (\<lambda>x. column_value x c)) (Option.bind a (\<lambda>x. column_value x c)) \<longrightarrow> ix_has ix t c e pk"
  shows "ix_has (fold (reindex_column t pk b a) cs ix) t c e pk"
proof -
  have keep: "ix_has (fold (reindex_column t pk b a) cs ix) t c e pk" if "ix_has ix t c e pk" for cs ix
    using that
  proof (induction cs arbitrary: ix)
    case (Cons d cs)
    then show ?case using reindex_column_new [OF assms(2)] reindex_column_other [of t t c d pk pk] by (cases "c = d") auto
  qed simp
  show ?thesis using assms(1,3)
  proof (induction cs arbitrary: ix)
    case (Cons d cs)
    show ?case
    proof (cases "c = d")
      case True
      then show ?thesis using keep reindex_column_new [OF assms(2) Cons.prems(2)] by simp
    next
      case False
      then show ?thesis using Cons reindex_column_other [of t t c d pk pk] by auto
    qed
  qed simp
qed

lemma reindex_columns_covers:
  "ix_covers (fold (reindex_column t pk b a) cs ix) t' c' \<Longrightarrow> ix_covers ix t' c' \<or> (t' = t \<and> c' \<in> set cs)"
  by (induction cs arbitrary: ix) (auto dest: reindex_column_covers)

section \<open>The invariant\<close>

definition row_exact :: "val \<Rightarrow> bool" where
  "row_exact row = (case row of VMap kvs \<Rightarrow> list_all (\<lambda>(_, x). index_exact x) kvs | _ \<Rightarrow> True)"

lemma row_exact_column: "row_exact row \<Longrightarrow> column_value row c = Some x \<Longrightarrow> index_exact x"
  by (auto simp: row_exact_def column_value_def list_all_iff split: val.splits dest: map_of_SomeD)

definition indexed_row :: "view \<Rightarrow> string \<Rightarrow> bool" where
  "indexed_row v k \<longleftrightarrow> (\<forall>a c e. parse_address k = Some a \<longrightarrow> c \<in> set (indexed_columns v (ra_table a)) \<longrightarrow>
     enc_of (omget (vw_keys v) k) c = Some e \<longrightarrow> ix_has (vw_indexes v) (ra_table a) c e (ra_primary_key a))"

definition indexes_ok :: "view \<Rightarrow> bool" where
  "indexes_ok v \<longleftrightarrow> (\<forall>k. indexed_row v k) \<and>
     (\<forall>t c. ix_covers (vw_indexes v) t c \<longrightarrow> c \<in> set (indexed_columns v t)) \<and>
     (\<forall>k row. omget (vw_keys v) k = Some row \<longrightarrow> row_exact row)"

lemma parse_address_inj: "parse_address k = Some a \<Longrightarrow> parse_address l = Some a \<Longrightarrow> k = l"
  by (simp add: parse_address_spec)

lemma exact_eq_enc:
  assumes "row_exact r" and "row_exact s"
    and "value_option_eq (column_value r c) (column_value s c)"
  shows "Option.bind (column_value r c) encode_value = Option.bind (column_value s c) encode_value"
proof (cases "column_value r c")
  case None
  then show ?thesis using assms(3) by (cases "column_value s c") auto
next
  case (Some x)
  then obtain y where y: "column_value s c = Some y" "value_eq x y"
    using assms(3) by (cases "column_value s c") auto
  have ex: "index_exact x" "index_exact y" using assms(1,2) Some y row_exact_column by blast+
  have "encode_value x = encode_value y"
  proof (cases x)
    case (VFloat f)
    then obtain g where g: "y = VFloat g" "f64_eq f g" using y(2) by (cases y) auto
    have "f64_partial_cmp f g = Some Equal" using g(2) by (simp add: f64_eq_def f64_partial_cmp_def)
    then have "Equal = cmp (order_preserving_f64 f) (order_preserving_f64 g)"
      using f64_order_cmp [of f g Equal] ex VFloat g(1) by simp
    then show ?thesis using VFloat g(1) by (simp add: cmp_ord)
  qed (use y(2) in \<open>auto split: val.splits\<close>)
  then show ?thesis using Some y(1) by simp
qed

text \<open>The row at a key is replaced and reindexed; nothing else moves.\<close>

lemma reindex_row_ok:
  assumes ok: "indexes_ok v" and exact: "\<And>r. a = Some r \<Longrightarrow> row_exact r"
    and keys: "\<And>l. omget (vw_keys w) l = (if l = k then a else omget (vw_keys v) l)"
    and ix: "vw_indexes w = vw_indexes v" "vw_schema w = vw_schema v"
  shows "indexes_ok (reindex_row k (omget (vw_keys v) k) a w)"
proof (cases "parse_address k")
  case None
  have "indexed_row w l" for l
    using ok None keys [of l] ix by (cases "l = k") (auto simp: indexes_ok_def indexed_row_def indexed_columns_def)
  then show ?thesis using ok None keys ix exact
    by (auto simp: indexes_ok_def reindex_row_def indexed_columns_def split: if_splits)
next
  case (Some ad)
  let ?b = "omget (vw_keys v) k" and ?t = "ra_table ad" and ?pk = "ra_primary_key ad"
  let ?w = "reindex_row k ?b a w"
  have cols: "indexed_columns ?w t = indexed_columns v t" "indexed_columns w t = indexed_columns v t" for t
    by (simp_all add: indexed_columns_def ix)
  have ixs: "vw_indexes ?w = fold (reindex_column ?t ?pk ?b a) (indexed_columns v ?t) (vw_indexes v)"
    by (simp add: reindex_row_def Some cols ix)
  have rows: "indexed_row v l" for l using ok by (simp add: indexes_ok_def)
  have "indexed_row ?w l" for l
  proof (cases "l = k")
    case False
    then have "ra_table al \<noteq> ?t \<or> ra_primary_key al \<noteq> ?pk" if "parse_address l = Some al" for al
      using that Some parse_address_inj by (metis row_address.equality old.unit.exhaust)
    then show ?thesis using rows [of l] False
      by (simp add: indexed_row_def cols ixs keys reindex_columns_other)
  next
    case True
    have "ix_has (vw_indexes ?w) ?t c e ?pk" if c: "c \<in> set (indexed_columns v ?t)" and e: "enc_of a c = Some e" for c e
    proof -
      have "ix_has (vw_indexes v) ?t c e ?pk"
        if same: "value_option_eq (Option.bind ?b (\<lambda>x. column_value x c)) (Option.bind a (\<lambda>x. column_value x c))"
      proof -
        obtain r s where rs: "a = Some r" "?b = Some s"
          using e same by (cases a; cases ?b) (auto simp: enc_of_def split: Option.bind_splits)
        have "row_exact s" using ok rs(2) by (simp add: indexes_ok_def)
        then have "enc_of ?b c = Some e" using e same rs exact [OF rs(1)] exact_eq_enc [of s r c]
          by (simp add: enc_of_def)
        then show ?thesis using rows [of k] Some c by (simp add: indexed_row_def)
      qed
      then show ?thesis unfolding ixs using reindex_columns_new [OF c e] by blast
    qed
    then show ?thesis using True Some by (simp add: indexed_row_def cols keys)
  qed
  moreover have "c \<in> set (indexed_columns v t)" if "ix_covers (vw_indexes ?w) t c" for t c
    using that ok reindex_columns_covers unfolding ixs indexes_ok_def by blast
  ultimately show ?thesis using ok keys exact by (auto simp: indexes_ok_def cols split: if_splits)
qed

section \<open>Rebuilding\<close>

lemma fold_establish:
  assumes "x \<in> set xs" and "\<And>y s. Q s \<Longrightarrow> Q (f y s)" and "Q s"
    and "\<And>s. Q s \<Longrightarrow> P (f x s)" and "\<And>y s. P s \<Longrightarrow> P (f y s)"
  shows "P (fold f xs s)"
proof -
  have keep: "P s \<Longrightarrow> P (fold f ys s)" for ys s by (induction ys arbitrary: s) (auto intro: assms(5))
  show ?thesis using assms(1,3)
  proof (induction xs arbitrary: s)
    case (Cons y ys)
    show ?case
    proof (cases "x = y")
      case True
      then show ?thesis using keep assms(4) Cons.prems(2) by simp
    next
      case False
      then show ?thesis using Cons assms(2) by simp
    qed
  qed simp
qed

lemma reindex_column_mono: "ix_has ix t' c' e pk' \<Longrightarrow> ix_has (reindex_column t pk None a c ix) t' c' e pk'"
  by (simp add: reindex_column_def Let_def ix_has_insert split: option.splits)

lemma reindex_columns_mono: "ix_has ix t' c' e pk' \<Longrightarrow> ix_has (fold (reindex_column t pk None a) cs ix) t' c' e pk'"
  by (induction cs arbitrary: ix) (auto intro: reindex_column_mono)

lemma reindex_row_mono:
  "ix_has (vw_indexes v) t c e pk \<Longrightarrow> ix_has (vw_indexes (reindex_row k None a v)) t c e pk"
  by (simp add: reindex_row_def reindex_columns_mono split: option.splits)

lemma rebuild_table_mono:
  "ix_has (vw_indexes v) t c e pk \<Longrightarrow> ix_has (vw_indexes (rebuild_table t' v)) t c e pk"
proof -
  have "ix_has (vw_indexes v) t c e pk \<Longrightarrow>
      ix_has (vw_indexes (fold (\<lambda>(key, x). reindex_row key None (Some x)) rows v)) t c e pk" for rows v
    by (induction rows arbitrary: v) (auto intro: reindex_row_mono)
  then show "ix_has (vw_indexes v) t c e pk \<Longrightarrow> ?thesis" by (simp add: rebuild_table_def)
qed

lemma rebuild_table_fields [simp]:
  "vw_keys (rebuild_table t v) = vw_keys v" "vw_schema (rebuild_table t v) = vw_schema v"
  by (simp_all add: rebuild_table_def fold_invariant_fun case_prod_beta)

lemma rebuild_table_new:
  assumes "omget (vw_keys v) k = Some row" and "parse_address k = Some a"
    and "c \<in> set (indexed_columns v (ra_table a))" and "enc_of (Some row) c = Some e"
  shows "ix_has (vw_indexes (rebuild_table (ra_table a) v)) (ra_table a) c e (ra_primary_key a)"
proof -
  let ?Q = "\<lambda>w :: view. vw_schema w = vw_schema v"
  have mem: "(k, row) \<in> set (prefix_range (address_prefix (ra_table a)) (vw_keys v))"
    using assms(1,2) by (auto simp: prefix_range_set parse_address_spec starts_with_append)
  have "ix_has (vw_indexes (fold (\<lambda>(key, x). reindex_row key None (Some x))
      (prefix_range (address_prefix (ra_table a)) (vw_keys v)) v)) (ra_table a) c e (ra_primary_key a)"
  proof (rule fold_establish [where Q = ?Q, OF mem])
    fix w :: view
    assume "?Q w"
    then have cols: "indexed_columns w t = indexed_columns v t" for t by (simp add: indexed_columns_def)
    have "ix_has (fold (reindex_column (ra_table a) (ra_primary_key a) None (Some row)) (indexed_columns v (ra_table a)) (vw_indexes w))
        (ra_table a) c e (ra_primary_key a)"
      by (rule reindex_columns_new [OF assms(3,4)]) (use assms(4) in \<open>auto simp: enc_of_def split: Option.bind_splits\<close>)
    then show "ix_has (vw_indexes ((case (k, row) of (key, x) \<Rightarrow> reindex_row key None (Some x)) w)) (ra_table a) c e (ra_primary_key a)"
      using assms(2) by (simp add: reindex_row_def cols)
  qed (auto intro: reindex_row_mono)
  then show ?thesis using assms(3) by (auto simp: rebuild_table_def)
qed

lemma rebuild_covers_step:
  "ix_covers (vw_indexes (reindex_row k b a w)) t c \<Longrightarrow> ix_covers (vw_indexes w) t c \<or> c \<in> set (indexed_columns w t)"
  by (auto simp: reindex_row_def split: option.splits dest: reindex_columns_covers)

lemma rebuild_table_covers:
  assumes "\<forall>t c. ix_covers (vw_indexes w) t c \<longrightarrow> c \<in> set (indexed_columns w t)"
  shows "\<forall>t c. ix_covers (vw_indexes (rebuild_table t' w)) t c \<longrightarrow> c \<in> set (indexed_columns w t)"
proof -
  have "\<forall>t c. ix_covers (vw_indexes (fold (\<lambda>(key, x). reindex_row key None (Some x)) rows w)) t c \<longrightarrow>
      c \<in> set (indexed_columns w t)" if "\<forall>t c. ix_covers (vw_indexes w) t c \<longrightarrow> c \<in> set (indexed_columns w t)" for rows w
    using that
  proof (induction rows arbitrary: w)
    case (Cons r rows)
    obtain k x where r: "r = (k, x)" by (cases r)
    let ?w = "reindex_row k None (Some x) w"
    have cols: "indexed_columns ?w t = indexed_columns w t" for t by (simp add: indexed_columns_def)
    have "\<forall>t c. ix_covers (vw_indexes ?w) t c \<longrightarrow> c \<in> set (indexed_columns ?w t)"
      using Cons.prems rebuild_covers_step unfolding cols by blast
    from Cons.IH [OF this] show ?case by (simp add: r cols)
  qed simp
  then show ?thesis using assms by (simp add: rebuild_table_def)
qed

lemma rebuild_indexes_ok:
  assumes "\<And>k row. omget (vw_keys v) k = Some row \<Longrightarrow> row_exact row"
  shows "indexes_ok (rebuild_indexes v)"
proof -
  let ?v0 = "v\<lparr>vw_indexes := omempty\<rparr>" and ?ts = "omkeys (sc_tables (vw_schema v))"
  have cols: "indexed_columns (rebuild_indexes v) t = indexed_columns v t" "indexed_columns ?v0 t = indexed_columns v t" for t
    by (simp_all add: indexed_columns_def)
  have "indexed_row (rebuild_indexes v) k" for k
    unfolding indexed_row_def cols
  proof (intro allI impI)
    fix a c e
    assume a: "parse_address k = Some a" and c: "c \<in> set (indexed_columns v (ra_table a))"
      and e: "enc_of (omget (vw_keys (rebuild_indexes v)) k) c = Some e"
    obtain row where row: "omget (vw_keys v) k = Some row" "enc_of (Some row) c = Some e"
      using e by (auto simp: enc_of_def split: Option.bind_splits)
    have t: "ra_table a \<in> set ?ts"
      using c by (cases "omget (sc_tables (vw_schema v)) (ra_table a)")
        (auto simp: indexed_columns_def schema_table_def omkeys_set)
    show "ix_has (vw_indexes (rebuild_indexes v)) (ra_table a) c e (ra_primary_key a)"
      unfolding rebuild_indexes_def
    proof (rule fold_establish [where Q = "\<lambda>w. vw_schema w = vw_schema v \<and> vw_keys w = vw_keys v", OF t])
      fix w :: view
      assume "vw_schema w = vw_schema v \<and> vw_keys w = vw_keys v"
      then show "ix_has (vw_indexes (rebuild_table (ra_table a) w)) (ra_table a) c e (ra_primary_key a)"
        using row a c by (intro rebuild_table_new [of w k row a c e]) (auto simp: indexed_columns_def)
    qed (auto intro: rebuild_table_mono)
  qed
  moreover have "\<forall>t c. ix_covers (vw_indexes (rebuild_indexes v)) t c \<longrightarrow> c \<in> set (indexed_columns v t)"
  proof -
    have "\<forall>t c. ix_covers (vw_indexes (fold rebuild_table ts w)) t c \<longrightarrow> c \<in> set (indexed_columns w t)"
      if "\<forall>t c. ix_covers (vw_indexes w) t c \<longrightarrow> c \<in> set (indexed_columns w t)" for ts w
      using that
    proof (induction ts arbitrary: w)
      case (Cons t ts)
      have "indexed_columns (rebuild_table t w) t' = indexed_columns w t'" for t' by (simp add: indexed_columns_def)
      then show ?case using Cons.IH [of "rebuild_table t w"] rebuild_table_covers [OF Cons.prems, of t] by simp
    qed simp
    from this [of ?v0 ?ts] show ?thesis by (simp add: rebuild_indexes_def cols ix_covers_def)
  qed
  ultimately show ?thesis using assms by (simp add: indexes_ok_def cols)
qed

section \<open>The fold\<close>

text \<open>The operations the invariant survives, with the state they meet: a stored row holds
  no value whose key is inexact, a table is declared before it has rows or indexes, no
  table with an index is dropped, and no column is renamed to an indexed one.\<close>

fun keeps_indexes :: "view \<Rightarrow> op_type \<Rightarrow> bool" where
  "keeps_indexes v (Put _ row) \<longleftrightarrow> row_exact row"
| "keeps_indexes v (SchemaOp (AddTable td)) \<longleftrightarrow>
     addressed (td_name td) (vw_keys v) = [] \<and> omget (vw_indexes v) (td_name td) = None"
| "keeps_indexes v (SchemaOp (DropTable t)) \<longleftrightarrow> omget (vw_indexes v) t = None"
| "keeps_indexes v (SchemaOp (RenameColumn t _ to')) \<longleftrightarrow>
     table_name_ok t \<and> to' \<notin> set (indexed_columns v t)"
| "keeps_indexes v _ \<longleftrightarrow> True"

text \<open>Rows that lose or gain unindexed columns, or disappear, stay indexed.\<close>

lemma indexes_ok_mono:
  assumes ok: "indexes_ok v" and ix: "vw_indexes w = vw_indexes v"
    and cols: "\<And>t. indexed_columns w t = indexed_columns v t"
    and rows: "\<And>k row. omget (vw_keys w) k = Some row \<Longrightarrow> \<exists>old. omget (vw_keys v) k = Some old \<and>
       (row_exact old \<longrightarrow> row_exact row) \<and>
       (\<forall>a c x. parse_address k = Some a \<longrightarrow> c \<in> set (indexed_columns v (ra_table a)) \<longrightarrow>
          column_value row c = Some x \<longrightarrow> column_value old c = Some x)"
  shows "indexes_ok w"
proof -
  have "indexed_row w k" for k
    unfolding indexed_row_def cols ix
  proof (intro allI impI)
    fix a c e
    assume a: "parse_address k = Some a" "c \<in> set (indexed_columns v (ra_table a))"
      and e: "enc_of (omget (vw_keys w) k) c = Some e"
    then obtain row x where r: "omget (vw_keys w) k = Some row" "column_value row c = Some x" "encode_value x = Some e"
      by (auto simp: enc_of_def bind_eq_Some_conv)
    from rows [OF r(1)] obtain old where "omget (vw_keys v) k = Some old" "column_value old c = Some x"
      using a r(2) by blast
    then have "enc_of (omget (vw_keys v) k) c = Some e" using r(3) by (simp add: enc_of_def)
    then show "ix_has (vw_indexes v) (ra_table a) c e (ra_primary_key a)"
      using ok a unfolding indexes_ok_def indexed_row_def by blast
  qed
  moreover have "row_exact row" if "omget (vw_keys w) k = Some row" for k row
    using rows [OF that] ok unfolding indexes_ok_def by blast
  ultimately show ?thesis using ok unfolding indexes_ok_def ix cols by blast
qed

lemma indexes_ok_same:
  assumes "indexes_ok v" and "vw_indexes w = vw_indexes v" and "vw_keys w = vw_keys v"
    and "\<And>t. indexed_columns w t = indexed_columns v t"
  shows "indexes_ok w"
  by (rule indexes_ok_mono [OF assms(1,2,4)]) (auto simp: assms(3))

lemma table_mut_columns:
  "(\<And>td. td_indexes (f td) = td_indexes td) \<Longrightarrow> indexed_columns (table_mut t f v) t' = indexed_columns v t'"
  by (auto simp: indexed_columns_def table_mut_def schema_table_def omget_or_def table_default_def split: option.splits)

lemma field_mut_indexes: "td_indexes (field_mut c f td) = td_indexes td"
  by (simp add: field_mut_def split: option.splits)

lemma omget_drop_column:
  assumes "omget (vw_keys (drop_column_values t c v)) k = Some row"
  obtains old where "omget (vw_keys v) k = Some old" "row = old \<or> drop_result c old = Some row"
  using assms by (auto simp: drop_column_values_def keys_of_def Let_def omget_fold_drop addressed_distinct
      bind_eq_Some_conv split: if_splits)

lemma list_all_al_del: "list_all P kvs \<Longrightarrow> list_all P (al_del c kvs)"
  using set_al_del [of c kvs] by (auto simp: list_all_iff)

lemma list_all_al_put: "list_all P kvs \<Longrightarrow> P (c, x) \<Longrightarrow> list_all P (al_put c x kvs)"
  using set_al_put [of c x kvs] by (auto simp: list_all_iff)

lemma drop_result_row:
  assumes "drop_result c old = Some row"
  shows "row_exact old \<longrightarrow> row_exact row" and "column_value row d = Some x \<Longrightarrow> column_value old d = Some x"
  using assms
  by (auto simp: drop_result_def row_exact_def column_value_def list_all_al_del split: val.splits if_splits)

lemma omget_rename_value:
  "omget (rename_value a b key m) k = (if k = key then map_option (\<lambda>row.
      case row of VMap kvs \<Rightarrow> (case map_of kvs a of Some x \<Rightarrow> VMap (al_put b x (al_del a kvs)) | None \<Rightarrow> row) | _ \<Rightarrow> row)
     (omget m key) else omget m k)"
  by (cases "omget m key") (auto simp: rename_value_def split: val.splits option.splits)

definition rename_result :: "string \<Rightarrow> string \<Rightarrow> val \<Rightarrow> val" where
  "rename_result a b row =
     (case row of VMap kvs \<Rightarrow> (case map_of kvs a of Some x \<Rightarrow> VMap (al_put b x (al_del a kvs)) | None \<Rightarrow> row) | _ \<Rightarrow> row)"

lemma omget_fold_rename:
  "distinct ks \<Longrightarrow> omget (fold (rename_value a b) ks m) k =
     (if k \<in> set ks then map_option (rename_result a b) (omget m k) else omget m k)"
  by (induction ks arbitrary: m) (auto simp: omget_rename_value rename_result_def [abs_def])

lemma rename_result_row:
  shows "row_exact row \<Longrightarrow> row_exact (rename_result a b row)"
    and "d \<noteq> b \<Longrightarrow> column_value (rename_result a b row) d = Some x \<Longrightarrow> column_value row d = Some x"
proof -
  show "row_exact (rename_result a b row)" if exact: "row_exact row"
  proof (cases row)
    case (VMap kvs)
    show ?thesis
    proof (cases "map_of kvs a")
      case None
      then show ?thesis using exact VMap by (simp add: rename_result_def)
    next
      case (Some x)
      have all: "list_all (\<lambda>(_, x). index_exact x) kvs" using exact VMap by (simp add: row_exact_def)
      moreover have "index_exact x" using all map_of_SomeD [OF Some] by (auto simp: list_all_iff)
      ultimately show ?thesis using VMap Some
        by (simp add: rename_result_def row_exact_def list_all_al_put list_all_al_del)
    qed
  qed (use exact in \<open>simp_all add: rename_result_def\<close>)
  show "d \<noteq> b \<Longrightarrow> column_value (rename_result a b row) d = Some x \<Longrightarrow> column_value row d = Some x"
    by (auto simp: rename_result_def column_value_def split: val.splits option.splits if_splits)
qed

lemma apply_schema_indexes_ok:
  assumes ok: "indexes_ok v" and keeps: "keeps_indexes v (SchemaOp c)"
  shows "indexes_ok (apply_schema c v)"
proof (cases c)
  case (AddTable td)
  let ?w = "apply_schema c v"
  have cols: "indexed_columns ?w t = indexed_columns v t" if "t \<noteq> td_name td" for t
    using that by (simp add: AddTable indexed_columns_def schema_table_def)
  have "indexed_row ?w k" for k
  proof (cases "\<exists>a row. parse_address k = Some a \<and> ra_table a = td_name td \<and> omget (vw_keys v) k = Some row")
    case True
    then obtain a row where a: "parse_address k = Some a" "ra_table a = td_name td" "omget (vw_keys v) k = Some row" by blast
    then have "(k, row) \<in> set (prefix_range (address_prefix (td_name td)) (vw_keys v))"
      by (auto simp: prefix_range_set parse_address_spec starts_with_append)
    then have "k \<in> set (addressed (td_name td) (vw_keys v))" using a(1) by (force simp: addressed_def)
    then show ?thesis using keeps AddTable by simp
  next
    case False
    have "indexed_row v k" using ok by (simp add: indexes_ok_def)
    show ?thesis unfolding indexed_row_def
    proof (intro allI impI)
      fix a c' e
      assume h: "parse_address k = Some a" "c' \<in> set (indexed_columns ?w (ra_table a))"
        "enc_of (omget (vw_keys ?w) k) c' = Some e"
      then have "ra_table a \<noteq> td_name td" using False by (auto simp: AddTable enc_of_def bind_eq_Some_conv)
      with h cols \<open>indexed_row v k\<close> show "ix_has (vw_indexes ?w) (ra_table a) c' e (ra_primary_key a)"
        by (simp add: indexed_row_def AddTable)
    qed
  qed
  moreover have "c' \<in> set (indexed_columns ?w t)" if "ix_covers (vw_indexes ?w) t c'" for t c'
  proof -
    have "ix_covers (vw_indexes v) t c'" using that by (simp add: AddTable)
    moreover from this have "t \<noteq> td_name td" using keeps AddTable by (auto simp: ix_covers_def)
    ultimately show ?thesis using ok cols by (simp add: indexes_ok_def)
  qed
  moreover have "vw_keys ?w = vw_keys v" by (simp add: AddTable)
  ultimately show ?thesis using ok unfolding indexes_ok_def by metis
next
  case (DropTable t)
  let ?w = "apply_schema c v"
  have cols: "indexed_columns ?w t' = (if t' = t then [] else indexed_columns v t')" for t'
    by (simp add: DropTable indexed_columns_def schema_table_def)
  have keys: "omget (vw_keys ?w) k = Some row \<Longrightarrow> omget (vw_keys v) k = Some row" for k row
    by (simp only: DropTable drop_table_rows) (simp split: if_splits)
  have ix: "vw_indexes ?w = vw_indexes v" by (simp add: DropTable)
  have "indexed_row ?w k" for k
    unfolding indexed_row_def ix
  proof (intro allI impI)
    fix a c' e
    assume h: "parse_address k = Some a" "c' \<in> set (indexed_columns ?w (ra_table a))"
      "enc_of (omget (vw_keys ?w) k) c' = Some e"
    then have "c' \<in> set (indexed_columns v (ra_table a))" by (auto simp: cols split: if_splits)
    moreover have "enc_of (omget (vw_keys v) k) c' = Some e" using h(3) keys by (auto simp: enc_of_def bind_eq_Some_conv)
    ultimately show "ix_has (vw_indexes v) (ra_table a) c' e (ra_primary_key a)"
      using ok h(1) unfolding indexes_ok_def indexed_row_def by blast
  qed
  moreover have "c' \<in> set (indexed_columns ?w t')" if "ix_covers (vw_indexes ?w) t' c'" for t' c'
  proof -
    have cov: "ix_covers (vw_indexes v) t' c'" using that by (simp add: ix)
    then have "t' \<noteq> t" using keeps DropTable by (auto simp: ix_covers_def)
    then show ?thesis using ok cov by (simp add: cols indexes_ok_def)
  qed
  ultimately show ?thesis using ok keys unfolding indexes_ok_def by blast
next
  case (AddIndex t i)
  show ?thesis unfolding AddIndex apply_schema.simps
    by (rule rebuild_indexes_ok) (use ok in \<open>simp add: indexes_ok_def\<close>)
next
  case (DropIndex t i)
  show ?thesis unfolding DropIndex apply_schema.simps
    by (rule rebuild_indexes_ok) (use ok in \<open>simp add: indexes_ok_def\<close>)
next
  case (DropColumn t d)
  let ?v1 = "table_mut t (\<lambda>td. td\<lparr>td_fields := omdel d (td_fields td)\<rparr>) v"
  have cols: "indexed_columns ?v1 t' = indexed_columns v t'" for t' by (rule table_mut_columns) simp
  then have ok1: "indexes_ok ?v1" by (intro indexes_ok_same [OF ok]) simp_all
  have "indexes_ok (drop_column_values t d ?v1)"
  proof (rule indexes_ok_mono [OF ok1])
    fix k row
    assume "omget (vw_keys (drop_column_values t d ?v1)) k = Some row"
    then obtain old where old: "omget (vw_keys ?v1) k = Some old" "row = old \<or> drop_result d old = Some row"
      by (rule omget_drop_column)
    then show "\<exists>old. omget (vw_keys ?v1) k = Some old \<and> (row_exact old \<longrightarrow> row_exact row) \<and>
       (\<forall>a c x. parse_address k = Some a \<longrightarrow> c \<in> set (indexed_columns ?v1 (ra_table a)) \<longrightarrow>
          column_value row c = Some x \<longrightarrow> column_value old c = Some x)"
      using drop_result_row by blast
  qed (simp_all add: indexed_columns_def)
  then show ?thesis by (simp add: DropColumn)
next
  case (RenameColumn t f g)
  let ?v1 = "table_mut t (rename_field f g) v"
  have cols: "indexed_columns ?v1 t' = indexed_columns v t'" for t'
    by (rule table_mut_columns) (simp add: rename_field_def split: option.splits)
  then have ok1: "indexes_ok ?v1" by (intro indexes_ok_same [OF ok]) simp_all
  have "indexes_ok (rename_column_values t f g ?v1)"
  proof (rule indexes_ok_mono [OF ok1])
    fix k row
    assume k: "omget (vw_keys (rename_column_values t f g ?v1)) k = Some row"
    let ?old = "omget (vw_keys ?v1) k"
    show "\<exists>old. omget (vw_keys ?v1) k = Some old \<and> (row_exact old \<longrightarrow> row_exact row) \<and>
       (\<forall>a c x. parse_address k = Some a \<longrightarrow> c \<in> set (indexed_columns ?v1 (ra_table a)) \<longrightarrow>
          column_value row c = Some x \<longrightarrow> column_value old c = Some x)"
    proof (cases "f \<noteq> g \<and> k \<in> set (addressed t (vw_keys ?v1))")
      case True
      then obtain old where old: "?old = Some old" "row = rename_result f g old"
        using k by (auto simp: rename_column_values_def keys_of_def omget_fold_rename addressed_distinct)
      obtain pk where pk: "pk \<noteq> []" "k = row_key t pk"
        using True keeps by (auto simp: RenameColumn addressed_set)
      then have "ra_table a = t" if "parse_address k = Some a" for a
        using that keeps parse_row_key [of t pk] by (auto simp: RenameColumn)
      moreover have "g \<notin> set (indexed_columns ?v1 t)" using keeps by (simp add: RenameColumn cols)
      ultimately have "parse_address k = Some a \<Longrightarrow> d \<in> set (indexed_columns ?v1 (ra_table a)) \<Longrightarrow> d \<noteq> g" for a d
        by blast
      then show ?thesis using old rename_result_row by blast
    next
      case False
      then have "?old = Some row"
        using k by (auto simp: rename_column_values_def keys_of_def omget_fold_rename addressed_distinct split: if_splits)
      then show ?thesis by auto
    qed
  qed (simp_all add: indexed_columns_def)
  then show ?thesis by (simp add: RenameColumn)
qed (use ok in \<open>auto intro!: indexes_ok_same [OF ok] table_mut_columns simp: field_mut_indexes\<close>)

lemma indexes_ok_step:
  assumes "indexes_ok v" and "keeps_indexes v op" and "no_transaction op"
  shows "indexes_ok (view_op enc ctx op v)"
proof (cases op)
  case (Put k row)
  show ?thesis unfolding Put view_op.simps
    using assms(2) by (intro reindex_row_ok [OF assms(1)]) (auto simp: Put)
next
  case (Delete k)
  show ?thesis unfolding Delete view_op.simps
    by (intro reindex_row_ok [OF assms(1)]) auto
next
  case (Crdt k m)
  then show ?thesis using assms(1) by (auto simp: Let_def indexed_columns_def intro: indexes_ok_same)
next
  case (SchemaOp c)
  then show ?thesis using apply_schema_indexes_ok [OF assms(1)] assms(2) by simp
qed (use assms in auto)

fun leaves_safe :: "(val \<Rightarrow> byte list) \<Rightarrow> (op_context \<times> op_type) list \<Rightarrow> view \<Rightarrow> bool" where
  "leaves_safe enc [] v \<longleftrightarrow> True"
| "leaves_safe enc (co # cs) v \<longleftrightarrow> keeps_indexes v (snd co) \<and> leaves_safe enc cs (leaf_step enc co v)"

fun log_safe :: "(val \<Rightarrow> byte list) \<Rightarrow> log_entry list \<Rightarrow> view \<Rightarrow> bool" where
  "log_safe enc [] v \<longleftrightarrow> True"
| "log_safe enc (e # es) v \<longleftrightarrow>
     leaves_safe enc (map (Pair (entry_ctx e)) (op_leaves (le_op e))) v \<and> log_safe enc es (view_apply enc e v)"

lemma leaves_safe_ok:
  "leaves_safe enc cs v \<Longrightarrow> indexes_ok v \<Longrightarrow> \<forall>co \<in> set cs. no_transaction (snd co) \<Longrightarrow>
     indexes_ok (fold (leaf_step enc) cs v)"
  by (induction enc cs v rule: leaves_safe.induct) (auto simp: leaf_step_def indexes_ok_step)

lemma view_apply_ok:
  assumes "leaves_safe enc (map (Pair (entry_ctx e)) (op_leaves (le_op e))) v" and "indexes_ok v"
  shows "indexes_ok (view_apply enc e v)"
proof -
  have "indexes_ok (view_op enc (entry_ctx e) (le_op e) v)"
    using leaves_safe_ok [OF assms] by (auto simp: fold_leaves view_op_leaves(1) [of enc _ "le_op e"] op_leaves_flat)
  then show ?thesis by (auto simp: view_apply_def Let_def indexed_columns_def intro: indexes_ok_same)
qed

lemma log_safe_ok: "log_safe enc es v \<Longrightarrow> indexes_ok v \<Longrightarrow> indexes_ok (fold (view_apply enc) es v)"
  by (induction enc es v rule: log_safe.induct) (auto simp: view_apply_ok)

lemma indexes_ok_new: "indexes_ok view_new"
  by (simp add: indexes_ok_def view_new_def indexed_row_def indexed_columns_def ix_covers_def)

lemma indexes_ok_serve:
  assumes ok: "indexes_ok v" and cand: "view_index_candidates v t c bound = Some pks"
    and row: "table_name_ok t" "pk \<noteq> []" "omget (vw_keys v) (row_key t pk) = Some row"
    and x: "column_value row c = Some x" "bound_matches bound x"
    and exact: "\<forall>y \<in> set (bound_values bound). index_exact y" "bound_values bound \<noteq> []"
  shows "pk \<in> set pks"
proof -
  have cov: "ix_covers (vw_indexes v) t c" and cs: "ix_candidates (vw_indexes v) t c bound = Some pks"
    using cand by (auto simp: view_index_candidates_def split: if_splits)
  obtain spans where spans: "encoded_range bound = Some spans"
    "\<And>pk. pk \<in> set pks \<longleftrightarrow> (\<exists>e sp. sp \<in> set spans \<and> in_span e sp \<and> ix_has (vw_indexes v) t c e pk)"
    using ix_candidates_set [OF cs] by blast
  have "index_exact x" using ok row(3) x(1) row_exact_column unfolding indexes_ok_def by blast
  then obtain e sp where e: "encode_value x = Some e" "sp \<in> set spans" "in_span e sp"
    using encoded_range_covers_aux [OF _ exact(1) spans(1) x(2) exact(2)] by blast
  have "indexed_row v (row_key t pk)" and "c \<in> set (indexed_columns v t)"
    using ok cov by (auto simp: indexes_ok_def)
  then have "ix_has (vw_indexes v) t c e pk"
    using parse_row_key [OF row(1,2)] row(3) x(1) e(1) by (simp add: indexed_row_def enc_of_def)
  then show ?thesis using spans(2) e(2,3) by blast
qed

text \<open>A secondary index loses no plain row: whenever it answers a bound, the keys it
  returns include every plain row of the table whose column the executor would accept,
  after any log of writes, deletes, transactions and the schema changes that keep indexes,
  as long as the values it is keyed on have exact keys.\<close>

theorem index_serves_every_match:
  assumes "log_safe enc es view_new" and "v = view_replay enc es"
    and "view_index_candidates v t c bound = Some pks"
    and "table_name_ok t" and "pk \<noteq> []" and "omget (vw_keys v) (row_key t pk) = Some row"
    and "column_value row c = Some x" and "bound_matches bound x"
    and "\<forall>y \<in> set (bound_values bound). index_exact y" and "bound_values bound \<noteq> []"
  shows "pk \<in> set pks"
proof -
  have "indexes_ok v" using log_safe_ok [OF assms(1) indexes_ok_new] assms(2) by (simp add: view_replay_def)
  then show ?thesis by (rule indexes_ok_serve [OF _ assms(3-)])
qed

definition flag_index :: index_def where
  "flag_index = \<lparr>ix_name = ''i'', ix_columns = [''f''], ix_unique = False\<rparr>"

definition flag_log :: "log_entry list" where
  "flag_log = [put_entry 1 (SchemaOp (AddIndex ''t'' flag_index)), put_entry 2 (Put ''t:1'' (VMap [(''f'', VBool True)]))]"

lemma parse_t1: "parse_address ''t:1'' = Some \<lparr>ra_table = ''t'', ra_primary_key = ''1''\<rparr>"
  "parse_address ''t:2'' = Some \<lparr>ra_table = ''t'', ra_primary_key = ''2''\<rparr>"
  by (simp_all add: parse_address_def)

lemmas view_eval = view_replay_def view_apply_def put_entry_def entry_ctx_def Let_def view_new_def
  rebuild_indexes_def rebuild_table_def table_mut_def omkeys_def prefix_range_def address_prefix_def
  starts_with_def reindex_row_def parse_t1 indexed_columns_def schema_table_def schema_default_def
  table_default_def omget_or_def flag_index_def reindex_column_def column_value_def rank_bool_def
  ix_insert_def ix_remove_def keys_of_def addressed_def drop_rows_def

lemma flag_index_candidates:
  "view_index_candidates (view_replay (\<lambda>_. []) flag_log) ''t'' ''f'' (BEq (VBool True)) = Some [''1'']"
  by (simp add: flag_log_def view_eval view_index_candidates_def ix_covers_def ix_candidates_def
      sweep_span_def in_span_def omhas_def)

lemma index_serves_every_match_witness:
  "\<exists>pks. view_index_candidates (view_replay (\<lambda>_. []) flag_log) ''t'' ''f'' (BEq (VBool True)) = Some pks \<and>
     ''1'' \<in> set pks"
proof (intro exI conjI, rule flag_index_candidates, rule index_serves_every_match [where enc = "\<lambda>_. []" and es = flag_log and t = "''t''" and c = "''f''"
      and bound = "BEq (VBool True)" and row = "VMap [(''f'', VBool True)]" and x = "VBool True", OF _ refl flag_index_candidates])
  show "log_safe (\<lambda>_. []) flag_log view_new"
    by (simp add: flag_log_def put_entry_def row_exact_def)
  show "omget (vw_keys (view_replay (\<lambda>_. []) flag_log)) (row_key ''t'' ''1'') = Some (VMap [(''f'', VBool True)])"
    by (simp add: flag_log_def view_replay_def view_apply_def put_entry_def Let_def row_key_def address_prefix_def view_new_def)
qed (simp_all add: table_name_ok_def column_value_def)

text \<open>Where the code loses rows: after a table is dropped and written to again, its old
  index still answers and does not know the new row.\<close>

lemma index_outlives_its_table:
  "view_index_candidates (view_replay (\<lambda>_. []) (flag_log @
      [put_entry 3 (SchemaOp (DropTable ''t'')), put_entry 4 (Put ''t:2'' (VMap [(''f'', VBool True)]))]))
     ''t'' ''f'' (BEq (VBool True)) = Some [''1''] \<and>
   view_row (view_replay (\<lambda>_. []) (flag_log @
      [put_entry 3 (SchemaOp (DropTable ''t'')), put_entry 4 (Put ''t:2'' (VMap [(''f'', VBool True)]))]))
     ''t'' ''2'' = Some (VMap [(''f'', VBool True)])"
  by (simp add: flag_log_def view_eval view_index_candidates_def ix_covers_def ix_candidates_def
      sweep_span_def in_span_def omhas_def view_row_def)

end
