(* ===== verification/Query_View.thy ===== *)
theory Query_View
  imports Query_Optimize Store_View_Index
begin

text \<open>
  The executor over the materialized view: the view as a source of rows
  (\<open>impl RowSource for MaterializedView\<close>, \<open>theta-storage/src/view.rs\<close>), the proof that it
  keeps the contract the executor relies on, and the properties of queries that follow.
\<close>

section \<open>The view keeps the contract\<close>

definition view_source :: "view \<Rightarrow> row_source" where
  "view_source v = \<lparr>rs_scan = view_scan v, rs_row = view_row v, rs_scan_up_to = view_scan_up_to v,
     rs_column_type = view_column_type v, rs_index_candidates = view_index_candidates v\<rparr>"

lemma view_source_simps [simp]:
  "rs_scan (view_source v) = view_scan v" "rs_row (view_source v) = view_row v"
  "rs_scan_up_to (view_source v) = view_scan_up_to v" "rs_column_type (view_source v) = view_column_type v"
  "rs_index_candidates (view_source v) = view_index_candidates v"
  by (simp_all add: view_source_def)








section \<open>Queries over a replayed log\<close>














subsection \<open>An instance\<close>

definition flag_view :: view where
  "flag_view = view_replay (\<lambda>_. []) flag_log"







lemma flag_candidates: "view_index_candidates flag_view ''t'' ''f'' (BEq (VBool True)) = Some [''1'']"
  unfolding flag_view_def by (rule flag_index_candidates)









subsection \<open>Where they differ\<close>

text \<open>A limit over a limit with an offset: the outer budget is counted before the offset is
  skipped, so rows are lost.\<close>

definition two_rows :: view where
  "two_rows = view_replay (\<lambda>_. []) [put_entry 1 (Put ''t:1'' (VInt 1)), put_entry 2 (Put ''t:2'' (VInt 2))]"

lemma two_rows_scan: "view_scan two_rows ''t'' = [(''1'', VInt 1), (''2'', VInt 2)]"
  by (simp add: two_rows_def view_eval view_scan_def plain_rows_def crdt_rows_def row_of_def map_filter_simps)

lemma nested_limit_loses_rows:
  "denote (view_source two_rows) js (Limit (Limit (Scan ''t'') 1 1) 1 0) b = Inr [mk_row (''2'', VInt 2)]"
  "eval (view_source two_rows) js (Limit (Limit (Scan ''t'') 1 1) 1 0) b None = Inr []"
  by (simp_all add: two_rows_scan scan_rows_def view_scan_up_to_take limit_budget_def sat_add64_def)

text \<open>A trivially true filter between the two limits hides the offset from the budget, and
  the optimizer drops it: the optimized plan loses the row the plan returns.\<close>

lemma optimizer_uncovers_an_offset:
  "eval (view_source two_rows) js (Limit (Filter (Limit (Scan ''t'') 1 1) PTrue) 1 0) b None = Inr [mk_row (''2'', VInt 2)]"
  "eval (view_source two_rows) js (optimize s (Limit (Filter (Limit (Scan ''t'') 1 1) PTrue) 1 0)) b None = Inr []"
  by (simp_all add: two_rows_scan scan_rows_def view_scan_up_to_take limit_budget_def sat_add64_def optimize_def reached_def
      stats_table_def)

text \<open>The optimizer keeps rows and not columns: a filter over a projection hides it from the
  column list, and pushed under it no longer does.\<close>

lemma optimizer_changes_columns:
  "projected_columns (Filter (Project (Scan ''t'') [''a'']) PTrue) [] = [key_column]"
  "projected_columns (optimize s (Filter (Project (Scan ''t'') [''a'']) PTrue)) [] = [''a'']"
  by (simp_all add: projected_columns_def optimize_def stats_table_def split: option.splits)

text \<open>Grouping goes by the text of the values, so the text \<open>1\<close> and the integer 1 are one group.\<close>

lemma group_key_merges_types:
  assumes "js (VInt 1) = ''1''"
  shows "group_key js [value_column] (mk_row (pk, VInt 1)) = group_key js [value_column] (mk_row (pk', VText ''1''))"
  using assms by (simp add: group_key_def encode_key_def row_col_def mk_row_def row_column_def key_column_def value_column_def)

end
