(* ===== verification/Safety_Window.thy ===== *)
theory Safety_Window
  imports Prelude
begin

text \<open>
  The rolling window that the circuit breaker, the review budget and the spend ledger
  each keep: samples with a time, of which those still inside the window count.  The
  locale states what the three \<open>in_window\<close> tests have in common; each component
  interprets it on its own test.
\<close>

locale rolling_window =
  fixes alive :: "'t::linorder \<Rightarrow> 't \<Rightarrow> bool"
    and time_of :: "'s \<Rightarrow> 't"
    and weight :: "'s \<Rightarrow> nat"
  assumes alive_earlier: "alive t now' \<Longrightarrow> now \<le> now' \<Longrightarrow> alive t now"
    and alive_later: "alive t now \<Longrightarrow> t \<le> t' \<Longrightarrow> alive t' now"
begin

definition live :: "'t \<Rightarrow> 's list \<Rightarrow> 's list" where
  "live now xs = filter (\<lambda>x. alive (time_of x) now) xs"

definition load :: "'s list \<Rightarrow> nat" where
  "load xs = sum_list (map weight xs)"

lemma live_live: "now \<le> now' \<Longrightarrow> live now' (live now xs) = live now' xs"
  by (auto simp: live_def intro!: filter_cong intro: alive_earlier)

lemma live_append: "live now (xs @ ys) = live now xs @ live now ys"
  by (simp add: live_def)

lemma load_append: "load (xs @ ys) = load xs + load ys"
  by (simp add: load_def)

lemma load_live_le: "load (live now xs) \<le> load xs"
  by (simp add: load_def live_def sum_list_filter_le)

text \<open>Dropping expired samples from the front is enough when times are in order.\<close>

lemma drop_front:
  "sorted (map time_of xs) \<Longrightarrow> dropWhile (\<lambda>x. \<not> alive (time_of x) now) xs = live now xs"
proof (induction xs)
  case Nil
  then show ?case by (simp add: live_def)
next
  case (Cons x xs)
  show ?case
  proof (cases "alive (time_of x) now")
    case True
    with Cons.prems have "\<forall>y\<in>set xs. alive (time_of y) now" by (auto intro: alive_later)
    with True show ?thesis by (simp add: live_def)
  next
    case False
    with Cons show ?thesis by (simp add: live_def)
  qed
qed

end

end
