(* ===== verification/Safety_Classify.thy ===== *)
theory Safety_Classify
  imports Core_Log
begin

text \<open>
  The gate in front of a schema change: project policy
  (\<open>theta-safety/src/policy.rs\<close>), the diff object (\<open>diff.rs\<close>), the structured reason
  (\<open>rationale.rs\<close>) and the rule-based classifier (\<open>classify.rs\<close>).

  The canonical JSON of a schema change and BLAKE3 are arguments of the functions that
  name a change; nothing else depends on them.
\<close>

section \<open>Policy\<close>

record auto_approve_rule =
  aa_change :: string
  aa_max_rows :: nat

record safety_policy =
  sp_row_impact :: nat
  sp_shadow :: nat
  sp_breaker_ceiling :: nat
  sp_breaker_window :: nat
  sp_auto_approve :: "auto_approve_rule list"
  sp_ambiguous_safe :: bool
  sp_shadow_ttl :: nat

definition max_irreversible_shadow_threshold :: nat where
  "max_irreversible_shadow_threshold = 10000"

definition default_shadow_ttl_ms :: nat where
  "default_shadow_ttl_ms = 24 * 60 * 60 * 1000"

definition effective_shadow_threshold :: "safety_policy \<Rightarrow> nat" where
  "effective_shadow_threshold p = min (sp_shadow p) max_irreversible_shadow_threshold"

definition protected_policy :: safety_policy where
  "protected_policy =
     \<lparr>sp_row_impact = 1000, sp_shadow = 100, sp_breaker_ceiling = 100000,
      sp_breaker_window = 60000, sp_auto_approve = [], sp_ambiguous_safe = False,
      sp_shadow_ttl = default_shadow_ttl_ms\<rparr>"

definition development_policy :: safety_policy where
  "development_policy =
     \<lparr>sp_row_impact = 50000, sp_shadow = 10000, sp_breaker_ceiling = 250000,
      sp_breaker_window = 60000, sp_auto_approve = [], sp_ambiguous_safe = False,
      sp_shadow_ttl = default_shadow_ttl_ms\<rparr>"

definition tightened_for_protected :: "safety_policy \<Rightarrow> safety_policy" where
  "tightened_for_protected p =
     \<lparr>sp_row_impact = min (sp_row_impact p) (sp_row_impact protected_policy),
      sp_shadow = min (sp_shadow p) (sp_shadow protected_policy),
      sp_breaker_ceiling = sp_breaker_ceiling p,
      sp_breaker_window = sp_breaker_window p,
      sp_auto_approve = [],
      sp_ambiguous_safe = False,
      sp_shadow_ttl = sp_shadow_ttl p\<rparr>"

section \<open>The diff object\<close>

datatype gate = AutoApply | Confirm | ShadowValidate

record impact =
  im_rows :: nat
  im_cost_ms :: nat

definition impact_none :: impact where
  "impact_none = \<lparr>im_rows = 0, im_cost_ms = 0\<rparr>"

record affected_schema =
  af_table :: string
  af_column :: "string option"
  af_change_type :: string

fun affected_of :: "schema_change \<Rightarrow> affected_schema" where
  "affected_of (AddTable td) = \<lparr>af_table = td_name td, af_column = None, af_change_type = ''add_table''\<rparr>"
| "affected_of (DropTable t) = \<lparr>af_table = t, af_column = None, af_change_type = ''drop_table''\<rparr>"
| "affected_of (AddColumn t f) = \<lparr>af_table = t, af_column = Some (fd_name f), af_change_type = ''add_column''\<rparr>"
| "affected_of (DropColumn t c) = \<lparr>af_table = t, af_column = Some c, af_change_type = ''drop_column''\<rparr>"
| "affected_of (AlterColumnType t c _ _) =
     \<lparr>af_table = t, af_column = Some c, af_change_type = ''alter_column_type''\<rparr>"
| "affected_of (SetNullable t c _ _) = \<lparr>af_table = t, af_column = Some c, af_change_type = ''set_nullable''\<rparr>"
| "affected_of (AddIndex t ix) = \<lparr>af_table = t, af_column = Some (ix_name ix), af_change_type = ''add_index''\<rparr>"
| "affected_of (DropIndex t ix) = \<lparr>af_table = t, af_column = Some ix, af_change_type = ''drop_index''\<rparr>"
| "affected_of (RenameColumn t a b) = \<lparr>af_table = t, af_column = Some a, af_change_type = ''rename_column''\<rparr>"
| "affected_of (SetCrdt t c _) = \<lparr>af_table = t, af_column = Some c, af_change_type = ''set_crdt''\<rparr>"

definition change_id_of :: "(schema_change \<Rightarrow> byte list) \<Rightarrow> (byte list \<Rightarrow> hash) \<Rightarrow> schema_change \<Rightarrow> nat \<Rightarrow> string" where
  "change_id_of json b3 change branch =
     ''chg_'' @ take 24 (to_hex (of_fields b3 [json change, le64 branch]))"

section \<open>The rationale\<close>

datatype gate_rule =
    IrreversibleOverShadowThreshold nat nat
  | DestructiveRule nat bool
  | OverRowImpactThreshold nat nat
  | AutoApprovedByPolicy string nat
  | WithinThresholds nat

datatype remedy =
    RConfirm
  | RValidateOnShadowBranch
  | RReduceBlastRadius nat nat

record gate_rationale =
  gr_gate :: gate
  gr_rule :: gate_rule
  gr_remedy :: "remedy option"

record rationale_inputs =
  ri_gate :: gate
  ri_destructive :: bool
  ri_reversible :: bool
  ri_rows :: nat
  ri_row_impact :: nat
  ri_shadow :: nat
  ri_protected :: bool
  ri_auto_approve :: "(string \<times> nat) option"

definition derive_rule :: "rationale_inputs \<Rightarrow> gate_rule" where
  "derive_rule i =
     (if ri_destructive i \<and> \<not> ri_reversible i \<and> ri_shadow i < ri_rows i
      then IrreversibleOverShadowThreshold (ri_rows i) (ri_shadow i)
      else if ri_destructive i then DestructiveRule (ri_rows i) (ri_protected i)
      else if ri_row_impact i < ri_rows i then OverRowImpactThreshold (ri_rows i) (ri_row_impact i)
      else case ri_auto_approve i of
          Some (rule, max_rows) \<Rightarrow> AutoApprovedByPolicy rule max_rows
        | None \<Rightarrow> WithinThresholds (ri_rows i))"

definition derive_remedy :: "gate \<Rightarrow> gate_rule \<Rightarrow> remedy option" where
  "derive_remedy g rule =
     (case g of
        AutoApply \<Rightarrow> None
      | ShadowValidate \<Rightarrow> Some RValidateOnShadowBranch
      | Confirm \<Rightarrow> (case rule of
            OverRowImpactThreshold rows threshold \<Rightarrow> Some (RReduceBlastRadius rows threshold)
          | _ \<Rightarrow> Some RConfirm))"

definition derive_rationale :: "rationale_inputs \<Rightarrow> gate_rationale" where
  "derive_rationale i =
     (let rule = derive_rule i in
      \<lparr>gr_gate = ri_gate i, gr_rule = rule, gr_remedy = derive_remedy (ri_gate i) rule\<rparr>)"

fun render :: "gate_rule \<Rightarrow> string" where
  "render (IrreversibleOverShadowThreshold rows threshold) =
     ''irreversible change affecting '' @ show_nat rows @ '' rows (over the '' @ show_nat threshold @
     ''-row shadow threshold): confirmation alone is not sufficient''"
| "render (DestructiveRule rows prot) =
     ''destructive change affecting '' @ show_nat rows @ '' rows on a '' @
     (if prot then ''protected'' else ''standard'') @ '' branch''"
| "render (OverRowImpactThreshold rows threshold) =
     ''non-destructive, but '' @ show_nat rows @ '' rows exceeds the '' @ show_nat threshold @
     ''-row impact threshold''"
| "render (AutoApprovedByPolicy rule max_rows) =
     ''auto-approved by policy rule `'' @ rule @ ''` (<= '' @ show_nat max_rows @ '' rows)''"
| "render (WithinThresholds _) = ''non-destructive and within impact thresholds''"

section \<open>The classifier\<close>

datatype classification = NonDestructive | DestructiveKind | Ambiguous

fun is_reversible :: "schema_change \<Rightarrow> bool" where
  "is_reversible (AddTable _) = True"
| "is_reversible (AddColumn _ _) = True"
| "is_reversible (AddIndex _ _) = True"
| "is_reversible (SetCrdt _ _ _) = True"
| "is_reversible (RenameColumn _ _ _) = True"
| "is_reversible (DropIndex _ _) = True"
| "is_reversible (SetNullable _ _ nullable _) = nullable"
| "is_reversible (DropTable _) = False"
| "is_reversible (DropColumn _ _) = False"
| "is_reversible (AlterColumnType _ _ s t) = widens_to s t"

fun classify_kind :: "schema_change \<Rightarrow> classification" where
  "classify_kind (AddTable _) = NonDestructive"
| "classify_kind (AddColumn _ _) = NonDestructive"
| "classify_kind (AddIndex _ _) = NonDestructive"
| "classify_kind (SetCrdt _ _ _) = NonDestructive"
| "classify_kind (DropIndex _ _) = Ambiguous"
| "classify_kind (DropTable _) = DestructiveKind"
| "classify_kind (DropColumn _ _) = DestructiveKind"
| "classify_kind (AlterColumnType _ _ s t) = (if widens_to s t then NonDestructive else DestructiveKind)"
| "classify_kind (SetNullable _ _ nullable backfill) =
     (if nullable then NonDestructive
      else case backfill of Some _ \<Rightarrow> Ambiguous | None \<Rightarrow> DestructiveKind)"
| "classify_kind (RenameColumn _ _ _) = Ambiguous"

definition decide_gate ::
  "bool \<Rightarrow> bool \<Rightarrow> impact \<Rightarrow> safety_policy \<Rightarrow> bool \<Rightarrow> schema_change \<Rightarrow> gate \<times> gate_rationale" where
  "decide_gate destructive reversible im pol prot change =
     (let p = (if prot then tightened_for_protected pol else pol);
          shadow = effective_shadow_threshold p;
          over = sp_row_impact p < im_rows im;
          g = (if destructive \<and> \<not> reversible \<and> shadow < im_rows im then ShadowValidate
               else if destructive \<or> over then Confirm
               else AutoApply);
          tag = af_change_type (affected_of change);
          found = find_first (\<lambda>r. aa_change r = tag \<and> im_rows im \<le> aa_max_rows r) (sp_auto_approve p);
          matched = (if g = AutoApply then map_option (\<lambda>r. (aa_change r, aa_max_rows r)) found else None)
      in (g, derive_rationale
            \<lparr>ri_gate = g, ri_destructive = destructive, ri_reversible = reversible,
             ri_rows = im_rows im, ri_row_impact = sp_row_impact p, ri_shadow = shadow,
             ri_protected = prot, ri_auto_approve = matched\<rparr>))"

record change_diff =
  cd_id :: string
  cd_destructive :: bool
  cd_rows :: nat
  cd_reversible :: bool
  cd_cost_ms :: nat
  cd_affected :: affected_schema
  cd_gate :: gate
  cd_requires_confirm :: bool
  cd_shadow_branch :: "nat option"
  cd_reason :: string
  cd_rationale :: gate_rationale

definition effective_kind :: "safety_policy \<Rightarrow> schema_change \<Rightarrow> classification" where
  "effective_kind pol change =
     (case classify_kind change of
        Ambiguous \<Rightarrow> if sp_ambiguous_safe pol then NonDestructive else DestructiveKind
      | k \<Rightarrow> k)"

definition classify ::
  "(schema_change \<Rightarrow> byte list) \<Rightarrow> (byte list \<Rightarrow> hash) \<Rightarrow> schema_change \<Rightarrow> impact \<Rightarrow> safety_policy \<Rightarrow>
     bool \<Rightarrow> nat \<Rightarrow> change_diff" where
  "classify json b3 change im pol prot branch_id =
     (let destructive = (effective_kind pol change = DestructiveKind);
          (g, why) = decide_gate destructive (is_reversible change) im pol prot change
      in \<lparr>cd_id = change_id_of json b3 change branch_id,
          cd_destructive = destructive,
          cd_rows = im_rows im,
          cd_reversible = is_reversible change,
          cd_cost_ms = im_cost_ms im,
          cd_affected = affected_of change,
          cd_gate = g,
          cd_requires_confirm = (g \<noteq> AutoApply),
          cd_shadow_branch = None,
          cd_reason = render (gr_rule why),
          cd_rationale = why\<rparr>)"

definition gate_of :: "change_diff \<Rightarrow> gate" where
  "gate_of d = cd_gate d"

lemmas classify_defs [gate_defs] =
  classify_def decide_gate_def effective_kind_def gate_of_def Let_def case_prod_beta

section \<open>The decision\<close>

definition strictness :: "gate \<Rightarrow> nat" where
  "strictness g = (case g of AutoApply \<Rightarrow> 0 | Confirm \<Rightarrow> 1 | ShadowValidate \<Rightarrow> 2)"

text \<open>The policy the gate reads on a branch.\<close>

definition in_force :: "safety_policy \<Rightarrow> bool \<Rightarrow> safety_policy" where
  "in_force pol prot = (if prot then tightened_for_protected pol else pol)"

lemma gate_of_classify:
  "gate_of (classify json b3 change im pol prot br) =
     (if effective_kind pol change = DestructiveKind \<and> \<not> is_reversible change \<and>
         effective_shadow_threshold (in_force pol prot) < im_rows im then ShadowValidate
      else if effective_kind pol change = DestructiveKind \<or> sp_row_impact (in_force pol prot) < im_rows im
      then Confirm else AutoApply)"
  by (simp add: gate_defs in_force_def)

lemma tightened_le:
  "sp_row_impact (tightened_for_protected p) \<le> sp_row_impact p"
  "effective_shadow_threshold (tightened_for_protected p) \<le> effective_shadow_threshold p"
  "sp_row_impact (tightened_for_protected p) \<le> 1000"
  "effective_shadow_threshold (tightened_for_protected p) \<le> 100"
  by (auto simp: tightened_for_protected_def effective_shadow_threshold_def protected_policy_def)

text \<open>C3: The floor no configuration can lower.  Under every policy, a change whose kind
  is destructive never applies by itself; an irreversible one above 10,000 rows needs shadow
  validation, and above 100 rows it does on a protected branch; and on a protected branch
  nothing above 1,000 rows applies by itself.  A change of an ambiguous kind (a rename, an
  index drop, a column made required with a backfill) has the same floor under a policy
  that does not treat ambiguous changes as safe; under one that does, the thresholds on rows
  alone decide whether it is confirmed.\<close>

theorem gate_floor:
  assumes "classify_kind change = DestructiveKind"
  shows "gate_of (classify json b3 change im pol prot br) \<noteq> AutoApply \<and>
     cd_requires_confirm (classify json b3 change im pol prot br) \<and>
     (\<not> is_reversible change \<longrightarrow> 10000 < im_rows im \<longrightarrow>
        gate_of (classify json b3 change im pol prot br) = ShadowValidate) \<and>
     (\<not> is_reversible change \<longrightarrow> 100 < im_rows im \<longrightarrow>
        gate_of (classify json b3 change im pol True br) = ShadowValidate) \<and>
     (1000 < im_rows im' \<longrightarrow> gate_of (classify json b3 change' im' pol' True br) \<noteq> AutoApply) \<and>
     (classify_kind amb = Ambiguous \<longrightarrow> sp_ambiguous_safe pol \<longrightarrow>
        gate_of (classify json b3 amb im pol prot br) =
          (if sp_row_impact (in_force pol prot) < im_rows im then Confirm else AutoApply)) \<and>
     (classify_kind amb = Ambiguous \<longrightarrow> \<not> sp_ambiguous_safe pol \<longrightarrow>
        gate_of (classify json b3 amb im pol prot br) \<noteq> AutoApply \<and>
        (\<not> is_reversible amb \<longrightarrow> (if prot then 100 else 10000) < im_rows im \<longrightarrow>
           gate_of (classify json b3 amb im pol prot br) = ShadowValidate))"
proof (intro conjI impI)
  have kind: "effective_kind p change = DestructiveKind" for p
    using assms by (simp add: effective_kind_def)
  show "gate_of (classify json b3 change im pol prot br) \<noteq> AutoApply"
    using kind by (simp add: gate_of_classify)
  show "cd_requires_confirm (classify json b3 change im pol prot br)"
    using kind by (simp add: classify_defs)
  show "gate_of (classify json b3 change im pol prot br) = ShadowValidate"
    if "\<not> is_reversible change" "10000 < im_rows im"
    using kind that by (auto simp: gate_of_classify effective_shadow_threshold_def
        max_irreversible_shadow_threshold_def)
  show "gate_of (classify json b3 change im pol True br) = ShadowValidate"
    if "\<not> is_reversible change" "100 < im_rows im"
    using kind that tightened_le(4) [of pol] by (simp add: gate_of_classify in_force_def)
  show "gate_of (classify json b3 change' im' pol' True br) \<noteq> AutoApply" if "1000 < im_rows im'"
    using that tightened_le(3) [of pol'] by (simp add: gate_of_classify in_force_def)
next
  assume "classify_kind amb = Ambiguous" "sp_ambiguous_safe pol"
  then have "effective_kind pol amb = NonDestructive" by (simp add: effective_kind_def)
  then show "gate_of (classify json b3 amb im pol prot br) =
      (if sp_row_impact (in_force pol prot) < im_rows im then Confirm else AutoApply)"
    by (simp add: gate_of_classify)
next
  assume "classify_kind amb = Ambiguous" "\<not> sp_ambiguous_safe pol"
  then have kind: "effective_kind pol amb = DestructiveKind" by (simp add: effective_kind_def)
  then show "gate_of (classify json b3 amb im pol prot br) \<noteq> AutoApply"
    by (simp add: gate_of_classify)
  show "gate_of (classify json b3 amb im pol prot br) = ShadowValidate"
    if "\<not> is_reversible amb" "(if prot then 100 else 10000) < im_rows im"
    using kind that tightened_le(4) [of pol]
    by (auto simp: gate_of_classify in_force_def effective_shadow_threshold_def
        max_irreversible_shadow_threshold_def split: if_splits)
qed

lemma gate_floor_witness:
  "gate_of (classify (\<lambda>_. []) (\<lambda>x. x) (DropTable ''users'') \<lparr>im_rows = 101, im_cost_ms = 1\<rparr>
     development_policy True 0) = ShadowValidate \<and>
   gate_of (classify (\<lambda>_. []) (\<lambda>x. x) (DropTable ''users'') \<lparr>im_rows = 0, im_cost_ms = 1\<rparr>
     (development_policy\<lparr>sp_ambiguous_safe := True\<rparr>) False 0) \<noteq> AutoApply"
  using gate_floor [of "DropTable ''users''" "\<lambda>_. []" "\<lambda>x. x"
      "\<lparr>im_rows = 101, im_cost_ms = 1\<rparr>" development_policy False 0]
    gate_floor [of "DropTable ''users''" "\<lambda>_. []" "\<lambda>x. x"
      "\<lparr>im_rows = 0, im_cost_ms = 1\<rparr>" "development_policy\<lparr>sp_ambiguous_safe := True\<rparr>" False 0]
  by simp

text \<open>Protection, more rows and a stricter policy never loosen the gate.\<close>

theorem gate_monotone:
  assumes "im_rows im \<le> im_rows im'"
    and "sp_row_impact pol' \<le> sp_row_impact pol" and "sp_shadow pol' \<le> sp_shadow pol"
    and "sp_ambiguous_safe pol' \<longrightarrow> sp_ambiguous_safe pol"
  shows "strictness (gate_of (classify json b3 change im pol prot br)) \<le>
         strictness (gate_of (classify json b3 change im' pol' (prot \<or> prot') br'))"
proof -
  let ?p = "in_force pol prot" and ?p' = "in_force pol' (prot \<or> prot')"
  have row: "sp_row_impact ?p' \<le> sp_row_impact ?p"
    using assms(2) tightened_le(1) [of pol'] by (auto simp: in_force_def tightened_for_protected_def)
  have sh: "effective_shadow_threshold ?p' \<le> effective_shadow_threshold ?p"
    using assms(3) by (auto simp: in_force_def effective_shadow_threshold_def tightened_for_protected_def)
  have kind: "effective_kind pol change = DestructiveKind \<Longrightarrow> effective_kind pol' change = DestructiveKind"
    using assms(4) by (auto simp: effective_kind_def split: classification.splits if_splits)
  show ?thesis
    using row sh kind assms(1) by (auto simp: gate_of_classify strictness_def)
qed

lemma gate_monotone_witness:
  "strictness (gate_of (classify (\<lambda>_. []) (\<lambda>x. x) (DropColumn ''t'' ''c'') \<lparr>im_rows = 500, im_cost_ms = 1\<rparr>
     development_policy False 1)) \<le>
   strictness (gate_of (classify (\<lambda>_. []) (\<lambda>x. x) (DropColumn ''t'' ''c'') \<lparr>im_rows = 500, im_cost_ms = 1\<rparr>
     protected_policy (False \<or> True) 0))"
  by (rule gate_monotone) (simp_all add: development_policy_def protected_policy_def)

section \<open>The rationale explains the decision\<close>

text \<open>The gate a rule stands for.\<close>

fun rule_gate :: "gate_rule \<Rightarrow> gate" where
  "rule_gate (IrreversibleOverShadowThreshold _ _) = ShadowValidate"
| "rule_gate (DestructiveRule _ _) = Confirm"
| "rule_gate (OverRowImpactThreshold _ _) = Confirm"
| "rule_gate (AutoApprovedByPolicy _ _) = AutoApply"
| "rule_gate (WithinThresholds _) = AutoApply"

text \<open>The rationale never explains another decision than the one taken: its rule is
  the one of the diff's gate and its gate is the diff's, a remedy is offered exactly when
  something is required, and the remedy of narrowing the change is offered only where a
  change that touches no more rows than the stated threshold would apply by itself.\<close>

theorem rationale_agrees_with_gate:
  "rule_gate (gr_rule (cd_rationale (classify json b3 change im pol prot br))) =
     cd_gate (classify json b3 change im pol prot br) \<and>
   gr_gate (cd_rationale (classify json b3 change im pol prot br)) =
     cd_gate (classify json b3 change im pol prot br) \<and>
   (gr_remedy (cd_rationale (classify json b3 change im pol prot br)) = None \<longleftrightarrow>
     \<not> cd_requires_confirm (classify json b3 change im pol prot br)) \<and>
   (\<forall>n k im'. gr_remedy (cd_rationale (classify json b3 change im pol prot br)) = Some (RReduceBlastRadius n k) \<longrightarrow>
     im_rows im' \<le> k \<longrightarrow>
     cd_gate (classify json b3 change im' pol prot br) = AutoApply \<and> n = im_rows im)"
  by (auto simp: classify_defs derive_rationale_def derive_rule_def derive_remedy_def
      split: if_splits option.splits prod.splits)

lemma rationale_agrees_with_gate_witness:
  "cd_gate (classify (\<lambda>_. []) (\<lambda>x. x) (AddIndex ''t'' \<lparr>ix_name = ''i'', ix_columns = [''c''], ix_unique = False\<rparr>)
      \<lparr>im_rows = 900, im_cost_ms = 0\<rparr> protected_policy True 0) = AutoApply"
proof -
  have "gr_remedy (cd_rationale (classify (\<lambda>_. []) (\<lambda>x. x)
      (AddIndex ''t'' \<lparr>ix_name = ''i'', ix_columns = [''c''], ix_unique = False\<rparr>)
      \<lparr>im_rows = 5000, im_cost_ms = 0\<rparr> protected_policy True 0)) = Some (RReduceBlastRadius 5000 1000)"
    by (simp add: classify_defs derive_rationale_def derive_rule_def derive_remedy_def
        tightened_for_protected_def protected_policy_def)
  with rationale_agrees_with_gate [of "\<lambda>_. []" "\<lambda>x. x"
      "AddIndex ''t'' \<lparr>ix_name = ''i'', ix_columns = [''c''], ix_unique = False\<rparr>"
      "\<lparr>im_rows = 5000, im_cost_ms = 0\<rparr>" protected_policy True 0]
  show ?thesis by simp
qed

text \<open>No identifier reaches the decision: changes of one kind, with the same verdicts
  on destructiveness and reversibility, get the same gate, the same rationale and the
  same sentence, whatever tables and columns they name.\<close>

theorem decision_ignores_identifiers:
  assumes "af_change_type (affected_of change) = af_change_type (affected_of change')"
    and "classify_kind change = classify_kind change'"
    and "is_reversible change = is_reversible change'"
  shows "cd_gate (classify json b3 change im pol prot br) = cd_gate (classify json' b3' change' im pol prot br')
     \<and> cd_rationale (classify json b3 change im pol prot br) =
         cd_rationale (classify json' b3' change' im pol prot br')
     \<and> cd_reason (classify json b3 change im pol prot br) =
         cd_reason (classify json' b3' change' im pol prot br')"
  using assms by (simp add: classify_defs)

lemma decision_ignores_identifiers_witness:
  "cd_gate (classify (\<lambda>_. [1]) (\<lambda>x. x) (DropTable ''a'') impact_none protected_policy True 1) =
     cd_gate (classify (\<lambda>_. [2]) (\<lambda>x. x) (DropTable ''b'') impact_none protected_policy True 2)
   \<and> cd_rationale (classify (\<lambda>_. [1]) (\<lambda>x. x) (DropTable ''a'') impact_none protected_policy True 1) =
     cd_rationale (classify (\<lambda>_. [2]) (\<lambda>x. x) (DropTable ''b'') impact_none protected_policy True 2)
   \<and> cd_reason (classify (\<lambda>_. [1]) (\<lambda>x. x) (DropTable ''a'') impact_none protected_policy True 1) =
     cd_reason (classify (\<lambda>_. [2]) (\<lambda>x. x) (DropTable ''b'') impact_none protected_policy True 2)"
  by (rule decision_ignores_identifiers) simp_all

section \<open>What the tightening does not reach\<close>

text \<open>The tightened policy refuses to treat an ambiguous change as safe, but the classifier
  resolves ambiguity against the policy it was given before the tightening: with
  \<open>treat_ambiguous_as_safe\<close> a rename applies by itself on a protected branch.\<close>

lemma ambiguous_safe_reaches_protected:
  "sp_ambiguous_safe (tightened_for_protected (protected_policy\<lparr>sp_ambiguous_safe := True\<rparr>)) = False"
  "gate_of (classify json b3 (RenameColumn t a b) impact_none
     (protected_policy\<lparr>sp_ambiguous_safe := True\<rparr>) True br) = AutoApply"
  "gate_of (classify json b3 (RenameColumn t a b) impact_none
     (tightened_for_protected (protected_policy\<lparr>sp_ambiguous_safe := True\<rparr>)) True br) = Confirm"
  by (simp_all add: gate_of_classify effective_kind_def tightened_for_protected_def protected_policy_def
      in_force_def impact_none_def)

end
