(* ===== verification/Safety_Breaker.thy ===== *)
theory Safety_Breaker
  imports Safety_Window Safety_Classify
begin

text \<open>
  The blast-radius circuit breaker (\<open>theta-safety/src/breaker.rs\<close>): a queue of write
  samples, oldest first, with a running total; a write that would take the total over
  the ceiling trips it, and only a reset clears it.
\<close>

section \<open>Model\<close>

datatype breaker_decision =
    Allow
  | Trip nat nat nat string

definition breaker_is_allowed :: "breaker_decision \<Rightarrow> bool" where
  "breaker_is_allowed d \<longleftrightarrow> d = Allow"

record sample =
  sm_at :: nat
  sm_rows :: nat

record breaker =
  bk_window :: "sample list"
  bk_rows :: nat
  bk_ceiling :: nat
  bk_window_ms :: nat
  bk_tripped :: bool

definition breaker_new :: "safety_policy \<Rightarrow> breaker" where
  "breaker_new p =
     \<lparr>bk_window = [], bk_rows = 0, bk_ceiling = sp_breaker_ceiling p,
      bk_window_ms = sp_breaker_window p, bk_tripped = False\<rparr>"

text \<open>The loop that pops expired samples off the front.\<close>

fun evict_samples :: "nat \<Rightarrow> nat \<Rightarrow> sample list \<Rightarrow> nat \<Rightarrow> sample list \<times> nat" where
  "evict_samples w now [] tot = ([], tot)"
| "evict_samples w now (s # rest) tot =
     (if sat_add64 (sm_at s) w \<le> now then evict_samples w now rest (tot - sm_rows s)
      else (s # rest, tot))"

definition evict_expired :: "nat \<Rightarrow> breaker \<Rightarrow> breaker" where
  "evict_expired now b =
     (let (win, tot) = evict_samples (bk_window_ms b) now (bk_window b) (bk_rows b)
      in b\<lparr>bk_window := win, bk_rows := tot\<rparr>)"

definition trip_decision :: "breaker \<Rightarrow> string \<Rightarrow> breaker_decision" where
  "trip_decision b reason = Trip (bk_rows b) (bk_ceiling b) (bk_window_ms b) reason"

definition breaker_record :: "nat \<Rightarrow> nat \<Rightarrow> breaker \<Rightarrow> breaker_decision \<times> breaker" where
  "breaker_record rows now b0 =
     (let b = evict_expired now b0 in
      if bk_tripped b
      then (trip_decision b ''breaker already tripped; reset required before writes resume'', b)
      else let projected = sat_add64 (bk_rows b) rows in
        if bk_ceiling b < projected
        then let b' = b\<lparr>bk_tripped := True, bk_rows := projected\<rparr> in
          (trip_decision b'
             ''cumulative write impact exceeded the project ceiling within the rolling window'', b')
        else (Allow, b\<lparr>bk_window := bk_window b @ [\<lparr>sm_at = now, sm_rows = rows\<rparr>], bk_rows := projected\<rparr>))"

definition breaker_reset :: "breaker \<Rightarrow> breaker" where
  "breaker_reset b = b\<lparr>bk_window := [], bk_rows := 0, bk_tripped := False\<rparr>"

section \<open>The window\<close>

definition sample_alive :: "nat \<Rightarrow> nat \<Rightarrow> nat \<Rightarrow> bool" where
  "sample_alive w at now \<longleftrightarrow> now < sat_add64 at w"

interpretation bw: rolling_window "sample_alive w" sm_at sm_rows for w
  by unfold_locales (auto simp: sample_alive_def sat_add64_def)

lemma evict_samples_dropWhile:
  "tot = bw.load win \<Longrightarrow>
     evict_samples w now win tot =
       (dropWhile (\<lambda>s. \<not> sample_alive w (sm_at s) now) win,
        bw.load (dropWhile (\<lambda>s. \<not> sample_alive w (sm_at s) now) win))"
  by (induction w now win tot rule: evict_samples.induct)
     (auto simp: sample_alive_def bw.load_def)

text \<open>The state agrees with a history of admitted writes, last seen at time \<open>now\<close>.\<close>

definition breaker_inv :: "sample list \<Rightarrow> nat \<Rightarrow> breaker \<Rightarrow> bool" where
  "breaker_inv hist now b \<longleftrightarrow>
     (\<not> bk_tripped b \<longrightarrow> bk_window b = bw.live (bk_window_ms b) now hist \<and>
        bk_rows b = bw.load (bk_window b)) \<and>
     bw.load (bw.live (bk_window_ms b) now hist) \<le> bk_ceiling b \<and>
     sorted (map sm_at hist) \<and> (\<forall>s\<in>set hist. sm_at s \<le> now)"

lemma breaker_inv_new: "breaker_inv [] 0 (breaker_new p)"
  by (simp add: breaker_inv_def breaker_new_def bw.live_def bw.load_def)

lemma evict_expired_inv:
  assumes "breaker_inv hist now b" and "now \<le> now'"
  shows "breaker_inv hist now' (evict_expired now' b)"
proof -
  let ?w = "bk_window_ms b"
  have keep: "bk_ceiling (evict_expired now' b) = bk_ceiling b"
    "bk_window_ms (evict_expired now' b) = ?w" "bk_tripped (evict_expired now' b) = bk_tripped b"
    by (auto simp: evict_expired_def split: prod.split)
  have hist: "sorted (map sm_at hist)" "\<forall>s\<in>set hist. sm_at s \<le> now"
    and le: "bw.load (bw.live ?w now hist) \<le> bk_ceiling b"
    using assms(1) by (auto simp: breaker_inv_def)
  have le': "bw.load (bw.live ?w now' hist) \<le> bk_ceiling b"
    using bw.load_live_le [of ?w now' "bw.live ?w now hist"] bw.live_live [OF assms(2), of ?w hist] le
    by simp
  have "bk_window (evict_expired now' b) = bw.live ?w now' hist \<and>
      bk_rows (evict_expired now' b) = bw.load (bw.live ?w now' hist)" if "\<not> bk_tripped b"
  proof -
    have win: "bk_window b = bw.live ?w now hist" "bk_rows b = bw.load (bk_window b)"
      using assms(1) that by (auto simp: breaker_inv_def)
    have "sorted (map sm_at (bw.live ?w now hist))"
      unfolding bw.live_def using hist(1) by (simp add: sorted_filter)
    then have "dropWhile (\<lambda>s. \<not> sample_alive ?w (sm_at s) now') (bk_window b) = bw.live ?w now' hist"
      using bw.drop_front [of "bk_window b" ?w now'] bw.live_live [OF assms(2), of ?w hist] win(1)
      by simp
    then show ?thesis using evict_samples_dropWhile [OF win(2)] by (simp add: evict_expired_def)
  qed
  then show ?thesis using keep hist le' assms(2) by (auto simp: breaker_inv_def)
qed

lemma breaker_record_inv:
  assumes "breaker_inv hist now b" and "now \<le> now'" and "now' < u64_max" and "0 < bk_window_ms b"
    and "bk_ceiling b < u64_max" and "breaker_record rows now' b = (d, b')"
  shows "breaker_inv (if d = Allow then hist @ [\<lparr>sm_at = now', sm_rows = rows\<rparr>] else hist) now' b'"
proof -
  let ?b = "evict_expired now' b"
  have inv: "breaker_inv hist now' ?b" by (rule evict_expired_inv [OF assms(1,2)])
  have keep: "bk_ceiling ?b = bk_ceiling b" "bk_window_ms ?b = bk_window_ms b"
    by (auto simp: evict_expired_def split: prod.split)
  consider (was) "bk_tripped ?b" | (trip) "\<not> bk_tripped ?b" "bk_ceiling ?b < sat_add64 (bk_rows ?b) rows"
    | (ok) "\<not> bk_tripped ?b" "sat_add64 (bk_rows ?b) rows \<le> bk_ceiling ?b" by linarith
  then show ?thesis
  proof cases
    case was
    then show ?thesis using assms(6) inv by (auto simp: breaker_record_def Let_def trip_decision_def)
  next
    case trip
    then show ?thesis
      using assms(6) inv by (auto simp: breaker_record_def Let_def trip_decision_def breaker_inv_def)
  next
    case ok
    then have sum: "sat_add64 (bk_rows ?b) rows = bk_rows ?b + rows"
      using assms(5) keep by (simp add: sat_add64_def min_def split: if_splits)
    have new: "bw.live (bk_window_ms b) now' [\<lparr>sm_at = now', sm_rows = rows\<rparr>] =
        [\<lparr>sm_at = now', sm_rows = rows\<rparr>]"
      using assms(3,4) by (simp add: bw.live_def sample_alive_def sat_add64_def)
    show ?thesis
      using ok assms(6) inv sum new keep
      by (auto simp: breaker_record_def Let_def breaker_inv_def bw.live_append bw.load_append
          bw.load_def [of "[_]"] sorted_append)
  qed
qed

section \<open>Runs\<close>

text \<open>A run of writes, each with its rows and its time; the admitted ones in order.\<close>

fun breaker_run :: "breaker \<Rightarrow> (nat \<times> nat) list \<Rightarrow> sample list \<times> breaker" where
  "breaker_run b [] = ([], b)"
| "breaker_run b ((rows, now) # rest) =
     (let (d, b') = breaker_record rows now b; (admitted, b'') = breaker_run b' rest
      in (if d = Allow then \<lparr>sm_at = now, sm_rows = rows\<rparr> # admitted else admitted, b''))"

lemma breaker_record_params:
  "breaker_record rows now b = (d, b') \<Longrightarrow> bk_ceiling b' = bk_ceiling b \<and> bk_window_ms b' = bk_window_ms b"
  by (auto simp: breaker_record_def evict_expired_def Let_def split: prod.splits if_splits)

lemma breaker_run_params:
  "breaker_run b ws = (admitted, b') \<Longrightarrow> bk_ceiling b' = bk_ceiling b \<and> bk_window_ms b' = bk_window_ms b"
  by (induction b ws arbitrary: admitted rule: breaker_run.induct)
     (auto split: prod.splits dest!: breaker_record_params)

lemma breaker_run_inv:
  "breaker_inv hist now b \<Longrightarrow> 0 < bk_window_ms b \<Longrightarrow> bk_ceiling b < u64_max \<Longrightarrow>
     sorted (now # map snd ws) \<Longrightarrow> \<forall>(rows, t) \<in> set ws. t < u64_max \<Longrightarrow>
     breaker_run b ws = (admitted, b') \<Longrightarrow>
     breaker_inv (hist @ admitted) (last (now # map snd ws)) b'"
proof (induction b ws arbitrary: hist now admitted rule: breaker_run.induct)
  case (1 b)
  then show ?case by simp
next
  case (2 b rows t rest)
  obtain d b1 where rec: "breaker_record rows t b = (d, b1)" by fastforce
  obtain adm where run: "breaker_run b1 rest = (adm, b')"
    "admitted = (if d = Allow then \<lparr>sm_at = t, sm_rows = rows\<rparr> # adm else adm)"
    using 2(7) rec by (auto split: prod.splits)
  have inv: "breaker_inv (if d = Allow then hist @ [\<lparr>sm_at = t, sm_rows = rows\<rparr>] else hist) t b1"
    using 2(2-6) by (intro breaker_record_inv [OF _ _ _ _ _ rec]) auto
  have "breaker_inv ((if d = Allow then hist @ [\<lparr>sm_at = t, sm_rows = rows\<rparr>] else hist) @ adm)
      (last (t # map snd rest)) b'"
    using 2(3-6) breaker_record_params [OF rec] run(1)
    by (intro 2(1) [OF rec [symmetric] refl inv]) auto
  then show ?case using run(2) by (auto split: if_splits)
qed

lemma breaker_trip_latches:
  "bk_tripped b \<Longrightarrow> \<exists>b'. breaker_record rows now b =
     (trip_decision b' ''breaker already tripped; reset required before writes resume'', b') \<and> bk_tripped b'"
  by (auto simp: breaker_record_def evict_expired_def Let_def split: prod.splits)

text \<open>C5: Over any run of writes with a clock that does not run backwards, the rows the
  breaker has admitted inside the rolling window never exceed the project's ceiling, at
  any moment of the run; and once it has tripped nothing more is admitted, however long
  the loop waits, until it is reset.\<close>

theorem breaker_bounds_window:
  assumes "0 < sp_breaker_window p" and "sp_breaker_ceiling p < u64_max"
    and "sorted (map snd ws)" and "\<forall>(rows, t) \<in> set ws. t < u64_max"
    and "breaker_run (breaker_new p) ws = (admitted, b)"
  shows "(\<Sum>s \<leftarrow> filter (\<lambda>s. last (0 # map snd ws) < sat_add64 (sm_at s) (sp_breaker_window p)) admitted. sm_rows s)
           \<le> sp_breaker_ceiling p \<and>
     (bk_tripped b \<longrightarrow> fst (breaker_run b ws') = []) \<and>
     \<not> bk_tripped (breaker_reset b) \<and> bk_rows (breaker_reset b) = 0"
proof (intro conjI impI)
  have "breaker_inv ([] @ admitted) (last (0 # map snd ws)) b"
    using assms by (intro breaker_run_inv [OF breaker_inv_new _ _ _ _ assms(5)]) (auto simp: breaker_new_def)
  moreover have "bk_ceiling b = sp_breaker_ceiling p" "bk_window_ms b = sp_breaker_window p"
    using breaker_run_params [OF assms(5)] by (simp_all add: breaker_new_def)
  ultimately show "(\<Sum>s \<leftarrow> filter (\<lambda>s. last (0 # map snd ws) < sat_add64 (sm_at s) (sp_breaker_window p)) admitted. sm_rows s)
      \<le> sp_breaker_ceiling p"
    by (simp add: breaker_inv_def bw.live_def bw.load_def sample_alive_def)
  show "fst (breaker_run b ws') = []" if "bk_tripped b"
    using that
  proof (induction b ws' rule: breaker_run.induct)
    case (1 b)
    then show ?case by simp
  next
    case (2 b rows t rest)
    obtain b' where b': "breaker_record rows t b =
        (trip_decision b' ''breaker already tripped; reset required before writes resume'', b')"
      "bk_tripped b'"
      using breaker_trip_latches [OF 2(2)] by blast
    then show ?case using 2(1) [OF b'(1) [symmetric] refl b'(2)]
      by (auto simp: trip_decision_def split: prod.splits)
  qed
qed (simp_all add: breaker_reset_def)

lemma breaker_bounds_window_witness:
  "(\<Sum>s \<leftarrow> filter (\<lambda>s. last (0 # map snd [(60000::nat, 5::nat), (30000, 9), (20000, 12)]) <
       sat_add64 (sm_at s) (sp_breaker_window protected_policy))
     [\<lparr>sm_at = 5, sm_rows = 60000\<rparr>, \<lparr>sm_at = 9, sm_rows = 30000\<rparr>]. sm_rows s) \<le>
   sp_breaker_ceiling protected_policy"
proof (rule breaker_bounds_window [THEN conjunct1])
  show "breaker_run (breaker_new protected_policy) [(60000::nat, 5::nat), (30000, 9), (20000, 12)] =
      ([\<lparr>sm_at = 5, sm_rows = 60000\<rparr>, \<lparr>sm_at = 9, sm_rows = 30000\<rparr>],
       snd (breaker_run (breaker_new protected_policy) [(60000::nat, 5::nat), (30000, 9), (20000, 12)]))"
    by (simp add: breaker_new_def protected_policy_def breaker_record_def evict_expired_def
        trip_decision_def sat_add64_def Let_def)
qed (auto simp: protected_policy_def)

end
