(* ===== verification/Safety_Budget.thy ===== *)
theory Safety_Budget
  imports Safety_Window Safety_Classify
begin

text \<open>
  Human review as a budget (\<open>theta-safety/src/budget.rs\<close>): a gated proposal reserves
  units against every scope it falls under, and a reservation is settled once.  The map
  of reservations is kept in id order; the per-scope history is a partial function, as
  only lookups and a whole-map \<open>retain\<close> touch it.
\<close>

section \<open>Model\<close>

datatype budget_scope = BProject | BBranch nat | BAgent string

record budget_policy =
  bp_confirm_cost :: nat
  bp_shadow_cost :: nat
  bp_project_ceiling :: nat
  bp_branch_ceiling :: nat
  bp_agent_ceiling :: nat
  bp_window_ms :: int
  bp_proposal_ttl_ms :: int

definition budget_policy_default :: budget_policy where
  "budget_policy_default =
     \<lparr>bp_confirm_cost = 1, bp_shadow_cost = 5, bp_project_ceiling = 60, bp_branch_ceiling = 40,
      bp_agent_ceiling = 20, bp_window_ms = 24 * 60 * 60 * 1000,
      bp_proposal_ttl_ms = 4 * 60 * 60 * 1000\<rparr>"

definition review_cost :: "gate \<Rightarrow> budget_policy \<Rightarrow> nat" where
  "review_cost g p = (case g of AutoApply \<Rightarrow> 0 | Confirm \<Rightarrow> bp_confirm_cost p | ShadowValidate \<Rightarrow> bp_shadow_cost p)"

fun budget_ceiling :: "budget_policy \<Rightarrow> budget_scope \<Rightarrow> nat" where
  "budget_ceiling p BProject = bp_project_ceiling p"
| "budget_ceiling p (BBranch _) = bp_branch_ceiling p"
| "budget_ceiling p (BAgent _) = bp_agent_ceiling p"

definition free_reservation :: nat where
  "free_reservation = 0"

datatype budget_decision =
    Granted nat nat nat
  | Exhausted budget_scope nat nat nat int string

definition budget_is_granted :: "budget_decision \<Rightarrow> bool" where
  "budget_is_granted d \<longleftrightarrow> (case d of Granted _ _ _ \<Rightarrow> True | _ \<Rightarrow> False)"

datatype settlement = Approved | Rejected | ExpiredUnseen | Withdrawn

definition refunds :: "settlement \<Rightarrow> bool" where
  "refunds s \<longleftrightarrow> s \<in> {ExpiredUnseen, Withdrawn}"

datatype settle_error =
    UnknownReservation nat
  | ReservationExpired nat int int

record reservation =
  rs_at :: int
  rs_cost :: nat
  rs_scopes :: "budget_scope list"

record spend =
  sn_at :: int
  sn_cost :: nat

record review_budget =
  rb_policy :: budget_policy
  rb_spent :: "budget_scope \<Rightarrow> spend list option"
  rb_held :: "(nat, reservation) omap"
  rb_next_id :: nat

definition budget_new :: "budget_policy \<Rightarrow> review_budget" where
  "budget_new p = \<lparr>rb_policy = p, rb_spent = (\<lambda>_. None), rb_held = omempty, rb_next_id = 1\<rparr>"

definition in_window :: "int \<Rightarrow> int \<Rightarrow> int \<Rightarrow> bool" where
  "in_window at now w \<longleftrightarrow> now < sat_i64 (at + w)"

definition spent_list :: "review_budget \<Rightarrow> budget_scope \<Rightarrow> spend list" where
  "spent_list b scope = (case rb_spent b scope of None \<Rightarrow> [] | Some v \<Rightarrow> v)"

text \<open>\<open>sum()\<close> over \<open>u32\<close> wraps around.\<close>

definition committed :: "review_budget \<Rightarrow> budget_scope \<Rightarrow> int \<Rightarrow> nat" where
  "committed b scope now =
     (let settled = wrap32 (sum_list (map sn_cost
            (filter (\<lambda>s. in_window (sn_at s) now (bp_window_ms (rb_policy b))) (spent_list b scope))));
          held = wrap32 (sum_list (map rs_cost
            (filter (\<lambda>r. scope \<in> set (rs_scopes r)) (omvalues (rb_held b)))))
      in sat_add32 settled held)"

definition outstanding :: "review_budget \<Rightarrow> nat" where
  "outstanding b = length (omlist (rb_held b))"

definition reservation_age :: "int \<Rightarrow> reservation \<Rightarrow> int" where
  "reservation_age now r = sat_i64 (now - rs_at r)"

text \<open>\<open>expire\<close> answers the ages of what it dropped, by id.\<close>

definition budget_expire :: "int \<Rightarrow> review_budget \<Rightarrow> (nat, int) omap \<times> review_budget" where
  "budget_expire now b =
     (let ttl = bp_proposal_ttl_ms (rb_policy b);
          dead = (\<lambda>r. ttl < reservation_age now r);
          w = bp_window_ms (rb_policy b)
      in (ommap (\<lambda>_ r. reservation_age now r) (omfilter (\<lambda>_ r. dead r) (rb_held b)),
          b\<lparr>rb_held := omfilter (\<lambda>_ r. \<not> dead r) (rb_held b),
            rb_spent := (\<lambda>scope. case rb_spent b scope of
                None \<Rightarrow> None
              | Some v \<Rightarrow> (let v' = filter (\<lambda>s. in_window (sn_at s) now w) v
                            in if v' = [] then None else Some v'))\<rparr>))"

definition exhausted_reason :: "nat \<Rightarrow> nat \<Rightarrow> nat \<Rightarrow> string" where
  "exhausted_reason cost spent limit =
     ''this change costs '' @ show_nat cost @ '' review unit(s) and '' @ show_nat spent @ '' of '' @
     show_nat limit @ '' are already committed in the current window. The proposal is refused, '' @
     ''not downgraded '' @ map char_of [226, 128, 148 :: nat] @
     '' resolve outstanding reviews or wait for the window to roll.''"

text \<open>A plain \<open>u32\<close> subtraction wraps around.\<close>

definition sub32 :: "nat \<Rightarrow> nat \<Rightarrow> nat" where
  "sub32 a b = nat ((int a - int b) mod 4294967296)"

text \<open>The loop over the scopes: the first exhausted one refuses, otherwise the least headroom.\<close>

fun check_scopes :: "review_budget \<Rightarrow> int \<Rightarrow> nat \<Rightarrow> budget_scope list \<Rightarrow> nat \<Rightarrow> budget_decision + nat" where
  "check_scopes b now cost [] headroom = Inr headroom"
| "check_scopes b now cost (scope # rest) headroom =
     (let limit = budget_ceiling (rb_policy b) scope; com = committed b scope now in
      if limit < sat_add32 com cost
      then Inl (Exhausted scope cost com limit (bp_window_ms (rb_policy b)) (exhausted_reason cost com limit))
      else check_scopes b now cost rest (min headroom (sub32 (sub32 limit com) cost)))"

definition budget_reserve :: "gate \<Rightarrow> budget_scope list \<Rightarrow> int \<Rightarrow> review_budget \<Rightarrow> budget_decision \<times> review_budget" where
  "budget_reserve g scopes now b0 =
     (let b = snd (budget_expire now b0); cost = review_cost g (rb_policy b) in
      case check_scopes b now cost scopes u32_max of
        Inl refusal \<Rightarrow> (refusal, b)
      | Inr headroom \<Rightarrow>
          (let remaining = (if headroom = u32_max then 0 else headroom) in
           if 0 < cost
           then (Granted (rb_next_id b) cost remaining,
                 b\<lparr>rb_next_id := wrap64 (rb_next_id b + 1),
                   rb_held := omput (rb_next_id b)
                     \<lparr>rs_at = now, rs_cost = cost, rs_scopes = scopes\<rparr> (rb_held b)\<rparr>)
           else (Granted free_reservation cost remaining, b)))"

definition push_spend :: "spend \<Rightarrow> budget_scope \<Rightarrow> review_budget \<Rightarrow> review_budget" where
  "push_spend s scope b = b\<lparr>rb_spent := (rb_spent b)(scope \<mapsto> spent_list b scope @ [s])\<rparr>"

definition budget_settle :: "nat \<Rightarrow> settlement \<Rightarrow> int \<Rightarrow> review_budget \<Rightarrow> (settle_error + unit) \<times> review_budget" where
  "budget_settle i how now b0 =
     (let (expired, b) = budget_expire now b0 in
      case omget expired i of
        Some age \<Rightarrow> (Inl (ReservationExpired i age (bp_proposal_ttl_ms (rb_policy b))), b)
      | None \<Rightarrow>
          if i = free_reservation then (Inr (), b)
          else case omget (rb_held b) i of
              None \<Rightarrow> (Inl (UnknownReservation i), b)
            | Some held \<Rightarrow>
                (let b' = b\<lparr>rb_held := omdel i (rb_held b)\<rparr> in
                 (Inr (), if refunds how then b'
                          else fold (push_spend \<lparr>sn_at = now, sn_cost = rs_cost held\<rparr>) (rs_scopes held) b')))"

section \<open>What a scope has committed\<close>

interpretation qw: rolling_window "\<lambda>at now. in_window at now w" sn_at sn_cost for w
  by unfold_locales (auto simp: in_window_def sat_i64_def)

text \<open>Everything stored against a scope: settled spend, in or out of the window, and held.\<close>

definition held_for :: "budget_scope \<Rightarrow> (nat, reservation) omap \<Rightarrow> nat" where
  "held_for scope h = sum_list (map rs_cost (filter (\<lambda>r. scope \<in> set (rs_scopes r)) (omvalues h)))"

definition stored :: "review_budget \<Rightarrow> budget_scope \<Rightarrow> nat" where
  "stored b scope = qw.load (spent_list b scope) + held_for scope (rb_held b)"

definition budget_inv :: "review_budget \<Rightarrow> bool" where
  "budget_inv b \<longleftrightarrow>
     (\<forall>scope. stored b scope \<le> budget_ceiling (rb_policy b) scope) \<and>
     (\<forall>i r. omget (rb_held b) i = Some r \<longrightarrow> distinct (rs_scopes r) \<and> i < rb_next_id b) \<and>
     0 < rb_next_id b"

definition policy_ok :: "budget_policy \<Rightarrow> bool" where
  "policy_ok p \<longleftrightarrow> bp_project_ceiling p < u32_max \<and> bp_branch_ceiling p < u32_max \<and>
     bp_agent_ceiling p < u32_max"

lemma ceiling_bound: "policy_ok p \<Longrightarrow> budget_ceiling p scope < u32_max"
  by (cases scope) (auto simp: policy_ok_def)

text \<open>A sum over the values of a map, along the operations on it.\<close>

lemma sum_al_put_sel:
  fixes f :: "'v \<Rightarrow> nat"
  assumes "al_ok xs" and "map_of xs k = None"
  shows "sum_list (map f (map snd (al_put k v xs))) = sum_list (map f (map snd xs)) + f v"
  using assms by (induction k v xs rule: al_put.induct) (auto split: if_splits)

lemma al_del_id: "map_of xs k = None \<Longrightarrow> al_del k xs = xs"
  by (induction k xs rule: al_del.induct) (auto split: if_splits)

lemma sum_al_del_sel:
  fixes f :: "'v \<Rightarrow> nat"
  assumes "al_ok xs" and "map_of xs k = Some v"
  shows "sum_list (map f (map snd (al_del k xs))) + f v = sum_list (map f (map snd xs))"
  using assms
proof (induction k xs rule: al_del.induct)
  case (1 k)
  then show ?case by simp
next
  case (2 k k' v' xs)
  have "map_of xs k = None" if "k = k'"
    using 2(3) that by (fastforce simp: map_of_eq_None_iff)
  with 2 show ?case by (auto split: if_splits simp: al_del_id)
qed

lemma sum_filter_sel:
  fixes f :: "'a \<Rightarrow> nat"
  shows "sum_list (map f (filter p xs)) = sum_list (map (\<lambda>x. if p x then f x else 0) xs)"
  by (induction xs) auto

lemma held_for_put:
  "omget h i = None \<Longrightarrow> held_for scope (omput i r h) =
     held_for scope h + (if scope \<in> set (rs_scopes r) then rs_cost r else 0)"
  using sum_al_put_sel [OF omlist_ok, of h i "\<lambda>r. if scope \<in> set (rs_scopes r) then rs_cost r else 0" r]
  by (simp add: held_for_def sum_filter_sel omvalues_def omget_map_of)

lemma held_for_del:
  "omget h i = Some r \<Longrightarrow> held_for scope (omdel i h) +
     (if scope \<in> set (rs_scopes r) then rs_cost r else 0) = held_for scope h"
  using sum_al_del_sel [OF omlist_ok, of h i r "\<lambda>r. if scope \<in> set (rs_scopes r) then rs_cost r else 0"]
  by (simp add: held_for_def sum_filter_sel omvalues_def omget_map_of)

lemma held_for_filter_le: "held_for scope (omfilter p h) \<le> held_for scope h"
proof -
  have "sum_list (map f (map snd (filter q xs))) \<le> sum_list (map f (map snd xs))"
    for f :: "reservation \<Rightarrow> nat" and q :: "nat \<times> reservation \<Rightarrow> bool" and xs
    by (induction xs) auto
  then show ?thesis by (simp add: held_for_def sum_filter_sel omvalues_def)
qed


section \<open>Steps\<close>

lemma expire_policy [simp]: "rb_policy (snd (budget_expire now b)) = rb_policy b"
  "rb_next_id (snd (budget_expire now b)) = rb_next_id b"
  by (simp_all add: budget_expire_def Let_def)

lemma expire_spent_list:
  "spent_list (snd (budget_expire now b)) scope = qw.live (bp_window_ms (rb_policy b)) now (spent_list b scope)"
  by (auto simp: spent_list_def budget_expire_def Let_def qw.live_def split: option.splits)

lemma expire_held:
  "rb_held (snd (budget_expire now b)) =
     omfilter (\<lambda>_ r. \<not> bp_proposal_ttl_ms (rb_policy b) < reservation_age now r) (rb_held b)"
  by (simp add: budget_expire_def Let_def)

lemma expire_stored: "stored (snd (budget_expire now b)) scope \<le> stored b scope"
  unfolding stored_def expire_spent_list expire_held
  by (intro add_mono held_for_filter_le qw.load_live_le)

lemma expire_inv: "budget_inv b \<Longrightarrow> budget_inv (snd (budget_expire now b))"
  unfolding budget_inv_def using expire_stored [of now b]
  by (auto simp: expire_held intro: order_trans split: option.splits if_splits)

lemma committed_le_stored:
  assumes "budget_inv b" and "policy_ok (rb_policy b)"
  shows "committed b scope now \<le> stored b scope"
    and "committed (snd (budget_expire now b)) scope now = stored (snd (budget_expire now b)) scope"
proof -
  have le: "stored c scope < u32_max" if "budget_inv c" "rb_policy c = rb_policy b" for c
  proof -
    have "stored c scope \<le> budget_ceiling (rb_policy b) scope" using that by (auto simp: budget_inv_def)
    then show ?thesis using ceiling_bound [OF assms(2), of scope] by simp
  qed
  have eq: "committed c scope now = qw.load (qw.live (bp_window_ms (rb_policy b)) now (spent_list c scope))
      + held_for scope (rb_held c)" if "budget_inv c" "rb_policy c = rb_policy b" for c
    using le [OF that] qw.load_live_le [of "bp_window_ms (rb_policy b)" now "spent_list c scope"] that(2)
    by (simp add: committed_def Let_def qw.load_def qw.live_def held_for_def stored_def wrap32_def
        sat_add32_def)
  show "committed b scope now \<le> stored b scope"
    using eq [OF assms(1)] qw.load_live_le by (simp add: stored_def)
  show "committed (snd (budget_expire now b)) scope now = stored (snd (budget_expire now b)) scope"
    using eq [OF expire_inv [OF assms(1)], of now]
    by (simp add: stored_def expire_spent_list qw.live_live)
qed

lemma check_scopes_Inr:
  "check_scopes b now cost scopes h = Inr h' \<Longrightarrow>
     \<forall>scope\<in>set scopes. sat_add32 (committed b scope now) cost \<le> budget_ceiling (rb_policy b) scope"
  by (induction b now cost scopes h rule: check_scopes.induct) (auto simp: Let_def split: if_splits)

lemma check_scopes_Inl:
  "check_scopes b now cost scopes h = Inl d \<Longrightarrow>
     \<exists>scope\<in>set scopes. budget_ceiling (rb_policy b) scope < sat_add32 (committed b scope now) cost \<and>
       d = Exhausted scope cost (committed b scope now) (budget_ceiling (rb_policy b) scope)
             (bp_window_ms (rb_policy b))
             (exhausted_reason cost (committed b scope now) (budget_ceiling (rb_policy b) scope))"
  by (induction b now cost scopes h rule: check_scopes.induct) (auto simp: Let_def split: if_splits)

lemma reserve_inv:
  assumes "budget_inv b" and "policy_ok (rb_policy b)" and "distinct scopes" and "rb_next_id b < u64_max"
    and "budget_reserve g scopes now b = (d, b')"
  shows "budget_inv b' \<and> rb_policy b' = rb_policy b \<and> rb_next_id b' \<le> rb_next_id b + 1"
proof -
  let ?b = "snd (budget_expire now b)" and ?cost = "review_cost g (rb_policy b)"
  have inv: "budget_inv ?b" by (rule expire_inv [OF assms(1)])
  show ?thesis
  proof (cases "\<exists>h. check_scopes ?b now ?cost scopes u32_max = Inr h \<and> 0 < ?cost")
    case False
    then show ?thesis
      using assms(5) inv by (auto simp: budget_reserve_def Let_def split: sum.splits if_splits)
  next
    case True
    then obtain h where h: "check_scopes ?b now ?cost scopes u32_max = Inr h" "0 < ?cost" by auto
    let ?r = "\<lparr>rs_at = now, rs_cost = ?cost, rs_scopes = scopes\<rparr>"
    have b': "b' = ?b\<lparr>rb_next_id := rb_next_id b + 1, rb_held := omput (rb_next_id b) ?r (rb_held ?b)\<rparr>"
      using assms(4,5) h by (auto simp: budget_reserve_def Let_def wrap64_id)
    have fresh: "omget (rb_held ?b) (rb_next_id b) = None"
      by (cases "omget (rb_held ?b) (rb_next_id b)") (use inv in \<open>auto simp: budget_inv_def\<close>)
    have "stored b' scope \<le> budget_ceiling (rb_policy b) scope" for scope
    proof (cases "scope \<in> set scopes")
      case False
      then show ?thesis using inv by (simp add: b' stored_def held_for_put [OF fresh] budget_inv_def spent_list_def)
    next
      case True
      then have "sat_add32 (stored ?b scope) ?cost \<le> budget_ceiling (rb_policy b) scope"
        using bspec [OF check_scopes_Inr [OF h(1)] True] committed_le_stored(2) [OF assms(1,2), of now scope]
        by simp
      then have "stored ?b scope + ?cost \<le> budget_ceiling (rb_policy b) scope"
        using ceiling_bound [OF assms(2), of scope] by (simp add: sat_add32_def min_def split: if_splits)
      then show ?thesis using True by (simp add: b' stored_def held_for_put [OF fresh] spent_list_def)
    qed
    then show ?thesis using inv assms(3)
      by (auto simp: budget_inv_def b' less_Suc_eq split: if_splits)
  qed
qed

lemma push_spend_list:
  "distinct scopes \<Longrightarrow> spent_list (fold (push_spend s) scopes b) scope =
     (if scope \<in> set scopes then spent_list b scope @ [s] else spent_list b scope)"
  by (induction scopes arbitrary: b) (auto simp: push_spend_def spent_list_def)

lemma push_spend_rest:
  "rb_held (fold (push_spend s) scopes b) = rb_held b \<and> rb_policy (fold (push_spend s) scopes b) = rb_policy b \<and>
     rb_next_id (fold (push_spend s) scopes b) = rb_next_id b"
  by (induction scopes arbitrary: b) (auto simp: push_spend_def)

text \<open>What settling a held reservation does to each scope.\<close>

lemma settle_held:
  assumes "budget_inv b" and "i \<noteq> free_reservation"
    and "omget (rb_held (snd (budget_expire now b))) i = Some r"
    and "budget_settle i how now b = (res, b')"
  shows "res = Inr () \<and> rb_policy b' = rb_policy b \<and> rb_next_id b' = rb_next_id b \<and>
     rb_held b' = omdel i (rb_held (snd (budget_expire now b))) \<and>
     stored b' scope + (if refunds how \<and> scope \<in> set (rs_scopes r) then rs_cost r else 0) =
       stored (snd (budget_expire now b)) scope"
proof -
  obtain ex c where ec: "budget_expire now b = (ex, c)" by fastforce
  have "omget (rb_held b) i = Some r" "\<not> bp_proposal_ttl_ms (rb_policy b) < reservation_age now r"
    using assms(3) by (auto simp: expire_held split: option.splits if_splits)
  then have "omget ex i = None" using ec by (auto simp: budget_expire_def Let_def)
  then have b': "res = Inr () \<and> b' = (let b1 = c\<lparr>rb_held := omdel i (rb_held c)\<rparr> in
      if refunds how then b1 else fold (push_spend \<lparr>sn_at = now, sn_cost = rs_cost r\<rparr>) (rs_scopes r) b1)"
    using assms(2-4) ec by (auto simp: budget_settle_def Let_def)
  have d: "distinct (rs_scopes r)"
    using expire_inv [OF assms(1), of now] assms(3) by (auto simp: budget_inv_def)
  have h: "held_for scope (omdel i (rb_held c)) + (if scope \<in> set (rs_scopes r) then rs_cost r else 0) =
      held_for scope (rb_held c)"
    using held_for_del [of "rb_held c" i r scope] assms(3) ec by simp
  have sl: "spent_list (c\<lparr>rb_held := x\<rparr>) scope = spent_list c scope" for x by (simp add: spent_list_def)
  have pol: "rb_policy c = rb_policy b" "rb_next_id c = rb_next_id b"
    using expire_policy [of now b] ec by simp_all
  show ?thesis
    using b' h d pol ec by (auto simp: Let_def stored_def push_spend_list push_spend_rest sl qw.load_append
        qw.load_def)
qed

lemma settle_inv:
  assumes "budget_inv b" and "budget_settle i how now b = (res, b')"
  shows "budget_inv b' \<and> rb_policy b' = rb_policy b \<and> rb_next_id b' = rb_next_id b"
proof (cases "i = free_reservation \<or> omget (rb_held (snd (budget_expire now b))) i = None")
  case True
  then have "b' = snd (budget_expire now b)"
    using assms(2) by (auto simp: budget_settle_def Let_def split: prod.splits option.splits if_splits)
  then show ?thesis using expire_inv [OF assms(1)] by simp
next
  case False
  then obtain r where r: "omget (rb_held (snd (budget_expire now b))) i = Some r" by auto
  note st = settle_held [OF assms(1) _ r assms(2)]
  have inv: "budget_inv (snd (budget_expire now b))" by (rule expire_inv [OF assms(1)])
  have "stored b' scope \<le> budget_ceiling (rb_policy b) scope" for scope
  proof -
    have "stored b' scope \<le> stored (snd (budget_expire now b)) scope" using st [of scope] False by auto
    also have "\<dots> \<le> budget_ceiling (rb_policy b) scope" using inv by (auto simp: budget_inv_def)
    finally show ?thesis .
  qed
  then show ?thesis using st False inv by (auto simp: budget_inv_def split: if_splits)
qed

section \<open>Runs\<close>

datatype budget_call =
    CReserve gate "budget_scope list" int
  | CSettle nat settlement int

fun budget_step :: "budget_call \<Rightarrow> review_budget \<Rightarrow> review_budget" where
  "budget_step (CReserve g scopes now) b = snd (budget_reserve g scopes now b)"
| "budget_step (CSettle i how now) b = snd (budget_settle i how now b)"

fun call_ok :: "budget_call \<Rightarrow> bool" where
  "call_ok (CReserve g scopes now) = distinct scopes"
| "call_ok (CSettle i how now) = True"

lemma budget_run_inv:
  "budget_inv b \<Longrightarrow> policy_ok (rb_policy b) \<Longrightarrow> list_all call_ok calls \<Longrightarrow>
     rb_next_id b + length calls \<le> u64_max \<Longrightarrow>
     budget_inv (fold budget_step calls b) \<and> rb_policy (fold budget_step calls b) = rb_policy b"
proof (induction calls arbitrary: b)
  case Nil
  then show ?case by simp
next
  case (Cons c calls)
  have "budget_inv (budget_step c b) \<and> rb_policy (budget_step c b) = rb_policy b \<and>
      rb_next_id (budget_step c b) \<le> rb_next_id b + 1"
  proof (cases c)
    case (CReserve g scopes now)
    obtain d b' where "budget_reserve g scopes now b = (d, b')" by fastforce
    then show ?thesis
      using reserve_inv [of b scopes g now d b'] Cons.prems CReserve by simp
  next
    case (CSettle i how now)
    obtain d b' where "budget_settle i how now b = (d, b')" by fastforce
    then show ?thesis using settle_inv [of b i how now d b'] Cons.prems CSettle by simp
  qed
  then show ?case using Cons by simp
qed

lemma budget_inv_new: "budget_inv (budget_new p)"
  by (simp add: budget_inv_def budget_new_def stored_def spent_list_def qw.load_def held_for_def omvalues_def)

text \<open>C4: Whatever sequence of reservations and settlements has been made, with whatever
  clock readings, no scope has ever more committed than its ceiling; and a change that
  needs no review is always granted, free of charge, without touching the ledger.\<close>

theorem budget_ceiling_holds:
  assumes "policy_ok p" and "list_all call_ok calls" and "length calls < u64_max"
    and "b = fold budget_step calls (budget_new p)"
  shows "committed b scope now \<le> budget_ceiling p scope \<and>
     (\<exists>remaining. budget_reserve AutoApply scopes now b =
        (Granted free_reservation 0 remaining, snd (budget_expire now b)))"
proof (rule conjI)
  have inv: "budget_inv b" "rb_policy b = p"
    using budget_run_inv [OF budget_inv_new, of p calls] assms by (simp_all add: budget_new_def)
  have "committed b scope now \<le> stored b scope"
    using committed_le_stored(1) inv assms(1) by blast
  then show "committed b scope now \<le> budget_ceiling p scope"
    using inv unfolding budget_inv_def by (metis order_trans)
  let ?b = "snd (budget_expire now b)"
  have binv: "budget_inv ?b" "rb_policy ?b = p" using expire_inv [OF inv(1)] inv(2) by simp_all
  have ok: "committed ?b sc now \<le> budget_ceiling p sc" for sc
  proof -
    have "committed ?b sc now \<le> stored ?b sc"
      using committed_le_stored(1) [OF binv(1)] binv(2) assms(1) by simp
    also have "\<dots> \<le> budget_ceiling p sc" using binv by (auto simp: budget_inv_def)
    finally show ?thesis .
  qed
  have "check_scopes ?b now 0 scopes u32_max \<noteq> Inl d" for d
  proof
    assume "check_scopes ?b now 0 scopes u32_max = Inl d"
    from check_scopes_Inl [OF this] obtain sc where
      "budget_ceiling p sc < sat_add32 (committed ?b sc now) 0" using binv by auto
    then show False using ok [of sc] by (simp add: sat_add32_def min_def split: if_splits)
  qed
  then obtain h where "check_scopes ?b now 0 scopes u32_max = Inr h"
    by (cases "check_scopes ?b now 0 scopes u32_max") auto
  then show "\<exists>remaining. budget_reserve AutoApply scopes now b =
      (Granted free_reservation 0 remaining, snd (budget_expire now b))"
    by (auto simp: budget_reserve_def review_cost_def Let_def)
qed


lemma budget_ceiling_holds_witness:
  "committed (fold budget_step [CReserve ShadowValidate [BProject, BAgent ''a''] 100, CSettle 1 Approved 200]
     (budget_new budget_policy_default)) (BAgent ''a'') 300 \<le> budget_ceiling budget_policy_default (BAgent ''a'')"
  by (rule budget_ceiling_holds [OF _ _ _ refl, THEN conjunct1]) (simp_all add: policy_ok_def budget_policy_default_def)

text \<open>A reservation is settled at most once, never after its deadline, and the books
  balance: settling takes exactly the reserved units off a refunded scope and leaves the
  total of an approved or rejected one where it was.\<close>

theorem budget_settles_once:
  assumes "policy_ok p" and "list_all call_ok calls" and "length calls < u64_max"
    and "b = fold budget_step calls (budget_new p)"
    and "i \<noteq> free_reservation" and "budget_settle i how now b = (Inr (), b')"
  shows "fst (budget_settle i how' now' b') = Inl (UnknownReservation i) \<and>
     (\<exists>r. omget (rb_held b) i = Some r \<and> reservation_age now r \<le> bp_proposal_ttl_ms p \<and>
        (\<forall>scope. stored b' scope + (if refunds how \<and> scope \<in> set (rs_scopes r) then rs_cost r else 0) =
           stored (snd (budget_expire now b)) scope))"
proof (rule conjI)
  have inv: "budget_inv b" "rb_policy b = p"
    using budget_run_inv [OF budget_inv_new, of p calls] assms(1-4) by (simp_all add: budget_new_def)
  obtain r where r: "omget (rb_held (snd (budget_expire now b))) i = Some r"
    using assms(5,6) by (auto simp: budget_settle_def Let_def split: prod.splits option.splits)
  note st = settle_held [OF inv(1) assms(5) r assms(6)]
  have gone: "omget (rb_held b') i = None" using st by simp
  obtain ex c where ec: "budget_expire now' b' = (ex, c)" by fastforce
  then have "ex = ommap (\<lambda>_ r. reservation_age now' r)
        (omfilter (\<lambda>_ r. bp_proposal_ttl_ms (rb_policy b') < reservation_age now' r) (rb_held b'))"
      "rb_held c = omfilter (\<lambda>_ r. \<not> bp_proposal_ttl_ms (rb_policy b') < reservation_age now' r) (rb_held b')"
    by (auto simp: budget_expire_def Let_def)
  with gone have "omget ex i = None" "omget (rb_held c) i = None" by simp_all
  then show "fst (budget_settle i how' now' b') = Inl (UnknownReservation i)"
    using assms(5) ec by (simp add: budget_settle_def)
  have "omget (rb_held b) i = Some r \<and> reservation_age now r \<le> bp_proposal_ttl_ms p"
    using r inv(2) by (auto simp: expire_held split: option.splits if_splits)
  with st show "\<exists>r. omget (rb_held b) i = Some r \<and> reservation_age now r \<le> bp_proposal_ttl_ms p \<and>
      (\<forall>scope. stored b' scope + (if refunds how \<and> scope \<in> set (rs_scopes r) then rs_cost r else 0) =
         stored (snd (budget_expire now b)) scope)"
    by blast
qed

lemma budget_settles_once_witness:
  "fst (budget_settle 1 Approved 300
     (snd (budget_settle 1 Withdrawn 200
       (fold budget_step [CReserve Confirm [BProject] 100] (budget_new budget_policy_default))))) =
     Inl (UnknownReservation 1)"
proof -
  let ?b = "fold budget_step [CReserve Confirm [BProject] 100] (budget_new budget_policy_default)"
  have held: "rb_held ?b = omput 1 \<lparr>rs_at = 100, rs_cost = 1, rs_scopes = [BProject]\<rparr> omempty"
    "rb_policy ?b = budget_policy_default"
    by (simp_all add: budget_reserve_def budget_expire_def budget_new_def Let_def budget_policy_default_def review_cost_def
        committed_def spent_list_def omvalues_def wrap32_def sat_add32_def sub32_def omap_eq_iff split: prod.splits option.splits)
  then have "fst (budget_settle 1 Withdrawn 200 ?b) = Inr ()"
    by (simp add: budget_settle_def budget_expire_def Let_def budget_policy_default_def free_reservation_def
        reservation_age_def sat_i64_def del: fold_simps)
  then have eq: "budget_settle 1 Withdrawn 200 ?b = (Inr (), snd (budget_settle 1 Withdrawn 200 ?b))"
    by (simp add: prod_eq_iff del: fold_simps)
  show ?thesis
    by (rule budget_settles_once [OF _ _ _ refl _ eq, THEN conjunct1])
      (simp_all add: policy_ok_def budget_policy_default_def free_reservation_def)
qed

end
