(* ===== verification/Safety_Spend.thy ===== *)
theory Safety_Spend
  imports Safety_Window Ordered_Map
begin

text \<open>
  Cost ceilings and the spend ledger (\<open>theta-safety/src/spend.rs\<close>): a query is refused
  before it runs from a measured estimate, and what ran is metered afterwards in a
  rolling window per scope.
\<close>

section \<open>Model\<close>

record spend_policy =
  spp_query_ceiling :: nat
  spp_agent_ceiling :: nat
  spp_project_ceiling :: nat
  spp_window_ms :: int

definition spend_policy_default :: spend_policy where
  "spend_policy_default =
     \<lparr>spp_query_ceiling = 10000, spp_agent_ceiling = 60 * 60 * 1000,
      spp_project_ceiling = 8 * 60 * 60 * 1000, spp_window_ms = 24 * 60 * 60 * 1000\<rparr>"

datatype ceiling_decision =
    CeilingAllow
  | AllowUnmeasured nat
  | CeilingRefuse nat nat string

definition ceiling_allowed :: "ceiling_decision \<Rightarrow> bool" where
  "ceiling_allowed d \<longleftrightarrow> (case d of CeilingRefuse _ _ _ \<Rightarrow> False | _ \<Rightarrow> True)"

definition check_ceiling :: "nat \<Rightarrow> bool \<Rightarrow> spend_policy \<Rightarrow> ceiling_decision" where
  "check_ceiling est from_stats p =
     (if spp_query_ceiling p = 0 then CeilingAllow
      else if est \<le> spp_query_ceiling p then CeilingAllow
      else if \<not> from_stats then AllowUnmeasured est
      else CeilingRefuse est (spp_query_ceiling p)
        (''this query is estimated at '' @ show_nat est @ ''ms against a '' @ show_nat (spp_query_ceiling p) @
         ''ms ceiling. It is refused rather than narrowed: a partial result you did not ask for is '' @
         ''worse than an error, because you would act on it.''))"

datatype spend_scope = SProject | SAgent string

datatype spend_decision =
    SpendAllow nat
  | SpendExhausted spend_scope nat nat int string

definition spend_allowed :: "spend_decision \<Rightarrow> bool" where
  "spend_allowed d \<longleftrightarrow> (case d of SpendAllow _ \<Rightarrow> True | _ \<Rightarrow> False)"

record spent_item =
  si_at :: int
  si_cost :: nat

record spend_ledger =
  sl_policy :: spend_policy
  sl_spent :: "spend_scope \<Rightarrow> spent_item list option"

definition ledger_new :: "spend_policy \<Rightarrow> spend_ledger" where
  "ledger_new p = \<lparr>sl_policy = p, sl_spent = (\<lambda>_. None)\<rparr>"

fun spend_ceiling :: "spend_ledger \<Rightarrow> spend_scope \<Rightarrow> nat" where
  "spend_ceiling l SProject = spp_project_ceiling (sl_policy l)"
| "spend_ceiling l (SAgent _) = spp_agent_ceiling (sl_policy l)"

definition spend_in_window :: "int \<Rightarrow> int \<Rightarrow> int \<Rightarrow> bool" where
  "spend_in_window at now w \<longleftrightarrow> now < sat_i64 (at + w)"

definition ledger_items :: "spend_ledger \<Rightarrow> spend_scope \<Rightarrow> spent_item list" where
  "ledger_items l scope = (case sl_spent l scope of None \<Rightarrow> [] | Some v \<Rightarrow> v)"

text \<open>\<open>sum()\<close> over \<open>u64\<close> wraps around.\<close>

definition ledger_spent :: "spend_ledger \<Rightarrow> spend_scope \<Rightarrow> int \<Rightarrow> nat" where
  "ledger_spent l scope now =
     wrap64 (sum_list (map si_cost
       (filter (\<lambda>s. spend_in_window (si_at s) now (spp_window_ms (sl_policy l))) (ledger_items l scope))))"

definition sub64 :: "nat \<Rightarrow> nat \<Rightarrow> nat" where
  "sub64 a b = nat ((int a - int b) mod 18446744073709551616)"

definition spend_reason :: "nat \<Rightarrow> nat \<Rightarrow> nat \<Rightarrow> string" where
  "spend_reason spent limit cost =
     show_nat spent @ ''ms of '' @ show_nat limit @ ''ms is already spent in this window and this '' @
     ''work would cost '' @ show_nat cost @ ''ms more. The work is refused, not '' @
     ''degraded '' @ map char_of [226, 128, 148 :: nat] @ '' wait for the window to roll or raise the ceiling.''"

fun may_spend_from :: "spend_ledger \<Rightarrow> nat \<Rightarrow> int \<Rightarrow> spend_scope list \<Rightarrow> nat \<Rightarrow> spend_decision" where
  "may_spend_from l cost now [] remaining = SpendAllow (if remaining = u64_max then 0 else remaining)"
| "may_spend_from l cost now (scope # rest) remaining =
     (let limit = spend_ceiling l scope; spent = ledger_spent l scope now in
      if limit < sat_add64 spent cost
      then SpendExhausted scope spent limit (spp_window_ms (sl_policy l)) (spend_reason spent limit cost)
      else may_spend_from l cost now rest (min remaining (sub64 (sub64 limit spent) cost)))"

definition may_spend :: "spend_scope list \<Rightarrow> nat \<Rightarrow> int \<Rightarrow> spend_ledger \<Rightarrow> spend_decision" where
  "may_spend scopes cost now l = may_spend_from l cost now scopes u64_max"

definition ledger_evict :: "int \<Rightarrow> spend_ledger \<Rightarrow> spend_ledger" where
  "ledger_evict now l =
     l\<lparr>sl_spent := (\<lambda>scope. case sl_spent l scope of
         None \<Rightarrow> None
       | Some v \<Rightarrow> (let v' = filter (\<lambda>s. spend_in_window (si_at s) now (spp_window_ms (sl_policy l))) v
                     in if v' = [] then None else Some v'))\<rparr>"

definition ledger_push :: "spent_item \<Rightarrow> spend_scope \<Rightarrow> spend_ledger \<Rightarrow> spend_ledger" where
  "ledger_push s scope l = l\<lparr>sl_spent := (sl_spent l)(scope \<mapsto> ledger_items l scope @ [s])\<rparr>"

definition ledger_record :: "spend_scope list \<Rightarrow> nat \<Rightarrow> int \<Rightarrow> spend_ledger \<Rightarrow> spend_ledger" where
  "ledger_record scopes actual now l =
     fold (ledger_push \<lparr>si_at = now, si_cost = actual\<rparr>) scopes (ledger_evict now l)"

datatype over_limit = Report | RefuseWrites

definition allows_reads :: "over_limit \<Rightarrow> bool" where
  "allows_reads o' = True"

definition allows_writes :: "over_limit \<Rightarrow> bool" where
  "allows_writes o' \<longleftrightarrow> o' = Report"

section \<open>The ceiling\<close>

text \<open>A query is refused exactly when a ceiling is set, the estimate is above it and
  comes from statistics; a refusal carries the two numbers; and a guess over the ceiling
  is let through and marked as such.\<close>

theorem check_ceiling_spec:
  "(\<not> ceiling_allowed (check_ceiling est from_stats p) \<longleftrightarrow>
     spp_query_ceiling p \<noteq> 0 \<and> spp_query_ceiling p < est \<and> from_stats) \<and>
   (check_ceiling est from_stats p = AllowUnmeasured n \<longleftrightarrow>
     n = est \<and> spp_query_ceiling p \<noteq> 0 \<and> spp_query_ceiling p < est \<and> \<not> from_stats)"
  by (auto simp: check_ceiling_def ceiling_allowed_def)

section \<open>The ledger\<close>

interpretation lw: rolling_window "\<lambda>at now. spend_in_window at now w" si_at si_cost for w
  by unfold_locales (auto simp: spend_in_window_def sat_i64_def)

lemma may_spend_from_allowed:
  "spend_allowed (may_spend_from l cost now scopes r) \<longleftrightarrow>
     (\<forall>scope\<in>set scopes. sat_add64 (ledger_spent l scope now) cost \<le> spend_ceiling l scope)"
  by (induction l cost now scopes r rule: may_spend_from.induct)
     (auto simp: spend_allowed_def Let_def not_less)

lemma evict_items:
  "ledger_items (ledger_evict now l) scope = lw.live (spp_window_ms (sl_policy l)) now (ledger_items l scope)"
  by (auto simp: ledger_items_def ledger_evict_def lw.live_def Let_def split: option.splits)

lemma push_items:
  "ledger_items (fold (ledger_push s) scopes l) scope =
     ledger_items l scope @ replicate (count_list scopes scope) s"
  by (induction scopes arbitrary: l)
     (auto simp: ledger_push_def ledger_items_def replicate_app_Cons_same split: option.splits)

lemma count_distinct: "distinct xs \<Longrightarrow> count_list xs x = (if x \<in> set xs then 1 else 0)"
  by (induction xs) auto

lemma push_policy: "sl_policy (fold (ledger_push s) scopes l) = sl_policy l"
  by (induction scopes arbitrary: l) (auto simp: ledger_push_def)

text \<open>Recording work charges every named scope with what was measured and no other
  scope with anything: seen from any later moment, a scope's spend is what it was plus
  the work, while the work is inside the window, and permission is then judged against
  exactly that sum.\<close>

theorem ledger_charges_measured_work:
  assumes "now \<le> later" and "distinct scopes"
    and "sum_list (map si_cost (ledger_items l scope)) + actual \<le> u64_max"
  shows "ledger_spent (ledger_record scopes actual now l) scope later =
     ledger_spent l scope later +
       (if scope \<in> set scopes \<and> spend_in_window now later (spp_window_ms (sl_policy l)) then actual else 0) \<and>
     (spend_allowed (may_spend scopes' cost later l') \<longleftrightarrow>
       (\<forall>sc\<in>set scopes'. sat_add64 (ledger_spent l' sc later) cost \<le> spend_ceiling l' sc))"
proof (rule conjI)
  let ?w = "spp_window_ms (sl_policy l)"
  have pol: "sl_policy (ledger_record scopes actual now l) = sl_policy l"
    by (simp add: ledger_record_def push_policy ledger_evict_def)
  have eq: "lw.live ?w later (ledger_items (ledger_record scopes actual now l) scope) =
      lw.live ?w later (ledger_items l scope) @
      (if scope \<in> set scopes \<and> spend_in_window now later ?w then [\<lparr>si_at = now, si_cost = actual\<rparr>] else [])"
    using assms(2)
    by (simp add: ledger_record_def push_items evict_items lw.live_append lw.live_live [OF assms(1)]
        count_distinct lw.live_def [of _ _ "[_]"] lw.live_def [of _ _ "[]"])
  have "lw.load (lw.live ?w later (ledger_items (ledger_record scopes actual now l) scope)) =
      lw.load (lw.live ?w later (ledger_items l scope)) +
      (if scope \<in> set scopes \<and> spend_in_window now later ?w then actual else 0)"
    unfolding eq lw.load_append by (auto simp: lw.load_def)
  moreover have "lw.load (lw.live ?w later (ledger_items l scope)) + actual \<le> u64_max"
    using assms(3) lw.load_live_le [of ?w later "ledger_items l scope"] by (simp add: lw.load_def)
  ultimately show "ledger_spent (ledger_record scopes actual now l) scope later =
     ledger_spent l scope later +
       (if scope \<in> set scopes \<and> spend_in_window now later ?w then actual else 0)"
    by (simp add: ledger_spent_def pol wrap64_id lw.live_def lw.load_def)
  show "spend_allowed (may_spend scopes' cost later l') \<longleftrightarrow>
     (\<forall>sc\<in>set scopes'. sat_add64 (ledger_spent l' sc later) cost \<le> spend_ceiling l' sc)"
    by (simp add: may_spend_def may_spend_from_allowed)
qed

lemma ledger_charges_measured_work_witness:
  "ledger_spent (ledger_record [SProject, SAgent ''a''] 700 10 (ledger_new spend_policy_default)) (SAgent ''a'') 20 = 700"
proof -
  have "ledger_spent (ledger_record [SProject, SAgent ''a''] 700 10 (ledger_new spend_policy_default)) (SAgent ''a'') 20 =
      ledger_spent (ledger_new spend_policy_default) (SAgent ''a'') 20 +
      (if SAgent ''a'' \<in> set [SProject, SAgent ''a''] \<and>
          spend_in_window 10 20 (spp_window_ms (sl_policy (ledger_new spend_policy_default))) then 700 else 0)"
    by (rule ledger_charges_measured_work [THEN conjunct1]) (simp_all add: ledger_new_def ledger_items_def)
  then show ?thesis
    by (simp add: ledger_new_def ledger_spent_def ledger_items_def wrap64_def spend_in_window_def
        spend_policy_default_def sat_i64_def)
qed

end
