(* ===== verification/Safety_Triage.thy ===== *)
theory Safety_Triage
  imports Safety_Budget "HOL-Library.Multiset"
begin

text \<open>
  Batching and ordering the review queue (\<open>theta-safety/src/triage.rs\<close>): changes are
  grouped by table, a batch carries the gate of its strongest member, and batches and
  members are ordered strongest first.
\<close>

section \<open>Model\<close>

record review_batch =
  rv_key :: string
  rv_gate :: gate
  rv_changes :: "change_diff list"
  rv_rows :: nat
  rv_cost :: nat
  rv_cost_if_unbatched :: nat
  rv_reason :: string

text \<open>\<open>max_by_key\<close>: the last of the greatest.\<close>

fun max_by_key :: "('a \<Rightarrow> 'k::linorder) \<Rightarrow> 'a list \<Rightarrow> 'a option" where
  "max_by_key f [] = None"
| "max_by_key f (x # xs) =
     (case max_by_key f xs of None \<Rightarrow> Some x | Some y \<Rightarrow> Some (if f x \<le> f y then y else x))"

definition driving_change :: "review_batch \<Rightarrow> change_diff option" where
  "driving_change b = max_by_key (\<lambda>c. (strictness (cd_gate c), cd_rows c)) (rv_changes b)"

text \<open>The comparator of the member sort, as a key: descending strictness, descending
  rows, ascending id.  \<open>sort_by\<close> is stable, and so is \<open>sort_key\<close>.\<close>

definition member_key :: "change_diff \<Rightarrow> int \<times> int \<times> string" where
  "member_key c = (- int (strictness (cd_gate c)), - int (cd_rows c), cd_id c)"

definition batch_of :: "budget_policy \<Rightarrow> string \<Rightarrow> change_diff list \<Rightarrow> review_batch" where
  "batch_of p key arrived =
     (let g = (case max_by_key strictness (map cd_gate arrived) of None \<Rightarrow> AutoApply | Some g \<Rightarrow> g);
          members = sort_key member_key arrived
      in \<lparr>rv_key = key, rv_gate = g, rv_changes = members,
          rv_rows = fold (\<lambda>c acc. sat_add64 acc (cd_rows c)) members 0,
          rv_cost = review_cost g p,
          rv_cost_if_unbatched = fold (\<lambda>c acc. sat_add32 acc (review_cost (cd_gate c) p)) members 0,
          rv_reason = (case members of
              [] \<Rightarrow> []
            | d # _ \<Rightarrow> if 1 < length members
                then show_nat (length members) @ '' change(s) to `'' @ key @
                     ''`, gated at the strongest of them: '' @ cd_reason d
                else cd_reason d)\<rparr>)"

definition batch_key :: "review_batch \<Rightarrow> int \<times> int \<times> string" where
  "batch_key b = (- int (strictness (rv_gate b)), - int (rv_rows b), rv_key b)"

definition group_changes :: "change_diff list \<Rightarrow> (string, change_diff list) omap" where
  "group_changes cs =
     fold (\<lambda>c m. let t = af_table (cd_affected c) in omput t (omget_or [] m t @ [c]) m) cs omempty"

definition triage :: "change_diff list \<Rightarrow> budget_policy \<Rightarrow> review_batch list" where
  "triage cs p =
     sort_key batch_key (map (\<lambda>(key, members). batch_of p key members) (omlist (group_changes cs)))"

section \<open>Groups\<close>

definition table_of :: "change_diff \<Rightarrow> string" where
  "table_of c = af_table (cd_affected c)"

lemma group_get:
  "omget (fold (\<lambda>c m. let t = af_table (cd_affected c) in omput t (omget_or [] m t @ [c]) m) cs m) t =
     (if filter (\<lambda>c. table_of c = t) cs = [] then omget m t
      else Some (omget_or [] m t @ filter (\<lambda>c. table_of c = t) cs))"
proof (induction cs arbitrary: m)
  case Nil
  then show ?case by simp
next
  case (Cons c cs)
  then show ?case by (auto simp: Let_def table_of_def omget_or_def)
qed

lemma group_changes_get:
  "omget (group_changes cs) t =
     (if filter (\<lambda>c. table_of c = t) cs = [] then None else Some (filter (\<lambda>c. table_of c = t) cs))"
  by (simp add: group_changes_def group_get)

lemma group_entries:
  "(t, members) \<in> set (omlist (group_changes cs)) \<longleftrightarrow>
     members = filter (\<lambda>c. table_of c = t) cs \<and> members \<noteq> []"
  by (auto simp: omget_omlist [symmetric] group_changes_get split: if_splits)

lemma mset_groups:
  "mset (concat (map snd (omlist (group_changes cs)))) = mset cs"
proof -
  have part: "mset (concat (map (\<lambda>t. filter (\<lambda>c. table_of c = t) cs) ts)) = mset (filter (\<lambda>c. table_of c \<in> set ts) cs)"
    if "distinct ts" for ts
    using that
  proof (induction ts)
    case Nil
    then show ?case by simp
  next
    case (Cons t ts)
    have "mset (filter (\<lambda>c. table_of c = t) cs) + mset (filter (\<lambda>c. table_of c \<in> set ts) cs) =
        mset (filter (\<lambda>c. table_of c \<in> set (t # ts)) cs)"
      using Cons.prems by (induction cs) auto
    with Cons show ?case by simp
  qed
  have "map snd (omlist (group_changes cs)) =
      map (\<lambda>t. filter (\<lambda>c. table_of c = t) cs) (omkeys (group_changes cs))"
    unfolding omkeys_def by (auto simp: group_entries intro!: map_cong)
  moreover have "filter (\<lambda>c. table_of c \<in> set (omkeys (group_changes cs))) cs = cs"
    by (rule filter_True) (auto simp: omkeys_set group_changes_get filter_empty_conv)
  ultimately show ?thesis using part [OF omkeys_distinct] by metis
qed

section \<open>The strongest member\<close>

lemma max_by_key_None: "max_by_key f xs = None \<longleftrightarrow> xs = []"
  by (cases xs) (auto split: option.splits)

lemma max_by_key_Some: "max_by_key f xs = Some x \<Longrightarrow> x \<in> set xs \<and> (\<forall>y\<in>set xs. f y \<le> f x)"
proof (induction xs arbitrary: x)
  case Nil
  then show ?case by simp
next
  case (Cons y ys)
  show ?case
  proof (cases "max_by_key f ys")
    case None
    with Cons.prems show ?thesis by (simp add: max_by_key_None)
  next
    case (Some z)
    with Cons.IH [OF Some] Cons.prems show ?thesis by (auto split: if_splits)
  qed
qed

lemma strictness_inj: "strictness g = strictness h \<Longrightarrow> g = h"
  by (cases g; cases h) (auto simp: strictness_def)

lemma batch_gate:
  assumes "arrived \<noteq> []"
  shows "rv_gate (batch_of p key arrived) \<in> cd_gate ` set arrived"
    and "\<forall>c\<in>set arrived. strictness (cd_gate c) \<le> strictness (rv_gate (batch_of p key arrived))"
proof -
  obtain g where g: "max_by_key strictness (map cd_gate arrived) = Some g"
    using assms max_by_key_None [of strictness "map cd_gate arrived"] by auto
  show "rv_gate (batch_of p key arrived) \<in> cd_gate ` set arrived"
    and "\<forall>c\<in>set arrived. strictness (cd_gate c) \<le> strictness (rv_gate (batch_of p key arrived))"
    using max_by_key_Some [OF g] g by (auto simp: batch_of_def Let_def)
qed

lemma batch_fields [simp]:
  "rv_key (batch_of p key arrived) = key"
  "rv_changes (batch_of p key arrived) = sort_key member_key arrived"
  "rv_cost (batch_of p key arrived) = review_cost (rv_gate (batch_of p key arrived)) p"
  by (simp_all add: batch_of_def Let_def)

lemma mset_concat_map: "mset (concat (map f xs)) = sum_mset (image_mset (\<lambda>x. mset (f x)) (mset xs))"
  by (induction xs) auto

text \<open>Triage loses and invents nothing: the batches hold exactly the given changes,
  unaltered, each once; every batch is of one table, is gated at a member no weaker than
  any other, costs no less than reviewing any of its members when a stricter gate costs
  at least as much, and batches come strongest first.\<close>

theorem triage_sound:
  assumes "bp_confirm_cost p \<le> bp_shadow_cost p"
  shows "mset (concat (map rv_changes (triage cs p))) = mset cs \<and>
     (\<forall>b\<in>set (triage cs p). (\<forall>c\<in>set (rv_changes b). af_table (cd_affected c) = rv_key b \<and>
           strictness (cd_gate c) \<le> strictness (rv_gate b) \<and> review_cost (cd_gate c) p \<le> rv_cost b) \<and>
           (\<exists>c\<in>set (rv_changes b). cd_gate c = rv_gate b)) \<and>
     sorted (map (\<lambda>b. - int (strictness (rv_gate b))) (triage cs p))"
proof (intro conjI)
  have "mset (concat (map rv_changes (triage cs p))) =
      mset (concat (map rv_changes (map (\<lambda>(k, ms). batch_of p k ms) (omlist (group_changes cs)))))"
    unfolding triage_def mset_concat_map by simp
  also have "\<dots> = mset (concat (map snd (omlist (group_changes cs))))"
    unfolding map_map mset_concat_map comp_def by (simp add: case_prod_beta)
  finally show "mset (concat (map rv_changes (triage cs p))) = mset cs" by (simp add: mset_groups)
  have cost: "review_cost g p \<le> review_cost h p" if "strictness g \<le> strictness h" for g h
    using that assms by (cases g; cases h) (auto simp: review_cost_def strictness_def)
  show "\<forall>b\<in>set (triage cs p). (\<forall>c\<in>set (rv_changes b). af_table (cd_affected c) = rv_key b \<and>
           strictness (cd_gate c) \<le> strictness (rv_gate b) \<and> review_cost (cd_gate c) p \<le> rv_cost b) \<and>
           (\<exists>c\<in>set (rv_changes b). cd_gate c = rv_gate b)"
  proof
    fix b
    assume "b \<in> set (triage cs p)"
    then obtain k ms where b: "b = batch_of p k ms" "ms = filter (\<lambda>c. table_of c = k) cs" "ms \<noteq> []"
      by (auto simp: triage_def group_entries)
    then show "(\<forall>c\<in>set (rv_changes b). af_table (cd_affected c) = rv_key b \<and>
           strictness (cd_gate c) \<le> strictness (rv_gate b) \<and> review_cost (cd_gate c) p \<le> rv_cost b) \<and>
           (\<exists>c\<in>set (rv_changes b). cd_gate c = rv_gate b)"
      using batch_gate [OF b(3), of p k] cost by (fastforce simp: table_of_def)
  qed
  have "sorted (map batch_key (triage cs p))" by (simp add: triage_def)
  then show "sorted (map (\<lambda>b. - int (strictness (rv_gate b))) (triage cs p))"
    by (fastforce simp: batch_key_def less_eq_prod_def sorted_iff_nth_mono)
qed

text \<open>A small change to try the queue on.\<close>

definition sample_diff :: "string \<Rightarrow> string \<Rightarrow> gate \<Rightarrow> change_diff" where
  "sample_diff i t g =
     (classify (\<lambda>_. []) (\<lambda>_. []) (DropTable t) impact_none protected_policy True 0)
       \<lparr>cd_id := i, cd_gate := g\<rparr>"

lemma triage_sound_witness:
  "mset (concat (map rv_changes (triage [sample_diff ''1'' ''a'' Confirm, sample_diff ''2'' ''b'' ShadowValidate,
      sample_diff ''3'' ''a'' AutoApply] budget_policy_default))) =
   mset [sample_diff ''1'' ''a'' Confirm, sample_diff ''2'' ''b'' ShadowValidate, sample_diff ''3'' ''a'' AutoApply]"
  by (rule triage_sound [THEN conjunct1]) (simp add: budget_policy_default_def)

section \<open>Arrival order\<close>

lemma sort_key_perm:
  assumes "mset xs = mset ys" and "inj_on f (set xs)"
  shows "sort_key f xs = sort_key f ys"
proof (rule properties_for_sort_key)
  have sets: "set ys = set xs" using assms(1) by (metis set_mset_mset)
  show "mset (sort_key f ys) = mset xs" using assms(1) by simp
  show "sorted (map f (sort_key f ys))" by simp
  fix k
  assume k: "k \<in> set (sort_key f ys)"
  have one: "filter (\<lambda>x. f k = f x) zs = replicate (count (mset zs) k) k"
    if "set zs = set xs" for zs
  proof -
    have "filter (\<lambda>x. f k = f x) zs = filter (\<lambda>x. x = k) zs"
      using assms(2) that k sets by (intro filter_cong) (auto simp: inj_on_def)
    also have "\<dots> = replicate (count (mset zs) k) k" by (induction zs) auto
    finally show ?thesis .
  qed
  show "filter (\<lambda>x. f k = f x) (sort_key f ys) = filter (\<lambda>x. f k = f x) xs"
    using one [of xs] one [of "sort_key f ys"] assms(1) sets by simp
qed

lemma batch_of_perm:
  assumes "mset xs = mset ys" and "inj_on member_key (set xs)"
  shows "batch_of p k xs = batch_of p k ys"
proof (cases "xs = []")
  case True
  with assms(1) show ?thesis by simp
next
  case False
  have sets: "set ys = set xs" using assms(1) by (metis set_mset_mset)
  then have "ys \<noteq> []" using False by auto
  then have "rv_gate (batch_of p k xs) = rv_gate (batch_of p k ys)"
    using batch_gate [OF False, of p k] batch_gate [of ys p k] sets
    by (intro strictness_inj antisym) auto
  then show ?thesis
    using sort_key_perm [OF assms] by (intro review_batch.equality) (simp_all add: batch_of_def Let_def)
qed

lemma triage_alt:
  "triage cs p = sort_key batch_key (map snd (omlist (ommap (batch_of p) (group_changes cs))))"
  by (simp add: triage_def case_prod_beta' comp_def)

text \<open>The queue does not depend on the order the changes arrived in, provided no two
  changes have the same gate, row count and id.\<close>

theorem triage_order_independent:
  assumes "mset cs = mset cs'" and "inj_on member_key (set cs)"
  shows "triage cs p = triage cs' p"
proof -
  have "ommap (batch_of p) (group_changes cs) = ommap (batch_of p) (group_changes cs')"
  proof (rule omap_eqI)
    fix t
    let ?f = "filter (\<lambda>c. table_of c = t)"
    have perm: "mset (?f cs) = mset (?f cs')" using assms(1) by simp
    then have "?f cs = [] \<longleftrightarrow> ?f cs' = []" by (metis mset_zero_iff)
    moreover have "batch_of p t (?f cs) = batch_of p t (?f cs')"
      using assms(2) by (intro batch_of_perm [OF perm]) (auto elim: inj_on_subset)
    ultimately show "omget (ommap (batch_of p) (group_changes cs)) t =
        omget (ommap (batch_of p) (group_changes cs')) t"
      by (simp add: group_changes_get)
  qed
  then show ?thesis by (simp add: triage_alt del: omlist_map)
qed

lemma triage_order_independent_witness:
  "triage [sample_diff ''1'' ''a'' Confirm, sample_diff ''2'' ''a'' Confirm] budget_policy_default =
   triage [sample_diff ''2'' ''a'' Confirm, sample_diff ''1'' ''a'' Confirm] budget_policy_default"
  by (rule triage_order_independent) (auto simp: sample_diff_def member_key_def inj_on_def)

end
