(* ===== verification/Store_Merge.thy ===== *)
theory Store_Merge
  imports Store_View_Fold Store_History
begin

text \<open>
  Branch merge (\<open>theta-storage/src/merge.rs\<close>): a three-way merge that reads what each side
  did since their base, takes what only one side did, joins replicated fields and hands
  everything else to a human.  The conversion of a schema change to a value for a conflict
  report is a library's and is the argument \<open>js\<close>.
\<close>

section \<open>The interface to the log\<close>

text \<open>What a merge reads of \<open>LogStore\<close>; \<open>None\<close> is a history walk that does not end.\<close>

record log_store =
  ls_head :: "nat \<Rightarrow> hash option"
  ls_history :: "nat \<Rightarrow> hash option \<Rightarrow> (storage_error + log_entry list) option"

definition mem_store :: "mem_log \<Rightarrow> log_store" where
  "mem_store l = \<lparr>ls_head = log_head l, ls_history = log_history l\<rparr>"

section \<open>Outcomes\<close>

record conflict_ref =
  cf_key :: string
  cf_ours :: "val option"
  cf_theirs :: "val option"
  cf_reason :: string

datatype merge_outcome =
    UpToDate
  | Merged "schema_change list" "op_type list" "(string, crdt_state) omap" "string list"
  | Conflicted "conflict_ref list"

definition conflict_count :: "merge_outcome \<Rightarrow> nat" where
  "conflict_count outcome = (case outcome of Conflicted cs \<Rightarrow> length cs | _ \<Rightarrow> 0)"

section \<open>Schema changes\<close>

fun declaration_of :: "schema_change \<Rightarrow> string \<times> string option" where
  "declaration_of (AddTable td) = (td_name td, None)"
| "declaration_of (DropTable t) = (t, None)"
| "declaration_of (AddColumn t fd) = (t, Some (fd_name fd))"
| "declaration_of (DropColumn t c) = (t, Some c)"
| "declaration_of (AlterColumnType t c _ _) = (t, Some c)"
| "declaration_of (SetNullable t c _ _) = (t, Some c)"
| "declaration_of (SetCrdt t c _) = (t, Some c)"
| "declaration_of (RenameColumn t from' _) = (t, Some from')"
| "declaration_of (AddIndex t i) = (t, Some (ix_name i))"
| "declaration_of (DropIndex t i) = (t, Some i)"

fun table_of :: "schema_change \<Rightarrow> string" where
  "table_of (AddTable td) = td_name td"
| "table_of (DropTable t) = t"
| "table_of (AddColumn t _) = t"
| "table_of (DropColumn t _) = t"
| "table_of (AlterColumnType t _ _ _) = t"
| "table_of (SetNullable t _ _ _) = t"
| "table_of (SetCrdt t _ _) = t"
| "table_of (RenameColumn t _ _) = t"
| "table_of (AddIndex t _) = t"
| "table_of (DropIndex t _) = t"

fun is_table_scoped :: "schema_change \<Rightarrow> bool" where
  "is_table_scoped (AddTable _) = True"
| "is_table_scoped (DropTable _) = True"
| "is_table_scoped _ = False"

fun creates_declaration :: "schema_change \<Rightarrow> (string \<times> string option) option" where
  "creates_declaration (RenameColumn t _ to') = Some (t, Some to')"
| "creates_declaration _ = None"

text \<open>The derived \<open>PartialEq\<close>: only a fill value is not compared by identity.\<close>

fun change_eq :: "schema_change \<Rightarrow> schema_change \<Rightarrow> bool" where
  "change_eq (SetNullable t c n fill) d =
     (case d of SetNullable t' c' n' fill' \<Rightarrow> t = t' \<and> c = c' \<and> n = n' \<and> value_option_eq fill fill' | _ \<Rightarrow> False)"
| "change_eq c d \<longleftrightarrow> c = d"

fun collect_schema_op :: "op_type \<Rightarrow> schema_change list \<Rightarrow> schema_change list"
  and collect_schema_ops :: "op_type list \<Rightarrow> schema_change list \<Rightarrow> schema_change list" where
  "collect_schema_op (SchemaOp change) out = out @ [change]"
| "collect_schema_op (Transaction ops) out = collect_schema_ops ops out"
| "collect_schema_op _ out = out"
| "collect_schema_ops [] out = out"
| "collect_schema_ops (op # ops) out = collect_schema_ops ops (collect_schema_op op out)"

definition schema_changes :: "log_entry list \<Rightarrow> schema_change list" where
  "schema_changes es = fold (\<lambda>e. collect_schema_op (le_op e)) es []"

definition declaration_name :: "string \<times> string option \<Rightarrow> string" where
  "declaration_name d = (case d of (t, Some c) \<Rightarrow> t @ ''.'' @ c | (t, None) \<Rightarrow> t)"

definition by_declaration :: "schema_change list \<Rightarrow> string \<times> string option \<Rightarrow> schema_change option" where
  "by_declaration changes = map_of (rev (map (\<lambda>c. (declaration_of c, c)) changes))"

definition redefined :: "(schema_change \<Rightarrow> val option) \<Rightarrow> schema_change \<Rightarrow> schema_change \<Rightarrow> conflict_ref" where
  "redefined js ours change =
     (let name = declaration_name (declaration_of change) in
      \<lparr>cf_key = ''schema:'' @ name, cf_ours = js ours, cf_theirs = js change,
       cf_reason = ''both branches redefined `'' @ name @ ''`; merging would discard one side's definition''\<rparr>)"

text \<open>The three passes over the schema changes.  The set of keys already reported is the
  list of them.\<close>

definition compare_declarations ::
  "(schema_change \<Rightarrow> val option) \<Rightarrow> schema_change list \<Rightarrow> schema_change list \<Rightarrow> schema_change list \<times> conflict_ref list" where
  "compare_declarations js our_schema their_schema =
     fold (\<lambda>change (schema, conflicts). case by_declaration our_schema (declaration_of change) of
         Some ours \<Rightarrow> if \<not> change_eq ours change then (schema, conflicts @ [redefined js ours change]) else (schema, conflicts)
       | None \<Rightarrow> (schema @ [change], conflicts)) their_schema ([], [])"

definition changes_to :: "schema_change list \<Rightarrow> string \<Rightarrow> schema_change list" where
  "changes_to changes t = filter (\<lambda>c. table_of c = t) changes"

definition tables_redefined :: "schema_change list \<Rightarrow> string list" where
  "tables_redefined changes = map table_of (filter is_table_scoped changes)"

definition string_set :: "string list \<Rightarrow> string list" where
  "string_set ks = omkeys (fold (\<lambda>k. omput k ()) ks omempty)"

definition report_once :: "conflict_ref \<Rightarrow> string list \<times> conflict_ref list \<Rightarrow> string list \<times> conflict_ref list" where
  "report_once c s = (case s of (reported, conflicts) \<Rightarrow>
     if cf_key c \<in> set reported then (reported, conflicts) else (reported @ [cf_key c], conflicts @ [c]))"

definition compare_table ::
  "schema_change list \<Rightarrow> schema_change list \<Rightarrow> string \<Rightarrow> string list \<times> conflict_ref list \<Rightarrow> string list \<times> conflict_ref list" where
  "compare_table our_schema their_schema t s =
     (let ours_here = changes_to our_schema t; theirs_here = changes_to their_schema t in
      if ours_here = [] \<or> theirs_here = [] then s
      else if list_all2 change_eq ours_here theirs_here then s
      else report_once \<lparr>cf_key = ''schema:'' @ t, cf_ours = None, cf_theirs = None,
             cf_reason = ''one branch redefined the table `'' @ t @
               ''` while the other changed it; merging would apply a change to a table the other side had already replaced or removed''\<rparr> s)"

definition ours_declared :: "schema_change list \<Rightarrow> (string \<times> string option) list" where
  "ours_declared our_schema = map declaration_of our_schema @ List.map_filter creates_declaration our_schema"

definition compare_rename ::
  "schema_change list \<Rightarrow> schema_change \<Rightarrow> string list \<times> conflict_ref list \<Rightarrow> string list \<times> conflict_ref list" where
  "compare_rename our_schema change s =
     (case creates_declaration change of
        None \<Rightarrow> s
      | Some d \<Rightarrow> if d \<notin> set (ours_declared our_schema) then s
          else let name = declaration_name d in
            report_once \<lparr>cf_key = ''schema:'' @ name, cf_ours = None, cf_theirs = None,
              cf_reason = ''one branch renamed a column to `'' @ name @ ''` while the other declared `'' @ name @
                ''` itself; merging would leave two definitions competing for one name''\<rparr> s)"

definition merge_schema ::
  "(schema_change \<Rightarrow> val option) \<Rightarrow> schema_change list \<Rightarrow> schema_change list \<Rightarrow> schema_change list \<times> conflict_ref list" where
  "merge_schema js our_schema their_schema =
     (case compare_declarations js our_schema their_schema of (schema, conflicts) \<Rightarrow>
        let contested = string_set (tables_redefined their_schema @ tables_redefined our_schema);
            s1 = fold (compare_table our_schema their_schema) contested (map cf_key conflicts, conflicts);
            s2 = fold (compare_rename our_schema) their_schema s1
        in (schema, snd s2))"

section \<open>What a side did to a key\<close>

datatype side_effect =
    Assigned "val option"
  | CrdtOps "op_type list"

type_synonym effects = "(string, side_effect) omap"

fun contributes_to_a_merge :: "op_type \<Rightarrow> bool" where
  "contributes_to_a_merge (BranchCreate _ _) = False"
| "contributes_to_a_merge (Merge _ _) = False"
| "contributes_to_a_merge _ = True"

fun collect_effects :: "op_type \<Rightarrow> effects \<Rightarrow> effects"
  and collect_all :: "op_type list \<Rightarrow> effects \<Rightarrow> effects" where
  "collect_effects (Put k x) out = omput k (Assigned (Some x)) out"
| "collect_effects (Delete k) out = omput k (Assigned None) out"
| "collect_effects (Crdt k m) out =
     (case omget out k of
        Some (CrdtOps ops) \<Rightarrow> omput k (CrdtOps (ops @ [Crdt k m])) out
      | _ \<Rightarrow> omput k (CrdtOps [Crdt k m]) out)"
| "collect_effects (Transaction ops) out = collect_all ops out"
| "collect_effects (SchemaOp _) out = out"
| "collect_effects (BranchCreate _ _) out = out"
| "collect_effects (Merge _ _) out = out"
| "collect_all [] out = out"
| "collect_all (op # ops) out = collect_all ops (collect_effects op out)"

definition effects_of :: "log_entry list \<Rightarrow> effects" where
  "effects_of es = fold (\<lambda>e. collect_effects (le_op e)) es omempty"

fun replay_effect :: "string \<Rightarrow> side_effect \<Rightarrow> op_type list" where
  "replay_effect k (Assigned (Some x)) = [Put k x]"
| "replay_effect k (Assigned None) = [Delete k]"
| "replay_effect k (CrdtOps ops) = ops"

fun describe_effect :: "side_effect \<Rightarrow> view \<Rightarrow> string \<Rightarrow> val option" where
  "describe_effect (Assigned x) v k = x"
| "describe_effect (CrdtOps _) v k = get_crdt v k"

section \<open>The merge\<close>

record merge_acc =
  ma_ops :: "op_type list"
  ma_crdt :: "(string, crdt_state) omap"
  ma_converged :: "string list"
  ma_conflicts :: "conflict_ref list"

definition conflict :: "string \<Rightarrow> val option \<Rightarrow> val option \<Rightarrow> string \<Rightarrow> merge_acc \<Rightarrow> merge_acc" where
  "conflict k ours theirs why acc =
     acc\<lparr>ma_conflicts := ma_conflicts acc @ [\<lparr>cf_key = k, cf_ours = ours, cf_theirs = theirs, cf_reason = why\<rparr>]\<rparr>"

definition converge :: "string \<Rightarrow> crdt_state \<Rightarrow> merge_acc \<Rightarrow> merge_acc" where
  "converge k st acc = acc\<lparr>ma_crdt := omput k st (ma_crdt acc), ma_converged := ma_converged acc @ [k]\<rparr>"

definition merge_key :: "view \<Rightarrow> view \<Rightarrow> effects \<Rightarrow> effects \<Rightarrow> string \<Rightarrow> merge_acc \<Rightarrow> merge_acc" where
  "merge_key tv sv ours theirs k acc =
     (case (omget ours k, omget theirs k) of
        (None, Some (Assigned x)) \<Rightarrow> acc\<lparr>ma_ops := ma_ops acc @ replay_effect k (Assigned x)\<rparr>
      | (None, Some (CrdtOps _)) \<Rightarrow>
          (case omget (vw_crdts sv) k of None \<Rightarrow> acc | Some st \<Rightarrow> converge k st acc)
      | (Some _, None) \<Rightarrow> acc
      | (Some (CrdtOps _), Some (CrdtOps _)) \<Rightarrow>
          (case (omget (vw_crdts tv) k, omget (vw_crdts sv) k) of
             (Some a, Some b) \<Rightarrow>
               (case state_merge a b of
                  Some m \<Rightarrow> converge k m acc
                | None \<Rightarrow> conflict k (Some (state_value a)) (Some (state_value b))
                    ''the branches gave this field different CRDT types; merging would discard one side's type'' acc)
           | (None, Some b) \<Rightarrow> converge k b acc
           | _ \<Rightarrow> acc)
      | (Some (Assigned x), Some (Assigned y)) \<Rightarrow>
          if value_option_eq x y then acc
          else conflict k x y
            ''both branches wrote this field, and it has no CRDT type that would let the writes converge'' acc
      | (Some a, Some b) \<Rightarrow> conflict k (describe_effect a tv k) (describe_effect b sv k)
          ''the branches disagree on whether this field is CRDT-typed; merging would discard one side's type'' acc
      | (None, None) \<Rightarrow> acc)"

text \<open>From the two histories since the base, oldest first.\<close>

definition merge_histories ::
  "(schema_change \<Rightarrow> val option) \<Rightarrow> view \<Rightarrow> view \<Rightarrow> log_entry list \<Rightarrow> log_entry list \<Rightarrow> merge_outcome" where
  "merge_histories js tv sv ours theirs =
     (case merge_schema js (schema_changes ours) (schema_changes theirs) of (schema, conflicts) \<Rightarrow>
        let oe = effects_of ours; te = effects_of theirs;
            touched = string_set (omkeys te @ omkeys oe);
            acc = fold (merge_key tv sv oe te) touched
              \<lparr>ma_ops = [], ma_crdt = omempty, ma_converged = [], ma_conflicts = conflicts\<rparr>
        in if ma_conflicts acc \<noteq> [] then Conflicted (ma_conflicts acc)
           else Merged schema (ma_ops acc) (ma_crdt acc) (ma_converged acc))"

definition merge_branches ::
  "(schema_change \<Rightarrow> val option) \<Rightarrow> log_store \<Rightarrow> nat \<Rightarrow> nat \<Rightarrow> hash option \<Rightarrow> view \<Rightarrow> view \<Rightarrow>
    (storage_error + merge_outcome) option" where
  "merge_branches js st source target base tv sv =
     (if ls_head st source = None \<or> ls_head st source = base then Some (Inr UpToDate)
      else if ls_head st target = ls_head st source then Some (Inr UpToDate)
      else case ls_history st source base of
        None \<Rightarrow> None
      | Some (Inl e) \<Rightarrow> Some (Inl e)
      | Some (Inr theirs) \<Rightarrow>
          if list_all (\<lambda>e. \<not> contributes_to_a_merge (le_op e)) (rev theirs) then Some (Inr UpToDate)
          else (case ls_history st target base of
              None \<Rightarrow> None
            | Some (Inl e) \<Rightarrow> Some (Inl e)
            | Some (Inr ours) \<Rightarrow> Some (Inr (merge_histories js tv sv (rev ours) (rev theirs)))))"

text \<open>\<open>merge_crdt_states\<close>, for promoting a shadow branch.\<close>

definition merge_crdt_states ::
  "(string, crdt_state) omap \<Rightarrow> (string, crdt_state) omap \<Rightarrow> string list \<times> (string, crdt_state) omap" where
  "merge_crdt_states ours theirs =
     fold (\<lambda>(k, st) (bad, m). case omget m k of
         Some a \<Rightarrow> (case state_merge a st of Some a' \<Rightarrow> (bad, omput k a' m) | None \<Rightarrow> (bad @ [k], m))
       | None \<Rightarrow> (bad, omput k st m)) (omlist theirs) ([], ours)"

section \<open>Landing a merge\<close>

text \<open>What an outcome does to the target's view: \<open>apply_to\<close> of \<open>mergequeue.rs\<close>, which goes
  through the same fold the engine's entries do.\<close>

definition synthetic :: "op_type \<Rightarrow> log_entry" where
  "synthetic op = \<lparr>le_prev = zero_hash, le_commit = 0, le_branch = 0, le_op = op, le_author = System, le_ts = 0\<rparr>"

definition landing_entries :: "schema_change list \<Rightarrow> op_type list \<Rightarrow> log_entry list" where
  "landing_entries schema ops =
     map (\<lambda>c. synthetic (SchemaOp c)) schema @ (if ops = [] then [] else [synthetic (Transaction ops)])"

definition apply_to :: "(val \<Rightarrow> byte list) \<Rightarrow> merge_outcome \<Rightarrow> view \<Rightarrow> view" where
  "apply_to enc outcome v =
     (case outcome of
        Merged schema ops crdts _ \<Rightarrow>
          let v1 = fold (view_apply enc) (landing_entries schema ops) v
          in v1\<lparr>vw_crdts := fold (\<lambda>(k, st). omput k st) (omlist crdts) (vw_crdts v1)\<rparr>
      | _ \<Rightarrow> v)"

end
