(* ===== verification/Store_Merge_Laws.thy ===== *)
theory Store_Merge_Laws
  imports Store_Merge
begin

text \<open>
  What a merge decides and what it lands, said in terms of the last operation each side
  made on a key: which divergences go to a human, and what the target holds afterwards.
\<close>

section \<open>The last operation on a key\<close>

definition key_ops :: "string \<Rightarrow> log_entry list \<Rightarrow> op_type list" where
  "key_ops k es = filter (moves_version k) (concat (map (\<lambda>e. op_leaves (le_op e)) es))"

definition last_op :: "string \<Rightarrow> log_entry list \<Rightarrow> op_type option" where
  "last_op k es = (case key_ops k es of [] \<Rightarrow> None | op # ops \<Rightarrow> Some (last (op # ops)))"

definition effect_leaf :: "string \<Rightarrow> op_type \<Rightarrow> side_effect option \<Rightarrow> side_effect option" where
  "effect_leaf k op e =
     (case op of
        Put k' x \<Rightarrow> if k' = k then Some (Assigned (Some x)) else e
      | Delete k' \<Rightarrow> if k' = k then Some (Assigned None) else e
      | Crdt k' m \<Rightarrow> if k' = k then Some (CrdtOps ((case e of Some (CrdtOps ops) \<Rightarrow> ops | _ \<Rightarrow> []) @ [Crdt k m])) else e
      | _ \<Rightarrow> e)"

lemma collect_effects_get:
  "omget (collect_effects op m) k = fold (effect_leaf k) (op_leaves op) (omget m k)"
  "omget (collect_all ops m) k = fold (effect_leaf k) (ops_leaves ops) (omget m k)"
  by (induction op m and ops m rule: collect_effects_collect_all.induct)
    (auto simp: effect_leaf_def split: option.splits side_effect.splits)

lemma effects_of_get:
  "omget (effects_of es) k = fold (effect_leaf k) (concat (map (\<lambda>e. op_leaves (le_op e)) es)) None"
proof -
  have "omget (fold (\<lambda>e. collect_effects (le_op e)) es m) k =
      fold (effect_leaf k) (concat (map (\<lambda>e. op_leaves (le_op e)) es)) (omget m k)" for m
    by (induction es arbitrary: m) (simp_all add: collect_effects_get)
  then show ?thesis by (simp add: effects_of_def)
qed

lemma effect_leaf_skip: "\<not> moves_version k op \<Longrightarrow> effect_leaf k op e = e"
  by (cases op) (auto simp: effect_leaf_def)

lemma fold_effect_filter: "fold (effect_leaf k) ops e = fold (effect_leaf k) (filter (moves_version k) ops) e"
  by (induction ops arbitrary: e) (auto simp: effect_leaf_skip)

text \<open>An operation read as an effect, the operations of a replicated field forgotten.\<close>

fun same_effect :: "op_type option \<Rightarrow> side_effect option \<Rightarrow> bool" where
  "same_effect None e \<longleftrightarrow> e = None"
| "same_effect (Some (Put _ x)) e \<longleftrightarrow> e = Some (Assigned (Some x))"
| "same_effect (Some (Delete _)) e \<longleftrightarrow> e = Some (Assigned None)"
| "same_effect (Some (Crdt _ _)) e \<longleftrightarrow> (\<exists>ops. e = Some (CrdtOps ops))"
| "same_effect (Some _) e \<longleftrightarrow> False"

lemma effects_last: "same_effect (last_op k es) (omget (effects_of es) k)"
proof -
  have "same_effect (case ops of [] \<Rightarrow> None | op # ops \<Rightarrow> Some (last (op # ops))) (fold (effect_leaf k) ops None)"
    if "\<forall>op \<in> set ops. moves_version k op" for ops
    using that
  proof (induction ops rule: rev_induct)
    case (snoc op ops)
    then show ?case by (cases op; cases ops) (auto simp: effect_leaf_def)
  qed simp
  from this [of "key_ops k es"] show ?thesis
    by (simp add: last_op_def effects_of_get fold_effect_filter [of k "concat _"] key_ops_def)
qed

section \<open>Which divergences are disputes\<close>

fun is_crdt_op :: "op_type \<Rightarrow> bool" where
  "is_crdt_op (Crdt _ _) = True"
| "is_crdt_op _ = False"

fun assigned_value :: "op_type \<Rightarrow> val option" where
  "assigned_value (Put _ x) = Some x"
| "assigned_value _ = None"











lemma string_set_set: "set (string_set ks) = set ks"
proof -
  have "omhas (fold (\<lambda>k. omput k ()) ks m) k \<longleftrightarrow> k \<in> set ks \<or> omhas m k" for k and m :: "(string, unit) omap"
    by (induction ks arbitrary: m) auto
  then show ?thesis by (auto simp: string_set_def omkeys_set omhas_def)
qed

lemma string_set_distinct: "distinct (string_set ks)"
  by (simp add: string_set_def)

subsection \<open>Schema passes\<close>











subsection \<open>Keys\<close>

text \<open>What one key adds to the outcome does not depend on the others.\<close>

definition empty_acc :: merge_acc where
  "empty_acc = \<lparr>ma_ops = [], ma_crdt = omempty, ma_converged = [], ma_conflicts = []\<rparr>"

definition key_result :: "view \<Rightarrow> view \<Rightarrow> effects \<Rightarrow> effects \<Rightarrow> string \<Rightarrow> merge_acc" where
  "key_result tv sv oe te k = merge_key tv sv oe te k empty_acc"

lemma report_parts:
  "ma_ops (conflict k a b why acc) = ma_ops acc" "ma_crdt (conflict k a b why acc) = ma_crdt acc"
  "ma_conflicts (conflict k a b why acc) = ma_conflicts acc @ [\<lparr>cf_key = k, cf_ours = a, cf_theirs = b, cf_reason = why\<rparr>]"
  "ma_ops (converge k st acc) = ma_ops acc" "ma_crdt (converge k st acc) = omput k st (ma_crdt acc)"
  "ma_conflicts (converge k st acc) = ma_conflicts acc"
  "ma_ops empty_acc = []" "ma_crdt empty_acc = omempty" "ma_conflicts empty_acc = []"
  by (simp_all add: conflict_def converge_def empty_acc_def)

lemma merge_key_parts:
  "ma_ops (merge_key tv sv oe te k acc) = ma_ops acc @ ma_ops (key_result tv sv oe te k)"
  "ma_conflicts (merge_key tv sv oe te k acc) = ma_conflicts acc @ ma_conflicts (key_result tv sv oe te k)"
  "omget (ma_crdt (merge_key tv sv oe te k acc)) k' =
     (if k' = k \<and> omget (ma_crdt (key_result tv sv oe te k)) k \<noteq> None
      then omget (ma_crdt (key_result tv sv oe te k)) k else omget (ma_crdt acc) k')"
  unfolding key_result_def merge_key_def
  by (cases "omget oe k"; cases "omget te k"; simp add: report_parts split: side_effect.split option.split)+

lemma fold_merge_key:
  "ma_ops (fold (merge_key tv sv oe te) ks acc) = ma_ops acc @ concat (map (\<lambda>k. ma_ops (key_result tv sv oe te k)) ks)"
  "ma_conflicts (fold (merge_key tv sv oe te) ks acc) = ma_conflicts acc @ concat (map (\<lambda>k. ma_conflicts (key_result tv sv oe te k)) ks)"
  by (induction ks arbitrary: acc) (simp_all add: merge_key_parts)

lemma fold_merge_crdt:
  "distinct ks \<Longrightarrow> omget (ma_crdt (fold (merge_key tv sv oe te) ks acc)) k =
     (if k \<in> set ks \<and> omget (ma_crdt (key_result tv sv oe te k)) k \<noteq> None
      then omget (ma_crdt (key_result tv sv oe te k)) k else omget (ma_crdt acc) k)"
  by (induction ks arbitrary: acc) (auto simp: merge_key_parts(3))


lemma touched_keys:
  "k \<in> set (string_set (omkeys (effects_of theirs) @ omkeys (effects_of ours))) \<longleftrightarrow>
     last_op k ours \<noteq> None \<or> last_op k theirs \<noteq> None"
proof -
  have eff: "omget (effects_of es) k = None \<longleftrightarrow> last_op k es = None" for es
    using effects_last [of k es] by (cases "last_op k es"; cases "the (last_op k es)") auto
  show ?thesis using eff [of ours] eff [of theirs] by (auto simp: string_set_set omkeys_set)
qed





section \<open>What a merge lands\<close>

lemma key_result_ops:
  "ma_ops (key_result tv sv (effects_of ours) (effects_of theirs) k) =
     (case (last_op k ours, last_op k theirs) of
        (None, Some (Put _ x)) \<Rightarrow> [Put k x]
      | (None, Some (Delete _)) \<Rightarrow> [Delete k]
      | _ \<Rightarrow> [])"
proof (cases "last_op k ours")
  case None
  then show ?thesis using effects_last [of k ours] effects_last [of k theirs]
    by (cases "last_op k theirs"; cases "the (last_op k theirs)")
      (auto simp: key_result_def merge_key_def empty_acc_def converge_def split: option.splits)
next
  case (Some a)
  then show ?thesis using effects_last [of k ours] effects_last [of k theirs]
    by (cases a; cases "last_op k theirs"; cases "the (last_op k theirs)")
      (auto simp: key_result_def merge_key_def empty_acc_def conflict_def converge_def split: option.splits)
qed

text \<open>The state the merge takes for a replicated field.\<close>

definition merged_state :: "view \<Rightarrow> view \<Rightarrow> log_entry list \<Rightarrow> log_entry list \<Rightarrow> string \<Rightarrow> crdt_state option" where
  "merged_state tv sv ours theirs k =
     (case last_op k theirs of
        Some (Crdt _ _) \<Rightarrow>
          (case (last_op k ours, omget (vw_crdts tv) k, omget (vw_crdts sv) k) of
             (None, _, b) \<Rightarrow> b
           | (Some (Crdt _ _), None, b) \<Rightarrow> b
           | (Some (Crdt _ _), Some a, Some b) \<Rightarrow> state_merge a b
           | _ \<Rightarrow> None)
      | _ \<Rightarrow> None)"

lemma key_result_crdt:
  "omget (ma_crdt (key_result tv sv (effects_of ours) (effects_of theirs) k)) k = merged_state tv sv ours theirs k"
proof (cases "last_op k ours")
  case None
  then show ?thesis using effects_last [of k ours] effects_last [of k theirs]
    by (cases "last_op k theirs"; cases "the (last_op k theirs)")
      (auto simp: key_result_def merge_key_def empty_acc_def converge_def merged_state_def split: option.splits)
next
  case (Some a)
  then show ?thesis using effects_last [of k ours] effects_last [of k theirs]
    by (cases a; cases "last_op k theirs"; cases "the (last_op k theirs)")
      (auto simp: key_result_def merge_key_def empty_acc_def conflict_def converge_def merged_state_def split: option.splits)
qed

text \<open>Rows and replicated fields after schema changes that rewrite no rows.\<close>

lemma schema_keeps_rows:
  "\<not> rewrites_rows (SchemaOp c) \<Longrightarrow> vw_keys (apply_schema c v) = vw_keys v \<and> vw_crdts (apply_schema c v) = vw_crdts v"
  by (cases c) simp_all

lemma land_schema:
  "\<forall>c \<in> set schema. \<not> rewrites_rows (SchemaOp c) \<Longrightarrow>
     vw_keys (fold (view_apply enc) (map (\<lambda>c. synthetic (SchemaOp c)) schema) v) = vw_keys v \<and>
     vw_crdts (fold (view_apply enc) (map (\<lambda>c. synthetic (SchemaOp c)) schema) v) = vw_crdts v"
  by (induction schema arbitrary: v) (simp_all add: view_apply_def synthetic_def Let_def schema_keeps_rows)

definition assigns_only :: "string \<Rightarrow> op_type list \<Rightarrow> bool" where
  "assigns_only k ops \<longleftrightarrow> ops = [] \<or> ops = [Delete k] \<or> (\<exists>x. ops = [Put k x])"

lemma view_ops_append: "view_ops enc ctx (xs @ ys) v = view_ops enc ctx ys (view_ops enc ctx xs v)"
  by (induction xs arbitrary: v) simp_all

lemma land_ops:
  assumes "\<And>k. assigns_only k (f k)" and "distinct ks"
  shows "omget (vw_keys (view_ops enc ctx (concat (map f ks)) v)) k =
      (if k \<in> set ks \<and> f k \<noteq> [] then assigned_value (hd (f k)) else omget (vw_keys v) k)"
    and "vw_crdts (view_ops enc ctx (concat (map f ks)) v) = vw_crdts v"
proof -
  have step: "omget (vw_keys (view_ops enc ctx (f k') v)) k =
      (if k = k' \<and> f k \<noteq> [] then assigned_value (hd (f k)) else omget (vw_keys v) k)"
    "vw_crdts (view_ops enc ctx (f k') v) = vw_crdts v" for k' k v
    using assms(1) [of k'] by (auto simp: assigns_only_def)
  show "omget (vw_keys (view_ops enc ctx (concat (map f ks)) v)) k =
      (if k \<in> set ks \<and> f k \<noteq> [] then assigned_value (hd (f k)) else omget (vw_keys v) k)"
    using assms(2) by (induction ks arbitrary: v) (auto simp: view_ops_append step)
  show "vw_crdts (view_ops enc ctx (concat (map f ks)) v) = vw_crdts v"
    by (induction ks arbitrary: v) (simp_all add: view_ops_append step)
qed

lemma fold_put_get: "distinct (map fst xs) \<Longrightarrow> omget (fold (\<lambda>(k, st). omput k st) xs m) k =
    (case map_of xs k of None \<Rightarrow> omget m k | Some st \<Rightarrow> Some st)"
proof (induction xs arbitrary: m)
  case (Cons x xs)
  obtain a b where x: "x = (a, b)" by (cases x)
  have "map_of xs a = None" using Cons.prems x by (simp add: map_of_eq_None_iff)
  then show ?case using Cons x by (auto split: option.splits)
qed simp

text \<open>C26: Landing a merge that carries no schema change rewriting rows gives the target
  both sides' work: a key that only the source changed, and only by plain writes, reads as
  the source's last write or is gone as it is there; a key the target changed, or the source
  changed by replicated operations only, keeps the plain value the target has; and a
  replicated field is the join of the two states, or the source's where the target has none
  or did not change it.  Keys the source changed by both kinds of operation are left out.\<close>

theorem merge_lands_both_sides:
  assumes "merge_histories js tv sv ours theirs = Merged schema ops crdts converged"
    and "\<forall>c \<in> set schema. \<not> rewrites_rows (SchemaOp c)"
    and "list_all is_crdt_op (key_ops k theirs) \<or> list_all (\<lambda>op. \<not> is_crdt_op op) (key_ops k theirs)"
    and "v = apply_to enc (Merged schema ops crdts converged) tv"
  shows "view_get v k =
      (case (last_op k ours, last_op k theirs) of
         (None, Some (Put _ x)) \<Rightarrow> Some x
       | (None, Some (Delete _)) \<Rightarrow> None
       | _ \<Rightarrow> view_get tv k) \<and>
     omget (vw_crdts v) k =
      (case merged_state tv sv ours theirs k of None \<Rightarrow> omget (vw_crdts tv) k | Some st \<Rightarrow> Some st)"
proof -
  let ?f = "\<lambda>k. ma_ops (key_result tv sv (effects_of ours) (effects_of theirs) k)"
  let ?ks = "string_set (omkeys (effects_of theirs) @ omkeys (effects_of ours))"
  obtain cs where "merge_schema js (schema_changes ours) (schema_changes theirs) = (schema, cs)"
    using assms(1) by (auto simp: merge_histories_def Let_def split: prod.splits if_splits)
  then have ops: "ops = concat (map ?f ?ks)"
    and crdts: "crdts = ma_crdt (fold (merge_key tv sv (effects_of ours) (effects_of theirs)) ?ks
        \<lparr>ma_ops = [], ma_crdt = omempty, ma_converged = [], ma_conflicts = cs\<rparr>)"
    using assms(1) by (auto simp: merge_histories_def Let_def fold_merge_key split: if_splits)
  have f: "assigns_only k (?f k)" for k
    by (simp add: key_result_ops assigns_only_def split: option.splits op_type.splits)
  obtain v1 where v1: "v1 = fold (view_apply enc) (map (\<lambda>c. synthetic (SchemaOp c)) schema) tv" by simp
  have keep: "vw_keys v1 = vw_keys tv" "vw_crdts v1 = vw_crdts tv" using land_schema [OF assms(2)] v1 by simp_all
  obtain v2 where v2: "v2 = fold (view_apply enc) (landing_entries schema ops) tv" by simp
  have parts: "vw_keys v2 = vw_keys (view_ops enc (entry_ctx (synthetic (Transaction ops))) ops v1)"
    "vw_crdts v2 = vw_crdts (view_ops enc (entry_ctx (synthetic (Transaction ops))) ops v1)"
    by (simp_all add: v2 v1 landing_entries_def view_apply_def synthetic_def Let_def)
  have v: "vw_keys v = vw_keys v2" "vw_crdts v = fold (\<lambda>(k, st). omput k st) (omlist crdts) (vw_crdts v2)"
    by (simp_all add: assms(4) apply_to_def v2 Let_def)
  have "view_get v k = (if k \<in> set ?ks \<and> ?f k \<noteq> [] then assigned_value (hd (?f k)) else view_get tv k)"
    using land_ops(1) [OF f string_set_distinct, of enc _ "omkeys (effects_of theirs) @ omkeys (effects_of ours)" v1 k]
    by (simp only: view_get_def v(1) parts(1) ops keep(1))
  then have keys: "view_get v k =
      (case (last_op k ours, last_op k theirs) of
         (None, Some (Put _ x)) \<Rightarrow> Some x
       | (None, Some (Delete _)) \<Rightarrow> None
       | _ \<Rightarrow> view_get tv k)"
    using touched_keys [of k theirs ours] by (simp add: key_result_ops split: option.splits op_type.splits)
  have "omget crdts k = (if k \<in> set ?ks then merged_state tv sv ours theirs k else None)"
    unfolding crdts by (simp add: fold_merge_crdt string_set_distinct key_result_crdt)
  also have "\<dots> = merged_state tv sv ours theirs k"
    using touched_keys [of k theirs ours] by (simp add: merged_state_def)
  finally have "omget crdts k = merged_state tv sv ours theirs k" .
  moreover have "vw_crdts v2 = vw_crdts tv"
    using land_ops(2) [OF f string_set_distinct] by (simp only: parts(2) ops keep(2))
  ultimately have "omget (vw_crdts v) k =
      (case merged_state tv sv ours theirs k of None \<Rightarrow> omget (vw_crdts tv) k | Some st \<Rightarrow> Some st)"
    using al_ok_distinct [OF omlist_ok, of crdts]
    by (simp add: v(2) fold_put_get omget_map_of [symmetric])
  with keys show ?thesis by simp
qed

lemma merge_lands_both_sides_witness:
  "view_get (apply_to (\<lambda>_. []) (Merged [] [Put ''t:2'' (VInt 2)] omempty []) (view_replay (\<lambda>_. []) [put_entry 1 (Put ''t:1'' (VInt 1))]))
     ''t:2'' = Some (VInt 2)"
  using merge_lands_both_sides [where js = "\<lambda>_. None" and tv = "view_replay (\<lambda>_. []) [put_entry 1 (Put ''t:1'' (VInt 1))]"
      and sv = view_new and ours = "[put_entry 1 (Put ''t:1'' (VInt 1))]" and theirs = "[put_entry 2 (Put ''t:2'' (VInt 2))]"
      and schema = "[]" and ops = "[Put ''t:2'' (VInt 2)]" and crdts = omempty and converged = "[]" and enc = "\<lambda>_. []"
      and k = "''t:2''", OF _ _ _ refl]
  by (simp add: merge_histories_def merge_schema_def schema_changes_def put_entry_def compare_declarations_def
      string_set_def tables_redefined_def effects_of_def omkeys_def merge_key_def last_op_def key_ops_def)

section \<open>What the code gets wrong\<close>

text \<open>The check for two columns racing for one name looks at the source's renames only; a
  rename made on both sides, which is no divergence, it reports.\<close>

lemma merge_misses_target_rename:
  "fd_name f \<noteq> ''a'' \<Longrightarrow> map cf_key (snd (merge_schema js [AddColumn ''t'' f] [RenameColumn ''t'' ''a'' (fd_name f)])) = [''schema:t.'' @ fd_name f]"
  "fd_name f \<noteq> ''a'' \<Longrightarrow> snd (merge_schema js [RenameColumn ''t'' ''a'' (fd_name f)] [AddColumn ''t'' f]) = []"
  by (auto simp: merge_schema_def compare_declarations_def by_declaration_def string_set_def tables_redefined_def
      compare_rename_def ours_declared_def map_filter_simps report_once_def declaration_name_def redefined_def omkeys_def Let_def)

lemma same_rename_conflicts:
  "map cf_key (snd (merge_schema js [RenameColumn ''t'' ''a'' ''b''] [RenameColumn ''t'' ''a'' ''b''])) = [''schema:t.b'']"
  by (simp add: merge_schema_def compare_declarations_def by_declaration_def string_set_def tables_redefined_def
      compare_rename_def ours_declared_def map_filter_simps report_once_def declaration_name_def redefined_def omkeys_def Let_def)

text \<open>A write followed by a merge operation on one branch: the write is lost in the merge,
  while the view of the branch still serves it.\<close>

lemma merge_loses_mixed_write:
  "ma_ops (key_result tv sv (effects_of []) (effects_of [put_entry 1 (Put k x), put_entry 2 (Crdt k m)]) k) = []"
  by (simp add: last_op_def key_ops_def put_entry_def key_result_ops)

text \<open>The schema changes of the source land before its writes, whatever their order on the
  source: a row written before a rename lands under the old column name.\<close>

lemma merge_lands_unrenamed_rows:
  "merge_histories js tv sv [] [put_entry 1 (Put ''t:1'' (VMap [(''a'', VInt 1)])), put_entry 2 (SchemaOp (RenameColumn ''t'' ''a'' ''b''))] =
     Merged [RenameColumn ''t'' ''a'' ''b''] [Put ''t:1'' (VMap [(''a'', VInt 1)])] omempty []"
  "view_get (apply_to enc (Merged [RenameColumn ''t'' ''a'' ''b''] [Put ''t:1'' (VMap [(''a'', VInt 1)])] omempty []) view_new) ''t:1'' =
     Some (VMap [(''a'', VInt 1)])"
  "view_get (view_replay enc [put_entry 1 (Put ''t:1'' (VMap [(''a'', VInt 1)])), put_entry 2 (SchemaOp (RenameColumn ''t'' ''a'' ''b''))]) ''t:1'' =
     Some (VMap [(''b'', VInt 1)])"
    apply (simp add: merge_histories_def merge_schema_def schema_changes_def put_entry_def compare_declarations_def
      by_declaration_def string_set_def tables_redefined_def compare_rename_def ours_declared_def map_filter_simps
      effects_of_def omkeys_def merge_key_def Let_def)
   apply (simp add: apply_to_def landing_entries_def synthetic_def view_apply_def Let_def view_get_def view_new_def)
  apply (simp add: view_replay_def view_apply_def Let_def view_get_def put_entry_def view_new_def
      rename_column_values_def table_mut_def reindex_row_def keys_of_def rename_value_def indexed_columns_def
      addressed_def prefix_range_def address_prefix_def starts_with_def parse_address_def schema_table_def
      schema_default_def omkeys_def)
  done

end
