(* ===== verification/Store_MergeQueue.thy ===== *)
theory Store_MergeQueue
  imports Store_Merge_Laws "HOL-Library.Sublist"
begin

text \<open>
  The merge queue (\<open>theta-storage/src/mergequeue.rs\<close>): merges checked at enqueue against
  the target as it will be, with everything ahead of them landed.
\<close>

section \<open>The queue\<close>

record queued_merge =
  qd_ticket :: nat
  qd_source :: nat
  qd_base :: "hash option"
  qd_at :: int
  qd_outcome :: merge_outcome

datatype enqueue_error =
    WouldConflict "conflict_ref list" "nat option"
  | NothingToMerge
  | AlreadyQueued nat

record evicted_merge =
  ev_ticket :: nat
  ev_source :: nat
  ev_conflicts :: "conflict_ref list"
  ev_reason :: string

record merge_queue =
  mq_target :: nat
  mq_queued :: "queued_merge list"
  mq_next :: nat

definition queue_new :: "nat \<Rightarrow> merge_queue" where
  "queue_new target = \<lparr>mq_target = target, mq_queued = [], mq_next = 1\<rparr>"

definition queue_head :: "merge_queue \<Rightarrow> queued_merge option" where
  "queue_head q = (case mq_queued q of [] \<Rightarrow> None | e # _ \<Rightarrow> Some e)"

fun position_from :: "nat \<Rightarrow> nat \<Rightarrow> queued_merge list \<Rightarrow> nat option" where
  "position_from n source [] = None"
| "position_from n source (e # es) = (if qd_source e = source then Some n else position_from (n + 1) source es)"

definition position_of :: "merge_queue \<Rightarrow> nat \<Rightarrow> nat option" where
  "position_of q source = position_from 0 source (mq_queued q)"

section \<open>Speculation\<close>

definition outcome_entries :: "merge_outcome \<Rightarrow> log_entry list" where
  "outcome_entries outcome = (case outcome of Merged schema ops _ _ \<Rightarrow> landing_entries schema ops | _ \<Rightarrow> [])"

definition pending_entries :: "queued_merge list \<Rightarrow> log_entry list" where
  "pending_entries queued = rev (concat (map (\<lambda>e. outcome_entries (qd_outcome e)) queued))"

definition speculative_store :: "log_store \<Rightarrow> nat \<Rightarrow> log_entry list \<Rightarrow> log_store" where
  "speculative_store st target pending =
     \<lparr>ls_head = ls_head st,
      ls_history = \<lambda>br until'. map_option (map_sum id (\<lambda>real. if br = target then pending @ real else real))
        (ls_history st br until')\<rparr>"

definition speculative_view :: "(val \<Rightarrow> byte list) \<Rightarrow> queued_merge list \<Rightarrow> view \<Rightarrow> view" where
  "speculative_view enc queued tv = fold (\<lambda>e. apply_to enc (qd_outcome e)) queued tv"

text \<open>The merge of one source behind the entries \<open>ahead\<close>.\<close>

definition speculate ::
  "(schema_change \<Rightarrow> val option) \<Rightarrow> (val \<Rightarrow> byte list) \<Rightarrow> log_store \<Rightarrow> view \<Rightarrow> nat \<Rightarrow> queued_merge list \<Rightarrow>
    nat \<Rightarrow> hash option \<Rightarrow> view \<Rightarrow> (storage_error + merge_outcome) option" where
  "speculate js enc st tv target ahead source base sv =
     merge_branches js (speculative_store st target (pending_entries ahead)) source target base
       (speculative_view enc ahead tv) sv"

fun touches :: "string set \<Rightarrow> op_type \<Rightarrow> bool" and any_touches :: "string set \<Rightarrow> op_type list \<Rightarrow> bool" where
  "touches keys (Put k _) \<longleftrightarrow> k \<in> keys"
| "touches keys (Delete k) \<longleftrightarrow> k \<in> keys"
| "touches keys (Crdt k _) \<longleftrightarrow> k \<in> keys"
| "touches keys (Transaction ops) \<longleftrightarrow> any_touches keys ops"
| "touches keys _ \<longleftrightarrow> False"
| "any_touches keys [] \<longleftrightarrow> False"
| "any_touches keys (op # ops) \<longleftrightarrow> touches keys op \<or> any_touches keys ops"

definition outcome_touches :: "string set \<Rightarrow> merge_outcome \<Rightarrow> bool" where
  "outcome_touches keys outcome =
     (case outcome of
        Merged schema ops _ _ \<Rightarrow> list_ex (touches keys) ops \<or>
          list_ex (\<lambda>c. ''schema:'' @ declaration_name (declaration_of c) \<in> keys) schema
      | _ \<Rightarrow> False)"

definition who_touched :: "queued_merge list \<Rightarrow> conflict_ref list \<Rightarrow> nat option" where
  "who_touched queued conflicts =
     map_option qd_ticket (find_first (\<lambda>e. outcome_touches (set (map cf_key conflicts)) (qd_outcome e)) queued)"

section \<open>Operations\<close>

definition enqueue ::
  "(schema_change \<Rightarrow> val option) \<Rightarrow> (val \<Rightarrow> byte list) \<Rightarrow> log_store \<Rightarrow> nat \<Rightarrow> hash option \<Rightarrow> view \<Rightarrow> view \<Rightarrow> int \<Rightarrow>
    merge_queue \<Rightarrow> ((enqueue_error + nat) \<times> merge_queue) option" where
  "enqueue js enc st source base tv sv now q =
     (case find_first (\<lambda>e. qd_source e = source) (mq_queued q) of
        Some e \<Rightarrow> Some (Inl (AlreadyQueued (qd_ticket e)), q)
      | None \<Rightarrow>
          (case speculate js enc st tv (mq_target q) (mq_queued q) source base sv of
             None \<Rightarrow> None
           | Some (Inl _) \<Rightarrow> Some (Inl (WouldConflict [] None), q)
           | Some (Inr UpToDate) \<Rightarrow> Some (Inl NothingToMerge, q)
           | Some (Inr (Conflicted conflicts)) \<Rightarrow>
               Some (Inl (WouldConflict conflicts (who_touched (mq_queued q) conflicts)), q)
           | Some (Inr (Merged schema ops crdts converged)) \<Rightarrow>
               Some (Inr (mq_next q),
                 q\<lparr>mq_next := wrap64 (mq_next q + 1),
                   mq_queued := mq_queued q @ [\<lparr>qd_ticket = mq_next q, qd_source = source, qd_base = base, qd_at = now,
                     qd_outcome = Merged schema ops crdts converged\<rparr>]\<rparr>)))"

definition pop_head :: "merge_queue \<Rightarrow> queued_merge option \<times> merge_queue" where
  "pop_head q = (case mq_queued q of [] \<Rightarrow> (None, q) | e # es \<Rightarrow> (Some e, q\<lparr>mq_queued := es\<rparr>))"

fun remove_first :: "('a \<Rightarrow> bool) \<Rightarrow> 'a list \<Rightarrow> 'a list" where
  "remove_first P [] = []"
| "remove_first P (x # xs) = (if P x then xs else x # remove_first P xs)"

definition withdraw :: "nat \<Rightarrow> merge_queue \<Rightarrow> queued_merge option \<times> merge_queue" where
  "withdraw ticket q =
     (case find_first (\<lambda>e. qd_ticket e = ticket) (mq_queued q) of
        None \<Rightarrow> (None, q)
      | Some e \<Rightarrow> (Some e, q\<lparr>mq_queued := remove_first (\<lambda>e. qd_ticket e = ticket) (mq_queued q)\<rparr>))"

definition evict :: "queued_merge \<Rightarrow> conflict_ref list \<Rightarrow> string \<Rightarrow> evicted_merge" where
  "evict e conflicts why = \<lparr>ev_ticket = qd_ticket e, ev_source = qd_source e, ev_conflicts = conflicts, ev_reason = why\<rparr>"

text \<open>The loop over the queue, with the entries kept so far.  The view it speculates on is
  the target's with those landed.\<close>

fun revalidate_loop ::
  "(schema_change \<Rightarrow> val option) \<Rightarrow> (val \<Rightarrow> byte list) \<Rightarrow> log_store \<Rightarrow> view \<Rightarrow> (nat \<Rightarrow> view option) \<Rightarrow> nat \<Rightarrow>
    queued_merge list \<Rightarrow> evicted_merge list \<Rightarrow> view \<Rightarrow> queued_merge list \<Rightarrow>
    (storage_error + queued_merge list \<times> evicted_merge list) option" where
  "revalidate_loop js enc st tv svs target kept evicted spec [] = Some (Inr (kept, evicted))"
| "revalidate_loop js enc st tv svs target kept evicted spec (e # es) =
     (case svs (qd_source e) of
        None \<Rightarrow> revalidate_loop js enc st tv svs target kept
          (evicted @ [evict e [] ''the source branch is no longer available'']) spec es
      | Some sv \<Rightarrow>
          (case merge_branches js (speculative_store st target (pending_entries kept)) (qd_source e) target (qd_base e) spec sv of
             None \<Rightarrow> None
           | Some (Inl err) \<Rightarrow> Some (Inl err)
           | Some (Inr UpToDate) \<Rightarrow> revalidate_loop js enc st tv svs target kept
               (evicted @ [evict e [] ''these changes are already on the target'']) spec es
           | Some (Inr (Conflicted conflicts)) \<Rightarrow> revalidate_loop js enc st tv svs target kept
               (evicted @ [evict e conflicts
                 ''the target changed while this was queued; it no longer merges cleanly'']) spec es
           | Some (Inr outcome) \<Rightarrow> revalidate_loop js enc st tv svs target (kept @ [e\<lparr>qd_outcome := outcome\<rparr>])
               evicted (apply_to enc outcome spec) es))"

text \<open>The queue is taken before the loop, so an error on the way leaves it empty.\<close>

definition revalidate ::
  "(schema_change \<Rightarrow> val option) \<Rightarrow> (val \<Rightarrow> byte list) \<Rightarrow> log_store \<Rightarrow> view \<Rightarrow> (nat \<Rightarrow> view option) \<Rightarrow>
    merge_queue \<Rightarrow> ((storage_error + evicted_merge list) \<times> merge_queue) option" where
  "revalidate js enc st tv svs q =
     (case revalidate_loop js enc st tv svs (mq_target q) [] [] tv (mq_queued q) of
        None \<Rightarrow> None
      | Some (Inl err) \<Rightarrow> Some (Inl err, q\<lparr>mq_queued := []\<rparr>)
      | Some (Inr (kept, evicted)) \<Rightarrow> Some (Inr evicted, q\<lparr>mq_queued := kept\<rparr>))"

section \<open>The invariant\<close>

fun is_merged :: "merge_outcome \<Rightarrow> bool" where
  "is_merged (Merged _ _ _ _) = True"
| "is_merged _ = False"

definition queue_ok :: "merge_queue \<Rightarrow> bool" where
  "queue_ok q \<longleftrightarrow> sorted_wrt (<) (map qd_ticket (mq_queued q)) \<and> distinct (map qd_source (mq_queued q)) \<and>
     list_all (\<lambda>e. qd_ticket e < mq_next q \<and> is_merged (qd_outcome e)) (mq_queued q)"

text \<open>One call on the queue, whatever store and views it is given, until tickets run out,
  with the ticket it hands out if it does.\<close>

inductive queue_step :: "merge_queue \<Rightarrow> nat list \<Rightarrow> merge_queue \<Rightarrow> bool" where
  step_enqueue: "enqueue js enc st source base tv sv now q = Some (Inr t, q') \<Longrightarrow> mq_next q < u64_max \<Longrightarrow>
     queue_step q [t] q'"
| step_refused: "enqueue js enc st source base tv sv now q = Some (Inl err, q') \<Longrightarrow> queue_step q [] q'"
| step_pop: "pop_head q = (r, q') \<Longrightarrow> queue_step q [] q'"
| step_withdraw: "withdraw ticket q = (r, q') \<Longrightarrow> queue_step q [] q'"
| step_revalidate: "revalidate js enc st tv svs q = Some (r, q') \<Longrightarrow> queue_step q [] q'"

text \<open>The queues a run reaches, with the tickets handed out on the way.\<close>

inductive queue_reachable :: "nat \<Rightarrow> nat list \<Rightarrow> merge_queue \<Rightarrow> bool" for target where
  reach_new: "queue_reachable target [] (queue_new target)"
| reach_step: "queue_reachable target issued q \<Longrightarrow> queue_step q ts q' \<Longrightarrow>
     queue_reachable target (issued @ ts) q'"

lemma find_first_none: "find_first P xs = None \<longleftrightarrow> (\<forall>x \<in> set xs. \<not> P x)"
  by (induction xs) auto

lemma enqueue_ok:
  assumes "queue_ok q" and "enqueue js enc st source base tv sv now q = Some (Inr t, q')" and "mq_next q < u64_max"
  shows "queue_ok q'"
proof -
  have "q' = q \<or> (source \<notin> set (map qd_source (mq_queued q)) \<and> (\<exists>e. qd_ticket e = mq_next q \<and> qd_source e = source \<and>
      is_merged (qd_outcome e) \<and> q' = q\<lparr>mq_next := wrap64 (mq_next q + 1), mq_queued := mq_queued q @ [e]\<rparr>))"
    using assms(2) by (force simp: enqueue_def find_first_none split: option.splits sum.splits merge_outcome.splits)
  then show ?thesis
  proof
    assume "q' = q"
    then show ?thesis using assms(1) by simp
  next
    assume "source \<notin> set (map qd_source (mq_queued q)) \<and> (\<exists>e. qd_ticket e = mq_next q \<and> qd_source e = source \<and>
      is_merged (qd_outcome e) \<and> q' = q\<lparr>mq_next := wrap64 (mq_next q + 1), mq_queued := mq_queued q @ [e]\<rparr>)"
    then show ?thesis using assms(1,3)
      by (fastforce simp: queue_ok_def sorted_wrt_append list_all_iff wrap64_id)
  qed
qed

lemma remove_first_subseq: "subseq (remove_first P xs) xs"
  by (induction xs) (auto intro: subseq_Cons')

lemma subseq_elems: "subseq xs ys \<Longrightarrow> set xs \<subseteq> set ys"
  by (induction rule: list_emb.induct) auto

lemma subseq_keeps_distinct: "subseq xs ys \<Longrightarrow> distinct ys \<Longrightarrow> distinct xs"
  by (induction rule: list_emb.induct) (auto dest: subseq_elems)

lemma sorted_wrt_subseq: "subseq xs ys \<Longrightarrow> sorted_wrt P ys \<Longrightarrow> sorted_wrt P xs"
  by (induction rule: list_emb.induct) (auto dest: subseq_elems)

text \<open>The names of entries: their outcomes may be computed anew.\<close>

definition entry_ids :: "queued_merge list \<Rightarrow> (nat \<times> nat) list" where
  "entry_ids es = map (\<lambda>e. (qd_ticket e, qd_source e)) es"

lemma subseq_ok:
  assumes ok: "queue_ok q" and sub: "subseq (entry_ids es) (entry_ids (mq_queued q))"
    and merged: "list_all (\<lambda>e. is_merged (qd_outcome e)) es"
  shows "queue_ok (q\<lparr>mq_queued := es\<rparr>)"
proof -
  have t: "map fst (entry_ids es) = map qd_ticket es" "map snd (entry_ids es) = map qd_source es" for es
    by (simp_all add: entry_ids_def comp_def)
  have "subseq (map qd_ticket es) (map qd_ticket (mq_queued q))"
    "subseq (map qd_source es) (map qd_source (mq_queued q))"
    using subseq_map [OF sub, of fst] subseq_map [OF sub, of snd] by (simp_all add: t)
  moreover from this(1) have "set (map qd_ticket es) \<subseteq> set (map qd_ticket (mq_queued q))" by (rule subseq_elems)
  ultimately show ?thesis using ok merged
    by (auto simp: queue_ok_def list_all_iff intro: sorted_wrt_subseq subseq_keeps_distinct)
qed

lemma subseq_ids: "subseq es fs \<Longrightarrow> subseq (entry_ids es) (entry_ids fs)"
  unfolding entry_ids_def by (rule subseq_map)

lemma subseq_merged: "queue_ok q \<Longrightarrow> subseq es (mq_queued q) \<Longrightarrow> list_all (\<lambda>e. is_merged (qd_outcome e)) es"
  using subseq_elems by (fastforce simp: queue_ok_def list_all_iff)

section \<open>Revalidation\<close>

text \<open>Every entry merges cleanly into the target with those ahead of it landed, and its
  outcome is the one recorded.\<close>

definition settled ::
  "(schema_change \<Rightarrow> val option) \<Rightarrow> (val \<Rightarrow> byte list) \<Rightarrow> log_store \<Rightarrow> view \<Rightarrow> (nat \<Rightarrow> view option) \<Rightarrow> nat \<Rightarrow>
    queued_merge list \<Rightarrow> bool" where
  "settled js enc st tv svs target queued \<longleftrightarrow>
     (\<forall>i < length queued. is_merged (qd_outcome (queued ! i)) \<and>
        (\<exists>sv. svs (qd_source (queued ! i)) = Some sv \<and>
          speculate js enc st tv target (take i queued) (qd_source (queued ! i)) (qd_base (queued ! i)) sv =
            Some (Inr (qd_outcome (queued ! i)))))"

lemma settled_snoc:
  "settled js enc st tv svs target (queued @ [e]) \<longleftrightarrow> settled js enc st tv svs target queued \<and>
     is_merged (qd_outcome e) \<and> (\<exists>sv. svs (qd_source e) = Some sv \<and>
       speculate js enc st tv target queued (qd_source e) (qd_base e) sv = Some (Inr (qd_outcome e)))"
  by (auto simp: settled_def nth_append less_Suc_eq all_conj_distrib imp_conjR)

lemma speculative_view_snoc:
  "speculative_view enc (es @ [e]) tv = apply_to enc (qd_outcome e) (speculative_view enc es tv)"
  by (simp add: speculative_view_def)

lemma entry_ids_simps [simp]:
  "entry_ids [] = []" "entry_ids (e # es) = (qd_ticket e, qd_source e) # entry_ids es"
  by (simp_all add: entry_ids_def)

definition revalidated ::
  "queued_merge list \<Rightarrow> evicted_merge list \<Rightarrow> queued_merge list \<Rightarrow> queued_merge list \<Rightarrow> evicted_merge list \<Rightarrow> bool" where
  "revalidated kept evicted es kept' evicted' \<longleftrightarrow>
     (\<exists>new. kept' = kept @ new \<and> subseq (entry_ids new) (entry_ids es)) \<and>
     set (map qd_ticket es) \<subseteq> set (map qd_ticket kept') \<union> set (map ev_ticket evicted') \<and>
     set (map ev_ticket evicted) \<subseteq> set (map ev_ticket evicted')"

lemma revalidated_evict:
  "revalidated kept (evicted @ [evict e cs why]) es kept' evicted' \<Longrightarrow> revalidated kept evicted (e # es) kept' evicted'"
  by (auto simp: revalidated_def evict_def)

lemma revalidated_keep:
  assumes "revalidated (kept @ [e\<lparr>qd_outcome := outcome\<rparr>]) evicted es kept' evicted'"
  shows "revalidated kept evicted (e # es) kept' evicted'"
proof -
  obtain new where new: "kept' = kept @ e\<lparr>qd_outcome := outcome\<rparr> # new" "subseq (entry_ids new) (entry_ids es)"
    using assms by (auto simp: revalidated_def)
  then have "kept' = kept @ (e\<lparr>qd_outcome := outcome\<rparr> # new) \<and>
      subseq (entry_ids (e\<lparr>qd_outcome := outcome\<rparr> # new)) (entry_ids (e # es))" by simp
  moreover have "qd_ticket e \<in> set (map qd_ticket kept')" using new(1) by simp
  ultimately show ?thesis using assms by (auto simp: revalidated_def)
qed

lemma revalidate_loop_result:
  assumes "revalidate_loop js enc st tv svs target kept evicted spec es = Some (Inr (kept', evicted'))"
    and "spec = speculative_view enc kept tv" and "settled js enc st tv svs target kept"
  shows "settled js enc st tv svs target kept' \<and> revalidated kept evicted es kept' evicted'"
  using assms
proof (induction js enc st tv svs target kept evicted spec es rule: revalidate_loop.induct)
  case (1 js enc st tv svs target kept evicted spec)
  then show ?case by (auto simp: revalidated_def)
next
  case (2 js enc st tv svs target kept evicted spec e es)
  show ?case
  proof (cases "svs (qd_source e)")
    case None
    then show ?thesis using "2.IH"(1) [OF None _ "2.prems"(2,3)] "2.prems"(1) by (auto intro: revalidated_evict)
  next
    case (Some sv)
    let ?m = "merge_branches js (speculative_store st target (pending_entries kept)) (qd_source e) target (qd_base e) spec sv"
    obtain outcome where m: "?m = Some (Inr outcome)"
      using "2.prems"(1) Some by (auto split: option.splits sum.splits)
    show ?thesis
    proof (cases outcome)
      case UpToDate
      then show ?thesis using "2.IH"(2) [OF Some m refl UpToDate _ "2.prems"(2,3)] "2.prems"(1) Some m
        by (auto intro: revalidated_evict)
    next
      case (Conflicted conflicts)
      then show ?thesis using "2.IH"(4) [OF Some m refl Conflicted _ "2.prems"(2,3)] "2.prems"(1) Some m
        by (auto intro: revalidated_evict)
    next
      case (Merged schema ops crdts converged)
      let ?e = "e\<lparr>qd_outcome := outcome\<rparr>"
      have "settled js enc st tv svs target (kept @ [?e])"
        using "2.prems"(2,3) Some m Merged by (simp add: settled_snoc speculate_def)
      moreover have "apply_to enc outcome spec = speculative_view enc (kept @ [?e]) tv"
        using "2.prems"(2) by (simp add: speculative_view_snoc)
      moreover have "revalidate_loop js enc st tv svs target (kept @ [?e]) evicted (apply_to enc outcome spec) es =
          Some (Inr (kept', evicted'))"
        using "2.prems"(1) Some m Merged by simp
      ultimately show ?thesis using "2.IH"(3) [OF Some m refl Merged] Merged by (auto intro: revalidated_keep)
    qed
  qed
qed

text \<open>An enqueue answered with a ticket keeps what is queued settled and adds an entry that is.\<close>

lemma enqueue_settled:
  assumes "settled js enc st tv svs (mq_target q) (mq_queued q)" and "svs source = Some sv"
    and "enqueue js enc st source base tv sv now q = Some (Inr ticket, q')"
  shows "settled js enc st tv svs (mq_target q') (mq_queued q')"
  using assms by (auto simp: enqueue_def settled_snoc split: option.splits sum.splits merge_outcome.splits)

lemma revalidate_ok:
  assumes "queue_ok q" and "revalidate js enc st tv svs q = Some (r, q')"
  shows "queue_ok q'"
proof (cases "revalidate_loop js enc st tv svs (mq_target q) [] [] tv (mq_queued q)")
  case None
  then show ?thesis using assms(2) by (simp add: revalidate_def)
next
  case (Some res)
  show ?thesis
  proof (cases res)
    case (Inl err)
    then show ?thesis using assms(2) Some by (auto simp: revalidate_def queue_ok_def)
  next
    case (Inr ke)
    obtain kept evicted where ke: "ke = (kept, evicted)" by (cases ke)
    have "settled js enc st tv svs (mq_target q) kept \<and> revalidated [] [] (mq_queued q) kept evicted"
      using Some Inr ke by (intro revalidate_loop_result) (auto simp: speculative_view_def settled_def)
    then have "subseq (entry_ids kept) (entry_ids (mq_queued q))" "list_all (\<lambda>e. is_merged (qd_outcome e)) kept"
      by (auto simp: revalidated_def settled_def list_all_length)
    then show ?thesis using subseq_ok [OF assms(1)] assms(2) Some Inr ke by (auto simp: revalidate_def)
  qed
qed

lemma enqueue_refused: "enqueue js enc st source base tv sv now q = Some (Inl err, q') \<Longrightarrow> q' = q"
  by (auto simp: enqueue_def split: option.splits sum.splits merge_outcome.splits)

lemma enqueue_ticket:
  "enqueue js enc st source base tv sv now q = Some (Inr t, q') \<Longrightarrow> t = mq_next q \<and> mq_next q' = wrap64 (t + 1)"
  by (auto simp: enqueue_def split: option.splits sum.splits merge_outcome.splits)

lemma queue_step_ok: "queue_step q ts q' \<Longrightarrow> queue_ok q \<Longrightarrow> queue_ok q'"
proof (induction rule: queue_step.induct)
  case (step_enqueue js enc st source base tv sv now q t q')
  then show ?case by (blast intro: enqueue_ok)
next
  case (step_refused js enc st source base tv sv now q err q')
  then show ?case using enqueue_refused [OF step_refused(1)] by simp
next
  case (step_pop q r q')
  have "q' = q \<or> (\<exists>e es. mq_queued q = e # es \<and> q' = q\<lparr>mq_queued := es\<rparr>)"
    using step_pop(1) by (auto simp: pop_head_def split: list.splits)
  then show ?case using step_pop(2) by (auto simp: queue_ok_def)
next
  case (step_withdraw ticket q r q')
  have "q' = q \<or> q' = q\<lparr>mq_queued := remove_first (\<lambda>e. qd_ticket e = ticket) (mq_queued q)\<rparr>"
    using step_withdraw(1) by (auto simp: withdraw_def split: option.splits)
  moreover have "queue_ok (q\<lparr>mq_queued := remove_first (\<lambda>e. qd_ticket e = ticket) (mq_queued q)\<rparr>)"
    using subseq_merged [OF step_withdraw(2) remove_first_subseq]
    by (intro subseq_ok subseq_ids step_withdraw(2) remove_first_subseq)
  ultimately show ?case using step_withdraw(2) by auto
next
  case (step_revalidate js enc st tv svs q r q')
  then show ?case by (blast intro: revalidate_ok)
qed

lemma queue_step_target: "queue_step q ts q' \<Longrightarrow> mq_target q' = mq_target q"
  by (induction rule: queue_step.induct)
    (auto simp: enqueue_def pop_head_def withdraw_def revalidate_def
      split: option.splits sum.splits merge_outcome.splits list.splits prod.splits)

text \<open>A step hands out the counter and moves it past, or leaves it alone.\<close>

lemma queue_step_counter:
  "queue_step q ts q' \<Longrightarrow> ts = [] \<and> mq_next q' = mq_next q \<or> ts = [mq_next q] \<and> mq_next q' = mq_next q + 1"
proof (induction rule: queue_step.induct)
  case (step_enqueue js enc st source base tv sv now q t q')
  then show ?case using enqueue_ticket [OF step_enqueue(1)] by (simp add: wrap64_id)
next
  case (step_refused js enc st source base tv sv now q err q')
  then show ?case using enqueue_refused [OF step_refused(1)] by simp
qed (auto simp: pop_head_def withdraw_def revalidate_def
      split: option.splits sum.splits list.splits prod.splits)

text \<open>Only an enqueue puts a new ticket into the queue.\<close>

lemma queue_step_tickets:
  "queue_step q ts q' \<Longrightarrow> queue_ok q \<Longrightarrow>
     set (map qd_ticket (mq_queued q')) \<subseteq> set (map qd_ticket (mq_queued q)) \<union> set ts"
proof (induction rule: queue_step.induct)
  case (step_enqueue js enc st source base tv sv now q t q')
  then show ?case by (auto simp: enqueue_def split: option.splits sum.splits merge_outcome.splits)
next
  case (step_refused js enc st source base tv sv now q err q')
  then show ?case using enqueue_refused [OF step_refused(1)] by simp
next
  case (step_pop q r q')
  then show ?case by (auto simp: pop_head_def split: list.splits)
next
  case (step_withdraw ticket q r q')
  have "set (remove_first P es) \<subseteq> set es" for P and es :: "queued_merge list"
    by (induction es) auto
  then show ?case using step_withdraw(1) by (fastforce simp: withdraw_def split: option.splits)
next
  case (step_revalidate js enc st tv svs q r q')
  show ?case
  proof (cases r)
    case (Inl err)
    then show ?thesis using step_revalidate(1) by (auto simp: revalidate_def split: option.splits sum.splits prod.splits)
  next
    case (Inr evicted)
    then obtain kept where kept: "revalidate_loop js enc st tv svs (mq_target q) [] [] tv (mq_queued q) = Some (Inr (kept, evicted))"
      and q': "q' = q\<lparr>mq_queued := kept\<rparr>"
      using step_revalidate(1) by (auto simp: revalidate_def split: option.splits sum.splits prod.splits)
    have "revalidated [] [] (mq_queued q) kept evicted"
      using revalidate_loop_result [OF kept] by (simp add: speculative_view_def settled_def)
    then have "subseq (entry_ids kept) (entry_ids (mq_queued q))" by (simp add: revalidated_def)
    then have "set (entry_ids kept) \<subseteq> set (entry_ids (mq_queued q))" by (rule subseq_elems)
    then have "fst ` set (entry_ids kept) \<subseteq> fst ` set (entry_ids (mq_queued q))" by blast
    then show ?thesis by (simp add: entry_ids_def image_image q')
  qed
qed

lemma queue_reachable_ok:
  "queue_reachable target issued q \<Longrightarrow> queue_ok q \<and> mq_target q = target \<and> sorted_wrt (<) issued \<and>
     (\<forall>t \<in> set issued. t < mq_next q) \<and> set (map qd_ticket (mq_queued q)) \<subseteq> set issued"
proof (induction rule: queue_reachable.induct)
  case reach_new
  then show ?case by (simp add: queue_new_def queue_ok_def)
next
  case (reach_step issued q ts q')
  have "sorted_wrt (<) (issued @ ts) \<and> (\<forall>t \<in> set (issued @ ts). t < mq_next q')"
    using queue_step_counter [OF reach_step(2)] reach_step.IH by (auto simp: sorted_wrt_append)
  moreover have "set (map qd_ticket (mq_queued q')) \<subseteq> set (issued @ ts)"
    using queue_step_tickets [OF reach_step(2)] reach_step.IH by auto
  ultimately show ?case
    using queue_step_ok [OF reach_step(2)] queue_step_target [OF reach_step(2)] reach_step.IH by blast
qed

text \<open>C27: Whatever is asked of a merge queue, the tickets it hands out go up and up, until
  the counter's 64 bits run out, so none is ever used twice, not even one whose merge has
  been landed, withdrawn or evicted.  What is queued carries tickets that were handed out, in
  ascending order, no source is queued twice, and every queued merge was clean when last
  checked.\<close>

theorem merge_queue_invariant:
  assumes "queue_reachable target issued q"
  shows "sorted_wrt (<) issued \<and> distinct issued \<and>
    (\<forall>js enc st source base tv sv now t q'.
       enqueue js enc st source base tv sv now q = Some (Inr t, q') \<longrightarrow> (\<forall>u \<in> set issued. u < t)) \<and>
    set (map qd_ticket (mq_queued q)) \<subseteq> set issued \<and>
    sorted_wrt (<) (map qd_ticket (mq_queued q)) \<and> distinct (map qd_source (mq_queued q)) \<and>
    list_all (\<lambda>e. is_merged (qd_outcome e)) (mq_queued q) \<and> mq_target q = target"
proof -
  have inv: "queue_ok q" "mq_target q = target" "sorted_wrt (<) issued" "\<forall>t \<in> set issued. t < mq_next q"
      "set (map qd_ticket (mq_queued q)) \<subseteq> set issued"
    using queue_reachable_ok [OF assms] by blast+
  have "distinct issued" using inv(3) by (simp add: strict_sorted_iff)
  moreover have "u < t" if "enqueue js enc st source base tv sv now q = Some (Inr t, q')" "u \<in> set issued"
    for js enc st source base tv sv now t q' u
    using enqueue_ticket [OF that(1)] inv(4) that(2) by simp
  ultimately show ?thesis using inv by (auto simp: queue_ok_def list_all_iff)
qed

text \<open>C28: Revalidation keeps a prediction honest: after it every merge still queued merges
  cleanly, with the outcome recorded, into the target with all those ahead of it landed,
  and every merge that was queued is either still there or reported as evicted.\<close>

theorem queue_predicts_landing:
  assumes "revalidate js enc st tv svs q = Some (Inr evicted, q')"
  shows "settled js enc st tv svs (mq_target q') (mq_queued q') \<and>
    set (map qd_ticket (mq_queued q)) \<subseteq> set (map qd_ticket (mq_queued q')) \<union> set (map ev_ticket evicted)"
proof -
  obtain kept where kept: "revalidate_loop js enc st tv svs (mq_target q) [] [] tv (mq_queued q) = Some (Inr (kept, evicted))"
    and q': "q' = q\<lparr>mq_queued := kept\<rparr>"
    using assms by (auto simp: revalidate_def split: option.splits sum.splits prod.splits)
  have "settled js enc st tv svs (mq_target q) kept \<and> revalidated [] [] (mq_queued q) kept evicted"
    by (rule revalidate_loop_result [OF kept]) (simp_all add: speculative_view_def settled_def)
  then show ?thesis by (simp add: q' revalidated_def)
qed

subsection \<open>An instance\<close>

definition two_branches :: log_store where
  "two_branches = \<lparr>ls_head = \<lambda>br. if br = 1 then Some [1] else None,
     ls_history = \<lambda>br until'. Some (Inr (if br = 1 then [put_entry 2 (Put ''t:2'' (VInt 2))] else []))\<rparr>"

definition one_merge :: queued_merge where
  "one_merge = \<lparr>qd_ticket = 1, qd_source = 1, qd_base = None, qd_at = 0,
     qd_outcome = Merged [] [Put ''t:2'' (VInt 2)] omempty []\<rparr>"

lemmas merge_eval = speculate_def merge_branches_def speculative_store_def pending_entries_def speculative_view_def
  merge_histories_def merge_schema_def schema_changes_def put_entry_def compare_declarations_def string_set_def
  tables_redefined_def effects_of_def omkeys_def merge_key_def two_branches_def

lemma enqueue_instance:
  "enqueue (\<lambda>_. None) (\<lambda>_. []) two_branches 1 None view_new view_new 0 (queue_new 0) =
     Some (Inr 1, \<lparr>mq_target = 0, mq_queued = [one_merge], mq_next = 2\<rparr>)"
  by (simp add: enqueue_def queue_new_def merge_eval one_merge_def wrap64_id)

lemma pop_instance:
  "pop_head \<lparr>mq_target = 0, mq_queued = [one_merge], mq_next = 2\<rparr> =
     (Some one_merge, \<lparr>mq_target = 0, mq_queued = [], mq_next = 2\<rparr>)"
  by (simp add: pop_head_def)

lemma merge_queue_invariant_witness:
  "\<forall>js enc st source base tv sv now q'.
     enqueue js enc st source base tv sv now \<lparr>mq_target = 0, mq_queued = [], mq_next = 2\<rparr> \<noteq> Some (Inr 1, q')"
proof -
  have "queue_reachable 0 ([] @ [1]) \<lparr>mq_target = 0, mq_queued = [one_merge], mq_next = 2\<rparr>"
    by (rule reach_step [OF reach_new step_enqueue [OF enqueue_instance]]) (simp add: queue_new_def)
  then have "queue_reachable 0 (([] @ [1]) @ []) \<lparr>mq_target = 0, mq_queued = [], mq_next = 2\<rparr>"
    by (rule reach_step) (rule step_pop [OF pop_instance])
  from merge_queue_invariant [OF this] show ?thesis by fastforce
qed

lemma revalidate_instance:
  "revalidate (\<lambda>_. None) (\<lambda>_. []) two_branches view_new [1 \<mapsto> view_new]
     \<lparr>mq_target = 0, mq_queued = [one_merge], mq_next = 2\<rparr> =
   Some (Inr [], \<lparr>mq_target = 0, mq_queued = [one_merge], mq_next = 2\<rparr>)"
  by (simp add: revalidate_def merge_eval one_merge_def)

lemma queue_predicts_landing_witness:
  "settled (\<lambda>_. None) (\<lambda>_. []) two_branches view_new [1 \<mapsto> view_new] 0 [one_merge]"
  using queue_predicts_landing [OF revalidate_instance] by simp

text \<open>An error of the store during revalidation loses the queue: it was taken before the
  loop and is put back only after it.\<close>

lemma revalidate_error_empties_the_queue:
  "revalidate js enc \<lparr>ls_head = ls_head two_branches, ls_history = \<lambda>_ _. Some (Inl err)\<rparr> tv [1 \<mapsto> sv]
     \<lparr>mq_target = 0, mq_queued = [one_merge], mq_next = 2\<rparr> =
   Some (Inl err, \<lparr>mq_target = 0, mq_queued = [], mq_next = 2\<rparr>)"
  by (simp add: revalidate_def one_merge_def merge_branches_def speculative_store_def two_branches_def)

end
