(* ===== verification/Store_Completeness.thy ===== *)
theory Store_Completeness
  imports Core_Index Core_Log
begin

text \<open>
  Proofs that a range of keys is complete (\<open>theta-storage/src/completeness.rs\<close>): a hash
  tree over the sorted keys, the proofs a server makes from it and the check a client
  makes against a root it trusts.  The hash function is the argument \<open>H\<close>; text is its
  bytes.  An index is a \<open>usize\<close> and wraps.
\<close>

section \<open>Hashes\<close>

definition be64 :: "nat \<Rightarrow> byte list" where
  "be64 n = rev (le64 n)"

definition leaf_tag :: "byte list" where
  "leaf_tag = text_bytes ''thetabase.completeness.leaf.v1''"

definition node_tag :: "byte list" where
  "node_tag = text_bytes ''thetabase.completeness.node.v1''"

definition leaf_fields :: "string \<Rightarrow> hash \<Rightarrow> byte list list" where
  "leaf_fields key value = [leaf_tag, be64 (length key), text_bytes key, value]"

definition node_fields :: "hash \<Rightarrow> hash \<Rightarrow> byte list list" where
  "node_fields l r = [node_tag, l, r]"

definition leaf_hash :: "(byte list \<Rightarrow> hash) \<Rightarrow> string \<Rightarrow> hash \<Rightarrow> hash" where
  "leaf_hash H key value = of_fields H (leaf_fields key value)"

definition node_hash :: "(byte list \<Rightarrow> hash) \<Rightarrow> hash \<Rightarrow> hash \<Rightarrow> hash" where
  "node_hash H l r = of_fields H (node_fields l r)"

section \<open>The map\<close>

record map_entry =
  me_key :: string
  me_value :: hash

record complete_map =
  cm_entries :: "map_entry list"
  cm_levels :: "hash list list"

text \<open>\<open>sort_by\<close> is stable and \<open>dedup_by\<close> keeps the first of a run of equal keys.\<close>

fun dedup_keys :: "map_entry list \<Rightarrow> map_entry list" where
  "dedup_keys [] = []"
| "dedup_keys [e] = [e]"
| "dedup_keys (e # f # es) = (if me_key f = me_key e then dedup_keys (e # es) else e # dedup_keys (f # es))"

fun pair_up :: "('a \<Rightarrow> 'a \<Rightarrow> 'a) \<Rightarrow> 'a list \<Rightarrow> 'a list" where
  "pair_up node [] = []"
| "pair_up node [l] = [l]"
| "pair_up node (l # r # hs) = node l r # pair_up node hs"

lemma pair_up_length: "length (pair_up node hs) = (length hs + 1) div 2"
  by (induction node hs rule: pair_up.induct) auto

function levels_from :: "('a \<Rightarrow> 'a \<Rightarrow> 'a) \<Rightarrow> 'a list \<Rightarrow> 'a list list" where
  "levels_from node hs = (if length hs \<le> 1 then [hs] else hs # levels_from node (pair_up node hs))"
  by pat_completeness auto
termination by (relation "measure (\<lambda>(_, hs). length hs)") (auto simp: pair_up_length)

declare levels_from.simps [simp del]

definition map_build :: "(byte list \<Rightarrow> hash) \<Rightarrow> map_entry list \<Rightarrow> complete_map" where
  "map_build H es =
     (let entries = dedup_keys (sort_key me_key es) in
      \<lparr>cm_entries = entries,
       cm_levels = levels_from (node_hash H) (map (\<lambda>e. leaf_hash H (me_key e) (me_value e)) entries)\<rparr>)"

definition map_root :: "complete_map \<Rightarrow> hash" where
  "map_root m =
     (case last (cm_levels m) of
        root # _ \<Rightarrow> if cm_entries m \<noteq> [] then root else zero_hash
      | [] \<Rightarrow> zero_hash)"

definition sibling :: "nat \<Rightarrow> nat" where
  "sibling i = (if even i then i + 1 else i - 1)"

fun path_from :: "nat \<Rightarrow> hash list list \<Rightarrow> hash list" where
  "path_from i [] = []"
| "path_from i (level # levels) =
     (if length level \<le> 1 then []
      else (if sibling i < length level then [level ! sibling i] else []) @ path_from (i div 2) levels)"

section \<open>Proofs\<close>

record proven_entry =
  pe_index :: nat
  pe_entry :: map_entry
  pe_path :: "hash list"

record range_proof =
  rp_start :: string
  rp_end :: string
  rp_matched :: "proven_entry list"
  rp_left :: "proven_entry option"
  rp_right :: "proven_entry option"
  rp_total :: nat
  rp_absent :: "string option"

definition proven_at :: "complete_map \<Rightarrow> nat \<Rightarrow> proven_entry option" where
  "proven_at m i =
     (if i < length (cm_entries m)
      then Some \<lparr>pe_index = i, pe_entry = cm_entries m ! i, pe_path = path_from i (cm_levels m)\<rparr> else None)"

text \<open>\<open>partition_point\<close> on the sorted keys.\<close>

definition keys_below :: "complete_map \<Rightarrow> string \<Rightarrow> nat" where
  "keys_below m k = length (takeWhile (\<lambda>e. me_key e < k) (cm_entries m))"

definition prove_range :: "complete_map \<Rightarrow> string \<Rightarrow> string \<Rightarrow> range_proof" where
  "prove_range m start end' =
     (let first = keys_below m start; last' = keys_below m end' in
      \<lparr>rp_start = start, rp_end = end', rp_matched = List.map_filter (proven_at m) [first..<last'],
       rp_left = (if first = 0 then None else proven_at m (first - 1)),
       rp_right = proven_at m last', rp_total = length (cm_entries m), rp_absent = None\<rparr>)"

definition prove_absent :: "complete_map \<Rightarrow> string \<Rightarrow> range_proof" where
  "prove_absent m k = (prove_range m k k)\<lparr>rp_absent := Some k\<rparr>"

section \<open>Verification\<close>

datatype completeness_error =
    BadPath string
  | OutOfOrder string string
  | Gap nat
  | OutsideRange string
  | ClaimedAbsentButPresent string
  | LeftNeighbourInside string
  | RightNeighbourInside string
  | UnboundedBelow nat
  | UnboundedAbove nat nat

function climb :: "(hash \<Rightarrow> hash \<Rightarrow> hash) \<Rightarrow> nat \<Rightarrow> nat \<Rightarrow> hash \<Rightarrow> hash list \<Rightarrow> hash" where
  "climb node width i h path =
     (if 1 < width then
        if sibling i < width then
          (case path of
             [] \<Rightarrow> zero_hash
           | s # path' \<Rightarrow> climb node ((width + 1) div 2) (i div 2) (if even i then node h s else node s h) path')
        else climb node ((width + 1) div 2) (i div 2) h path
      else (case path of [] \<Rightarrow> h | _ # _ \<Rightarrow> zero_hash))"
  by pat_completeness auto
termination by (relation "measure (\<lambda>(_, width, _). width)") auto

declare climb.simps [simp del]

definition reconstruct :: "(byte list \<Rightarrow> hash) \<Rightarrow> nat \<Rightarrow> proven_entry \<Rightarrow> hash" where
  "reconstruct H leaves_n p =
     climb (node_hash H) leaves_n (pe_index p) (leaf_hash H (me_key (pe_entry p)) (me_value (pe_entry p))) (pe_path p)"

definition all_proven :: "range_proof \<Rightarrow> proven_entry list" where
  "all_proven p = (case rp_left p of None \<Rightarrow> [] | Some l \<Rightarrow> [l]) @ rp_matched p @
     (case rp_right p of None \<Rightarrow> [] | Some r \<Rightarrow> [r])"

fun check_paths :: "(byte list \<Rightarrow> hash) \<Rightarrow> nat \<Rightarrow> hash \<Rightarrow> proven_entry list \<Rightarrow> completeness_error + unit" where
  "check_paths H leaves_n root [] = Inr ()"
| "check_paths H leaves_n root (p # ps) =
     (if reconstruct H leaves_n p \<noteq> root then Inl (BadPath (me_key (pe_entry p))) else check_paths H leaves_n root ps)"

fun check_adjacent :: "proven_entry list \<Rightarrow> completeness_error + unit" where
  "check_adjacent (a # b # ps) =
     (if me_key (pe_entry b) \<le> me_key (pe_entry a)
      then Inl (OutOfOrder (me_key (pe_entry a)) (me_key (pe_entry b)))
      else if pe_index b \<noteq> wrap64 (pe_index a + 1) then Inl (Gap (wrap64 (pe_index a + 1)))
      else check_adjacent (b # ps))"
| "check_adjacent _ = Inr ()"

definition check_not_carried :: "range_proof \<Rightarrow> completeness_error + unit" where
  "check_not_carried p =
     (case rp_absent p of
        None \<Rightarrow> Inr ()
      | Some k \<Rightarrow> if list_ex (\<lambda>e. me_key (pe_entry e) = k) (all_proven p) then Inl (ClaimedAbsentButPresent k) else Inr ())"

fun check_matched :: "string \<Rightarrow> string \<Rightarrow> proven_entry list \<Rightarrow> completeness_error + unit" where
  "check_matched start end' [] = Inr ()"
| "check_matched start end' (p # ps) =
     (if me_key (pe_entry p) < start \<or> end' \<le> me_key (pe_entry p) then Inl (OutsideRange (me_key (pe_entry p)))
      else check_matched start end' ps)"

definition check_left :: "range_proof \<Rightarrow> completeness_error + unit" where
  "check_left p =
     (case rp_left p of
        Some l \<Rightarrow> if rp_start p \<le> me_key (pe_entry l) then Inl (LeftNeighbourInside (me_key (pe_entry l))) else Inr ()
      | None \<Rightarrow>
          let first = (case rp_matched p of [] \<Rightarrow> 0 | e # _ \<Rightarrow> pe_index e) in
          if first \<noteq> 0 then Inl (UnboundedBelow first) else Inr ())"

definition check_right :: "range_proof \<Rightarrow> completeness_error + unit" where
  "check_right p =
     (case rp_right p of
        Some r \<Rightarrow> if me_key (pe_entry r) < rp_end p then Inl (RightNeighbourInside (me_key (pe_entry r))) else Inr ()
      | None \<Rightarrow>
          (case (if rp_matched p = [] then map_option pe_index (rp_left p) else Some (pe_index (last (rp_matched p)))) of
             None \<Rightarrow> Inr ()
           | Some i \<Rightarrow> if wrap64 (i + 1) \<noteq> rp_total p then Inl (UnboundedAbove i (rp_total p)) else Inr ()))"

fun first_error :: "('e + unit) list \<Rightarrow> 'e + unit" where
  "first_error [] = Inr ()"
| "first_error (r # rs) = (case r of Inl e \<Rightarrow> Inl e | Inr _ \<Rightarrow> first_error rs)"

definition verify_range :: "(byte list \<Rightarrow> hash) \<Rightarrow> range_proof \<Rightarrow> hash \<Rightarrow> completeness_error + unit" where
  "verify_range H p root =
     first_error [check_paths H (rp_total p) root (all_proven p), check_adjacent (all_proven p), check_not_carried p,
       check_matched (rp_start p) (rp_end p) (rp_matched p), check_left p, check_right p]"

section \<open>What the check lets through\<close>

text \<open>A proof with nothing in it passes against every root: nothing ties its total to the
  root, and no entry is there to be checked.  A server can deny any key with it.\<close>

lemma empty_proof_verifies:
  "verify_range H \<lparr>rp_start = s, rp_end = e, rp_matched = [], rp_left = None, rp_right = None, rp_total = n, rp_absent = a\<rparr> root = Inr ()"
  by (cases a) (simp_all add: verify_range_def all_proven_def check_not_carried_def check_left_def check_right_def)

text \<open>With no match and no left neighbour the right one may be anywhere.\<close>

lemma lone_right_neighbour_verifies:
  assumes "reconstruct H n r = root" and "e \<le> me_key (pe_entry r)"
  shows "verify_range H \<lparr>rp_start = s, rp_end = e, rp_matched = [], rp_left = None, rp_right = Some r, rp_total = n, rp_absent = None\<rparr> root = Inr ()"
  using assms by (simp add: verify_range_def all_proven_def check_not_carried_def check_left_def check_right_def not_less)

text \<open>A path of the wrong length reconstructs to zero, which is the root of the empty map.\<close>

lemma broken_path_is_the_empty_root:
  "reconstruct H 1 \<lparr>pe_index = i, pe_entry = e, pe_path = h # hs\<rparr> = zero_hash"
  by (simp add: reconstruct_def climb.simps)

text \<open>The documentation of \<open>build\<close> says that the last of two entries with one key wins.\<close>

lemma build_keeps_the_first:
  "cm_entries (map_build H [\<lparr>me_key = k, me_value = v\<rparr>, \<lparr>me_key = k, me_value = w\<rparr>]) = [\<lparr>me_key = k, me_value = v\<rparr>]"
  by (simp add: map_build_def Let_def)

end
