(* ===== verification/Store_Completeness_Laws.thy ===== *)
theory Store_Completeness_Laws
  imports Store_Completeness
begin

text \<open>
  Soundness and completeness of range proofs.  The map is seen as the tree its levels
  flatten; a proof that climbs to the root names a path in that tree, the indices and the
  total only say which path, and adjacent indices are adjacent paths.  A server may choose
  the total and the indices freely: the result holds for whatever it sends.
\<close>

section \<open>The tree\<close>

datatype mtree = Tip map_entry | Branch mtree mtree

fun tree_leaves :: "mtree \<Rightarrow> map_entry list" where
  "tree_leaves (Tip e) = [e]"
| "tree_leaves (Branch l r) = tree_leaves l @ tree_leaves r"

fun tree_hash :: "(byte list \<Rightarrow> hash) \<Rightarrow> mtree \<Rightarrow> hash" where
  "tree_hash H (Tip e) = leaf_hash H (me_key e) (me_value e)"
| "tree_hash H (Branch l r) = node_hash H (tree_hash H l) (tree_hash H r)"

function tree_top :: "mtree list \<Rightarrow> mtree" where
  "tree_top ts = (if length ts \<le> 1 then hd ts else tree_top (pair_up Branch ts))"
  by pat_completeness auto
termination by (relation "measure length") (auto simp: pair_up_length)

declare tree_top.simps [simp del]

lemma pair_up_map: "map (tree_hash H) (pair_up Branch ts) = pair_up (node_hash H) (map (tree_hash H) ts)"
  by (induction Branch ts rule: pair_up.induct) auto

lemma pair_up_Nil: "pair_up node hs = [] \<longleftrightarrow> hs = []"
  by (cases "(node, hs)" rule: pair_up.cases) auto

lemma levels_from_Nil: "levels_from node hs \<noteq> []"
  by (subst levels_from.simps) simp

lemma levels_last:
  "ts \<noteq> [] \<Longrightarrow> last (levels_from (node_hash H) (map (tree_hash H) ts)) = [tree_hash H (tree_top ts)]"
proof (induction ts rule: tree_top.induct)
  case (1 ts)
  show ?case
  proof (cases "length ts \<le> 1")
    case True
    then obtain t where "ts = [t]" using 1(2) by (cases ts) auto
    then show ?thesis by (simp add: levels_from.simps tree_top.simps)
  next
    case False
    have "levels_from (node_hash H) (map (tree_hash H) ts) =
        map (tree_hash H) ts # levels_from (node_hash H) (map (tree_hash H) (pair_up Branch ts))"
      using False by (subst levels_from.simps) (simp add: pair_up_map)
    moreover have "tree_top ts = tree_top (pair_up Branch ts)" using False by (subst tree_top.simps) simp
    ultimately show ?thesis using 1(1) [OF False] 1(2) by (simp add: levels_from_Nil pair_up_Nil)
  qed
qed

lemma pair_up_leaves: "concat (map tree_leaves (pair_up Branch ts)) = concat (map tree_leaves ts)"
  by (induction Branch ts rule: pair_up.induct) auto

lemma tree_top_leaves: "ts \<noteq> [] \<Longrightarrow> tree_leaves (tree_top ts) = concat (map tree_leaves ts)"
proof (induction ts rule: tree_top.induct)
  case (1 ts)
  show ?case
  proof (cases "length ts \<le> 1")
    case True
    then show ?thesis using 1(2) by (cases ts) (auto simp: tree_top.simps)
  next
    case False
    then show ?thesis using 1 by (subst tree_top.simps) (simp add: pair_up_leaves pair_up_Nil)
  qed
qed

definition map_tree :: "complete_map \<Rightarrow> mtree" where
  "map_tree m = tree_top (map Tip (cm_entries m))"

lemma map_root_tree:
  assumes "m = map_build H es" and "cm_entries m \<noteq> []"
  shows "map_root m = tree_hash H (map_tree m)" and "tree_leaves (map_tree m) = cm_entries m"
proof -
  have "cm_levels m = levels_from (node_hash H) (map (tree_hash H) (map Tip (cm_entries m)))"
    by (simp add: assms(1) map_build_def Let_def comp_def)
  then show "map_root m = tree_hash H (map_tree m)"
    using levels_last [of "map Tip (cm_entries m)" H] assms(2) by (simp add: map_root_def map_tree_def)
  show "tree_leaves (map_tree m) = cm_entries m"
    using assms(2) by (simp add: map_tree_def tree_top_leaves comp_def)
qed

section \<open>Sorted keys\<close>

lemma dedup_keys_set: "set (dedup_keys es) \<subseteq> set es"
  by (induction es rule: dedup_keys.induct) auto

lemma dedup_keys_hd: "es \<noteq> [] \<Longrightarrow> \<exists>rest. dedup_keys es = hd es # rest"
  by (induction es rule: dedup_keys.induct) auto

lemma dedup_keys_sorted:
  "sorted (map me_key es) \<Longrightarrow> sorted_wrt (<) (map me_key (dedup_keys es))"
proof (induction es rule: dedup_keys.induct)
  case (3 e f es)
  show ?case
  proof (cases "me_key f = me_key e")
    case False
    then have "me_key e < me_key f" using "3.prems" by auto
    moreover have "\<forall>x \<in> set (dedup_keys (f # es)). me_key f \<le> me_key x"
      using "3.prems" dedup_keys_set [of "f # es"] by auto
    ultimately show ?thesis using 3 False by fastforce
  qed (use 3 in auto)
qed auto

lemma build_sorted: "sorted_wrt (<) (map me_key (cm_entries (map_build H es)))"
  by (simp add: map_build_def Let_def dedup_keys_sorted)

section \<open>Paths\<close>

fun sub_at :: "mtree \<Rightarrow> bool list \<Rightarrow> mtree option" where
  "sub_at t [] = Some t"
| "sub_at (Branch l r) (d # ds) = sub_at (if d then r else l) ds"
| "sub_at (Tip e) (d # ds) = None"

fun pos_of :: "mtree \<Rightarrow> bool list \<Rightarrow> nat" where
  "pos_of t [] = 0"
| "pos_of (Branch l r) (d # ds) = (if d then length (tree_leaves l) + pos_of r ds else pos_of l ds)"
| "pos_of (Tip e) (d # ds) = 0"

lemma leaves_pos: "0 < length (tree_leaves t)"
  by (induction t) auto

lemma sub_at_pos: "sub_at t p = Some (Tip e) \<Longrightarrow> pos_of t p < length (tree_leaves t) \<and> tree_leaves t ! pos_of t p = e"
  by (induction t p rule: sub_at.induct) (auto simp: nth_append split: if_splits)

lemma pos_all_left: "pos_of t (replicate n False) = 0"
proof (induction n arbitrary: t)
  case (Suc n)
  then show ?case by (cases t) auto
qed simp

lemma pos_all_right: "sub_at t (replicate n True) = Some (Tip e) \<Longrightarrow> Suc (pos_of t (replicate n True)) = length (tree_leaves t)"
proof (induction n arbitrary: t)
  case (Suc n)
  then show ?case by (cases t) auto
qed simp

lemma pos_adjacent:
  "sub_at t (c @ False # replicate a True) = Some (Tip e) \<Longrightarrow> sub_at t (c @ True # replicate b False) = Some (Tip f) \<Longrightarrow>
     pos_of t (c @ True # replicate b False) = Suc (pos_of t (c @ False # replicate a True))"
proof (induction c arbitrary: t)
  case Nil
  then obtain l r where "t = Branch l r" by (cases t) auto
  then show ?case using Nil pos_all_right [of l a e] by (simp add: pos_all_left)
next
  case (Cons d c)
  then obtain l r where "t = Branch l r" by (cases t) auto
  then show ?case using Cons by auto
qed

lemma all_right_unique:
  "sub_at t (replicate a True) = Some (Tip e) \<Longrightarrow> sub_at t (replicate b True) = Some (Tip f) \<Longrightarrow> e = f"
  using sub_at_pos [of t "replicate a True" e] sub_at_pos [of t "replicate b True" f]
    pos_all_right [of t a e] pos_all_right [of t b f] by (metis Suc_inject)

section \<open>Indices are paths\<close>

text \<open>The turns a climb takes, from the leaf up: true where the node is a right child.\<close>

function turns :: "nat \<Rightarrow> nat \<Rightarrow> bool list" where
  "turns width i = (if 1 < width
     then (if sibling i < width then [odd i] else []) @ turns ((width + 1) div 2) (i div 2) else [])"
  by pat_completeness auto
termination by (relation "measure fst") auto

declare turns.simps [simp del]

lemma turns_first: "\<exists>n. turns width 0 = replicate n False"
proof (induction width rule: less_induct)
  case (less width)
  show ?case
  proof (cases "1 < width")
    case True
    then have "(width + 1) div 2 < width" by simp
    from less [OF this] obtain n where "turns ((width + 1) div 2) 0 = replicate n False" ..
    then have "turns width 0 = replicate (Suc n) False" using True by (subst turns.simps) (simp add: sibling_def)
    then show ?thesis ..
  next
    case False
    then show ?thesis by (subst turns.simps) (auto intro: exI [of _ 0])
  qed
qed

lemma turns_last: "width \<le> i + 1 \<Longrightarrow> \<exists>n. turns width i = replicate n True"
proof (induction width i rule: turns.induct)
  case (1 width i)
  show ?case
  proof (cases "1 < width")
    case True
    have "(width + 1) div 2 \<le> i div 2 + 1" using 1(2) by linarith
    then obtain n where n: "turns ((width + 1) div 2) (i div 2) = replicate n True" using 1(1) [OF True] by auto
    have "\<not> (even i \<and> sibling i < width)" using 1(2) by (auto simp: sibling_def)
    then have "turns width i = replicate (if sibling i < width then Suc n else n) True"
      using True n by (subst turns.simps) auto
    then show ?thesis ..
  next
    case False
    then show ?thesis by (subst turns.simps) (auto intro: exI [of _ 0])
  qed
qed

lemma turns_adjacent:
  "i + 1 < width \<Longrightarrow> \<exists>c a b. rev (turns width i) = c @ False # replicate a True \<and>
     rev (turns width (i + 1)) = c @ True # replicate b False"
proof (induction width i rule: turns.induct)
  case (1 width i)
  have w: "1 < width" using 1(2) by simp
  have u: "turns width j = (if sibling j < width then [odd j] else []) @ turns ((width + 1) div 2) (j div 2)" for j
    using w by (subst turns.simps) simp
  show ?case
  proof (cases "even i")
    case True
    then have "(i + 1) div 2 = i div 2" by simp
    then have "rev (turns width i) = rev (turns ((width + 1) div 2) (i div 2)) @ False # replicate 0 True \<and>
        rev (turns width (i + 1)) = rev (turns ((width + 1) div 2) (i div 2)) @ True # replicate 0 False"
      using True 1(2) u [of i] u [of "i + 1"] by (simp add: sibling_def)
    then show ?thesis by blast
  next
    case False
    have half: "(i + 1) div 2 = i div 2 + 1" using False by presburger
    have "i div 2 + 1 < (width + 1) div 2" using 1(2) False by presburger
    then obtain c a b where c: "rev (turns ((width + 1) div 2) (i div 2)) = c @ False # replicate a True"
      "rev (turns ((width + 1) div 2) (i div 2 + 1)) = c @ True # replicate b False"
      using 1(1) [OF w] by blast
    have "rev (turns width i) = c @ False # replicate (Suc a) True"
      using u [of i] False 1(2) c(1) by (simp add: sibling_def replicate_append_same)
    moreover have "rev (turns width (i + 1)) = c @ True # replicate (if sibling (i + 1) < width then Suc b else b) False"
      using u [of "i + 1"] False c(2) half by (simp add: replicate_append_same)
    ultimately show ?thesis by blast
  qed
qed

section \<open>A climb that ends at the root\<close>

definition turn :: "(hash \<Rightarrow> hash \<Rightarrow> hash) \<Rightarrow> bool \<times> hash \<Rightarrow> hash \<Rightarrow> hash" where
  "turn node ds h = (if fst ds then node (snd ds) h else node h (snd ds))"

lemma turn_pair: "turn node (d, s) h = (if d then node s h else node h s)"
  by (simp add: turn_def)

lemma climb_turns:
  "climb node width i h path =
     (if length path = length (turns width i) then fold (turn node) (zip (turns width i) path) h else zero_hash)"
proof (induction node width i h path rule: climb.induct)
  case (1 node width i h path)
  show ?case
  proof (cases "1 < width")
    case False
    then show ?thesis by (simp add: climb.simps turns.simps [of width i] split: list.splits)
  next
    case True
    show ?thesis
    proof (cases "sibling i < width")
      case False
      then show ?thesis using 1(2) [OF True False] True
        by (simp add: climb.simps [of node width] turns.simps [of width i])
    next
      case sib: True
      then show ?thesis using 1(1) [OF True sib] True
        by (cases path) (simp_all add: climb.simps [of node width] turns.simps [of width i] turn_pair)
    qed
  qed
qed

text \<open>The inputs the hash function is given.\<close>

fun tree_inputs :: "(byte list \<Rightarrow> hash) \<Rightarrow> mtree \<Rightarrow> byte list list" where
  "tree_inputs H (Tip e) = [framed (leaf_fields (me_key e) (me_value e))]"
| "tree_inputs H (Branch l r) = framed (node_fields (tree_hash H l) (tree_hash H r)) # tree_inputs H l @ tree_inputs H r"

definition turn_fields :: "bool \<times> hash \<Rightarrow> hash \<Rightarrow> byte list list" where
  "turn_fields ds h = (if fst ds then node_fields (snd ds) h else node_fields h (snd ds))"

fun climb_inputs :: "(byte list \<Rightarrow> hash) \<Rightarrow> (bool \<times> hash) list \<Rightarrow> hash \<Rightarrow> byte list list" where
  "climb_inputs H [] h = []"
| "climb_inputs H (ds # rest) h = framed (turn_fields ds h) # climb_inputs H rest (turn (node_hash H) ds h)"

definition proof_inputs :: "(byte list \<Rightarrow> hash) \<Rightarrow> nat \<Rightarrow> proven_entry \<Rightarrow> byte list list" where
  "proof_inputs H n p = framed (leaf_fields (me_key (pe_entry p)) (me_value (pe_entry p))) #
     climb_inputs H (zip (turns n (pe_index p)) (pe_path p)) (leaf_hash H (me_key (pe_entry p)) (me_value (pe_entry p)))"

definition collision :: "(byte list \<Rightarrow> hash) \<Rightarrow> byte list list \<Rightarrow> byte list list \<Rightarrow> bool" where
  "collision H xs ys \<longleftrightarrow> list_ex (\<lambda>x. list_ex (\<lambda>y. x \<noteq> y \<and> H x = H y) ys) xs"

text \<open>What the types of the code guarantee: hashes have their length and lengths fit.\<close>

definition hash_ok :: "(byte list \<Rightarrow> hash) \<Rightarrow> bool" where
  "hash_ok H \<longleftrightarrow> (\<forall>x. length (H x) = hash_len)"

definition entry_fits :: "map_entry \<Rightarrow> bool" where
  "entry_fits e \<longleftrightarrow> length (me_key e) \<le> u64_max \<and> length (me_value e) = hash_len"

definition proven_fits :: "proven_entry \<Rightarrow> bool" where
  "proven_fits p \<longleftrightarrow> entry_fits (pe_entry p) \<and> pe_index p \<le> u64_max \<and> list_all (\<lambda>h. length h = hash_len) (pe_path p)"

lemma climb_inputs_snoc:
  "climb_inputs H (xs @ [ds]) h = climb_inputs H xs h @ [framed (turn_fields ds (fold (turn (node_hash H)) xs h))]"
  by (induction xs arbitrary: h) simp_all

lemma turn_hash: "turn (node_hash H) ds h = of_fields H (turn_fields ds h)"
  by (simp add: turn_def turn_fields_def node_hash_def)

lemma tag_lengths: "length leaf_tag = 30" "length node_tag = 30" "length (be64 n) = 8"
  by (simp_all add: leaf_tag_def node_tag_def text_bytes_def be64_def)

lemma leaf_fields_size: "entry_fits e \<Longrightarrow> x \<in> set (leaf_fields (me_key e) (me_value e)) \<Longrightarrow> length x \<le> u64_max"
  by (auto simp: leaf_fields_def tag_lengths entry_fits_def hash_len_def text_bytes_def)

lemma node_fields_size: "length l = hash_len \<Longrightarrow> length r = hash_len \<Longrightarrow> x \<in> set (node_fields l r) \<Longrightarrow> length x \<le> u64_max"
  by (auto simp: node_fields_def tag_lengths hash_len_def)

lemma of_fields_len: "hash_ok H \<Longrightarrow> length (of_fields H fs) = hash_len"
  by (simp add: of_fields_def hash_ok_def)

lemma hash_lens: "hash_ok H \<Longrightarrow> length (node_hash H l r) = hash_len" "hash_ok H \<Longrightarrow> length (leaf_hash H k x) = hash_len"
  by (simp_all add: node_hash_def leaf_hash_def of_fields_len)

lemma tree_hash_len: "hash_ok H \<Longrightarrow> length (tree_hash H t) = hash_len"
  by (cases t) (simp_all add: hash_lens)

lemma framed_differ:
  "xs \<noteq> ys \<Longrightarrow> \<forall>x \<in> set xs \<union> set ys. length x \<le> u64_max \<Longrightarrow> framed xs \<noteq> framed ys"
  using framed_inj by blast

lemma collision_first:
  assumes "of_fields H xs = of_fields H ys" and "xs \<noteq> ys" and "\<forall>x \<in> set xs \<union> set ys. length x \<le> u64_max"
    and "framed xs \<in> set as" and "framed ys \<in> set bs"
  shows "collision H as bs"
  using assms framed_differ [OF assms(2,3)] by (auto simp: collision_def list_ex_iff of_fields_def)

lemma collision_mono: "collision H as bs \<Longrightarrow> set as \<subseteq> set as' \<Longrightarrow> set bs \<subseteq> set bs' \<Longrightarrow> collision H as' bs'"
  by (fastforce simp: collision_def list_ex_iff)

lemma fold_turn_len: "hash_ok H \<Longrightarrow> length h = hash_len \<Longrightarrow> length (fold (turn (node_hash H)) xs h) = hash_len"
  by (cases xs rule: rev_cases) (simp_all add: turn_def hash_lens)

text \<open>A climb to the hash of a tree walks down that tree, or two inputs collide.\<close>

lemma climb_walks_down:
  assumes H: "hash_ok H" and "list_all entry_fits (tree_leaves t)" and "length h = hash_len"
    and "list_all (\<lambda>(_, s). length s = hash_len) xs" and "fold (turn (node_hash H)) xs h = tree_hash H t"
  shows "(\<exists>s. sub_at t (rev (map fst xs)) = Some s \<and> tree_hash H s = h \<and> set (tree_inputs H s) \<subseteq> set (tree_inputs H t) \<and>
        list_all entry_fits (tree_leaves s)) \<or>
     collision H (tree_inputs H t) (climb_inputs H xs h)"
  using assms(2,4,5)
proof (induction xs arbitrary: t rule: rev_induct)
  case Nil
  then show ?case by simp
next
  case (snoc ds xs)
  obtain d s where ds: "ds = (d, s)" by (cases ds)
  let ?h = "fold (turn (node_hash H)) xs h"
  have lens: "length ?h = hash_len" "length s = hash_len"
    using fold_turn_len [OF H assms(3)] snoc.prems(2) ds by simp_all
  have size: "\<forall>x \<in> set (turn_fields ds ?h). length x \<le> u64_max"
    using lens node_fields_size by (auto simp: turn_fields_def ds)
  have eq: "of_fields H (turn_fields ds ?h) = tree_hash H t" using snoc.prems(3) by (simp add: turn_hash [of H ds])
  show ?case
  proof (cases t)
    case (Tip e)
    have "leaf_fields (me_key e) (me_value e) \<noteq> turn_fields ds ?h"
      by (simp add: leaf_fields_def turn_fields_def node_fields_def)
    then have "collision H (tree_inputs H t) (climb_inputs H (xs @ [ds]) h)"
      using eq size snoc.prems(1) leaf_fields_size [of e]
      by (intro collision_first [of H "leaf_fields (me_key e) (me_value e)" "turn_fields ds ?h"])
        (auto simp: Tip leaf_hash_def climb_inputs_snoc)
    then show ?thesis ..
  next
    case (Branch l r)
    show ?thesis
    proof (cases "node_fields (tree_hash H l) (tree_hash H r) = turn_fields ds ?h")
      case False
      then have "collision H (tree_inputs H t) (climb_inputs H (xs @ [ds]) h)"
        using eq size node_fields_size [OF tree_hash_len [OF H, of l] tree_hash_len [OF H, of r]]
        by (intro collision_first [of H "node_fields (tree_hash H l) (tree_hash H r)" "turn_fields ds ?h"])
          (auto simp: Branch node_hash_def climb_inputs_snoc)
      then show ?thesis ..
    next
      case True
      let ?t = "if d then r else l"
      have "?h = tree_hash H ?t" using True by (auto simp: node_fields_def turn_fields_def ds)
      moreover have "list_all entry_fits (tree_leaves ?t)" using snoc.prems(1) Branch by auto
      ultimately have "(\<exists>s. sub_at ?t (rev (map fst xs)) = Some s \<and> tree_hash H s = h \<and>
          set (tree_inputs H s) \<subseteq> set (tree_inputs H ?t) \<and> list_all entry_fits (tree_leaves s)) \<or>
         collision H (tree_inputs H ?t) (climb_inputs H xs h)"
        using snoc.prems(2) by (intro snoc.IH) auto
      moreover have down: "sub_at t (rev (map fst (xs @ [ds]))) = sub_at ?t (rev (map fst xs))"
        by (simp add: ds Branch)
      moreover have up: "set (tree_inputs H ?t) \<subseteq> set (tree_inputs H t)" by (auto simp: Branch)
      moreover have more: "set (climb_inputs H xs h) \<subseteq> set (climb_inputs H (xs @ [ds]) h)" by (auto simp: climb_inputs_snoc)
      ultimately consider
          s where "sub_at ?t (rev (map fst xs)) = Some s" "tree_hash H s = h"
            "set (tree_inputs H s) \<subseteq> set (tree_inputs H ?t)" "list_all entry_fits (tree_leaves s)"
        | "collision H (tree_inputs H ?t) (climb_inputs H xs h)" by blast
      then show ?thesis
      proof cases
        case 1
        then show ?thesis using up unfolding down by (intro disjI1 exI [of _ s]) blast
      next
        case 2
        from collision_mono [OF this up more] show ?thesis ..
      qed
    qed
  qed
qed

text \<open>An entry that reconstructs the root is a leaf of the map at the path its index names.\<close>

lemma proven_is_leaf:
  assumes H: "hash_ok H" and fits: "list_all entry_fits (tree_leaves t)" "proven_fits p"
    and root: "reconstruct H n p = tree_hash H t" "tree_hash H t \<noteq> zero_hash"
  shows "sub_at t (rev (turns n (pe_index p))) = Some (Tip (pe_entry p)) \<or> collision H (tree_inputs H t) (proof_inputs H n p)"
proof -
  let ?e = "pe_entry p" and ?xs = "zip (turns n (pe_index p)) (pe_path p)"
  let ?h = "leaf_hash H (me_key ?e) (me_value ?e)"
  have len: "length (pe_path p) = length (turns n (pe_index p))"
    and fold: "fold (turn (node_hash H)) ?xs ?h = tree_hash H t"
    using root by (auto simp: reconstruct_def climb_turns split: if_splits)
  have "list_all (\<lambda>(_, s). length s = hash_len) ?xs"
    using fits(2) by (auto simp: proven_fits_def list_all_iff dest: set_zip_rightD)
  from climb_walks_down [OF H fits(1) hash_lens(2) [OF H] this fold]
  show ?thesis
  proof (elim disjE exE conjE)
    fix s
    assume s: "sub_at t (rev (map fst ?xs)) = Some s" "tree_hash H s = ?h"
      "set (tree_inputs H s) \<subseteq> set (tree_inputs H t)" "list_all entry_fits (tree_leaves s)"
    have path: "map fst ?xs = turns n (pe_index p)" using len by simp
    have size: "\<forall>x \<in> set (leaf_fields (me_key ?e) (me_value ?e)). length x \<le> u64_max"
      using fits(2) leaf_fields_size by (auto simp: proven_fits_def)
    have in2: "framed (leaf_fields (me_key ?e) (me_value ?e)) \<in> set (proof_inputs H n p)" by (simp add: proof_inputs_def)
    show ?thesis
    proof (cases s)
      case (Tip f)
      show ?thesis
      proof (cases "leaf_fields (me_key f) (me_value f) = leaf_fields (me_key ?e) (me_value ?e)")
        case True
        then have "f = ?e" by (simp add: leaf_fields_def text_bytes_eq)
        then show ?thesis using s(1) Tip path by simp
      next
        case False
        have "collision H (tree_inputs H t) (proof_inputs H n p)"
          by (rule collision_first [OF _ False _ _ in2])
            (use s size leaf_fields_size [of f] in \<open>auto simp: Tip leaf_hash_def\<close>)
        then show ?thesis ..
      qed
    next
      case (Branch l r)
      have "collision H (tree_inputs H t) (proof_inputs H n p)"
        by (rule collision_first [of H "node_fields (tree_hash H l) (tree_hash H r)", OF _ _ _ _ in2])
          (use s size node_fields_size [OF tree_hash_len [OF H, of l] tree_hash_len [OF H, of r]] in
            \<open>auto simp: Branch leaf_hash_def node_hash_def node_fields_def leaf_fields_def\<close>)
      then show ?thesis ..
    qed
  next
    assume "collision H (tree_inputs H t) (climb_inputs H ?xs ?h)"
    then show ?thesis by (auto simp: proof_inputs_def intro: collision_mono)
  qed
qed

section \<open>Adjacent indices, adjacent leaves\<close>

definition leaf_path :: "nat \<Rightarrow> proven_entry \<Rightarrow> bool list" where
  "leaf_path n p = rev (turns n (pe_index p))"

definition is_leaf :: "mtree \<Rightarrow> nat \<Rightarrow> proven_entry \<Rightarrow> bool" where
  "is_leaf t n p \<longleftrightarrow> sub_at t (leaf_path n p) = Some (Tip (pe_entry p))"

definition leaf_pos :: "mtree \<Rightarrow> nat \<Rightarrow> proven_entry \<Rightarrow> nat" where
  "leaf_pos t n p = pos_of t (leaf_path n p)"

lemma is_leaf_pos: "is_leaf t n p \<Longrightarrow> leaf_pos t n p < length (tree_leaves t) \<and> tree_leaves t ! leaf_pos t n p = pe_entry p"
  by (simp add: is_leaf_def leaf_pos_def sub_at_pos)

lemma leaf_pos_first: "pe_index p = 0 \<Longrightarrow> leaf_pos t n p = 0"
  using turns_first [of n] by (auto simp: leaf_pos_def leaf_path_def pos_all_left)

lemma leaf_pos_last: "n \<le> pe_index p + 1 \<Longrightarrow> is_leaf t n p \<Longrightarrow> Suc (leaf_pos t n p) = length (tree_leaves t)"
  using turns_last [of n "pe_index p"] by (auto simp: leaf_pos_def leaf_path_def is_leaf_def pos_all_right)

lemma keys_increase:
  "sorted_wrt (<) (map me_key es) \<Longrightarrow> i < j \<Longrightarrow> j < length es \<Longrightarrow> me_key (es ! i) < me_key (es ! j)"
  by (simp add: sorted_wrt_iff_nth_less)

lemma adjacent_positions:
  assumes sorted: "sorted_wrt (<) (map me_key (tree_leaves t))" and leaves: "is_leaf t n a" "is_leaf t n b"
    and idx: "pe_index b = wrap64 (pe_index a + 1)" "pe_index a \<le> u64_max"
    and keys: "me_key (pe_entry a) < me_key (pe_entry b)"
  shows "leaf_pos t n b = Suc (leaf_pos t n a)"
proof (cases "pe_index a + 1 < n \<and> pe_index a < u64_max")
  case True
  then have i: "pe_index b = pe_index a + 1" using idx by (simp add: wrap64_id)
  obtain c x y where "leaf_path n a = c @ False # replicate x True" "leaf_path n b = c @ True # replicate y False"
    using turns_adjacent [of "pe_index a" n] True i by (auto simp: leaf_path_def)
  then show ?thesis using leaves pos_adjacent [of t c x "pe_entry a" y "pe_entry b"]
    by (simp add: is_leaf_def leaf_pos_def)
next
  case False
  have "me_key (pe_entry b) \<le> me_key (pe_entry a)"
  proof (cases "pe_index a < u64_max")
    case True
    then have "n \<le> pe_index a + 1" "n \<le> pe_index b + 1" using False idx by (simp_all add: wrap64_id)
    then have "leaf_pos t n a = leaf_pos t n b" using leaf_pos_last leaves by (metis Suc_inject)
    then show ?thesis using is_leaf_pos leaves by (metis order_refl)
  next
    case False
    then have "pe_index b = 0" using idx by (simp add: wrap64_def)
    then have "leaf_pos t n b = 0" by (rule leaf_pos_first)
    then show ?thesis
      using keys_increase [OF sorted, of 0 "leaf_pos t n a"] is_leaf_pos [OF leaves(1)] is_leaf_pos [OF leaves(2)]
      by (cases "leaf_pos t n a") auto
  qed
  with keys show ?thesis by simp
qed

lemma adjacent_run:
  assumes "sorted_wrt (<) (map me_key (tree_leaves t))" and "list_all (is_leaf t n) ps"
    and "list_all (\<lambda>p. pe_index p \<le> u64_max) ps" and "check_adjacent ps = Inr ()" and "i < length ps"
  shows "leaf_pos t n (ps ! i) = leaf_pos t n (hd ps) + i"
  using assms(2-5)
proof (induction ps arbitrary: i rule: check_adjacent.induct)
  case (1 a b ps)
  have step: "me_key (pe_entry a) < me_key (pe_entry b)" "pe_index b = wrap64 (pe_index a + 1)"
    "check_adjacent (b # ps) = Inr ()"
    using "1.prems"(3) by (auto split: if_splits)
  have "leaf_pos t n b = Suc (leaf_pos t n a)"
    using "1.prems"(1,2) step(1,2) by (intro adjacent_positions [OF assms(1)]) simp_all
  moreover have "leaf_pos t n ((b # ps) ! j) = leaf_pos t n b + j" if "j < length (b # ps)" for j
    using "1.IH" [of j] "1.prems"(1,2,3) step that by (simp split: if_splits)
  ultimately show ?case using "1.prems"(4) by (cases i) (simp_all del: check_adjacent.simps)
qed auto

lemma run_is_slice:
  assumes "sorted_wrt (<) (map me_key (tree_leaves t))" and "list_all (is_leaf t n) ps"
    and "list_all (\<lambda>p. pe_index p \<le> u64_max) ps" and "check_adjacent ps = Inr ()" and "ps \<noteq> []"
  shows "map pe_entry ps = take (length ps) (drop (leaf_pos t n (hd ps)) (tree_leaves t))"
    and "leaf_pos t n (hd ps) + length ps \<le> length (tree_leaves t)"
proof -
  have run: "leaf_pos t n (ps ! i) = leaf_pos t n (hd ps) + i" if "i < length ps" for i
    using adjacent_run [OF assms(1-4) that] .
  have leaf: "leaf_pos t n (ps ! i) < length (tree_leaves t)" "tree_leaves t ! leaf_pos t n (ps ! i) = pe_entry (ps ! i)"
    if "i < length ps" for i
    using is_leaf_pos assms(2) that by (simp_all add: list_all_length)
  show bound: "leaf_pos t n (hd ps) + length ps \<le> length (tree_leaves t)"
    using leaf(1) [of "length ps - 1"] run [of "length ps - 1"] assms(5) by (cases ps) auto
  show "map pe_entry ps = take (length ps) (drop (leaf_pos t n (hd ps)) (tree_leaves t))"
    using bound leaf(2) run by (intro nth_equalityI) simp_all
qed

section \<open>Soundness\<close>

lemma check_paths_iff: "check_paths H n root ps = Inr () \<longleftrightarrow> list_all (\<lambda>p. reconstruct H n p = root) ps"
  by (induction ps) auto

lemma check_matched_iff:
  "check_matched start end' ps = Inr () \<longleftrightarrow> list_all (\<lambda>p. start \<le> me_key (pe_entry p) \<and> me_key (pe_entry p) < end') ps"
  by (induction ps) (auto simp: not_less not_le)

lemma first_error_iff: "first_error rs = Inr () \<longleftrightarrow> list_all (\<lambda>r. r = Inr ()) rs"
  by (induction rs) (auto split: sum.splits)

definition range_fits :: "range_proof \<Rightarrow> bool" where
  "range_fits p \<longleftrightarrow> list_all proven_fits (all_proven p) \<and> rp_total p \<le> u64_max"

definition range_forged :: "(byte list \<Rightarrow> hash) \<Rightarrow> complete_map \<Rightarrow> range_proof \<Rightarrow> bool" where
  "range_forged H m p \<longleftrightarrow> list_ex (\<lambda>e. collision H (tree_inputs H (map_tree m)) (proof_inputs H (rp_total p) e)) (all_proven p)"

definition in_range :: "string \<Rightarrow> string \<Rightarrow> map_entry \<Rightarrow> bool" where
  "in_range start end' e \<longleftrightarrow> start \<le> me_key e \<and> me_key e < end'"

lemma sorted_split_filter:
  assumes "sorted_wrt (<) (map me_key (A @ L @ M @ R @ B))" and "\<forall>e \<in> set M. in_range s e' e"
    and "(A = [] \<and> L = []) \<or> (\<exists>l. L = [l] \<and> me_key l < s)" and "(R = [] \<and> B = []) \<or> (\<exists>r. R = [r] \<and> e' \<le> me_key r)"
  shows "filter (in_range s e') (A @ L @ M @ R @ B) = M"
proof -
  have "me_key e < s" if "e \<in> set (A @ L)" for e
    using assms(1,3) that by (fastforce simp: sorted_wrt_append intro: less_trans)
  then have "filter (in_range s e') (A @ L) = []"
    by (fastforce simp: filter_empty_conv in_range_def)
  moreover have "e' \<le> me_key e" if "e \<in> set (R @ B)" for e
    using assms(1,4) that by (fastforce simp: sorted_wrt_append intro: order_trans less_imp_le)
  then have "filter (in_range s e') (R @ B) = []"
    by (fastforce simp: filter_empty_conv in_range_def)
  moreover have "filter (in_range s e') M = M" using assms(2) by (simp add: filter_id_conv)
  ultimately show ?thesis by simp
qed

text \<open>C29: A range proof that verifies against the root of a map hides nothing: the entries
  it presents are exactly the map's entries in the range, in order, or the proof exhibits
  a collision of the hash function.  The server is free in everything it sends, the total
  and the indices included.  It holds for proofs that present a match or a left neighbour,
  against the root of a map that is not the empty one's; without them the check is vacuous.\<close>

theorem verified_range_is_complete:
  assumes "hash_ok H" and "m = map_build H es" and "list_all entry_fits (cm_entries m)" and "range_fits p"
    and "verify_range H p (map_root m) = Inr ()" and "map_root m \<noteq> zero_hash"
    and "rp_matched p \<noteq> [] \<or> rp_left p \<noteq> None"
  shows "map pe_entry (rp_matched p) = filter (in_range (rp_start p) (rp_end p)) (cm_entries m) \<or> range_forged H m p"
proof (cases "range_forged H m p")
  case False
  let ?t = "map_tree m" and ?n = "rp_total p" and ?all = "all_proven p"
  have ne: "cm_entries m \<noteq> []" using assms(6) by (auto simp: map_root_def split: list.splits)
  note root = map_root_tree(1) [OF assms(2) ne] and lv = map_root_tree(2) [OF assms(2) ne]
  have sorted: "sorted_wrt (<) (map me_key (tree_leaves ?t))" unfolding lv unfolding assms(2) by (rule build_sorted)
  have checks: "check_paths H ?n (map_root m) ?all = Inr ()" "check_adjacent ?all = Inr ()"
    "check_matched (rp_start p) (rp_end p) (rp_matched p) = Inr ()" "check_left p = Inr ()" "check_right p = Inr ()"
    using assms(5) unfolding verify_range_def first_error_iff by simp_all
  have leaf: "is_leaf ?t ?n e" if "e \<in> set ?all" for e
    using proven_is_leaf [OF assms(1), of ?t e ?n] that assms(3,4,6) checks(1) False
    by (auto simp: check_paths_iff list_all_iff list_ex_iff root lv range_fits_def range_forged_def is_leaf_def leaf_path_def)
  have idx: "list_all (\<lambda>e. pe_index e \<le> u64_max) ?all"
    using assms(4) by (auto simp: range_fits_def proven_fits_def list_all_iff)
  have all: "?all \<noteq> []" using assms(7) by (auto simp: all_proven_def)
  have leaves: "list_all (is_leaf ?t ?n) ?all" using leaf by (simp add: list_all_iff)
  note slice = run_is_slice [OF sorted leaves idx checks(2) all]
  let ?k = "leaf_pos ?t ?n (hd ?all)"
  define L where "L = (case rp_left p of None \<Rightarrow> [] | Some l \<Rightarrow> [pe_entry l])"
  define R where "R = (case rp_right p of None \<Rightarrow> [] | Some r \<Rightarrow> [pe_entry r])"
  define A where "A = take ?k (cm_entries m)"
  define B where "B = drop (?k + length ?all) (cm_entries m)"
  have "map pe_entry ?all = L @ map pe_entry (rp_matched p) @ R"
    by (simp add: all_proven_def L_def R_def split: option.splits)
  then have es: "cm_entries m = A @ L @ map pe_entry (rp_matched p) @ R @ B"
    using slice(1) append_take_drop_id [of ?k "cm_entries m"] append_take_drop_id [of "length ?all" "drop ?k (cm_entries m)"]
    by (simp add: lv A_def B_def add.commute)
  have left: "(A = [] \<and> L = []) \<or> (\<exists>l. L = [l] \<and> me_key l < rp_start p)"
  proof (cases "rp_left p")
    case None
    then obtain e rest where e: "rp_matched p = e # rest" using assms(7) by (cases "rp_matched p") auto
    then have "pe_index e = 0" using checks(4) None by (simp add: check_left_def Let_def split: if_splits)
    moreover have "hd ?all = e" using None e by (simp add: all_proven_def)
    ultimately show ?thesis using None leaf_pos_first [of e ?t ?n] by (simp add: A_def L_def)
  next
    case (Some l)
    then show ?thesis using checks(4) by (simp add: check_left_def L_def not_le split: if_splits)
  qed
  have right: "(R = [] \<and> B = []) \<or> (\<exists>r. R = [r] \<and> rp_end p \<le> me_key r)"
  proof (cases "rp_right p")
    case None
    then have lst: "wrap64 (pe_index (last ?all) + 1) = ?n"
      using checks(5) assms(7) by (cases "rp_left p") (auto simp: check_right_def all_proven_def split: if_splits)
    have last_in: "last ?all \<in> set ?all" using all by simp
    have "pe_index (last ?all) \<le> u64_max" using idx last_in by (auto simp: list_all_iff)
    then have "?n \<le> pe_index (last ?all) + 1" using lst by (cases "pe_index (last ?all) = u64_max") (auto simp: wrap64_def wrap64_id)
    then have "Suc (leaf_pos ?t ?n (last ?all)) = length (cm_entries m)"
      using leaf_pos_last leaf [OF last_in] by (simp add: lv)
    moreover have "leaf_pos ?t ?n (last ?all) = ?k + (length ?all - 1)"
      using adjacent_run [OF sorted leaves idx checks(2), of "length ?all - 1"] all by (simp add: last_conv_nth)
    ultimately show ?thesis using None all by (cases ?all) (auto simp: R_def B_def)
  next
    case (Some r)
    then show ?thesis using checks(5) by (simp add: check_right_def R_def not_less split: if_splits)
  qed
  have "sorted_wrt (<) (map me_key (A @ L @ map pe_entry (rp_matched p) @ R @ B))"
    using sorted by (simp only: lv es [symmetric])
  moreover have "\<forall>e \<in> set (map pe_entry (rp_matched p)). in_range (rp_start p) (rp_end p) e"
    using checks(3) by (auto simp: check_matched_iff list_all_iff in_range_def)
  ultimately have "filter (in_range (rp_start p) (rp_end p)) (A @ L @ map pe_entry (rp_matched p) @ R @ B) = map pe_entry (rp_matched p)"
    using left right by (rule sorted_split_filter)
  then show ?thesis by (simp only: es [symmetric] simp_thms)
qed simp

section \<open>Honest proofs\<close>

lemma pair_up_nth:
  "i < length hs \<Longrightarrow> pair_up node hs ! (i div 2) =
     (if sibling i < length hs then (if even i then node (hs ! i) (hs ! sibling i) else node (hs ! sibling i) (hs ! i)) else hs ! i)"
proof (induction node hs arbitrary: i rule: pair_up.induct)
  case (3 node l r hs)
  show ?case
  proof (cases "i < 2")
    case True
    then have "i = 0 \<or> i = 1" by auto
    then show ?thesis by (auto simp: sibling_def)
  next
    case False
    then obtain j where j: "i = Suc (Suc j)" by (metis less_2_cases_iff not0_implies_Suc One_nat_def)
    have "sibling i = Suc (Suc (sibling j))" by (cases j) (auto simp: sibling_def j)
    then show ?thesis using "3.IH" [of j] "3.prems" by (simp add: j)
  qed
qed (auto simp: sibling_def)

lemma climb_honest:
  "i < length hs \<Longrightarrow> climb node (length hs) i (hs ! i) (path_from i (levels_from node hs)) = hd (last (levels_from node hs))"
proof (induction node hs arbitrary: i rule: levels_from.induct)
  case (1 node hs)
  show ?case
  proof (cases "length hs \<le> 1")
    case True
    then show ?thesis using "1.prems" by (cases hs) (auto simp: levels_from.simps climb.simps)
  next
    case False
    have lv: "levels_from node hs = hs # levels_from node (pair_up node hs)"
      using False by (subst levels_from.simps) simp
    have "i div 2 < length (pair_up node hs)" using "1.prems" by (auto simp: pair_up_length)
    note IH = "1.IH" [OF False this]
    have "climb node (length hs) i (hs ! i) (path_from i (levels_from node hs)) =
        climb node ((length hs + 1) div 2) (i div 2) (pair_up node hs ! (i div 2)) (path_from (i div 2) (levels_from node (pair_up node hs)))"
      using False pair_up_nth [OF "1.prems", of node] by (subst climb.simps) (auto simp: lv not_le)
    then show ?thesis using IH by (simp add: lv pair_up_length levels_from_Nil)
  qed
qed

definition entry_at :: "complete_map \<Rightarrow> nat \<Rightarrow> proven_entry" where
  "entry_at m i = \<lparr>pe_index = i, pe_entry = cm_entries m ! i, pe_path = path_from i (cm_levels m)\<rparr>"

lemma proven_entry_at: "proven_at m i = (if i < length (cm_entries m) then Some (entry_at m i) else None)"
  by (simp add: proven_at_def entry_at_def)

lemma honest_path:
  assumes "m = map_build H es" and "i < length (cm_entries m)"
  shows "reconstruct H (length (cm_entries m)) (entry_at m i) = map_root m"
proof -
  let ?hs = "map (\<lambda>e. leaf_hash H (me_key e) (me_value e)) (cm_entries m)"
  have lv: "cm_levels m = levels_from (node_hash H) ?hs" by (simp add: assms(1) map_build_def Let_def)
  have ne: "cm_entries m \<noteq> []" using assms(2) by auto
  have "last (cm_levels m) = [tree_hash H (map_tree m)]"
    using levels_last [of "map Tip (cm_entries m)" H] ne by (simp add: lv map_tree_def comp_def)
  then have "map_root m = hd (last (cm_levels m))" using ne by (simp add: map_root_def)
  then show ?thesis using climb_honest [of i ?hs "node_hash H"] assms(2)
    by (simp add: reconstruct_def entry_at_def lv)
qed

lemma honest_adjacent:
  assumes "sorted_wrt (<) (map me_key (cm_entries m))" and "length (cm_entries m) \<le> u64_max"
  shows "b \<le> length (cm_entries m) \<Longrightarrow> check_adjacent (map (entry_at m) [a..<b]) = Inr ()"
proof (induction "b - a" arbitrary: a)
  case (Suc n)
  show ?case
  proof (cases "a + 1 < b")
    case True
    then have "[a..<b] = a # (a + 1) # [a + 2..<b]" and next': "[a + 1..<b] = (a + 1) # [a + 2..<b]"
      by (simp_all add: upt_conv_Cons)
    moreover have "check_adjacent (map (entry_at m) [a + 1..<b]) = Inr ()" using Suc by simp
    moreover have "me_key (cm_entries m ! a) < me_key (cm_entries m ! (a + 1))"
      using True Suc.prems by (intro keys_increase [OF assms(1)]) simp_all
    moreover have "wrap64 (a + 1) = a + 1" using True Suc.prems assms(2) by (intro wrap64_id) simp
    ultimately show ?thesis by (simp add: entry_at_def not_le)
  next
    case False
    then have "b = a + 1" using Suc.hyps(2) by simp
    then show ?thesis by simp
  qed
qed simp

lemma keys_below_split:
  assumes "sorted_wrt (<) (map me_key (cm_entries m))" and "i < length (cm_entries m)"
  shows "i < keys_below m k \<longleftrightarrow> me_key (cm_entries m ! i) < k"
proof
  assume "i < keys_below m k"
  then show "me_key (cm_entries m ! i) < k"
    using nth_mem [of i "takeWhile (\<lambda>e. me_key e < k) (cm_entries m)"] set_takeWhileD
    by (fastforce simp: keys_below_def takeWhile_nth)
next
  assume lt: "me_key (cm_entries m ! i) < k"
  show "i < keys_below m k"
  proof (rule ccontr)
    assume "\<not> i < keys_below m k"
    then have le: "keys_below m k \<le> i" by simp
    then have "keys_below m k < length (cm_entries m)" using assms(2) by simp
    then have "\<not> me_key (cm_entries m ! keys_below m k) < k"
      using nth_length_takeWhile [of "\<lambda>e. me_key e < k" "cm_entries m"] by (simp add: keys_below_def)
    moreover have "me_key (cm_entries m ! keys_below m k) \<le> me_key (cm_entries m ! i)"
      using keys_increase [OF assms(1) _ assms(2), of "keys_below m k"] le by (cases "keys_below m k = i") auto
    ultimately show False using lt by simp
  qed
qed

lemma keys_below_le: "keys_below m k \<le> length (cm_entries m)"
  by (simp add: keys_below_def length_takeWhile_le)

lemma prove_range_parts:
  fixes m :: complete_map and s e :: string
  defines "f \<equiv> keys_below m s" and "l \<equiv> keys_below m e"
  shows "rp_matched (prove_range m s e) = map (entry_at m) [f..<l]"
    and "rp_left (prove_range m s e) = (if f = 0 then None else Some (entry_at m (f - 1)))"
    and "rp_right (prove_range m s e) = (if l < length (cm_entries m) then Some (entry_at m l) else None)"
proof -
  have "List.map_filter (proven_at m) is = map (entry_at m) is" if "\<forall>i \<in> set is. i < length (cm_entries m)" for "is"
    using that by (induction "is") (auto simp: map_filter_simps proven_entry_at)
  then show "rp_matched (prove_range m s e) = map (entry_at m) [f..<l]"
    using keys_below_le [of m e] by (simp add: prove_range_def Let_def f_def l_def)
  show "rp_left (prove_range m s e) = (if f = 0 then None else Some (entry_at m (f - 1)))"
    using keys_below_le [of m s] by (cases "keys_below m s") (auto simp: prove_range_def Let_def f_def proven_entry_at)
  show "rp_right (prove_range m s e) = (if l < length (cm_entries m) then Some (entry_at m l) else None)"
    by (simp add: prove_range_def Let_def l_def proven_entry_at)
qed

lemma prove_range_simps:
  "rp_start (prove_range m s e) = s" "rp_end (prove_range m s e) = e"
  "rp_total (prove_range m s e) = length (cm_entries m)" "rp_absent (prove_range m s e) = None"
  by (simp_all add: prove_range_def Let_def)

lemma keys_below_mono: "s \<le> e \<Longrightarrow> keys_below m s \<le> keys_below m e"
proof -
  assume "s \<le> e"
  then have "length (takeWhile (\<lambda>x. me_key x < s) xs) \<le> length (takeWhile (\<lambda>x. me_key x < e) xs)" for xs
    by (induction xs) auto
  then show ?thesis by (simp add: keys_below_def)
qed

lemma honest_all:
  assumes "s \<le> e"
  shows "\<exists>a b. all_proven (prove_range m s e) = map (entry_at m) [a..<b] \<and> b \<le> length (cm_entries m) \<and>
     a = keys_below m s - 1 \<and> b = min (keys_below m e + 1) (length (cm_entries m))"
proof -
  let ?f = "keys_below m s" and ?l = "keys_below m e" and ?n = "length (cm_entries m)"
  have le: "?f \<le> ?l" "?l \<le> ?n" using keys_below_mono [OF assms] keys_below_le by simp_all
  have left: "(if ?f = 0 then [] else [?f - 1]) @ [?f..<?l] = [?f - 1..<?l]"
    using le by (cases ?f) (auto simp: upt_conv_Cons)
  have right: "[?f - 1..<?l] @ (if ?l < ?n then [?l] else []) = [?f - 1..<min (?l + 1) ?n]"
  proof (cases "?l < ?n")
    case True
    then have "min (?l + 1) ?n = Suc ?l" by simp
    moreover have "?f - 1 \<le> ?l" using le by simp
    ultimately show ?thesis using True by simp
  next
    case False
    then have "min (?l + 1) ?n = ?l" using le by simp
    then show ?thesis using False by simp
  qed
  have "all_proven (prove_range m s e) =
      map (entry_at m) (((if ?f = 0 then [] else [?f - 1]) @ [?f..<?l]) @ (if ?l < ?n then [?l] else []))"
    by (simp add: all_proven_def prove_range_parts)
  then have "all_proven (prove_range m s e) = map (entry_at m) [?f - 1..<min (?l + 1) ?n]"
    unfolding left right .
  then show ?thesis by auto
qed

lemma honest_checks:
  assumes m: "m = map_build H es" and size: "length (cm_entries m) \<le> u64_max" and "s \<le> e"
  shows "check_paths H (length (cm_entries m)) (map_root m) (all_proven (prove_range m s e)) = Inr ()"
    and "check_adjacent (all_proven (prove_range m s e)) = Inr ()"
    and "check_matched s e (rp_matched (prove_range m s e)) = Inr ()"
    and "check_left (prove_range m s e) = Inr ()" and "check_right (prove_range m s e) = Inr ()"
proof -
  let ?f = "keys_below m s" and ?l = "keys_below m e" and ?n = "length (cm_entries m)"
  have sorted: "sorted_wrt (<) (map me_key (cm_entries m))" unfolding m by (rule build_sorted)
  have le: "?f \<le> ?l" "?l \<le> ?n" using keys_below_mono [OF assms(3)] keys_below_le by simp_all
  have split: "i < keys_below m k \<longleftrightarrow> me_key (cm_entries m ! i) < k" if "i < ?n" for i k
    using that by (rule keys_below_split [OF sorted])
  obtain a b where all: "all_proven (prove_range m s e) = map (entry_at m) [a..<b]" "b \<le> ?n"
    using honest_all [OF assms(3), of m] by blast
  show "check_paths H ?n (map_root m) (all_proven (prove_range m s e)) = Inr ()"
    using honest_path [OF m] all(2) by (simp add: all(1) check_paths_iff list_all_iff)
  show "check_adjacent (all_proven (prove_range m s e)) = Inr ()"
    unfolding all(1) by (rule honest_adjacent [OF sorted size all(2)])
  have "s \<le> me_key (cm_entries m ! i) \<and> me_key (cm_entries m ! i) < e" if "?f \<le> i" "i < ?l" for i
    using split [of i s] split [of i e] that le by (auto simp: not_less [symmetric])
  then show "check_matched s e (rp_matched (prove_range m s e)) = Inr ()"
    by (simp add: check_matched_iff prove_range_parts list_all_iff entry_at_def)
  show "check_left (prove_range m s e) = Inr ()"
  proof (cases "?f = 0")
    case True
    then show ?thesis by (cases "?l") (simp_all add: check_left_def prove_range_parts entry_at_def upt_conv_Cons Let_def del: upt_Suc)
  next
    case False
    then have "me_key (cm_entries m ! (?f - 1)) < s" using split [of "?f - 1" s] le by simp
    then show ?thesis using False by (simp add: check_left_def prove_range_parts prove_range_simps entry_at_def not_le)
  qed
  show "check_right (prove_range m s e) = Inr ()"
  proof (cases "?l < ?n")
    case True
    then have "e \<le> me_key (cm_entries m ! ?l)" using split [of ?l e] by simp
    then show ?thesis using True by (simp add: check_right_def prove_range_parts prove_range_simps entry_at_def not_less)
  next
    case False
    then have l: "?l = ?n" using le by simp
    have w: "wrap64 ?n = ?n" using size by (simp add: wrap64_id)
    show ?thesis
    proof (cases "?f < ?n")
      case True
      then obtain k where n: "?n = Suc k" "?f \<le> k" by (cases ?n) auto
      then have up: "[?f..<?n] = [?f..<k] @ [k]" by simp
      have "last (map (entry_at m) [?f..<?n]) = entry_at m (?n - 1)" "[?f..<?n] \<noteq> []"
        unfolding up using n by simp_all
      then show ?thesis using l True w
        by (simp add: check_right_def prove_range_parts prove_range_simps entry_at_def)
    next
      case False
      then have "?f = ?n" using le by simp
      then show ?thesis using l w
        by (cases "?n = 0") (simp_all add: check_right_def prove_range_parts prove_range_simps entry_at_def)
    qed
  qed
qed

text \<open>An honest server is believed: the proof it makes of a range verifies against the
  root of its map, and its proof that a key is absent verifies exactly when the map does
  not hold the key.\<close>

theorem honest_proofs_verify:
  assumes "m = map_build H es" and "length (cm_entries m) \<le> u64_max" and "start \<le> end'"
  shows "verify_range H (prove_range m start end') (map_root m) = Inr () \<and>
    (verify_range H (prove_absent m k) (map_root m) = Inr () \<longleftrightarrow> k \<notin> me_key ` set (cm_entries m))"
proof
  show "verify_range H (prove_range m start end') (map_root m) = Inr ()"
    unfolding verify_range_def first_error_iff using honest_checks [OF assms]
    by (simp add: prove_range_simps check_not_carried_def)
  have sorted: "sorted_wrt (<) (map me_key (cm_entries m))" unfolding assms(1) by (rule build_sorted)
  let ?f = "keys_below m k" and ?n = "length (cm_entries m)"
  obtain a b where all: "all_proven (prove_range m k k) = map (entry_at m) [a..<b]"
    and ab: "a = ?f - 1" "b = min (?f + 1) ?n" using honest_all [of k k m] by auto
  have "k \<in> me_key ` set (cm_entries m) \<longleftrightarrow> (\<exists>i < ?n. me_key (cm_entries m ! i) = k)"
    by (auto simp: set_conv_nth)
  also have "\<dots> \<longleftrightarrow> (\<exists>i. a \<le> i \<and> i < b \<and> me_key (cm_entries m ! i) = k)"
  proof
    assume "\<exists>i < ?n. me_key (cm_entries m ! i) = k"
    then obtain i where i: "i < ?n" "me_key (cm_entries m ! i) = k" by blast
    then have ge: "?f \<le> i" using keys_below_split [OF sorted i(1), of k] by simp
    moreover have "\<not> ?f < i"
    proof
      assume lt: "?f < i"
      then have "\<not> me_key (cm_entries m ! ?f) < k" using keys_below_split [OF sorted, of ?f k] i(1) by simp
      then show False using keys_increase [OF sorted lt i(1)] i(2) by simp
    qed
    ultimately have "i = ?f" by simp
    then show "\<exists>i. a \<le> i \<and> i < b \<and> me_key (cm_entries m ! i) = k"
      using i ab by (intro exI [of _ i]) auto
  qed (use ab in auto)
  finally have has: "k \<in> me_key ` set (cm_entries m) \<longleftrightarrow> list_ex (\<lambda>e. me_key (pe_entry e) = k) (all_proven (prove_range m k k))"
    by (auto simp: all list_ex_iff entry_at_def)
  have same: "all_proven (prove_absent m k) = all_proven (prove_range m k k)"
    "check_left (prove_absent m k) = check_left (prove_range m k k)" "check_right (prove_absent m k) = check_right (prove_range m k k)"
    "rp_matched (prove_absent m k) = rp_matched (prove_range m k k)" "rp_total (prove_absent m k) = ?n"
    "rp_start (prove_absent m k) = k" "rp_end (prove_absent m k) = k" "rp_absent (prove_absent m k) = Some k"
    by (simp_all add: prove_absent_def all_proven_def check_left_def check_right_def prove_range_simps Let_def
      cong: option.case_cong if_cong)
  show "verify_range H (prove_absent m k) (map_root m) = Inr () \<longleftrightarrow> k \<notin> me_key ` set (cm_entries m)"
    unfolding verify_range_def first_error_iff using honest_checks [OF assms(1,2), of k k]
    by (simp add: same check_not_carried_def has)
qed

section \<open>An instance\<close>

definition length_hash :: "byte list \<Rightarrow> hash" where
  "length_hash x = replicate 31 1 @ [word_of_nat (length x)]"

definition one_entry :: "map_entry list" where
  "one_entry = [\<lparr>me_key = ''a'', me_value = zero_hash\<rparr>]"

lemma one_entry_build: "cm_entries (map_build H one_entry) = one_entry"
  by (simp add: map_build_def one_entry_def)

lemma honest_proofs_verify_witness:
  "verify_range length_hash (prove_range (map_build length_hash one_entry) ''a'' ''b'') (map_root (map_build length_hash one_entry)) = Inr ()"
  using honest_proofs_verify [OF refl, of length_hash one_entry "''a''" "''b''"]
  by (simp add: one_entry_build) (simp add: one_entry_def)

lemma one_entry_levels: "cm_levels (map_build H one_entry) = [[leaf_hash H ''a'' zero_hash]]"
  by (simp add: map_build_def one_entry_def levels_from.simps)

lemma one_entry_root: "map_root (map_build length_hash one_entry) \<noteq> zero_hash"
proof -
  have "map_root (map_build length_hash one_entry) = length_hash (framed (leaf_fields ''a'' zero_hash))"
    unfolding map_root_def one_entry_levels one_entry_build by (simp add: one_entry_def leaf_hash_def of_fields_def)
  moreover have "hd (length_hash x) \<noteq> hd zero_hash" for x
    by (simp add: length_hash_def zero_hash_def hash_len_def numeral_eq_Suc)
  ultimately show ?thesis by metis
qed

lemma verified_range_is_complete_witness:
  "map pe_entry (rp_matched (prove_range (map_build length_hash one_entry) ''a'' ''b'')) =
     filter (in_range ''a'' ''b'') one_entry \<or>
   range_forged length_hash (map_build length_hash one_entry) (prove_range (map_build length_hash one_entry) ''a'' ''b'')"
proof -
  let ?m = "map_build length_hash one_entry" and ?p = "prove_range (map_build length_hash one_entry) ''a'' ''b''"
  have parts: "keys_below ?m ''a'' = 0" "keys_below ?m ''b'' = 1"
    by (simp_all add: keys_below_def one_entry_build) (simp_all add: one_entry_def)
  have all: "all_proven ?p = [entry_at ?m 0]"
    by (simp add: all_proven_def prove_range_parts parts one_entry_build) (simp add: one_entry_def)
  have "pe_entry (entry_at ?m 0) = \<lparr>me_key = ''a'', me_value = zero_hash\<rparr>" "pe_index (entry_at ?m 0) = 0" "pe_path (entry_at ?m 0) = []"
    unfolding entry_at_def one_entry_build one_entry_levels by (simp_all add: one_entry_def)
  then have "proven_fits (entry_at ?m 0)" by (simp add: proven_fits_def entry_fits_def zero_hash_def)
  then have "range_fits ?p" by (simp add: range_fits_def all prove_range_simps one_entry_build) (simp add: one_entry_def)
  moreover have "hash_ok length_hash" by (simp add: hash_ok_def length_hash_def hash_len_def)
  moreover have "list_all entry_fits (cm_entries ?m)"
    unfolding one_entry_build by (simp add: one_entry_def entry_fits_def zero_hash_def)
  moreover have "rp_matched ?p \<noteq> []" by (simp add: prove_range_parts parts)
  ultimately show ?thesis
    using verified_range_is_complete [OF _ refl, of length_hash one_entry ?p] honest_proofs_verify_witness one_entry_root
    by (simp add: prove_range_simps one_entry_build)
qed

end
