(* ===== verification/Store_Inclusion.thy ===== *)
theory Store_Inclusion
  imports Store_History
begin

text \<open>
  Proofs that an entry is in a branch's history (\<open>theta-storage/src/inclusion.rs\<close>): the
  entries from the target up to the head, and the check that links them.  A history is
  given oldest first; the hash and the encodings are the argument \<open>D\<close>.
\<close>

section \<open>Model\<close>

record inclusion_proof =
  ip_entry :: log_entry
  ip_path :: "log_entry list"
  ip_root :: hash

datatype proof_error =
    DoesNotReachRoot string string
  | BrokenLink nat string string
  | ProofEmpty
  | WrongRoot string string

fun position_of_hash :: "codec \<Rightarrow> hash \<Rightarrow> log_entry list \<Rightarrow> nat option" where
  "position_of_hash D h [] = None"
| "position_of_hash D h (e # es) =
     (if entry_hash D e = h then Some 0 else map_option Suc (position_of_hash D h es))"

definition prove_inclusion :: "codec \<Rightarrow> log_entry list \<Rightarrow> hash \<Rightarrow> inclusion_proof option" where
  "prove_inclusion D history target =
     (case position_of_hash D target history of
        None \<Rightarrow> None
      | Some i \<Rightarrow>
          if history = [] then None
          else Some \<lparr>ip_entry = history ! i, ip_path = drop (i + 1) history,
                     ip_root = entry_hash D (last history)\<rparr>)"

fun follow_links :: "codec \<Rightarrow> hash \<Rightarrow> log_entry list \<Rightarrow> proof_error + hash" where
  "follow_links D previous [] = Inr previous"
| "follow_links D previous (e # es) =
     (if le_prev e \<noteq> previous then Inl (BrokenLink (le_commit e) (to_hex (le_prev e)) (to_hex previous))
      else follow_links D (entry_hash D e) es)"

definition verify_inclusion :: "codec \<Rightarrow> inclusion_proof \<Rightarrow> hash \<Rightarrow> proof_error + unit" where
  "verify_inclusion D p trusted =
     (if ip_root p \<noteq> trusted then Inl (WrongRoot (to_hex (ip_root p)) (to_hex trusted))
      else case follow_links D (entry_hash D (ip_entry p)) (ip_path p) of
             Inl err \<Rightarrow> Inl err
           | Inr reached \<Rightarrow>
               if reached \<noteq> trusted then Inl (DoesNotReachRoot (to_hex reached) (to_hex trusted)) else Inr ())"

section \<open>Links\<close>

text \<open>A list of entries, newest first, linked down from a hash, wherever it ends.\<close>

fun linked :: "codec \<Rightarrow> hash \<Rightarrow> log_entry list \<Rightarrow> bool" where
  "linked D h [] \<longleftrightarrow> True"
| "linked D h (e # es) \<longleftrightarrow> h = entry_hash D e \<and> linked D (le_prev e) es"

lemma chained_linked: "chained D h es \<Longrightarrow> linked D h es"
  by (induction es arbitrary: h) auto

lemma linked_append:
  "linked D h (es @ e # fs) \<longleftrightarrow> linked D h (es @ [e]) \<and> linked D (le_prev e) fs"
  by (induction es arbitrary: h) auto

lemma follow_links_iff:
  "follow_links D (entry_hash D e) es = Inr h \<longleftrightarrow> linked D h (rev es @ [e])"
proof (induction es arbitrary: e)
  case Nil
  then show ?case by auto
next
  case (Cons f es)
  have "linked D h (rev (f # es) @ [e]) \<longleftrightarrow> linked D h (rev es @ [f]) \<and> le_prev f = entry_hash D e"
    using linked_append [of D h "rev es" f "[e]"] by auto
  then show ?case using Cons.IH [of f] by auto
qed

lemma verify_inclusion_iff:
  "verify_inclusion D p h = Inr () \<longleftrightarrow> ip_root p = h \<and> linked D h (rev (ip_path p) @ [ip_entry p])"
  by (auto simp: verify_inclusion_def split: sum.splits simp flip: follow_links_iff)

lemma position_of_hash_Some:
  "position_of_hash D h es = Some i \<Longrightarrow> i < length es \<and> entry_hash D (es ! i) = h"
  by (induction es arbitrary: i) (auto split: if_splits)

lemma position_of_hash_None: "position_of_hash D h es = None \<longleftrightarrow> h \<notin> entry_hash D ` set es"
  by (induction es) auto

text \<open>Two lists linked from one hash agree as far as both go.\<close>

lemma linked_agree:
  "linked D h fs \<Longrightarrow> chained D h es \<Longrightarrow> \<forall>e \<in> set es \<union> set fs. entry_ok D e \<Longrightarrow>
     \<forall>f \<in> set fs. entry_hash D f \<noteq> zero_hash \<Longrightarrow> \<forall>e \<in> set es. \<forall>f \<in> set fs. \<not> collide D e f \<Longrightarrow>
     length fs \<le> length es \<and> map (entry_fields D) fs = map (entry_fields D) (take (length fs) es)"
proof (induction fs arbitrary: h es)
  case Nil
  then show ?case by simp
next
  case (Cons f fs)
  then obtain e es' where es: "es = e # es'" by (cases es) auto
  have h: "entry_hash D e = entry_hash D f" using Cons.prems(1,2) es by simp
  have "\<not> collide D e f" using Cons.prems(5) es by simp
  then have fields: "entry_fields D e = entry_fields D f"
    using h Cons.prems(3) es by (intro same_hash_same_fields) auto
  then have "le_prev e = le_prev f" by (simp add: entry_fields_def)
  then have "length fs \<le> length es' \<and> map (entry_fields D) fs = map (entry_fields D) (take (length fs) es')"
    using Cons.IH [of "le_prev f" es'] Cons.prems es by simp
  then show ?case using es fields by simp
qed

text \<open>C30: An inclusion proof places its entry in the history under the root the client
  trusts.  The server's proof of any entry of the history verifies against the head; and
  whatever proof verifies against the head, its entry and its path are, field by field,
  the entries at the top of that history, unless the proof exhibits a collision of the
  hash function or an entry whose hash is zero.\<close>

theorem inclusion_proof_places_entry:
  assumes "chained D root es" and "\<forall>e \<in> set es. entry_ok D e"
  shows "(\<forall>e \<in> set es. \<exists>p. prove_inclusion D (rev es) (entry_hash D e) = Some p \<and>
            entry_hash D (ip_entry p) = entry_hash D e \<and> verify_inclusion D p root = Inr ()) \<and>
     (\<forall>p. verify_inclusion D p root = Inr () \<longrightarrow> entry_ok D (ip_entry p) \<longrightarrow> list_all (entry_ok D) (ip_path p) \<longrightarrow>
        (length (ip_path p) < length es \<and>
         map (entry_fields D) (rev (ip_path p) @ [ip_entry p]) = map (entry_fields D) (take (length (ip_path p) + 1) es)) \<or>
        (\<exists>f \<in> set (ip_entry p # ip_path p). entry_hash D f = zero_hash \<or> (\<exists>e \<in> set es. collide D e f)))"
proof (intro conjI ballI allI impI)
  fix e assume e: "e \<in> set es"
  obtain i where i: "position_of_hash D (entry_hash D e) (rev es) = Some i"
    using e position_of_hash_None [of D "entry_hash D e" "rev es"] by fastforce
  note at = position_of_hash_Some [OF i]
  let ?p = "\<lparr>ip_entry = rev es ! i, ip_path = drop (i + 1) (rev es), ip_root = entry_hash D (last (rev es))\<rparr>"
  have ne: "es \<noteq> []" using e by auto
  have root: "entry_hash D (last (rev es)) = root" using assms(1) ne by (cases es) auto
  have split: "es = (rev (drop (i + 1) (rev es)) @ [rev es ! i]) @ rev (take i (rev es))"
    using id_take_nth_drop [of i "rev es"] at by (metis Suc_eq_plus1 append.assoc rev.simps(2) rev_append rev_rev_ident)
  have "linked D root (rev (drop (i + 1) (rev es)) @ [rev es ! i])"
    using chained_linked [OF assms(1)] split linked_append [of D root "rev (drop (i + 1) (rev es))" "rev es ! i"]
    by (metis append.assoc append_Cons append_Nil)
  then have "verify_inclusion D ?p root = Inr ()" using root by (simp add: verify_inclusion_iff)
  moreover have "prove_inclusion D (rev es) (entry_hash D e) = Some ?p" using i ne by (simp add: prove_inclusion_def)
  ultimately show "\<exists>p. prove_inclusion D (rev es) (entry_hash D e) = Some p \<and>
      entry_hash D (ip_entry p) = entry_hash D e \<and> verify_inclusion D p root = Inr ()"
    using at by (intro exI [of _ ?p]) simp
next
  fix p assume "verify_inclusion D p root = Inr ()" and ok: "entry_ok D (ip_entry p)" "list_all (entry_ok D) (ip_path p)"
  then have "linked D root (rev (ip_path p) @ [ip_entry p])" by (simp add: verify_inclusion_iff)
  from linked_agree [OF this assms(1)] assms(2) ok
  show "(length (ip_path p) < length es \<and>
      map (entry_fields D) (rev (ip_path p) @ [ip_entry p]) = map (entry_fields D) (take (length (ip_path p) + 1) es)) \<or>
      (\<exists>f \<in> set (ip_entry p # ip_path p). entry_hash D f = zero_hash \<or> (\<exists>e \<in> set es. collide D e f))"
    by (fastforce simp: list_all_iff Suc_le_eq)
qed

text \<open>A proof that starts at an entry the trusted history does not have is refused.\<close>

lemma inclusion_proof_places_entry_witness:
  "let e = sample_entry zero_hash 1; h = entry_hash sample_codec e in
   (\<exists>p. prove_inclusion sample_codec [e] h = Some p \<and> verify_inclusion sample_codec p h = Inr ()) \<and>
   verify_inclusion sample_codec \<lparr>ip_entry = e\<lparr>le_commit := 2\<rparr>, ip_path = [], ip_root = h\<rparr> h \<noteq> Inr ()"
proof -
  let ?e = "sample_entry zero_hash 1" and ?f = "(sample_entry zero_hash 1)\<lparr>le_commit := 2\<rparr>"
  have chain: "chained sample_codec (entry_hash sample_codec ?e) [?e]"
    by (simp add: sample_hash_nonzero) (simp add: sample_entry_def)
  have ok: "entry_ok sample_codec ?e" "entry_ok sample_codec ?f"
    by (simp_all add: entry_ok_def sample_entry_def sample_codec_def zero_hash_def hash_len_def)
  have differ: "entry_fields sample_codec ?f \<noteq> entry_fields sample_codec ?e"
    using le64_inj [of 1 2] by (auto simp: entry_fields_def sample_entry_def)
  have "\<not> collide sample_codec ?e ?f" by (simp add: collide_def sample_codec_def)
  with inclusion_proof_places_entry [OF chain] ok differ sample_hash_nonzero show ?thesis
    by (fastforce simp: Let_def)
qed

end
