(* ===== verification/Store_Verifier.thy ===== *)
theory Store_Verifier
  imports Store_History
begin

text \<open>
  The background verifier of the log (\<open>theta-storage/src/verifier.rs\<close>): it walks the log a
  bounded number of entries per tick and counts the passes it finished.  A tick that
  slices the log out of range panics in the source and is \<open>None\<close> here.
\<close>

section \<open>Model\<close>

record verifier_policy =
  vp_per_tick :: nat
  vp_max_pass :: int

definition default_verifier_policy :: verifier_policy where
  "default_verifier_policy = \<lparr>vp_per_tick = 1000, vp_max_pass = 24 * 60 * 60 * 1000\<rparr>"

datatype verify_error =
    BrokenChain nat nat string
  | NotKeepingUp int int

record coverage =
  cv_checked :: nat
  cv_target :: nat
  cv_passes :: nat
  cv_since :: "int option"
  cv_started :: int

definition has_completed_a_pass :: "coverage \<Rightarrow> bool" where
  "has_completed_a_pass c \<longleftrightarrow> cv_since c \<noteq> None"

record verifier =
  vr_policy :: verifier_policy
  vr_cursor :: nat
  vr_target :: nat
  vr_passes :: nat
  vr_since :: "int option"
  vr_started :: int
  vr_seen :: "hash set"

definition verifier_new :: "verifier_policy \<Rightarrow> int \<Rightarrow> verifier" where
  "verifier_new p now =
     \<lparr>vr_policy = p, vr_cursor = 0, vr_target = 0, vr_passes = 0, vr_since = None, vr_started = now, vr_seen = {}\<rparr>"

definition progress :: "verifier \<Rightarrow> coverage" where
  "progress v = \<lparr>cv_checked = vr_cursor v, cv_target = vr_target v, cv_passes = vr_passes v,
     cv_since = vr_since v, cv_started = vr_started v\<rparr>"

fun verify_slice :: "codec \<Rightarrow> log_entry list \<Rightarrow> hash set \<Rightarrow> (verify_error + unit) \<times> hash set" where
  "verify_slice D [] seen = (Inr (), seen)"
| "verify_slice D (e # es) seen =
     (if le_prev e \<noteq> zero_hash \<and> le_prev e \<notin> seen
      then (Inl (BrokenChain (le_commit e) (le_branch e) (to_hex (le_prev e))), seen)
      else verify_slice D es (insert (entry_hash D e) seen))"

definition start_pass :: "log_entry list \<Rightarrow> int \<Rightarrow> verifier \<Rightarrow> verifier" where
  "start_pass entries now v =
     (if vr_cursor v = 0 then v\<lparr>vr_target := length entries, vr_started := now, vr_seen := {}\<rparr> else v)"

definition end_pass :: "int \<Rightarrow> verifier \<Rightarrow> verifier" where
  "end_pass now v =
     (if vr_target v \<le> vr_cursor v
      then v\<lparr>vr_passes := wrap64 (vr_passes v + 1), vr_since := Some now, vr_cursor := 0\<rparr> else v)"

definition tick :: "codec \<Rightarrow> log_entry list \<Rightarrow> int \<Rightarrow> verifier \<Rightarrow> ((verify_error + coverage) \<times> verifier) option" where
  "tick D entries now v0 =
     (let v = start_pass entries now v0;
          end' = min (wrap64 (vr_cursor v + vp_per_tick (vr_policy v))) (vr_target v)
      in if end' < vr_cursor v \<or> length entries < end' then None
         else (case verify_slice D (drop (vr_cursor v) (take end' entries)) (vr_seen v) of
                 (Inl e, seen) \<Rightarrow> Some (Inl e, v\<lparr>vr_seen := seen\<rparr>)
               | (Inr _, seen) \<Rightarrow>
                   let v' = end_pass now (v\<lparr>vr_seen := seen, vr_cursor := end'\<rparr>) in Some (Inr (progress v'), v')))"

definition check_pace :: "int \<Rightarrow> verifier \<Rightarrow> verify_error + unit" where
  "check_pace now v =
     (let reference = (case vr_since v of Some t \<Rightarrow> t | None \<Rightarrow> vr_started v); elapsed = sat_i64 (now - reference) in
      if vp_max_pass (vr_policy v) < elapsed then Inl (NotKeepingUp elapsed (vp_max_pass (vr_policy v))) else Inr ())"

section \<open>Chains\<close>

text \<open>The first \<open>n\<close> entries each start a chain or name an entry before them.\<close>

definition links_ok :: "codec \<Rightarrow> log_entry list \<Rightarrow> nat \<Rightarrow> bool" where
  "links_ok D log n \<longleftrightarrow>
     (\<forall>i < n. le_prev (log ! i) = zero_hash \<or> le_prev (log ! i) \<in> entry_hash D ` set (take i log))"

lemma links_ok_0 [simp]: "links_ok D log 0"
  by (simp add: links_ok_def)

lemma links_ok_Suc:
  "links_ok D log (Suc n) \<longleftrightarrow>
     links_ok D log n \<and> (le_prev (log ! n) = zero_hash \<or> le_prev (log ! n) \<in> entry_hash D ` set (take n log))"
  by (auto simp: links_ok_def less_Suc_eq)

lemma links_ok_mono: "links_ok D log n \<Longrightarrow> m \<le> n \<Longrightarrow> links_ok D log m"
  by (simp add: links_ok_def)

lemma links_ok_append: "n \<le> length log \<Longrightarrow> links_ok D (log @ grown) n = links_ok D log n"
  by (auto simp: links_ok_def nth_append)

text \<open>What one slice decides, starting with the hashes of the first \<open>m\<close> entries or more.\<close>

lemma verify_slice_run:
  assumes "links_ok D log m" and "c \<le> m" and "m \<le> length log" and "c \<le> b" and "b \<le> length log"
    and "verify_slice D (drop c (take b log)) (entry_hash D ` set (take m log)) = (r, seen)"
  shows "\<exists>m'. links_ok D log m' \<and> m \<le> m' \<and> m' \<le> length log \<and> seen = entry_hash D ` set (take m' log) \<and>
     (case r of Inr _ \<Rightarrow> b \<le> m' | Inl e \<Rightarrow> m' < b \<and> \<not> links_ok D log (Suc m') \<and>
       e = BrokenChain (le_commit (log ! m')) (le_branch (log ! m')) (to_hex (le_prev (log ! m'))))"
  using assms
proof (induction "b - c" arbitrary: c m)
  case 0
  then show ?case by (intro exI [of _ m]) auto
next
  case (Suc k)
  then have lt: "c < b" by simp
  then have cons: "drop c (take b log) = log ! c # drop (Suc c) (take b log)"
    using Suc.prems(5) by (simp add: Cons_nth_drop_Suc [symmetric])
  show ?case
  proof (cases "c < m")
    case True
    have ok: "le_prev (log ! c) = zero_hash \<or> le_prev (log ! c) \<in> entry_hash D ` set (take c log)"
      using Suc.prems(1) True by (simp add: links_ok_def)
    have sub: "set (take c log) \<subseteq> set (take m log)" using True by (intro set_take_subset_set_take) simp
    have "log ! c \<in> set (take m log)" using True Suc.prems(3) by (auto simp: in_set_conv_nth)
    then have "verify_slice D (drop (Suc c) (take b log)) (entry_hash D ` set (take m log)) = (r, seen)"
      using Suc.prems(6) ok sub unfolding cons by (auto simp: insert_absorb split: if_splits)
    then show ?thesis using Suc.hyps(1) [of "Suc c" m] Suc.hyps(2) Suc.prems True lt by simp
  next
    case False
    then have m: "m = c" using Suc.prems(2) by simp
    show ?thesis
    proof (cases "le_prev (log ! c) = zero_hash \<or> le_prev (log ! c) \<in> entry_hash D ` set (take c log)")
      case True
      have img: "insert (entry_hash D (log ! c)) (entry_hash D ` set (take c log)) = entry_hash D ` set (take (Suc c) log)"
        using lt Suc.prems(5) by (simp add: take_Suc_conv_app_nth)
      have "verify_slice D (drop (Suc c) (take b log)) (entry_hash D ` set (take (Suc c) log)) = (r, seen)"
        using Suc.prems(6) True unfolding cons m img [symmetric] by auto
      moreover have "links_ok D log (Suc c)" using Suc.prems(1) True m by (simp add: links_ok_Suc)
      moreover have "k = b - Suc c" using Suc.hyps(2) by simp
      ultimately obtain m' where "links_ok D log m' \<and> Suc c \<le> m' \<and> m' \<le> length log \<and> seen = entry_hash D ` set (take m' log) \<and>
         (case r of Inr _ \<Rightarrow> b \<le> m' | Inl e \<Rightarrow> m' < b \<and> \<not> links_ok D log (Suc m') \<and>
           e = BrokenChain (le_commit (log ! m')) (le_branch (log ! m')) (to_hex (le_prev (log ! m'))))"
        using Suc.hyps(1) [of "Suc c" "Suc c"] Suc.prems(5) lt by auto
      then show ?thesis using m by (intro exI [of _ m']) simp
    next
      case False
      then have "r = Inl (BrokenChain (le_commit (log ! c)) (le_branch (log ! c)) (to_hex (le_prev (log ! c))))"
        "seen = entry_hash D ` set (take c log)"
        using Suc.prems(6) unfolding cons m by auto
      then show ?thesis using Suc.prems lt m False by (intro exI [of _ c]) (simp add: links_ok_Suc)
    qed
  qed
qed

section \<open>The verifier over a growing log\<close>

inductive verifier_reachable :: "codec \<Rightarrow> verifier_policy \<Rightarrow> log_entry list \<Rightarrow> verifier \<Rightarrow> bool" for D p where
  start: "verifier_reachable D p log (verifier_new p now)"
| tick: "verifier_reachable D p log v \<Longrightarrow> tick D (log @ grown) now v = Some (r, v') \<Longrightarrow>
    verifier_reachable D p (log @ grown) v'"

definition verifier_inv :: "codec \<Rightarrow> verifier_policy \<Rightarrow> log_entry list \<Rightarrow> verifier \<Rightarrow> bool" where
  "verifier_inv D p log v \<longleftrightarrow> vr_policy v = p \<and>
     (0 < vr_cursor v \<longrightarrow> vr_cursor v < vr_target v \<and> vr_target v \<le> length log \<and>
       (\<exists>m. vr_cursor v \<le> m \<and> m \<le> length log \<and> links_ok D log m \<and> vr_seen v = entry_hash D ` set (take m log)))"

lemma verifier_inv_append: "verifier_inv D p log v \<Longrightarrow> verifier_inv D p (log @ grown) v"
  by (fastforce simp: verifier_inv_def links_ok_append)

text \<open>The target of the pass a tick works on.\<close>

definition pass_target :: "log_entry list \<Rightarrow> verifier \<Rightarrow> nat" where
  "pass_target log v = (if vr_cursor v = 0 then length log else vr_target v)"

lemma tick_cases:
  assumes "verifier_inv D p log v" and "length log + vp_per_tick p \<le> u64_max"
  obtains (broken) e v' where "tick D log now v = Some (Inl e, v')" "\<not> links_ok D log (pass_target log v)"
      "verifier_inv D p log v'" "vr_passes v' = vr_passes v" "vr_cursor v' = vr_cursor v"
      "vr_cursor v' \<noteq> 0 \<Longrightarrow> vr_target v' = vr_target v"
  | (finished) v' where "tick D log now v = Some (Inr (progress v'), v')" "links_ok D log (pass_target log v)"
      "verifier_inv D p log v'" "vr_passes v' = wrap64 (vr_passes v + 1)" "vr_cursor v' = 0" "vr_since v' = Some now"
      "vr_target v' = pass_target log v"
  | (going) v' where "tick D log now v = Some (Inr (progress v'), v')" "verifier_inv D p log v'"
      "vr_passes v' = vr_passes v" "vr_cursor v' = vr_cursor v + vp_per_tick p"
      "vr_cursor v' < pass_target log v" "vr_since v' = vr_since v" "vr_target v' = pass_target log v"
proof -
  let ?w = "start_pass log now v" and ?n = "pass_target log v"
  let ?b = "min (vr_cursor v + vp_per_tick p) ?n"
  have pol: "vr_policy v = p" using assms(1) by (simp add: verifier_inv_def)
  have w: "vr_cursor ?w = vr_cursor v" "vr_target ?w = ?n" "vr_policy ?w = p" "vr_passes ?w = vr_passes v" "vr_since ?w = vr_since v"
    using pol by (auto simp: start_pass_def pass_target_def)
  have n: "vr_cursor v \<le> ?n" "?n \<le> length log" using assms(1) by (auto simp: verifier_inv_def pass_target_def)
  obtain m where m: "vr_cursor v \<le> m" "m \<le> length log" "links_ok D log m" "vr_seen ?w = entry_hash D ` set (take m log)"
    using assms(1) that
  proof (cases "vr_cursor v = 0")
    case True
    then show ?thesis by (intro that [of 0]) (simp_all add: start_pass_def)
  qed (auto simp: verifier_inv_def start_pass_def)
  have b: "vr_cursor v \<le> ?b" "?b \<le> length log" using n by auto
  have "wrap64 (vr_cursor v + vp_per_tick p) = vr_cursor v + vp_per_tick p"
    using n assms(2) by (intro wrap64_id) simp
  then have b': "min (wrap64 (vr_cursor ?w + vp_per_tick (vr_policy ?w))) (vr_target ?w) = ?b" by (simp add: w)
  obtain r seen where slice: "verify_slice D (drop (vr_cursor v) (take ?b log)) (vr_seen ?w) = (r, seen)" by force
  from verify_slice_run [OF m(3,1,2) b, folded m(4), OF slice]
  obtain m' where m': "links_ok D log m'" "m \<le> m'" "m' \<le> length log" "seen = entry_hash D ` set (take m' log)"
    and r: "case r of Inr _ \<Rightarrow> ?b \<le> m' | Inl e \<Rightarrow> m' < ?b \<and> \<not> links_ok D log (Suc m') \<and>
       e = BrokenChain (le_commit (log ! m')) (le_branch (log ! m')) (to_hex (le_prev (log ! m')))" by blast
  have eq: "tick D log now v = (case r of Inl e \<Rightarrow> Some (Inl e, ?w\<lparr>vr_seen := seen\<rparr>)
      | Inr _ \<Rightarrow> let v' = end_pass now (?w\<lparr>vr_seen := seen, vr_cursor := ?b\<rparr>) in Some (Inr (progress v'), v'))"
    unfolding tick_def Let_def b' using b slice by (simp add: w not_less [symmetric] split: sum.splits)
  show thesis
  proof (cases r)
    case (Inl e)
    have "\<not> links_ok D log ?n" using r Inl links_ok_mono [of D log ?n "Suc m'"] by auto
    moreover have "\<exists>m. vr_cursor v \<le> m \<and> m \<le> length log \<and> links_ok D log m \<and> seen = entry_hash D ` set (take m log)"
      using m m' by (intro exI [of _ m']) simp
    then have "verifier_inv D p log (?w\<lparr>vr_seen := seen\<rparr>)"
      using assms(1) w by (simp add: verifier_inv_def pass_target_def)
    ultimately show thesis
      using broken [of e "?w\<lparr>vr_seen := seen\<rparr>"] eq Inl w by (simp add: pass_target_def)
  next
    case (Inr u)
    then have le: "?b \<le> m'" using r by simp
    let ?v = "?w\<lparr>vr_seen := seen, vr_cursor := ?b\<rparr>"
    show thesis
    proof (cases "?n \<le> vr_cursor v + vp_per_tick p")
      case True
      then have "?b = ?n" by simp
      then have "end_pass now ?v = ?v\<lparr>vr_passes := wrap64 (vr_passes v + 1), vr_since := Some now, vr_cursor := 0\<rparr>"
        by (simp add: end_pass_def w)
      moreover have "links_ok D log ?n" using links_ok_mono [OF m'(1)] le \<open>?b = ?n\<close> by simp
      ultimately show thesis
        using eq w by (intro finished [of "end_pass now ?v"]) (simp_all add: Inr Let_def verifier_inv_def)
    next
      case False
      then have "?b = vr_cursor v + vp_per_tick p" by simp
      then have "end_pass now ?v = ?v" using False by (simp add: end_pass_def w)
      moreover have "verifier_inv D p log ?v"
        using n m' le False w by (auto simp: verifier_inv_def)
      ultimately show thesis
        using eq w False by (intro going [of ?v]) (simp_all add: Inr Let_def)
    qed
  qed
qed

lemma reachable_inv:
  "verifier_reachable D p log v \<Longrightarrow> length log + vp_per_tick p \<le> u64_max \<Longrightarrow> verifier_inv D p log v"
proof (induction rule: verifier_reachable.induct)
  case (start log now)
  then show ?case by (simp add: verifier_inv_def verifier_new_def)
next
  case (tick log v grown now r v')
  then have "verifier_inv D p (log @ grown) v" by (intro verifier_inv_append) simp
  then show ?case
    by (rule tick_cases [where now = now, OF _ tick.prems]) (use tick.hyps(2) in auto)
qed

fun verifier_run ::
  "codec \<Rightarrow> log_entry list \<Rightarrow> (log_entry list \<times> int) list \<Rightarrow> verifier \<Rightarrow> ((verify_error + coverage) list \<times> verifier) option" where
  "verifier_run D log [] v = Some ([], v)"
| "verifier_run D log ((grown, now) # ts) v =
     (case tick D (log @ grown) now v of
        None \<Rightarrow> None
      | Some (r, v') \<Rightarrow> map_option (\<lambda>(rs, w). (r # rs, w)) (verifier_run D (log @ grown) ts v'))"

abbreviation log_after :: "log_entry list \<Rightarrow> (log_entry list \<times> int) list \<Rightarrow> log_entry list" where
  "log_after log ts \<equiv> log @ concat (map fst ts)"

lemma run_total:
  assumes "verifier_inv D p log v" and "length (log_after log ts) + vp_per_tick p \<le> u64_max"
  shows "\<exists>rs w. verifier_run D log ts v = Some (rs, w) \<and> (vr_passes v + length ts \<le> u64_max \<longrightarrow> vr_passes v \<le> vr_passes w)"
  using assms
proof (induction ts arbitrary: log v)
  case (Cons t ts)
  obtain grown now where t: "t = (grown, now)" by force
  have inv: "verifier_inv D p (log @ grown) v" using Cons.prems by (intro verifier_inv_append) simp
  have room: "length (log @ grown) + vp_per_tick p \<le> u64_max" using Cons.prems t by simp
  have rest: "length (log_after (log @ grown) ts) + vp_per_tick p \<le> u64_max" using Cons.prems t by simp
  show ?case
    by (rule tick_cases [OF inv room, of now];
        use Cons.IH [of "log @ grown", OF _ rest] in \<open>fastforce simp: t wrap64_id\<close>)
qed simp

text \<open>A log with a broken link is never reported as verified.\<close>

lemma run_broken:
  assumes "verifier_inv D p log v" and "length (log_after log ts) + vp_per_tick p \<le> u64_max"
    and "verifier_run D log ts v = Some (rs, w)" and "\<not> links_ok D log m" and "m \<le> length log"
    and "vr_cursor v \<noteq> 0 \<Longrightarrow> \<not> links_ok D log (vr_target v)"
  shows "vr_passes w = vr_passes v"
  using assms
proof (induction ts arbitrary: log v rs)
  case (Cons t ts)
  obtain grown now where t: "t = (grown, now)" by force
  let ?l = "log @ grown"
  have inv: "verifier_inv D p ?l v" using Cons.prems by (intro verifier_inv_append) simp
  have room: "length ?l + vp_per_tick p \<le> u64_max" using Cons.prems t by simp
  have rest: "length (log_after ?l ts) + vp_per_tick p \<le> u64_max" using Cons.prems t by simp
  have m: "\<not> links_ok D ?l m" "m \<le> length ?l" using Cons.prems(4,5) by (simp_all add: links_ok_append)
  have target: "\<not> links_ok D ?l (pass_target ?l v)"
    using Cons.prems(1,6) m links_ok_mono [of D ?l "length ?l" m]
    by (auto simp: pass_target_def verifier_inv_def links_ok_append)
  show ?case
  proof (rule tick_cases [OF inv room, of now])
    fix e v' assume v': "tick D ?l now v = Some (Inl e, v')" "verifier_inv D p ?l v'" "vr_passes v' = vr_passes v"
      "vr_cursor v' = vr_cursor v" "vr_cursor v' \<noteq> 0 \<Longrightarrow> vr_target v' = vr_target v"
    obtain rs' where "verifier_run D ?l ts v' = Some (rs', w)" using Cons.prems(3) v'(1) by (auto simp: t)
    moreover have "\<not> links_ok D ?l (vr_target v')" if "vr_cursor v' \<noteq> 0"
      using target v'(4,5) that by (simp add: pass_target_def)
    ultimately show ?thesis using Cons.IH [OF v'(2) rest _ m] v'(3) by simp
  next
    fix v' assume v': "tick D ?l now v = Some (Inr (progress v'), v')" "verifier_inv D p ?l v'"
      "vr_passes v' = vr_passes v" "vr_target v' = pass_target ?l v"
    obtain rs' where "verifier_run D ?l ts v' = Some (rs', w)" using Cons.prems(3) v'(1) by (auto simp: t)
    then show ?thesis using Cons.IH [OF v'(2) rest _ m] target v'(3,4) by simp
  qed (use target in simp)
qed simp

text \<open>A pass under way ends when it has been given enough ticks, or meets a broken link.\<close>

lemma run_progress:
  assumes "verifier_inv D p log v" and "length (log_after log ts) + vp_per_tick p \<le> u64_max"
    and "verifier_run D log ts v = Some (rs, w)" and "vr_passes v + length ts \<le> u64_max"
    and "vr_cursor v \<noteq> 0" and "vr_target v \<le> vr_cursor v + vp_per_tick p * length ts"
  shows "vr_passes v < vr_passes w \<or> (\<not> links_ok D log (vr_target v) \<and> (\<exists>e. Inl e \<in> set rs))"
  using assms
proof (induction ts arbitrary: log v rs)
  case Nil
  then show ?case by (auto simp: verifier_inv_def)
next
  case (Cons t ts)
  obtain grown now where t: "t = (grown, now)" by force
  let ?l = "log @ grown"
  have inv: "verifier_inv D p ?l v" using Cons.prems by (intro verifier_inv_append) simp
  have room: "length ?l + vp_per_tick p \<le> u64_max" using Cons.prems t by simp
  have rest: "length (log_after ?l ts) + vp_per_tick p \<le> u64_max" using Cons.prems t by simp
  have target: "pass_target ?l v = vr_target v" using Cons.prems(5) by (simp add: pass_target_def)
  have links: "links_ok D ?l (vr_target v) = links_ok D log (vr_target v)"
    using Cons.prems(1,5) by (intro links_ok_append) (simp add: verifier_inv_def)
  show ?case
  proof (rule tick_cases [OF inv room, of now])
    fix v' assume v': "tick D ?l now v = Some (Inr (progress v'), v')" "verifier_inv D p ?l v'"
      "vr_passes v' = wrap64 (vr_passes v + 1)"
    obtain rs' where "verifier_run D ?l ts v' = Some (rs', w)" using Cons.prems(3) v'(1) by (auto simp: t)
    then show ?thesis using run_total [OF v'(2) rest] v'(3) Cons.prems(4) by (auto simp: wrap64_id)
  next
    fix v' assume v': "tick D ?l now v = Some (Inr (progress v'), v')" "verifier_inv D p ?l v'"
      "vr_passes v' = vr_passes v" "vr_cursor v' = vr_cursor v + vp_per_tick p" "vr_target v' = pass_target ?l v"
    obtain rs' where rs': "verifier_run D ?l ts v' = Some (rs', w)" "rs = Inr (progress v') # rs'"
      using Cons.prems(3) v'(1) by (auto simp: t)
    have "vr_passes v' < vr_passes w \<or> (\<not> links_ok D ?l (vr_target v') \<and> (\<exists>e. Inl e \<in> set rs'))"
      by (rule Cons.IH [OF v'(2) rest rs'(1)]) (use Cons.prems(4-6) v'(3-5) target in simp_all)
    then show ?thesis using v'(3,5) links target rs'(2) by auto
  next
    fix e v' assume "tick D ?l now v = Some (Inl e, v')" "\<not> links_ok D ?l (pass_target ?l v)"
    then show ?thesis using Cons.prems(3) links target by (auto simp: t)
  qed
qed

text \<open>C35: The verifier notices.  Whatever is appended meanwhile, a pass given enough ticks to
  cover the log as it was when the pass began ends: with one more pass counted when every
  entry of it starts a chain or names an entry before it, and otherwise with an error
  reported and no pass counted, however long it goes on.\<close>

theorem verifier_notices:
  assumes "verifier_reachable D p log v" and "ts = (grown, now) # rest"
    and "n = pass_target (log @ grown) v" and "n \<le> vr_cursor v + vp_per_tick p * length ts"
    and "length (log_after log ts) + vp_per_tick p \<le> u64_max" and "vr_passes v + length ts \<le> u64_max"
  shows "\<exists>rs w. verifier_run D log ts v = Some (rs, w) \<and>
     (if links_ok D (log @ grown) n then vr_passes v < vr_passes w
      else vr_passes w = vr_passes v \<and> (\<exists>e. Inl e \<in> set rs))"
proof -
  let ?l = "log @ grown"
  have inv0: "verifier_inv D p log v" using assms(1,5) reachable_inv by simp
  then have inv: "verifier_inv D p ?l v" by (rule verifier_inv_append)
  obtain rs w where run: "verifier_run D log ts v = Some (rs, w)" using run_total [OF inv0 assms(5)] by blast
  have run_l: "verifier_run D ?l (([], now) # rest) v = Some (rs, w)" using run by (simp add: assms(2) del: append_Nil2 append.assoc) (simp only: append_Nil2)
  have room: "length ?l + vp_per_tick p \<le> u64_max" and rest: "length (log_after ?l rest) + vp_per_tick p \<le> u64_max"
    and here: "length (log_after ?l (([], now) # rest)) + vp_per_tick p \<le> u64_max"
    using assms(2,5) by simp_all
  have n: "n \<le> length ?l" "vr_cursor v \<noteq> 0 \<Longrightarrow> n = vr_target v"
    using inv by (auto simp: assms(3) pass_target_def verifier_inv_def)
  have "vr_passes v < vr_passes w \<or> (\<not> links_ok D ?l n \<and> (\<exists>e. Inl e \<in> set rs))"
  proof (rule tick_cases [OF inv room, of now])
    fix e v' assume "tick D ?l now v = Some (Inl e, v')" "\<not> links_ok D ?l (pass_target ?l v)"
    then show ?thesis using run by (auto simp: assms(2,3))
  next
    fix v' assume v': "tick D ?l now v = Some (Inr (progress v'), v')" "verifier_inv D p ?l v'"
      "vr_passes v' = wrap64 (vr_passes v + 1)"
    obtain rs' where "verifier_run D ?l rest v' = Some (rs', w)" using run v'(1) by (auto simp: assms(2))
    then show ?thesis using run_total [OF v'(2) rest] v'(3) assms(2,6) by (auto simp: wrap64_id)
  next
    fix v' assume v': "tick D ?l now v = Some (Inr (progress v'), v')" "verifier_inv D p ?l v'"
      "vr_passes v' = vr_passes v" "vr_cursor v' = vr_cursor v + vp_per_tick p" "vr_target v' = pass_target ?l v"
      "vr_cursor v' < pass_target ?l v"
    obtain rs' where rs': "verifier_run D ?l rest v' = Some (rs', w)" "rs = Inr (progress v') # rs'"
      using run v'(1) by (auto simp: assms(2))
    have pos: "vr_cursor v' \<noteq> 0" using assms(2-4) v'(4,6) by (cases "vp_per_tick p = 0") auto
    have "vr_passes v' < vr_passes w \<or> (\<not> links_ok D ?l (vr_target v') \<and> (\<exists>e. Inl e \<in> set rs'))"
      by (rule run_progress [OF v'(2) rest rs'(1)]) (use assms(2-4,6) v'(3-5) pos in simp_all)
    then show ?thesis using v'(3,5) rs'(2) assms(3) by auto
  qed
  moreover have "vr_passes w = vr_passes v" if "\<not> links_ok D ?l n"
    by (rule run_broken [OF inv here run_l that n(1)]) (use that n(2) in simp)
  ultimately show ?thesis using run by auto
qed

lemma verifier_notices_witness:
  "\<exists>rs w. verifier_run sample_codec [] [([sample_entry (replicate 32 1) 1], 5)] (verifier_new default_verifier_policy 0) = Some (rs, w) \<and>
     (\<exists>e. Inl e \<in> set rs)"
proof -
  have "\<not> links_ok sample_codec [sample_entry (replicate 32 1) 1] 1"
    by (simp add: links_ok_def sample_entry_def zero_hash_def hash_len_def numeral_eq_Suc)
  then show ?thesis
    using verifier_notices [OF verifier_reachable.start [of sample_codec default_verifier_policy "[]" 0] refl refl,
        where grown = "[sample_entry (replicate 32 1) 1]" and now = 5 and rest = "[]"]
    by (auto simp: pass_target_def verifier_new_def default_verifier_policy_def simp del: verifier_run.simps)
qed

end
