(* ===== verification/Store_Temporal.thy ===== *)
theory Store_Temporal
  imports Store_Merge_Laws
begin

text \<open>
  Reading a branch as it was and following its changes
  (\<open>theta-storage/src/temporal.rs\<close>).  A log is given oldest first; \<open>D\<close> hashes entries and
  \<open>enc\<close> is the canonical encoding of a value that the view asks for.  The texts of the
  errors and of a gap's reason are left out.
\<close>

section \<open>A point in time\<close>

datatype as_of = AsOfCommit nat | AsOfTimestamp int | AsOfNow

datatype temporal_error =
    BelowHorizon nat nat
  | BeforeTheBeginning int int

record snapshot =
  sn_view :: view
  sn_commit :: nat
  sn_head :: hash

definition last_option :: "'a list \<Rightarrow> 'a option" where
  "last_option xs = (if xs = [] then None else Some (last xs))"

definition first_option :: "'a list \<Rightarrow> 'a option" where
  "first_option xs = (case xs of [] \<Rightarrow> None | x # _ \<Rightarrow> Some x)"

definition max_option :: "nat list \<Rightarrow> nat option" where
  "max_option ns = (if ns = [] then None else Some (foldr max ns 0))"

definition resolve_point :: "log_entry list \<Rightarrow> as_of \<Rightarrow> temporal_error + nat" where
  "resolve_point es point =
     (case point of
        AsOfNow \<Rightarrow> Inr (case last_option es of None \<Rightarrow> 0 | Some e \<Rightarrow> le_commit e)
      | AsOfCommit c \<Rightarrow> Inr c
      | AsOfTimestamp at \<Rightarrow>
          (case max_option (map le_commit (filter (\<lambda>e. le_ts e \<le> at) es)) of
             Some c \<Rightarrow> Inr c
           | None \<Rightarrow> Inl (BeforeTheBeginning at (case first_option es of None \<Rightarrow> 0 | Some e \<Rightarrow> le_ts e))))"

definition included :: "log_entry list \<Rightarrow> nat \<Rightarrow> log_entry list" where
  "included es target = filter (\<lambda>e. le_commit e \<le> target) es"

definition read_as_of ::
  "codec \<Rightarrow> (val \<Rightarrow> byte list) \<Rightarrow> log_entry list \<Rightarrow> as_of \<Rightarrow> nat option \<Rightarrow> temporal_error + snapshot" where
  "read_as_of D enc es point horizon =
     (case resolve_point es point of
        Inl e \<Rightarrow> Inl e
      | Inr target \<Rightarrow>
          (case (case horizon of None \<Rightarrow> None | Some h \<Rightarrow> if target < h then Some (BelowHorizon target h) else None) of
             Some e \<Rightarrow> Inl e
           | None \<Rightarrow>
               let inc = included es target in
               Inr \<lparr>sn_view = view_replay enc inc,
                    sn_commit = (case last_option inc of None \<Rightarrow> 0 | Some e \<Rightarrow> le_commit e),
                    sn_head = (case last_option inc of None \<Rightarrow> zero_hash | Some e \<Rightarrow> entry_hash D e)\<rparr>))"

section \<open>Changes\<close>

datatype row_change =
    Added string val
  | Changed string val val
  | Removed string val

fun change_key :: "row_change \<Rightarrow> string" where
  "change_key (Added k _) = k"
| "change_key (Changed k _ _) = k"
| "change_key (Removed k _) = k"

definition change_at :: "view \<Rightarrow> view \<Rightarrow> string \<Rightarrow> row_change list" where
  "change_at before after k =
     (case (view_get before k, view_get after k) of
        (None, Some y) \<Rightarrow> [Added k y]
      | (Some x, None) \<Rightarrow> [Removed k x]
      | (Some x, Some y) \<Rightarrow> if \<not> value_eq x y then [Changed k x y] else []
      | (None, None) \<Rightarrow> [])"

definition view_diff :: "view \<Rightarrow> view \<Rightarrow> row_change list" where
  "view_diff before after =
     concat (map (change_at before after) (string_set (omkeys (vw_keys before) @ omkeys (vw_keys after))))"

datatype feed = Delivered "row_change list" nat | FeedGap nat nat

definition since :: "(val \<Rightarrow> byte list) \<Rightarrow> log_entry list \<Rightarrow> nat \<Rightarrow> nat option \<Rightarrow> nat \<Rightarrow> feed" where
  "since enc es cursor horizon limit =
     (case (case horizon of None \<Rightarrow> None | Some h \<Rightarrow> if wrap64 (cursor + 1) < h then Some h else None) of
        Some h \<Rightarrow> FeedGap cursor h
      | None \<Rightarrow>
          let window = take limit (filter (\<lambda>e. cursor < le_commit e) es);
              next' = (case last_option window of None \<Rightarrow> cursor | Some e \<Rightarrow> le_commit e)
          in Delivered (view_diff (view_replay enc (included es cursor)) (view_replay enc (included es next'))) next')"

fun touches_rows :: "op_type \<Rightarrow> bool" where
  "touches_rows (Transaction ops) = list_ex touches_rows ops"
| "touches_rows (BranchCreate _ _) = False"
| "touches_rows (Merge _ _) = False"
| "touches_rows (Put _ _) = True"
| "touches_rows (Delete _) = True"
| "touches_rows (Crdt _ _) = True"
| "touches_rows (SchemaOp _) = True"

definition is_branch_create :: "op_type \<Rightarrow> bool" where
  "is_branch_create op = (case op of BranchCreate _ _ \<Rightarrow> True | _ \<Rightarrow> False)"

definition branch_point :: "log_entry list \<Rightarrow> nat option" where
  "branch_point es = map_option le_commit (first_option (filter (\<lambda>e. is_branch_create (le_op e)) es))"

section \<open>A point read back\<close>

lemma foldr_max_ge: "n \<in> set ns \<Longrightarrow> n \<le> foldr max ns (0::nat)"
  by (induction ns) auto

lemma foldr_max_in: "ns \<noteq> [] \<Longrightarrow> foldr max ns (0::nat) \<in> set ns"
proof (induction ns)
  case (Cons n ns)
  then show ?case by (cases ns) (auto simp: max_def)
qed simp

lemma included_split:
  assumes "sorted_wrt (<) (map le_commit (fs @ e # gs))"
  shows "included (fs @ e # gs) (le_commit e) = fs @ [e]"
proof -
  have "filter (\<lambda>x. le_commit x \<le> le_commit e) fs = fs"
    using assms by (auto simp: sorted_wrt_append filter_id_conv)
  moreover have "filter (\<lambda>x. le_commit x \<le> le_commit e) gs = []"
    using assms by (auto simp: sorted_wrt_append filter_empty_conv not_le)
  ultimately show ?thesis by (simp add: included_def)
qed

section \<open>A consumer of changes\<close>

text \<open>What a consumer keeps: its cursor and its copy of the rows.\<close>

fun apply_change :: "row_change \<Rightarrow> (string, val) omap \<Rightarrow> (string, val) omap" where
  "apply_change (Added k y) m = omput k y m"
| "apply_change (Changed k x y) m = omput k y m"
| "apply_change (Removed k x) m = omdel k m"

fun poll :: "(val \<Rightarrow> byte list) \<Rightarrow> log_entry list \<Rightarrow> nat option \<Rightarrow> nat \<Rightarrow> nat \<Rightarrow> nat \<times> (string, val) omap \<Rightarrow>
    (nat \<times> (string, val) omap) option" where
  "poll enc es horizon limit 0 s = Some s"
| "poll enc es horizon limit (Suc n) (cursor, copy) =
     (case since enc es cursor horizon limit of
        FeedGap _ _ \<Rightarrow> None
      | Delivered changes next' \<Rightarrow> poll enc es horizon limit n (next', fold apply_change changes copy))"

text \<open>Equal as the code compares values; a NaN is a copy of itself too.\<close>

definition same_value :: "val option \<Rightarrow> val option \<Rightarrow> bool" where
  "same_value a b \<longleftrightarrow> a = b \<or> value_option_eq a b"

definition copies :: "(string, val) omap \<Rightarrow> view \<Rightarrow> bool" where
  "copies m v \<longleftrightarrow> (\<forall>k. same_value (omget m k) (view_get v k))"

lemma value_eq_trans:
  "value_eq u v \<Longrightarrow> value_eq v w \<Longrightarrow> value_eq u w"
  "value_list_eq us vs \<Longrightarrow> value_list_eq vs ws \<Longrightarrow> value_list_eq us ws"
  "value_map_eq um vm \<Longrightarrow> value_map_eq vm wm \<Longrightarrow> value_map_eq um wm"
  by (induction u v and us vs and um vm arbitrary: w and ws and wm
      rule: value_eq_value_list_eq_value_map_eq.induct)
    (auto simp: f64_eq_def split: val.split_asm list.split_asm)

lemma same_value_trans: "same_value a b \<Longrightarrow> value_option_eq b c \<Longrightarrow> same_value a c"
  using value_eq_trans(1) by (cases a; cases b; cases c) (auto simp: same_value_def)

lemma change_at_keys: "c \<in> set (change_at v w k) \<Longrightarrow> change_key c = k"
  by (auto simp: change_at_def split: option.splits if_splits)

lemma apply_change_other: "change_key c \<noteq> k \<Longrightarrow> omget (apply_change c m) k = omget m k"
  by (cases c) auto

lemma apply_changes_at:
  assumes "distinct ks"
  shows "omget (fold apply_change (concat (map (change_at v w) ks)) m) k =
    (if k \<in> set ks then omget (fold apply_change (change_at v w k) m) k else omget m k)"
  using assms
proof (induction ks arbitrary: m)
  case (Cons j ks)
  have other: "omget (fold apply_change (change_at v w j) m) k = omget m k" if "k \<noteq> j" for m
  proof -
    have "\<forall>c \<in> set cs. change_key c \<noteq> k \<Longrightarrow> omget (fold apply_change cs m) k = omget m k" for cs m
      by (induction cs arbitrary: m) (auto simp: apply_change_other)
    then show ?thesis using change_at_keys that by blast
  qed
  have same: "omget (fold apply_change (change_at v w k) m) k = omget (fold apply_change (change_at v w k) m') k"
    if "omget m k = omget m' k" for m m'
    using that by (auto simp: change_at_def split: option.splits)
  show ?case
  proof (cases "k = j")
    case True
    then show ?thesis using Cons by simp
  next
    case False
    then show ?thesis using Cons same [OF other [OF False]] other by auto
  qed
qed simp

lemma diff_moves_copies:
  assumes "copies m v"
  shows "copies (fold apply_change (view_diff v w) m) w"
  unfolding copies_def
proof
  fix k
  let ?ks = "string_set (omkeys (vw_keys v) @ omkeys (vw_keys w))"
  have old: "same_value (omget m k) (view_get v k)" using assms by (simp add: copies_def)
  have mem: "k \<in> set ?ks \<longleftrightarrow> view_get v k \<noteq> None \<or> view_get w k \<noteq> None"
    by (simp add: string_set_set omkeys_set view_get_def)
  have at: "omget (fold apply_change (view_diff v w) m) k =
      (if k \<in> set ?ks then omget (fold apply_change (change_at v w k) m) k else omget m k)"
    unfolding view_diff_def by (rule apply_changes_at [OF string_set_distinct])
  show "same_value (omget (fold apply_change (view_diff v w) m) k) (view_get w k)"
    using old same_value_trans [OF old, of "view_get w k"] unfolding at mem
    by (auto simp: change_at_def same_value_def split: option.splits)
qed

lemma since_delivers:
  assumes "sorted_wrt (<) (map le_commit gs)" and "\<forall>e \<in> set fs. le_commit e \<le> cursor" and "\<forall>e \<in> set gs. cursor < le_commit e"
    and "\<And>h. horizon = Some h \<Longrightarrow> h \<le> wrap64 (cursor + 1)" and "1 \<le> limit"
  obtains next' where "since enc (fs @ gs) cursor horizon limit =
      Delivered (view_diff (view_replay enc fs) (view_replay enc (fs @ take limit gs))) next'"
    and "cursor \<le> next'" and "gs = [] \<Longrightarrow> next' = cursor" and "gs \<noteq> [] \<Longrightarrow> next' \<in> le_commit ` set gs"
    and "\<forall>e \<in> set (fs @ take limit gs). le_commit e \<le> next'" and "\<forall>e \<in> set (drop limit gs). next' < le_commit e"
proof -
  define w where "w = take limit gs"
  define n where "n = (case last_option w of None \<Rightarrow> cursor | Some e \<Rightarrow> le_commit e)"
  have split: "gs = w @ drop limit gs" by (simp add: w_def)
  have sorted: "sorted_wrt (<) (map le_commit w @ map le_commit (drop limit gs))"
    using assms(1) split by (metis map_append)
  have n: "cursor \<le> n \<and> (\<forall>e \<in> set w. le_commit e \<le> n) \<and> (\<forall>e \<in> set (drop limit gs). n < le_commit e) \<and>
      (gs = [] \<longrightarrow> n = cursor) \<and> (gs \<noteq> [] \<longrightarrow> n \<in> le_commit ` set gs)"
  proof (cases "w = []")
    case True
    then have "gs = []" using assms(5) by (simp add: w_def)
    then show ?thesis using True by (simp add: n_def last_option_def)
  next
    case False
    then obtain w' e where w: "w = w' @ [e]" by (metis rev_exhaust)
    have n: "n = le_commit e" by (simp add: n_def last_option_def w)
    have mem: "e \<in> set gs" using split w by (metis in_set_conv_decomp Un_iff set_append)
    have "\<forall>e \<in> set w. le_commit e \<le> n" "\<forall>e \<in> set (drop limit gs). n < le_commit e"
      using sorted by (auto simp: w n sorted_wrt_append)
    then show ?thesis using mem assms(3) n by fastforce
  qed
  have "filter (\<lambda>e. le_commit e \<le> n) fs = fs" using assms(2) n by (fastforce simp: filter_id_conv)
  moreover have "filter (\<lambda>e. le_commit e \<le> n) w = w" "filter (\<lambda>e. le_commit e \<le> n) (drop limit gs) = []"
    using n by (auto simp: filter_id_conv filter_empty_conv not_le)
  ultimately have "filter (\<lambda>e. le_commit e \<le> n) (fs @ w @ drop limit gs) = fs @ w" by simp
  then have inc: "included (fs @ gs) n = fs @ w" unfolding included_def split [symmetric] .
  have before: "included (fs @ gs) cursor = fs"
    using assms(2,3) by (simp add: included_def filter_id_conv filter_empty_conv not_le)
  have "filter (\<lambda>e. cursor < le_commit e) (fs @ gs) = gs"
    using assms(2,3) by (simp add: filter_id_conv filter_empty_conv not_less)
  then have "since enc (fs @ gs) cursor horizon limit = Delivered (view_diff (view_replay enc fs) (view_replay enc (fs @ w))) n"
    using assms(4) inc before by (auto simp: since_def Let_def w_def n_def not_less [symmetric] split: option.splits)
  then show thesis using that n assms(2) unfolding w_def by fastforce
qed

lemma poll_delivers:
  assumes "sorted_wrt (<) (map le_commit gs)" and "\<forall>e \<in> set fs. le_commit e \<le> cursor" and "\<forall>e \<in> set gs. cursor < le_commit e"
    and "\<And>h. horizon = Some h \<Longrightarrow> h \<le> cursor + 1" and "1 \<le> limit" and "cursor < u64_max"
    and "\<forall>e \<in> set gs. le_commit e < u64_max" and "copies m (view_replay enc fs)" and "length gs \<le> n * limit"
  shows "\<exists>c m'. poll enc (fs @ gs) horizon limit n (cursor, m) = Some (c, m') \<and> copies m' (view_replay enc (fs @ gs)) \<and>
     (\<forall>e \<in> set (fs @ gs). le_commit e \<le> c)"
  using assms
proof (induction n arbitrary: fs gs cursor m)
  case (Suc n)
  have "h \<le> wrap64 (cursor + 1)" if "horizon = Some h" for h using Suc.prems(4,6) that by (simp add: wrap64_id)
  then obtain c where c: "since enc (fs @ gs) cursor horizon limit =
      Delivered (view_diff (view_replay enc fs) (view_replay enc (fs @ take limit gs))) c" "cursor \<le> c"
      "gs = [] \<Longrightarrow> c = cursor" "gs \<noteq> [] \<Longrightarrow> c \<in> le_commit ` set gs"
      "\<forall>e \<in> set (fs @ take limit gs). le_commit e \<le> c" "\<forall>e \<in> set (drop limit gs). c < le_commit e"
    using since_delivers [OF Suc.prems(1-3) _ Suc.prems(5)] by blast
  have step: "poll enc (fs @ gs) horizon limit (Suc n) (cursor, m) =
      poll enc ((fs @ take limit gs) @ drop limit gs) horizon limit n
        (c, fold apply_change (view_diff (view_replay enc fs) (view_replay enc (fs @ take limit gs))) m)"
    using c(1) by simp
  have top: "c < u64_max" using c(3,4) Suc.prems(6,7) by (cases "gs = []") auto
  have "sorted_wrt (<) (map le_commit (take limit gs @ drop limit gs))" using Suc.prems(1) by simp
  then have sorted: "sorted_wrt (<) (map le_commit (drop limit gs))" by (simp only: map_append sorted_wrt_append)
  have room: "length (drop limit gs) \<le> n * limit" using Suc.prems(9) by simp
  have small: "\<forall>e \<in> set (drop limit gs). le_commit e < u64_max" using Suc.prems(7) by (meson in_set_dropD)
  have "h \<le> c + 1" if "horizon = Some h" for h using Suc.prems(4) [OF that] c(2) by simp
  from Suc.IH [OF sorted c(5,6) this Suc.prems(5) top small diff_moves_copies [OF Suc.prems(8)] room]
  show ?case unfolding step by simp
qed simp

text \<open>C34: A consumer that follows a branch whose commits are numbered upwards catches up:
  if its copy of the plain rows is right at its cursor and history reaches back that far,
  then polling with any positive limit, as often as the entries since its cursor need,
  brings its copy to the branch's present plain rows, up to the equality of values the diff
  compares with (floats by value), and its cursor behind no entry.  If the retention horizon
  has passed its cursor it is told of the gap, and gets no changes at all.\<close>

theorem feed_catches_up:
  assumes "sorted_wrt (<) (map le_commit es)" and "\<forall>e \<in> set es. le_commit e < u64_max" and "cursor < u64_max"
    and "1 \<le> limit" and "copies m (view_replay enc (included es cursor))"
    and "length (filter (\<lambda>e. cursor < le_commit e) es) \<le> n * limit"
  shows "((\<forall>h. horizon = Some h \<longrightarrow> h \<le> cursor + 1) \<longrightarrow>
      (\<exists>c m'. poll enc es horizon limit n (cursor, m) = Some (c, m') \<and> copies m' (view_replay enc es) \<and>
         (\<forall>e \<in> set es. le_commit e \<le> c))) \<and>
    (\<forall>h. horizon = Some h \<longrightarrow> cursor + 1 < h \<longrightarrow> since enc es cursor horizon limit = FeedGap cursor h)"
proof (intro conjI impI allI)
  show "since enc es cursor horizon limit = FeedGap cursor h" if "horizon = Some h" "cursor + 1 < h" for h
    using that assms(3) by (simp add: since_def wrap64_id)
next
  assume reach: "\<forall>h. horizon = Some h \<longrightarrow> h \<le> cursor + 1"
  let ?fs = "included es cursor" and ?gs = "filter (\<lambda>e. cursor < le_commit e) es"
  have es: "?fs @ ?gs = es"
    using assms(1)
  proof (induction es)
    case (Cons e es)
    have "included es cursor = []" if "cursor < le_commit e"
      using Cons.prems that by (fastforce simp: included_def filter_empty_conv)
    then show ?case using Cons by (auto simp: included_def not_le not_less)
  qed (simp add: included_def)
  have "sorted_wrt (<) (map le_commit (?fs @ ?gs))" unfolding es by (rule assms(1))
  then have sorted: "sorted_wrt (<) (map le_commit ?gs)" by (simp only: map_append sorted_wrt_append)
  have old: "\<forall>e \<in> set ?fs. le_commit e \<le> cursor" by (simp add: included_def)
  have new: "\<forall>e \<in> set ?gs. cursor < le_commit e" "\<forall>e \<in> set ?gs. le_commit e < u64_max" using assms(2) by simp_all
  from poll_delivers [OF sorted old new(1) _ assms(4,3) new(2) assms(5,6), of horizon] reach
  show "\<exists>c m'. poll enc es horizon limit n (cursor, m) = Some (c, m') \<and> copies m' (view_replay enc es) \<and>
      (\<forall>e \<in> set es. le_commit e \<le> c)"
    unfolding es by blast
qed

lemma feed_catches_up_witness:
  "\<exists>c m'. poll (\<lambda>_. []) [sample_entry zero_hash 1, sample_entry zero_hash 2] None 1 2 (0, omempty) = Some (c, m') \<and>
     copies m' (view_replay (\<lambda>_. []) [sample_entry zero_hash 1, sample_entry zero_hash 2]) \<and>
     (\<forall>e \<in> set [sample_entry zero_hash 1, sample_entry zero_hash 2]. le_commit e \<le> c)"
proof -
  have "copies omempty (view_replay (\<lambda>_. []) (included [sample_entry zero_hash 1, sample_entry zero_hash 2] 0))"
    by (simp add: included_def sample_entry_def view_replay_def copies_def same_value_def view_new_def view_get_def)
  then show ?thesis
    using feed_catches_up [of "[sample_entry zero_hash 1, sample_entry zero_hash 2]" 0 1 omempty "\<lambda>_. []" 2 None]
    by (simp add: sample_entry_def)
qed

section \<open>What the feed leaves out\<close>

text \<open>Only plain rows are compared: a replicated field can change without a change in the
  feed, although its operations count as touching rows.\<close>

lemma diff_misses_replicated: "view_diff v (w\<lparr>vw_crdts := cs\<rparr>) = view_diff v w"
proof -
  have "view_get (w\<lparr>vw_crdts := cs\<rparr>) = view_get w" by (simp add: view_get_def fun_eq_iff)
  then have "change_at v (w\<lparr>vw_crdts := cs\<rparr>) = change_at v w" by (simp add: change_at_def fun_eq_iff)
  then show ?thesis by (simp add: view_diff_def)
qed

text \<open>Zero and negative zero compare equal, so a row that goes from one to the other is not
  reported.\<close>

lemma diff_misses_negative_zero:
  "value_eq (VFloat 0) (VFloat 0x8000000000000000)"
  by (simp add: f64_eq_def f64_nan_def f64_rank_def f64_mag_def f64_neg_def)

end
