(* ===== verification/Store_Provenance.thy ===== *)
theory Store_Provenance
  imports Store_History
begin

text \<open>
  Who changed which part of the schema (\<open>theta-storage/src/provenance.rs\<close>): a fold of the
  log that keeps, for every table and column ever named by a schema change, the changes
  that named it.  \<open>D\<close> hashes entries.
\<close>

section \<open>Subjects\<close>

datatype subject = TableSubject string | ColumnSubject string string

text \<open>The derived order: tables before columns, then by name.\<close>

fun subject_key :: "subject \<Rightarrow> nat \<times> string \<times> string" where
  "subject_key (TableSubject t) = (0, t, '''')"
| "subject_key (ColumnSubject t c) = (1, t, c)"

lemma subject_key_inj: "subject_key a = subject_key b \<Longrightarrow> a = b"
  by (cases a; cases b) auto

instantiation subject :: linorder
begin

definition less_eq_subject :: "subject \<Rightarrow> subject \<Rightarrow> bool" where
  "less_eq_subject a b \<longleftrightarrow> subject_key a \<le> subject_key b"

definition less_subject :: "subject \<Rightarrow> subject \<Rightarrow> bool" where
  "less_subject a b \<longleftrightarrow> subject_key a < subject_key b"

instance
  by standard (auto simp: less_eq_subject_def less_subject_def intro: subject_key_inj)

end

definition subject_table :: "subject \<Rightarrow> string" where
  "subject_table s = (case s of TableSubject t \<Rightarrow> t | ColumnSubject t _ \<Rightarrow> t)"

section \<open>Events\<close>

record schema_event =
  se_hash :: hash
  se_commit :: nat
  se_branch :: nat
  se_ts :: int
  se_author :: author
  se_change :: schema_change

fun event_describe :: "schema_change \<Rightarrow> string" where
  "event_describe (AddTable _) = ''the table was created''"
| "event_describe (DropTable _) = ''the table was dropped''"
| "event_describe (AddColumn _ _) = ''the column was added''"
| "event_describe (DropColumn _ _) = ''the column was dropped''"
| "event_describe (AlterColumnType _ _ _ _) = ''the column's type was changed''"
| "event_describe (SetNullable _ _ _ _) = ''the column's nullability was changed''"
| "event_describe (AddIndex _ _) = ''an index was added''"
| "event_describe (DropIndex _ _) = ''an index was dropped''"
| "event_describe (RenameColumn _ _ _) = ''the column was renamed''"
| "event_describe (SetCrdt _ _ _) = ''the column's merge behaviour was set''"

record provenance =
  pv_created :: "schema_event option"
  pv_since :: "schema_event list"

definition establishes_type :: "schema_change \<Rightarrow> bool" where
  "establishes_type c = (case c of AddTable _ \<Rightarrow> True | AddColumn _ _ \<Rightarrow> True | AlterColumnType _ _ _ _ \<Rightarrow> True | _ \<Rightarrow> False)"

definition pv_history :: "provenance \<Rightarrow> schema_event list" where
  "pv_history p = (case pv_created p of None \<Rightarrow> [] | Some e \<Rightarrow> [e]) @ pv_since p"

definition declared_at :: "provenance \<Rightarrow> hash option" where
  "declared_at p =
     map_option se_hash (find (\<lambda>e. establishes_type (se_change e))
       (rev (pv_since p) @ (case pv_created p of None \<Rightarrow> [] | Some e \<Rightarrow> [e])))"

definition pv_is_empty :: "provenance \<Rightarrow> bool" where
  "pv_is_empty p \<longleftrightarrow> pv_created p = None \<and> pv_since p = []"

definition touched_by_an_agent :: "provenance \<Rightarrow> bool" where
  "touched_by_an_agent p = list_ex (\<lambda>e. is_agent (se_author e)) (pv_history p)"

section \<open>The fold\<close>

fun subjects_of :: "schema_change \<Rightarrow> subject list" where
  "subjects_of (AddTable td) = TableSubject (td_name td) # map (ColumnSubject (td_name td)) (omkeys (td_fields td))"
| "subjects_of (DropTable t) = [TableSubject t]"
| "subjects_of (AddColumn t f) = [ColumnSubject t (fd_name f)]"
| "subjects_of (DropColumn t c) = [ColumnSubject t c]"
| "subjects_of (AlterColumnType t c _ _) = [ColumnSubject t c]"
| "subjects_of (SetNullable t c _ _) = [ColumnSubject t c]"
| "subjects_of (SetCrdt t c _) = [ColumnSubject t c]"
| "subjects_of (RenameColumn t from' to') = [ColumnSubject t from', ColumnSubject t to']"
| "subjects_of (AddIndex t _) = [TableSubject t]"
| "subjects_of (DropIndex t _) = [TableSubject t]"

definition creates :: "schema_change \<Rightarrow> subject \<Rightarrow> bool" where
  "creates c s =
     (case c of
        AddTable _ \<Rightarrow> True
      | AddColumn _ _ \<Rightarrow> (case s of ColumnSubject _ _ \<Rightarrow> True | _ \<Rightarrow> False)
      | RenameColumn _ _ to' \<Rightarrow> (case s of ColumnSubject _ c' \<Rightarrow> c' = to' | _ \<Rightarrow> False)
      | _ \<Rightarrow> False)"

type_synonym provenances = "(subject, provenance) omap"

definition no_provenance :: provenance where
  "no_provenance = \<lparr>pv_created = None, pv_since = []\<rparr>"

definition record_event :: "schema_event \<Rightarrow> bool \<Rightarrow> provenance \<Rightarrow> provenance" where
  "record_event ev new p =
     (if new \<and> pv_created p = None \<and> pv_since p = [] then p\<lparr>pv_created := Some ev\<rparr>
      else p\<lparr>pv_since := pv_since p @ [ev]\<rparr>)"

definition event_of :: "codec \<Rightarrow> log_entry \<Rightarrow> schema_change \<Rightarrow> schema_event" where
  "event_of D e c = \<lparr>se_hash = entry_hash D e, se_commit = le_commit e, se_branch = le_branch e,
     se_ts = le_ts e, se_author = le_author e, se_change = c\<rparr>"

definition apply_provenance :: "codec \<Rightarrow> log_entry \<Rightarrow> provenances \<Rightarrow> provenances" where
  "apply_provenance D e m =
     (case le_op e of
        SchemaOp c \<Rightarrow>
          fold (\<lambda>s m. omput s (record_event (event_of D e c) (creates c s) (omget_or no_provenance m s)) m) (subjects_of c) m
      | _ \<Rightarrow> m)"

definition fold_provenance :: "codec \<Rightarrow> log_entry list \<Rightarrow> provenances" where
  "fold_provenance D es = fold (apply_provenance D) es omempty"

definition changed_by_session :: "provenances \<Rightarrow> string \<Rightarrow> (subject \<times> schema_event) list" where
  "changed_by_session m sid =
     sort_key (\<lambda>(s, e). se_commit e)
       (concat (map (\<lambda>(s, p). map (\<lambda>e. (s, e)) (filter (\<lambda>e. author_session_id (se_author e) = Some sid) (pv_history p))) (omlist m)))"

definition stamp_declared_at :: "provenances \<Rightarrow> schema \<Rightarrow> schema" where
  "stamp_declared_at m sc =
     sc\<lparr>sc_tables := ommap (\<lambda>t td. td\<lparr>td_fields := ommap (\<lambda>f fd.
        fd\<lparr>fd_declared_at := Option.bind (omget m (ColumnSubject t f)) declared_at\<rparr>) (td_fields td)\<rparr>) (sc_tables sc)\<rparr>"

definition stamp_from_log :: "codec \<Rightarrow> log_entry list \<Rightarrow> schema \<Rightarrow> schema" where
  "stamp_from_log D es sc = stamp_declared_at (fold_provenance D es) sc"

section \<open>The fold is a projection of the log\<close>

text \<open>The events of a log that name a subject, oldest first.\<close>

definition events_about :: "codec \<Rightarrow> subject \<Rightarrow> log_entry \<Rightarrow> schema_event list" where
  "events_about D s e = (case le_op e of SchemaOp c \<Rightarrow> map (\<lambda>_. event_of D e c) (filter (\<lambda>s'. s' = s) (subjects_of c)) | _ \<Rightarrow> [])"

definition provenance_of :: "schema_event list \<Rightarrow> subject \<Rightarrow> provenance" where
  "provenance_of evs s =
     (case evs of
        [] \<Rightarrow> no_provenance
      | ev # evs' \<Rightarrow> if creates (se_change ev) s then \<lparr>pv_created = Some ev, pv_since = evs'\<rparr> else \<lparr>pv_created = None, pv_since = evs\<rparr>)"

lemma record_provenance_of:
  "record_event ev (creates (se_change ev) s) (provenance_of evs s) = provenance_of (evs @ [ev]) s"
  by (cases evs) (auto simp: record_event_def provenance_of_def no_provenance_def)

definition provenance_at :: "provenances \<Rightarrow> subject \<Rightarrow> schema_event list \<Rightarrow> bool" where
  "provenance_at m s evs \<longleftrightarrow> omget m s = (if evs = [] then None else Some (provenance_of evs s))"

lemma apply_provenance_at:
  assumes "provenance_at m s evs"
  shows "provenance_at (apply_provenance D e m) s (evs @ events_about D s e)"
proof (cases "\<exists>c. le_op e = SchemaOp c")
  case False
  then show ?thesis using assms by (auto simp: apply_provenance_def events_about_def split: op_type.splits)
next
  case True
  then obtain c where c: "le_op e = SchemaOp c" by blast
  let ?ev = "event_of D e c"
  have change: "se_change ?ev = c" by (simp add: event_of_def)
  have "provenance_at (fold (\<lambda>s m. omput s (record_event ?ev (creates c s) (omget_or no_provenance m s)) m) ss m) s
      (evs @ map (\<lambda>_. ?ev) (filter (\<lambda>s'. s' = s) ss))" for ss
    using assms
  proof (induction ss arbitrary: m evs)
    case (Cons s' ss)
    show ?case
    proof (cases "s' = s")
      case True
      have get: "omget_or no_provenance m s = provenance_of evs s"
        using Cons.prems by (cases evs) (auto simp: provenance_at_def omget_or_def provenance_of_def split: option.splits)
      have "provenance_at (omput s (record_event ?ev (creates c s) (omget_or no_provenance m s)) m) s (evs @ [?ev])"
        using record_provenance_of [of ?ev s evs] unfolding get change by (simp add: provenance_at_def)
      from Cons.IH [OF this] show ?thesis using True by simp
    next
      case False
      then have "provenance_at (omput s' (record_event ?ev (creates c s') (omget_or no_provenance m s')) m) s evs"
        using Cons.prems by (simp add: provenance_at_def)
      from Cons.IH [OF this] show ?thesis using False by simp
    qed
  qed simp
  then show ?thesis by (simp add: apply_provenance_def events_about_def c)
qed

definition log_events :: "codec \<Rightarrow> subject \<Rightarrow> log_entry list \<Rightarrow> schema_event list" where
  "log_events D s es = concat (map (events_about D s) es)"

lemma fold_provenance_at: "provenance_at (fold_provenance D es) s (log_events D s es)"
proof -
  have "provenance_at m s evs \<Longrightarrow> provenance_at (fold (apply_provenance D) es m) s (evs @ log_events D s es)" for m evs
  proof (induction es arbitrary: m evs)
    case (Cons e es)
    from Cons.IH [OF apply_provenance_at [OF Cons.prems]] show ?case by (simp add: log_events_def)
  qed (simp add: log_events_def)
  from this [of omempty "[]"] show ?thesis by (simp add: fold_provenance_def provenance_at_def)
qed

lemma history_provenance_of: "pv_history (provenance_of evs s) = evs"
  by (cases evs) (auto simp: pv_history_def provenance_of_def no_provenance_def)

lemma declared_at_history: "declared_at p = map_option se_hash (find (\<lambda>e. establishes_type (se_change e)) (rev (pv_history p)))"
  by (cases "pv_created p") (auto simp: declared_at_def pv_history_def)

text \<open>Provenance is exact: a table or column has a history when a schema entry of the log
  names it, its history is those entries in the log's order, each with its own hash and
  author, and after stamping a field points at the last of them that set its type.\<close>

theorem provenance_is_projection:
  "omget (fold_provenance D es) s =
      (if log_events D s es = [] then None else Some (provenance_of (log_events D s es) s)) \<and>
   (\<forall>p. omget (fold_provenance D es) s = Some p \<longrightarrow> pv_history p = log_events D s es) \<and>
   (\<forall>fd. schema_field sc t f = Some fd \<longrightarrow>
     schema_field (stamp_from_log D es sc) t f = Some (fd\<lparr>fd_declared_at := map_option se_hash
       (find (\<lambda>e. establishes_type (se_change e)) (rev (log_events D (ColumnSubject t f) es)))\<rparr>))"
proof -
  have at: "omget (fold_provenance D es) s = (if log_events D s es = [] then None else Some (provenance_of (log_events D s es) s))" for s
    using fold_provenance_at [of D es s] by (simp add: provenance_at_def)
  have "Option.bind (omget (fold_provenance D es) (ColumnSubject t f)) declared_at =
      map_option se_hash (find (\<lambda>e. establishes_type (se_change e)) (rev (log_events D (ColumnSubject t f) es)))"
    by (simp add: at declared_at_history history_provenance_of)
  then have "schema_field (stamp_from_log D es sc) t f = Some (fd\<lparr>fd_declared_at := map_option se_hash
       (find (\<lambda>e. establishes_type (se_change e)) (rev (log_events D (ColumnSubject t f) es)))\<rparr>)"
    if "schema_field sc t f = Some fd" for fd
    using that
    by (auto simp: schema_field_def schema_table_def stamp_from_log_def stamp_declared_at_def split: option.splits)
  then show ?thesis using at by (auto simp: history_provenance_of)
qed

definition provenance_sample :: "log_entry list" where
  "provenance_sample = [\<lparr>le_prev = zero_hash, le_commit = 1, le_branch = 0,
     le_op = SchemaOp (AddTable \<lparr>td_name = ''t'', td_fields = omput ''c'' \<lparr>fd_name = ''c'', fd_ty = TInt,
       fd_nullable = False, fd_crdt = None, fd_declared_at = None\<rparr> omempty, td_indexes = []\<rparr>),
     le_author = System, le_ts = 0\<rparr>]"

lemma provenance_is_projection_witness:
  "\<exists>p. omget (fold_provenance sample_codec provenance_sample) (ColumnSubject ''t'' ''c'') = Some p \<and> length (pv_history p) = 1"
proof -
  have "length (log_events sample_codec (ColumnSubject ''t'' ''c'') provenance_sample) = 1"
    by (simp add: log_events_def events_about_def provenance_sample_def om_eval)
  then show ?thesis
    using provenance_is_projection [of sample_codec provenance_sample "ColumnSubject ''t'' ''c''"] by (auto split: if_splits)
qed

section \<open>What the fold does not see\<close>

text \<open>A schema change inside a transaction moves the view's schema and has no provenance.\<close>

lemma transaction_has_no_provenance: "le_op e = Transaction ops \<Longrightarrow> apply_provenance D e m = m"
  by (simp add: apply_provenance_def)

text \<open>A renamed column does not know when its type was set: a rename sets no type, and what
  set it was recorded under the old name.\<close>

lemma rename_loses_declared_at:
  assumes "log_events D (ColumnSubject t to') es = []" and "le_op e = SchemaOp (RenameColumn t from' to')"
  shows "\<exists>p. omget (fold_provenance D (es @ [e])) (ColumnSubject t to') = Some p \<and> declared_at p = None"
proof -
  have evs: "log_events D (ColumnSubject t to') (es @ [e]) = events_about D (ColumnSubject t to') e"
    using assms(1) by (simp add: log_events_def)
  have "events_about D (ColumnSubject t to') e \<noteq> [] \<and>
      (\<forall>ev \<in> set (events_about D (ColumnSubject t to') e). se_change ev = RenameColumn t from' to')"
    using assms(2) by (auto simp: events_about_def event_of_def)
  then have "log_events D (ColumnSubject t to') (es @ [e]) \<noteq> []"
    "find (\<lambda>ev. establishes_type (se_change ev)) (rev (log_events D (ColumnSubject t to') (es @ [e]))) = None"
    unfolding evs by (auto simp: find_None_iff establishes_type_def)
  then show ?thesis using fold_provenance_at [of D "es @ [e]" "ColumnSubject t to'"]
    by (simp add: provenance_at_def declared_at_history history_provenance_of)
qed

end
