(* ===== verification/Store_Attribution.thy ===== *)
theory Store_Attribution
  imports Store_Merge_Laws
begin

text \<open>
  Who wrote what (\<open>theta-storage/src/attribution.rs\<close>) and what each branch costs to keep
  (\<open>theta-storage/src/attribution_bytes.rs\<close>).  The JSON text of a value is the argument
  \<open>js\<close>; byte and row counts are \<open>u64\<close> and wrap.
\<close>

section \<open>Who wrote what\<close>

datatype attribution =
    BySession string
  | ByTask string
  | ByAgent string
  | ByUser string

fun attributed :: "attribution \<Rightarrow> author \<Rightarrow> bool" where
  "attributed (BySession i) a = (author_session_id a = Some i)"
| "attributed (ByTask i) a = (author_task_id a = Some i)"
| "attributed (ByAgent n) a = (case author_provenance a of None \<Rightarrow> False | Some p \<Rightarrow> ap_agent p = n)"
| "attributed (ByUser i) a = (case a of Human u \<Rightarrow> u = i | Agent _ u _ \<Rightarrow> u = i | System \<Rightarrow> False)"

record activity =
  ay_entries :: nat
  ay_by_op :: "(string, nat) omap"
  ay_first_commit :: "nat option"
  ay_last_commit :: "nat option"
  ay_first_ts :: "int option"
  ay_last_ts :: "int option"
  ay_prompts :: nat
  ay_agents :: "string list"

definition entries_for :: "log_entry list \<Rightarrow> attribution \<Rightarrow> log_entry list" where
  "entries_for es who = sort_key le_commit (filter (\<lambda>e. attributed who (le_author e)) es)"

definition count_op :: "log_entry \<Rightarrow> (string, nat) omap \<Rightarrow> (string, nat) omap" where
  "count_op e m = omput (op_tag (le_op e)) (wrap64 (omget_or 0 m (op_tag (le_op e)) + 1)) m"

definition note_agent :: "log_entry \<Rightarrow> (string, unit) omap \<times> string list \<Rightarrow> (string, unit) omap \<times> string list" where
  "note_agent e s =
     (case author_provenance (le_author e) of
        None \<Rightarrow> s
      | Some p \<Rightarrow> (case s of (prompts, agents) \<Rightarrow>
          (omput (to_hex (ap_prompt_hash p)) () prompts,
           if ap_agent p \<in> set agents then agents else agents @ [ap_agent p])))"

definition end_of :: "('a list \<Rightarrow> 'a) \<Rightarrow> ('a \<Rightarrow> 'b) \<Rightarrow> 'a list \<Rightarrow> 'b option" where
  "end_of pick f xs = (if xs = [] then None else Some (f (pick xs)))"

definition activity :: "log_entry list \<Rightarrow> attribution \<Rightarrow> activity" where
  "activity es who =
     (let matched = entries_for es who; noted = fold note_agent matched (omempty, []) in
      \<lparr>ay_entries = length matched, ay_by_op = fold count_op matched omempty,
       ay_first_commit = end_of hd le_commit matched, ay_last_commit = end_of last le_commit matched,
       ay_first_ts = end_of hd le_ts matched, ay_last_ts = end_of last le_ts matched,
       ay_prompts = length (omlist (fst noted)), ay_agents = snd noted\<rparr>)"

definition first_seen :: "log_entry list \<Rightarrow> (string, nat) omap" where
  "first_seen es =
     fold (\<lambda>e m. case author_session_id (le_author e) of
         None \<Rightarrow> m
       | Some s \<Rightarrow> if omhas m s then m else omput s (le_commit e) m) es omempty"

definition sessions :: "log_entry list \<Rightarrow> string list" where
  "sessions es = map fst (sort_key snd (omlist (first_seen es)))"

section \<open>What a branch costs\<close>

record branch_share =
  bs_branch :: nat
  bs_bytes :: nat
  bs_rows :: nat
  bs_visible :: nat

definition recoverable_bytes :: "branch_share \<Rightarrow> nat" where
  "recoverable_bytes b = bs_bytes b"

record storage_attribution =
  sa_branches :: "branch_share list"
  sa_shared_bytes :: nat
  sa_shared_rows :: nat

definition total_bytes :: "storage_attribution \<Rightarrow> nat" where
  "total_bytes a = wrap64 (sa_shared_bytes a + wrap64 (sum_list (map bs_bytes (sa_branches a))))"

definition total_rows :: "storage_attribution \<Rightarrow> nat" where
  "total_rows a = wrap64 (sa_shared_rows a + wrap64 (sum_list (map bs_rows (sa_branches a))))"

definition share_of :: "storage_attribution \<Rightarrow> nat \<Rightarrow> branch_share option" where
  "share_of a br = find (\<lambda>b. bs_branch b = br) (sa_branches a)"

definition holders :: "(nat, view) omap \<Rightarrow> (string, (nat, unit) omap) omap" where
  "holders views =
     fold (\<lambda>(br, v) m. fold (\<lambda>k m. omput k (omput br () (omget_or omempty m k)) m) (omkeys (vw_keys v)) m) (omlist views) omempty"

definition by_encoding :: "(val \<Rightarrow> string) \<Rightarrow> (nat, view) omap \<Rightarrow> string \<Rightarrow> nat list \<Rightarrow> (string, nat list) omap" where
  "by_encoding js views k brs =
     fold (\<lambda>br m. case Option.bind (omget views br) (\<lambda>v. view_get v k) of
         None \<Rightarrow> m
       | Some x \<Rightarrow> omput (js x) (omget_or [] m (js x) @ [br]) m) brs omempty"

record charges =
  cg_exclusive :: "(nat, nat \<times> nat) omap"
  cg_bytes :: nat
  cg_rows :: nat

definition charge :: "string \<Rightarrow> string \<times> nat list \<Rightarrow> charges \<Rightarrow> charges" where
  "charge k eo c =
     (case eo of (encoded, owners) \<Rightarrow>
        let bytes = wrap64 (length k + length encoded) in
        if length owners = 1
        then (case omget_or (0, 0) (cg_exclusive c) (hd owners) of (b, r) \<Rightarrow>
                c\<lparr>cg_exclusive := omput (hd owners) (wrap64 (b + bytes), wrap64 (r + 1)) (cg_exclusive c)\<rparr>)
        else c\<lparr>cg_bytes := wrap64 (cg_bytes c + bytes), cg_rows := wrap64 (cg_rows c + 1)\<rparr>)"

definition attribute :: "(val \<Rightarrow> string) \<Rightarrow> (nat, view) omap \<Rightarrow> storage_attribution" where
  "attribute js views =
     (let c = fold (\<lambda>(k, brs). fold (charge k) (omlist (by_encoding js views k (omkeys brs)))) (omlist (holders views))
            \<lparr>cg_exclusive = omempty, cg_bytes = 0, cg_rows = 0\<rparr>
      in \<lparr>sa_branches = map (\<lambda>(br, v). case omget_or (0, 0) (cg_exclusive c) br of (b, r) \<Rightarrow>
             \<lparr>bs_branch = br, bs_bytes = b, bs_rows = r, bs_visible = length (omlist (vw_keys v))\<rparr>) (omlist views),
          sa_shared_bytes = cg_bytes c, sa_shared_rows = cg_rows c\<rparr>)"

section \<open>The parts sum to the whole\<close>

text \<open>What the branches hold: a row is a key with the encoding of a value, once however many
  branches hold it.\<close>

definition holds :: "(val \<Rightarrow> string) \<Rightarrow> (nat, view) omap \<Rightarrow> nat \<Rightarrow> string \<times> string \<Rightarrow> bool" where
  "holds js views br row \<longleftrightarrow>
     (\<exists>v x. omget views br = Some v \<and> view_get v (fst row) = Some x \<and> snd row = js x)"

definition held_rows :: "(val \<Rightarrow> string) \<Rightarrow> (nat, view) omap \<Rightarrow> (string \<times> string) set" where
  "held_rows js views = {row. \<exists>br. holds js views br row}"

definition row_size :: "string \<times> string \<Rightarrow> nat" where
  "row_size row = length (fst row) + length (snd row)"

definition owners_of :: "(val \<Rightarrow> string) \<Rightarrow> (nat, view) omap \<Rightarrow> string \<times> string \<Rightarrow> nat list" where
  "owners_of js views row =
     filter (\<lambda>br. case Option.bind (omget views br) (\<lambda>v. view_get v (fst row)) of None \<Rightarrow> False | Some x \<Rightarrow> js x = snd row) (omkeys views)"

lemma owners_holds: "br \<in> set (owners_of js views row) \<longleftrightarrow> holds js views br row"
  by (auto simp: owners_of_def holds_def omkeys_set bind_eq_Some_conv split: option.splits)

subsection \<open>The rows the code visits\<close>

lemma note_keys:
  "distinct ks \<Longrightarrow> omget (fold (\<lambda>k m. omput k (omput br () (omget_or omempty m k)) m) ks m) k =
     (if k \<in> set ks then Some (omput br () (omget_or omempty m k)) else omget m k)"
  by (induction ks arbitrary: m) (auto simp: omget_or_def)

lemma fold_holders:
  fixes xs :: "(nat \<times> view) list"
  defines "F \<equiv> \<lambda>(br, v) m. fold (\<lambda>k m. omput k (omput br () (omget_or omempty m k)) m) (omkeys (vw_keys v)) m"
  shows "(omget (fold F xs m) k \<noteq> None \<longleftrightarrow> omget m k \<noteq> None \<or> (\<exists>(br, v) \<in> set xs. view_get v k \<noteq> None)) \<and>
    (omhas (omget_or omempty (fold F xs m) k) br \<longleftrightarrow>
      omhas (omget_or omempty m k) br \<or> (\<exists>v. (br, v) \<in> set xs \<and> view_get v k \<noteq> None))"
proof (induction xs arbitrary: m)
  case (Cons x xs)
  obtain b v where x: "x = (b, v)" by force
  have mem: "k \<in> set (omkeys (vw_keys v)) \<longleftrightarrow> view_get v k \<noteq> None" by (simp add: omkeys_set view_get_def)
  have get: "omget (F x m) k = (if view_get v k \<noteq> None then Some (omput b () (omget_or omempty m k)) else omget m k)"
    using note_keys [of "omkeys (vw_keys v)" b m k] mem by (simp add: F_def x)
  then have "omhas (omget_or omempty (F x m) k) br \<longleftrightarrow> omhas (omget_or omempty m k) br \<or> (br = b \<and> view_get v k \<noteq> None)"
    by (auto simp: omget_or_def)
  with Cons.IH [of "F x m"] get show ?case by (auto simp: x)
qed (simp add: omhas_def)

lemma holders_keys: "k \<in> set (omkeys (holders views)) \<longleftrightarrow> (\<exists>br v. omget views br = Some v \<and> view_get v k \<noteq> None)"
  using fold_holders [of "omlist views" omempty k] by (auto simp: holders_def omkeys_set omget_omlist)

lemma holders_branches:
  "omkeys (omget_or omempty (holders views) k) =
     filter (\<lambda>br. case omget views br of None \<Rightarrow> False | Some v \<Rightarrow> view_get v k \<noteq> None) (omkeys views)"
proof (rule sorted_distinct_set_unique)
  have "omhas (omget_or omempty (holders views) k) br \<longleftrightarrow> (\<exists>v. omget views br = Some v \<and> view_get v k \<noteq> None)" for br
    using fold_holders [of "omlist views" omempty k br] by (simp add: holders_def omget_omlist omhas_def omget_or_def)
  then show "set (omkeys (omget_or omempty (holders views) k)) =
      set (filter (\<lambda>br. case omget views br of None \<Rightarrow> False | Some v \<Rightarrow> view_get v k \<noteq> None) (omkeys views))"
    by (auto simp: omkeys_set omhas_def split: option.splits)
qed (simp_all add: sorted_wrt_filter)

lemma by_encoding_get:
  fixes js views k
  defines "P \<equiv> \<lambda>e br. case Option.bind (omget views br) (\<lambda>v. view_get v k) of None \<Rightarrow> False | Some x \<Rightarrow> js x = e"
  shows "omget (by_encoding js views k brs) e = (if filter (P e) brs = [] then None else Some (filter (P e) brs))"
proof -
  let ?F = "\<lambda>br m. case Option.bind (omget views br) (\<lambda>v. view_get v k) of
      None \<Rightarrow> m | Some x \<Rightarrow> omput (js x) (omget_or [] m (js x) @ [br]) m"
  have "omget (fold ?F brs m) e = (if filter (P e) brs = [] then omget m e else Some (omget_or [] m e @ filter (P e) brs))" for m
  proof (induction brs arbitrary: m)
    case (Cons br brs)
    show ?case
    proof (cases "Option.bind (omget views br) (\<lambda>v. view_get v k)")
      case None
      then show ?thesis using Cons [of m] by (simp add: P_def)
    next
      case (Some x)
      then show ?thesis using Cons [of "omput (js x) (omget_or [] m (js x) @ [br]) m"]
        by (cases "js x = e") (auto simp: P_def omget_or_def)
    qed
  qed simp
  from this [of omempty] show ?thesis by (simp add: by_encoding_def omget_or_def)
qed

text \<open>The rows in the order of the two loops, with their owners.\<close>

definition charged :: "(val \<Rightarrow> string) \<Rightarrow> (nat, view) omap \<Rightarrow> ((string \<times> string) \<times> nat list) list" where
  "charged js views = concat (map (\<lambda>(k, brs). map (\<lambda>(e, os). ((k, e), os)) (omlist (by_encoding js views k (omkeys brs)))) (omlist (holders views)))"

lemma fold_charged:
  "fold (\<lambda>(k, brs). fold (charge k) (omlist (by_encoding js views k (omkeys brs)))) (omlist (holders views)) c =
     fold (\<lambda>((k, e), os). charge k (e, os)) (charged js views) c"
proof -
  have inner: "fold (charge k) eos c = fold (\<lambda>((k, e), os). charge k (e, os)) (map (\<lambda>(e, os). ((k, e), os)) eos) c" for k eos c
    by (induction eos arbitrary: c) auto
  have "fold (\<lambda>(k, brs). fold (charge k) (omlist (g k brs))) xs c =
      fold (\<lambda>((k, e), os). charge k (e, os)) (concat (map (\<lambda>(k, brs). map (\<lambda>(e, os). ((k, e), os)) (omlist (g k brs))) xs)) c"
    for g :: "string \<Rightarrow> (nat, unit) omap \<Rightarrow> (string, nat list) omap" and xs
    by (induction xs arbitrary: c) (auto simp: inner)
  then show ?thesis by (simp add: charged_def)
qed

lemma encoding_owners:
  assumes "(k, brs) \<in> set (omlist (holders views))"
  shows "(e, os) \<in> set (omlist (by_encoding js views k (omkeys brs))) \<longleftrightarrow> os \<noteq> [] \<and> os = owners_of js views (k, e)"
proof -
  let ?P = "\<lambda>br. case Option.bind (omget views br) (\<lambda>v. view_get v k) of None \<Rightarrow> False | Some x \<Rightarrow> js x = e"
  have "omget (holders views) k = Some brs" using assms by (simp add: omget_omlist)
  then have "omkeys brs = filter (\<lambda>br. case omget views br of None \<Rightarrow> False | Some v \<Rightarrow> view_get v k \<noteq> None) (omkeys views)"
    using holders_branches [of views k] by (simp add: omget_or_def)
  then have "filter ?P (omkeys brs) = owners_of js views (k, e)"
    by (auto simp: owners_of_def filter_filter intro!: filter_cong split: option.splits Option.bind_splits)
  then show ?thesis
    unfolding omget_omlist [symmetric] by_encoding_get by auto
qed

lemma charged_set: "set (charged js views) = {(row, owners_of js views row) | row. row \<in> held_rows js views}"
proof -
  have "((k, e), os) \<in> set (charged js views) \<longleftrightarrow> (k, e) \<in> held_rows js views \<and> os = owners_of js views (k, e)" for k e os
  proof -
    have "((k, e), os) \<in> set (charged js views) \<longleftrightarrow>
        (\<exists>brs. (k, brs) \<in> set (omlist (holders views)) \<and> (e, os) \<in> set (omlist (by_encoding js views k (omkeys brs))))"
      by (force simp: charged_def)
    also have "\<dots> \<longleftrightarrow> k \<in> set (omkeys (holders views)) \<and> os \<noteq> [] \<and> os = owners_of js views (k, e)"
    proof -
      have "k \<in> set (omkeys (holders views)) \<longleftrightarrow> (\<exists>brs. (k, brs) \<in> set (omlist (holders views)))"
        by (force simp: omkeys_def)
      then show ?thesis using encoding_owners [of k _ views e os js] by blast
    qed
    also have "\<dots> \<longleftrightarrow> (k, e) \<in> held_rows js views \<and> os = owners_of js views (k, e)"
    proof -
      have "owners_of js views (k, e) \<noteq> [] \<longleftrightarrow> (k, e) \<in> held_rows js views"
        using owners_holds [of _ js views "(k, e)"] by (fastforce simp: held_rows_def neq_Nil_conv)
      moreover have "(k, e) \<in> held_rows js views \<Longrightarrow> k \<in> set (omkeys (holders views))"
        by (auto simp: held_rows_def holds_def holders_keys)
      ultimately show ?thesis by auto
    qed
    finally show ?thesis .
  qed
  then show ?thesis by fastforce
qed

lemma charged_distinct: "distinct (map fst (charged js views))"
proof -
  have "distinct (map fst xs) \<Longrightarrow>
      distinct (map fst (concat (map (\<lambda>(k, brs). map (\<lambda>(e, os). ((k, e), os)) (omlist (g k brs))) xs)))"
    for g :: "string \<Rightarrow> (nat, unit) omap \<Rightarrow> (string, nat list) omap" and xs
  proof (induction xs)
    case (Cons x xs)
    obtain k brs where x: "x = (k, brs)" by force
    let ?rest = "concat (map (\<lambda>(k, brs). map (\<lambda>(e, os). ((k, e), os)) (omlist (g k brs))) xs)"
    have "map fst (map (\<lambda>(e, os). ((k, e), os)) (omlist (g k brs))) = map (Pair k) (omkeys (g k brs))"
      by (simp add: omkeys_def split_def)
    moreover have "distinct (map (Pair k) (omkeys (g k brs)))" by (simp add: distinct_map inj_on_def)
    moreover have "fst row \<in> fst ` set xs" if "row \<in> set (map fst ?rest)" for row using that by force
    then have "set (map (Pair k) (omkeys (g k brs))) \<inter> set (map fst ?rest) = {}" using Cons.prems by (fastforce simp: x)
    ultimately show ?case using Cons by (simp add: x)
  qed simp
  moreover have "distinct (map fst (omlist (holders views)))" using omkeys_distinct [of "holders views"] by (simp add: omkeys_def)
  ultimately show ?thesis by (simp add: charged_def)
qed

subsection \<open>The sums\<close>

lemma wrap64_add: "wrap64 (wrap64 a + b) = wrap64 (a + b)" "wrap64 (a + wrap64 b) = wrap64 (a + b)"
  by (simp_all add: wrap64_def mod_add_left_eq mod_add_right_eq)

lemma wrap64_wrap64 [simp]: "wrap64 (wrap64 a) = wrap64 a"
  by (simp add: wrap64_def)

lemma wrap64_sum_list: "wrap64 (sum_list (map (\<lambda>x. wrap64 (f x)) xs)) = wrap64 (sum_list (map f xs))"
proof (induction xs)
  case (Cons x xs)
  have "wrap64 (wrap64 (f x) + sum_list (map (\<lambda>x. wrap64 (f x)) xs)) = wrap64 (f x + wrap64 (sum_list (map (\<lambda>x. wrap64 (f x)) xs)))"
    by (simp add: wrap64_add)
  then show ?case using Cons by (simp add: wrap64_add)
qed simp

definition size_sum :: "('a \<times> 'b \<Rightarrow> bool) \<Rightarrow> ('a \<Rightarrow> nat) \<Rightarrow> ('a \<times> 'b) list \<Rightarrow> nat" where
  "size_sum P f rows = sum_list (map (f \<circ> fst) (filter P rows))"

lemma size_sum_simps [simp]:
  "size_sum P f [] = 0"
  "size_sum P f (r # rs) = (if P r then f (fst r) else 0) + size_sum P f rs"
  by (simp_all add: size_sum_def)

abbreviation one :: "'a \<Rightarrow> nat" where "one \<equiv> \<lambda>_. 1"

lemma fold_charge:
  fixes rows :: "((string \<times> string) \<times> nat list) list"
  defines "F \<equiv> \<lambda>((k, e), os). charge k (e, os)"
  shows "wrap64 (cg_bytes (fold F rows c)) = wrap64 (cg_bytes c + size_sum (\<lambda>r. length (snd r) \<noteq> 1) row_size rows) \<and>
    wrap64 (cg_rows (fold F rows c)) = wrap64 (cg_rows c + size_sum (\<lambda>r. length (snd r) \<noteq> 1) one rows) \<and>
    wrap64 (fst (omget_or (0, 0) (cg_exclusive (fold F rows c)) br)) =
      wrap64 (fst (omget_or (0, 0) (cg_exclusive c) br) + size_sum (\<lambda>r. snd r = [br]) row_size rows) \<and>
    wrap64 (snd (omget_or (0, 0) (cg_exclusive (fold F rows c)) br)) =
      wrap64 (snd (omget_or (0, 0) (cg_exclusive c) br) + size_sum (\<lambda>r. snd r = [br]) one rows)"
proof (induction rows arbitrary: c)
  case (Cons r rows)
  obtain k e os where r: "r = ((k, e), os)" by (metis surj_pair)
  show ?case
  proof (cases "length os = 1")
    case True
    then obtain b where os: "os = [b]" by (metis length_0_conv length_Suc_conv One_nat_def)
    show ?thesis
      using Cons.IH [of "F r c"]
      by (auto simp: F_def r os charge_def Let_def omget_or_def row_size_def wrap64_add add.assoc split: prod.splits option.splits)
  next
    case False
    then have "os \<noteq> [b]" for b by auto
    then show ?thesis
      using Cons.IH [of "F r c"] False
      by (auto simp: F_def r charge_def Let_def row_size_def wrap64_add add.assoc)
  qed
qed simp

definition in_u64 :: "charges \<Rightarrow> bool" where
  "in_u64 c \<longleftrightarrow> cg_bytes c \<le> u64_max \<and> cg_rows c \<le> u64_max \<and>
     (\<forall>br. fst (omget_or (0, 0) (cg_exclusive c) br) \<le> u64_max \<and> snd (omget_or (0, 0) (cg_exclusive c) br) \<le> u64_max)"

lemma wrap64_le: "wrap64 n \<le> u64_max"
  by (simp add: wrap64_def less_Suc_eq_le [symmetric])

lemma charge_in_u64: "in_u64 c \<Longrightarrow> in_u64 (charge k eo c)"
  by (auto simp: in_u64_def charge_def Let_def omget_or_def wrap64_le split: prod.splits option.splits)

lemma fold_in_u64: "in_u64 c \<Longrightarrow> in_u64 (fold (\<lambda>((k, e), os). charge k (e, os)) rows c)"
  by (induction rows arbitrary: c) (auto simp: charge_in_u64)

lemma parts_sum:
  assumes "distinct bs" and "\<forall>r \<in> set rows. length (snd r) = 1 \<longrightarrow> hd (snd r) \<in> set bs"
  shows "size_sum (\<lambda>r. length (snd r) \<noteq> 1) f rows + sum_list (map (\<lambda>b. size_sum (\<lambda>r. snd r = [b]) f rows) bs) =
     size_sum (\<lambda>_. True) f rows"
  using assms(2)
proof (induction rows)
  case (Cons r rows)
  have pick: "sum_list (map (\<lambda>b. if a = b then x else 0) bs) = x" if "a \<in> set bs" for a and x :: nat
    using assms(1) that by (induction bs) (auto simp: sum_list_0 intro!: sum_list_eq_0_iff [THEN iffD2])
  have "sum_list (map (\<lambda>b. if snd r = [b] then f (fst r) else 0) bs) = (if length (snd r) = 1 then f (fst r) else 0)"
  proof (cases "length (snd r) = 1")
    case True
    then obtain a where a: "snd r = [a]" by (metis length_0_conv length_Suc_conv One_nat_def)
    then show ?thesis using Cons.prems pick by simp
  next
    case False
    then have "snd r \<noteq> [b]" for b by auto
    then show ?thesis using False by simp
  qed
  then show ?case using Cons by (simp add: sum_list_addf)
qed simp

lemma size_sum_charged:
  "size_sum P f (charged js views) = (\<Sum>row \<in> {row \<in> held_rows js views. P (row, owners_of js views row)}. f row)"
proof -
  let ?rows = "map fst (filter P (charged js views))"
  have "distinct ?rows" using charged_distinct by (rule distinct_map_filter)
  moreover have "set ?rows = {row \<in> held_rows js views. P (row, owners_of js views row)}"
    by (auto simp: charged_set image_iff)
  moreover have "size_sum P f (charged js views) = sum_list (map f ?rows)" by (simp add: size_sum_def)
  ultimately show ?thesis by (simp only: sum_list_distinct_conv_sum_set)
qed

lemma sole_owner: "owners_of js views row = [br] \<longleftrightarrow> {b. holds js views b row} = {br}"
proof -
  have "distinct (owners_of js views row)" by (simp add: owners_of_def)
  then have "owners_of js views row = [br] \<longleftrightarrow> set (owners_of js views row) = {br}"
    by (cases "owners_of js views row") (auto simp: subset_singleton_iff)
  then show ?thesis using owners_holds [of _ js views row] by auto
qed

text \<open>The bill adds up: the shared bytes and the branches' own sum to the size of every
  distinct row once, however many branches hold it, the row counts to the number of
  distinct rows, and a branch is charged for exactly the rows no other branch holds.\<close>

theorem attribution_sums_to_total:
  assumes "(\<Sum>row \<in> held_rows js views. row_size row) \<le> u64_max" and "card (held_rows js views) \<le> u64_max"
  shows "total_bytes (attribute js views) = (\<Sum>row \<in> held_rows js views. row_size row) \<and>
    total_rows (attribute js views) = card (held_rows js views) \<and>
    map bs_branch (sa_branches (attribute js views)) = omkeys views \<and>
    (\<forall>b \<in> set (sa_branches (attribute js views)).
       bs_bytes b = (\<Sum>row \<in> {row \<in> held_rows js views. {br. holds js views br row} = {bs_branch b}}. row_size row) \<and>
       bs_rows b = card {row \<in> held_rows js views. {br. holds js views br row} = {bs_branch b}})"
proof -
  let ?c0 = "\<lparr>cg_exclusive = omempty, cg_bytes = 0, cg_rows = 0\<rparr>" and ?rows = "charged js views"
  define c where "c = fold (\<lambda>((k, e), os). charge k (e, os)) ?rows ?c0"
  note sums = fold_charge [of ?rows ?c0, folded c_def]
  let ?own = "\<lambda>br. omget_or (0, 0) (cg_exclusive c) br"
  have fin: "finite (held_rows js views)"
  proof -
    have "held_rows js views = fst ` set ?rows" by (force simp: charged_set)
    then show ?thesis by simp
  qed
  have "in_u64 c" unfolding c_def by (rule fold_in_u64) (simp add: in_u64_def omget_or_def)
  then have fits: "wrap64 (cg_bytes c) = cg_bytes c" "wrap64 (cg_rows c) = cg_rows c"
    "wrap64 (fst (?own br)) = fst (?own br)" "wrap64 (snd (?own br)) = snd (?own br)" for br
    by (auto simp: in_u64_def wrap64_id)
  have a: "attribute js views = \<lparr>sa_branches = map (\<lambda>(br, v). case ?own br of (b, r) \<Rightarrow>
      \<lparr>bs_branch = br, bs_bytes = b, bs_rows = r, bs_visible = length (omlist (vw_keys v))\<rparr>) (omlist views),
      sa_shared_bytes = cg_bytes c, sa_shared_rows = cg_rows c\<rparr>"
    unfolding attribute_def Let_def c_def fold_charged ..
  have all: "size_sum (\<lambda>_. True) row_size ?rows = (\<Sum>row \<in> held_rows js views. row_size row)"
    "size_sum (\<lambda>_. True) one ?rows = card (held_rows js views)"
    by (simp_all add: size_sum_charged)
  have part: "size_sum P row_size ?rows \<le> u64_max" "size_sum P one ?rows \<le> u64_max" for P
    using sum_mono2 [OF fin, of "{row \<in> held_rows js views. P (row, owners_of js views row)}" row_size]
      card_mono [OF fin, of "{row \<in> held_rows js views. P (row, owners_of js views row)}"] assms
    by (auto simp: size_sum_charged)
  have own: "fst (?own br) = size_sum (\<lambda>r. snd r = [br]) row_size ?rows" "snd (?own br) = size_sum (\<lambda>r. snd r = [br]) one ?rows" for br
    using sums [of br] fits(3,4) [of br] part by (simp_all add: omget_or_def wrap64_id)
  have shared: "cg_bytes c = size_sum (\<lambda>r. length (snd r) \<noteq> 1) row_size ?rows" "cg_rows c = size_sum (\<lambda>r. length (snd r) \<noteq> 1) one ?rows"
    using sums fits(1,2) part by (simp_all add: wrap64_id)
  have owner: "\<forall>r \<in> set ?rows. length (snd r) = 1 \<longrightarrow> hd (snd r) \<in> set (omkeys views)"
  proof (intro ballI impI)
    fix r assume r: "r \<in> set ?rows" "length (snd r) = 1"
    then obtain row where "snd r = owners_of js views row" by (auto simp: charged_set)
    moreover have "hd (snd r) \<in> set (snd r)" using r(2) by (intro hd_in_set) auto
    ultimately have "hd (snd r) \<in> set (owners_of js views row)" by simp
    then show "hd (snd r) \<in> set (omkeys views)" by (auto simp: owners_of_def)
  qed
  have keys: "map (\<lambda>(br, v). f br) (omlist views) = map f (omkeys views)" for f :: "nat \<Rightarrow> nat"
    by (simp add: omkeys_def split_def)
  have "map bs_bytes (sa_branches (attribute js views)) = map (\<lambda>b. size_sum (\<lambda>r. snd r = [b]) row_size ?rows) (omkeys views)"
    "map bs_rows (sa_branches (attribute js views)) = map (\<lambda>b. size_sum (\<lambda>r. snd r = [b]) one ?rows) (omkeys views)"
    "map bs_branch (sa_branches (attribute js views)) = omkeys views"
    unfolding own [symmetric] keys [symmetric] by (auto simp: a omkeys_def split: prod.splits)
  note lists = this
  have "total_bytes (attribute js views) = wrap64 (size_sum (\<lambda>_. True) row_size ?rows)"
    "total_rows (attribute js views) = wrap64 (size_sum (\<lambda>_. True) one ?rows)"
    unfolding total_bytes_def total_rows_def wrap64_add(2) lists
    using parts_sum [OF omkeys_distinct owner, of row_size] parts_sum [OF omkeys_distinct owner, of one] shared
    by (simp_all add: a)
  note totals = this
  have "bs_bytes b = size_sum (\<lambda>r. snd r = [bs_branch b]) row_size ?rows \<and> bs_rows b = size_sum (\<lambda>r. snd r = [bs_branch b]) one ?rows"
    if "b \<in> set (sa_branches (attribute js views))" for b
    using that unfolding own [symmetric] by (auto simp: a split: prod.splits)
  note found = this
  show ?thesis
  proof (intro conjI ballI)
    show "total_bytes (attribute js views) = (\<Sum>row \<in> held_rows js views. row_size row)"
      unfolding totals(1) all(1) by (rule wrap64_id [OF assms(1)])
    show "total_rows (attribute js views) = card (held_rows js views)"
      unfolding totals(2) all(2) by (rule wrap64_id [OF assms(2)])
    show "map bs_branch (sa_branches (attribute js views)) = omkeys views" by (rule lists(3))
    fix b assume b: "b \<in> set (sa_branches (attribute js views))"
    show "bs_bytes b = (\<Sum>row \<in> {row \<in> held_rows js views. {br. holds js views br row} = {bs_branch b}}. row_size row)"
      using found [OF b] by (simp add: size_sum_charged sole_owner)
    show "bs_rows b = card {row \<in> held_rows js views. {br. holds js views br row} = {bs_branch b}}"
      using found [OF b] by (simp add: size_sum_charged sole_owner)
  qed
qed

definition first_rows :: view where
  "first_rows = view_new\<lparr>vw_keys := omput ''a'' (VInt 1) omempty\<rparr>"

definition second_rows :: view where
  "second_rows = view_new\<lparr>vw_keys := omput ''a'' (VInt 1) (omput ''b'' VNull omempty)\<rparr>"

definition forked_views :: "(nat, view) omap" where
  "forked_views = omput 0 first_rows (omput 1 second_rows omempty)"

lemma forked_get:
  "view_get first_rows k = (if k = ''a'' then Some (VInt 1) else None)"
  "view_get second_rows k = (if k = ''a'' then Some (VInt 1) else if k = ''b'' then Some VNull else None)"
  by (auto simp: view_get_def first_rows_def second_rows_def)

lemma forked_rows: "held_rows (\<lambda>_. ''x'') forked_views = {(''a'', ''x''), (''b'', ''x'')}"
proof (rule set_eqI)
  fix row :: "string \<times> string"
  have "row \<in> held_rows (\<lambda>_. ''x'') forked_views \<longleftrightarrow>
      snd row = ''x'' \<and> ((\<exists>x. view_get first_rows (fst row) = Some x) \<or> (\<exists>x. view_get second_rows (fst row) = Some x))"
    unfolding held_rows_def holds_def forked_views_def
    by (auto split: if_splits intro: exI [of _ 0] exI [of _ 1])
  also have "\<dots> \<longleftrightarrow> snd row = ''x'' \<and> (fst row = ''a'' \<or> fst row = ''b'')" unfolding forked_get by auto
  also have "\<dots> \<longleftrightarrow> row \<in> {(''a'', ''x''), (''b'', ''x'')}" by (cases row) auto
  finally show "row \<in> held_rows (\<lambda>_. ''x'') forked_views \<longleftrightarrow> row \<in> {(''a'', ''x''), (''b'', ''x'')}" .
qed

lemma attribution_sums_to_total_witness: "total_bytes (attribute (\<lambda>_. ''x'') forked_views) = 4"
proof -
  have "(\<Sum>row \<in> {(''a'', ''x''), (''b'', ''x'')}. row_size row) = 4" by (simp add: row_size_def)
  then show ?thesis using attribution_sums_to_total [of "\<lambda>_. ''x''" forked_views] by (simp add: forked_rows)
qed

text \<open>Replicated fields are not counted.\<close>

lemma replicated_fields_are_free:
  "held_rows js (omput 0 (view_new\<lparr>vw_crdts := cs\<rparr>) omempty) = {}"
  by (auto simp: held_rows_def holds_def view_get_def view_new_def split: if_splits)

end
