(* ===== verification/Safety_Proof.thy ===== *)
theory Safety_Proof
  imports Safety_Classify Core_Address Core_Float
begin

text \<open>
  Proof-carrying migrations (\<open>theta-safety/src/proof.rs\<close>): a claim about the data, checked
  by the server, can lower the gate of the change it is attached to.  The rows of a table
  come from the trait \<open>RowSource\<close>, here the argument \<open>rows\<close>.  And the replay of recorded
  decisions under a policy (\<open>theta-safety/src/replay.rs\<close>).
\<close>

section \<open>Claims\<close>

datatype claim =
    NoValueViolatesType string string
  | NoRowIsMissing string string
  | TableIsEmpty string

datatype verdict =
    Holds nat
  | Fails nat string
  | Irrelevant string

definition verdict_holds :: "verdict \<Rightarrow> bool" where
  "verdict_holds v = (case v of Holds _ \<Rightarrow> True | _ \<Rightarrow> False)"

definition change_target :: "schema_change \<Rightarrow> string \<times> string option" where
  "change_target change =
     (case change of
        AddTable td \<Rightarrow> (td_name td, None)
      | DropTable t \<Rightarrow> (t, None)
      | AddColumn t f \<Rightarrow> (t, Some (fd_name f))
      | DropColumn t c \<Rightarrow> (t, Some c)
      | AlterColumnType t c _ _ \<Rightarrow> (t, Some c)
      | SetNullable t c _ _ \<Rightarrow> (t, Some c)
      | SetCrdt t c _ \<Rightarrow> (t, Some c)
      | RenameColumn t from' _ \<Rightarrow> (t, Some from')
      | AddIndex t ix \<Rightarrow> (t, Some (ix_name ix))
      | DropIndex t ix \<Rightarrow> (t, Some ix))"

definition claim_target :: "claim \<Rightarrow> string \<times> string option" where
  "claim_target c =
     (case c of
        TableIsEmpty t \<Rightarrow> (t, None)
      | NoRowIsMissing t col \<Rightarrow> (t, Some col)
      | NoValueViolatesType t col \<Rightarrow> (t, Some col))"

definition is_type_claim :: "claim \<Rightarrow> bool" where
  "is_type_claim c = (case c of NoValueViolatesType _ _ \<Rightarrow> True | _ \<Rightarrow> False)"

definition is_alter :: "schema_change \<Rightarrow> bool" where
  "is_alter change = (case change of AlterColumnType _ _ _ _ \<Rightarrow> True | _ \<Rightarrow> False)"

definition mismatch :: "claim \<Rightarrow> schema_change \<Rightarrow> string option" where
  "mismatch c change =
     (if is_type_claim c \<and> \<not> is_alter change
      then Some ''the claim is about the type values must fit, and the change does not alter a column's type''
      else case (claim_target c, change_target change) of
        ((ct, ccol), (t, col)) \<Rightarrow>
          if ct \<noteq> t then Some (''the claim is about `'' @ ct @ ''` and the change is about `'' @ t @ ''`'')
          else (case (ccol, col) of
                  (Some claimed, Some changed) \<Rightarrow>
                    if claimed \<noteq> changed
                    then Some (''the claim is about column `'' @ claimed @ ''` and the change is about `'' @ changed @ ''`'')
                    else None
                | _ \<Rightarrow> None))"

text \<open>\<open>f.fract() == 0.0\<close>: finite and without a fractional part.\<close>

definition f64_is_whole :: "f64 \<Rightarrow> bool" where
  "f64_is_whole f \<longleftrightarrow> \<not> f64_nan f \<and> \<not> f64_is_inf f \<and>
     (1075 \<le> mag_exp (f64_mag f) \<or> 2 ^ (1075 - mag_exp (f64_mag f)) dvd mag_sig (f64_mag f))"

fun fits :: "val \<Rightarrow> value_type \<Rightarrow> bool" where
  "fits VNull _ = True"
| "fits (VBool _) ty = (ty = TBool)"
| "fits (VInt _) ty = (ty = TInt \<or> ty = TFloat)"
| "fits (VFloat f) ty = ((ty = TInt \<and> f64_is_whole f) \<or> ty = TFloat)"
| "fits (VText _) ty = (ty = TText)"
| "fits (VBytes _) ty = (ty = TBytes)"
| "fits (VTimestamp _) ty = (ty = TTimestamp)"
| "fits (VList _) ty = (ty = TList)"
| "fits (VMap _) ty = (ty = TMap)"

definition judge :: "(string \<times> val \<Rightarrow> bool) \<Rightarrow> (string \<times> val) list \<Rightarrow> verdict" where
  "judge bad rows =
     (case find_first bad rows of
        None \<Rightarrow> Holds (length rows)
      | Some (key, _) \<Rightarrow> Fails (length rows) key)"

definition violates :: "string \<Rightarrow> value_type \<Rightarrow> string \<times> val \<Rightarrow> bool" where
  "violates col ty row = (case row_column (snd row) '''' col of None \<Rightarrow> False | Some v \<Rightarrow> \<not> fits v ty)"

definition verify_claim :: "claim \<Rightarrow> schema_change \<Rightarrow> (string \<Rightarrow> (string \<times> val) list) \<Rightarrow> verdict" where
  "verify_claim c change rows =
     (case mismatch c change of
        Some reason \<Rightarrow> Irrelevant reason
      | None \<Rightarrow>
          (case c of
             TableIsEmpty t \<Rightarrow>
               if length (rows t) = 0 then Holds 0
               else Fails (length (rows t)) (case rows t of [] \<Rightarrow> '''' | (key, _) # _ \<Rightarrow> key)
           | NoRowIsMissing t col \<Rightarrow> judge (\<lambda>row. \<not> has_column (snd row) True col) (rows t)
           | NoValueViolatesType t col \<Rightarrow>
               (case change of
                  AlterColumnType _ _ _ to' \<Rightarrow> judge (violates col to') (rows t)
                | _ \<Rightarrow> Irrelevant [])))"

text \<open>The last branch is the \<open>unreachable!\<close> behind \<open>mismatch\<close>.\<close>

definition lowers :: "schema_change \<Rightarrow> bool" where
  "lowers change = (case change of AlterColumnType _ _ _ _ \<Rightarrow> True | SetNullable _ _ nullable _ \<Rightarrow> \<not> nullable | _ \<Rightarrow> False)"

definition is_drop :: "schema_change \<Rightarrow> bool" where
  "is_drop change = (case change of DropColumn _ _ \<Rightarrow> True | DropTable _ \<Rightarrow> True | _ \<Rightarrow> False)"

definition apply_claim :: "gate \<Rightarrow> schema_change \<Rightarrow> verdict \<Rightarrow> gate \<times> string" where
  "apply_claim g change v =
     (case v of
        Holds n \<Rightarrow>
          if lowers change
          then (AutoApply, ''checked against '' @ show_nat n @ '' rows on this branch: none violate the constraint, so the change loses nothing and is not gated for its size'')
          else if is_drop change
          then (g, ''the gate is unchanged: a proof about what a column contains does not make removing it reversible'')
          else (g, ''the gate is unchanged: no rule lowers it for this kind of change'')
      | _ \<Rightarrow> (g, ''the gate is unchanged: no claim was proved''))"

section \<open>When a gate is lowered\<close>

lemma judge_Holds: "verdict_holds (judge bad rows) \<longleftrightarrow> (\<forall>row \<in> set rows. \<not> bad row)"
  by (induction rows) (auto simp: judge_def verdict_holds_def split: option.splits)

text \<open>A value that reads the same under another declared type: it is null, of that type, an
  integer where a float is declared, or a float without a fraction where an integer is.\<close>

definition reads_as :: "val \<Rightarrow> value_type \<Rightarrow> bool" where
  "reads_as v ty \<longleftrightarrow> v = VNull \<or> inferred_type v = ty \<or> (inferred_type v = TInt \<and> ty = TFloat) \<or>
     (\<exists>f. v = VFloat f \<and> f64_is_whole f \<and> ty = TInt)"

lemma fits_reads_as: "fits v ty \<longleftrightarrow> reads_as v ty"
  by (cases v) (auto simp: reads_as_def)

text \<open>What a claim says of the data, for the change it is attached to.\<close>

definition claim_true :: "claim \<Rightarrow> schema_change \<Rightarrow> (string \<Rightarrow> (string \<times> val) list) \<Rightarrow> bool" where
  "claim_true c change rows =
     (case c of
        TableIsEmpty t \<Rightarrow> rows t = []
      | NoRowIsMissing t col \<Rightarrow> (\<forall>(key, row) \<in> set (rows t). has_column row True col)
      | NoValueViolatesType t col \<Rightarrow>
          (\<exists>s to'. change = AlterColumnType t col s to' \<and>
             (\<forall>(key, row) \<in> set (rows t). \<forall>v. row_column row '''' col = Some v \<longrightarrow> reads_as v to')))"

text \<open>Table and column agree, where both sides name one.\<close>

definition on_target :: "claim \<Rightarrow> schema_change \<Rightarrow> bool" where
  "on_target c change \<longleftrightarrow> fst (claim_target c) = fst (change_target change) \<and>
     (snd (claim_target c) = None \<or> snd (change_target change) = None \<or> snd (claim_target c) = snd (change_target change))"

lemma verify_claim_holds:
  assumes "lowers change"
  shows "verdict_holds (verify_claim c change rows) \<longleftrightarrow> on_target c change \<and> claim_true c change rows"
proof (cases "is_type_claim c \<and> \<not> is_alter change")
  case True
  then show ?thesis
    by (auto simp: verify_claim_def mismatch_def verdict_holds_def claim_true_def is_type_claim_def is_alter_def split: claim.splits)
next
  case False
  have "mismatch c change = None \<longleftrightarrow> on_target c change"
    using False by (auto simp: mismatch_def on_target_def split: prod.splits option.splits)
  moreover have "verdict_holds (verify_claim c change rows) \<longleftrightarrow> claim_true c change rows" if m: "mismatch c change = None"
  proof (cases c)
    case (NoValueViolatesType t col)
    then obtain t' col' s to' where change: "change = AlterColumnType t' col' s to'"
      using False by (auto simp: is_type_claim_def is_alter_def split: schema_change.splits)
    then have "t' = t" "col' = col"
      using m by (auto simp: NoValueViolatesType mismatch_def claim_target_def change_target_def is_alter_def split: if_splits)
    then show ?thesis
      using m by (auto simp: verify_claim_def NoValueViolatesType change judge_Holds claim_true_def violates_def fits_reads_as split: option.splits)
  next
    case (NoRowIsMissing t col)
    then show ?thesis using m by (auto simp: verify_claim_def judge_Holds claim_true_def)
  next
    case (TableIsEmpty t)
    then show ?thesis using m by (auto simp: verify_claim_def claim_true_def verdict_holds_def split: list.splits)
  qed
  ultimately show ?thesis
    by (cases "mismatch c change") (auto simp: verify_claim_def verdict_holds_def)
qed

text \<open>What the tightening is afraid of.  A float is an integer when its exact value is; a
  value keeps its meaning under another declared type when it is null, of that type, an
  integer where a float is declared, or a float that is an integer of 64 bits where an
  integer is.\<close>

definition float_is :: "f64 \<Rightarrow> int \<Rightarrow> bool" where
  "float_is f i \<longleftrightarrow> \<not> f64_nan f \<and> \<not> f64_is_inf f \<and>
     (if f64_neg f then -1 else 1) * int (mag_sig (f64_mag f) * 2 ^ mag_exp (f64_mag f)) = i * int (2 ^ 1075)"

definition lossless :: "val \<Rightarrow> value_type \<Rightarrow> bool" where
  "lossless v ty \<longleftrightarrow> v = VNull \<or> inferred_type v = ty \<or> (inferred_type v = TInt \<and> ty = TFloat) \<or>
     (\<exists>f i. v = VFloat f \<and> ty = TInt \<and> float_is f i \<and> i64_min \<le> i \<and> i \<le> i64_max)"

text \<open>A float that is an integer, but none of 64 bits.\<close>

definition beyond_i64 :: "val \<Rightarrow> bool" where
  "beyond_i64 v \<longleftrightarrow> (\<exists>f i. v = VFloat f \<and> float_is f i \<and> \<not> (i64_min \<le> i \<and> i \<le> i64_max))"

lemma dvd_power_split: "(2::nat) ^ n dvd s * 2 ^ e \<longleftrightarrow> n \<le> e \<or> 2 ^ (n - e) dvd s"
proof (cases "n \<le> e")
  case True
  then have "(2::nat) ^ n dvd 2 ^ e" by (simp add: le_imp_power_dvd)
  then show ?thesis using True by simp
next
  case False
  then have "(2::nat) ^ n = 2 ^ (n - e) * 2 ^ e" by (simp flip: power_add)
  then show ?thesis using False by simp
qed

lemma whole_is_integer: "f64_is_whole f \<longleftrightarrow> (\<exists>i. float_is f i)"
proof -
  let ?m = "mag_sig (f64_mag f) * 2 ^ mag_exp (f64_mag f)"
  have "(\<exists>i. (if f64_neg f then -1 else 1) * int ?m = i * int (2 ^ 1075)) \<longleftrightarrow> int (2 ^ 1075) dvd (if f64_neg f then -1 else 1) * int ?m"
    by (auto simp only: dvd_def mult.commute)
  also have "\<dots> \<longleftrightarrow> (2::nat) ^ 1075 dvd ?m" by (simp only: if_distrib [of "\<lambda>x. x * _"] minus_mult_commute mult_1
      dvd_minus_iff mult_minus1 if_cancel int_dvd_int_iff split: if_splits) auto
  finally show ?thesis
    unfolding f64_is_whole_def float_is_def dvd_power_split by blast
qed

lemma fits_lossless: "\<not> beyond_i64 v \<Longrightarrow> fits v ty \<longleftrightarrow> lossless v ty"
  by (cases v) (auto simp: lossless_def beyond_i64_def whole_is_integer)

text \<open>The proof removes the risk of the change: no value of a column whose type changes is
  lost, every row has a value where nulls become forbidden, or there is no row at all.\<close>

definition nothing_to_lose :: "claim \<Rightarrow> schema_change \<Rightarrow> (string \<Rightarrow> (string \<times> val) list) \<Rightarrow> bool" where
  "nothing_to_lose c change rows \<longleftrightarrow>
     (case (c, change) of
        (TableIsEmpty t, AlterColumnType t' _ _ _) \<Rightarrow> t = t' \<and> rows t = []
      | (TableIsEmpty t, SetNullable t' _ nullable _) \<Rightarrow> t = t' \<and> \<not> nullable \<and> rows t = []
      | (NoRowIsMissing t col, SetNullable t' col' nullable _) \<Rightarrow>
          t = t' \<and> col = col' \<and> \<not> nullable \<and> (\<forall>(key, row) \<in> set (rows t). has_column row True col)
      | (NoValueViolatesType t col, AlterColumnType t' col' _ to') \<Rightarrow>
          t = t' \<and> col = col' \<and>
          (\<forall>(key, row) \<in> set (rows t). \<forall>v. row_column row '''' col = Some v \<longrightarrow> lossless v to')
      | _ \<Rightarrow> False)"

text \<open>A claim of presence on a change of type: the one pair the check takes for relevant
  although the claim does not speak of the change's risk.\<close>

definition presence_for_type :: "claim \<Rightarrow> schema_change \<Rightarrow> bool" where
  "presence_for_type c change \<longleftrightarrow> (\<exists>t col t' col' s to'. c = NoRowIsMissing t col \<and> change = AlterColumnType t' col' s to')"

lemma claim_removes_risk:
  assumes "\<not> presence_for_type c change"
    and "\<And>t col s to' key row v. change = AlterColumnType t col s to' \<Longrightarrow> (key, row) \<in> set (rows t) \<Longrightarrow>
       row_column row '''' col = Some v \<Longrightarrow> \<not> beyond_i64 v"
  shows "lowers change \<and> on_target c change \<and> claim_true c change rows \<longleftrightarrow> nothing_to_lose c change rows"
proof (cases c)
  case (NoValueViolatesType t col)
  show ?thesis
  proof (cases change)
    case (AlterColumnType t' col' s to')
    have "reads_as v to' \<longleftrightarrow> lossless v to'" if "(key, row) \<in> set (rows t')" "row_column row '''' col' = Some v" for key row v
      using fits_lossless [of v to'] assms(2) [OF AlterColumnType that] by (simp add: fits_reads_as)
    then show ?thesis using NoValueViolatesType AlterColumnType
      by (auto simp: nothing_to_lose_def lowers_def on_target_def claim_target_def change_target_def claim_true_def)
  qed (use NoValueViolatesType in \<open>auto simp: nothing_to_lose_def claim_true_def\<close>)
next
  case (NoRowIsMissing t col)
  then show ?thesis using assms(1)
    by (cases change)
      (auto simp: nothing_to_lose_def lowers_def on_target_def claim_target_def change_target_def claim_true_def presence_for_type_def)
next
  case (TableIsEmpty t)
  then show ?thesis
    by (cases change)
      (auto simp: nothing_to_lose_def lowers_def on_target_def claim_target_def change_target_def claim_true_def)
qed

text \<open>C39: A proof lowers a gate exactly when it removes the risk: the change alters a type
  and every value of the column keeps its meaning under the new one, or it forbids nulls and
  every row has a value, or the table is empty, each checked against every row of the branch;
  then the change applies by itself.  This is for claims of the kind the change calls for and
  for columns without floats that are integers beyond 64 bits, the two places where the check
  is weaker than it is meant to be.  With no exception, a proof never raises a gate, never
  touches the gate of a drop or of any change that neither alters a type nor forbids nulls,
  and does nothing when its claim is about another table or column, or is false.\<close>

theorem proof_lowers_exactly:
  assumes "\<not> presence_for_type c change"
    and "\<And>t col s to' key row v. change = AlterColumnType t col s to' \<Longrightarrow> (key, row) \<in> set (rows t) \<Longrightarrow>
       row_column row '''' col = Some v \<Longrightarrow> \<not> beyond_i64 v"
  shows "fst (apply_claim g change (verify_claim c change rows)) =
     (if nothing_to_lose c change rows then AutoApply else g) \<and>
   (is_drop change' \<or> \<not> lowers change' \<longrightarrow> fst (apply_claim g change' v) = g) \<and>
   (\<not> on_target c' change' \<or> \<not> claim_true c' change' rows' \<longrightarrow>
      fst (apply_claim g change' (verify_claim c' change' rows')) = g) \<and>
   strictness (fst (apply_claim g change' v)) \<le> strictness g"
proof -
  have risk: "lowers change \<and> on_target c change \<and> claim_true c change rows \<longleftrightarrow> nothing_to_lose c change rows"
    by (rule claim_removes_risk [OF assms])
  have gate: "fst (apply_claim g change v) = (if lowers change \<and> verdict_holds v then AutoApply else g)" for change v
    by (auto simp: apply_claim_def verdict_holds_def split: verdict.splits)
  have "fst (apply_claim g change' v) = g" if "is_drop change' \<or> \<not> lowers change'"
    using that unfolding gate by (auto simp: is_drop_def lowers_def split: schema_change.splits)
  moreover have "strictness (fst (apply_claim g change' v)) \<le> strictness g"
    unfolding gate by (simp add: strictness_def split: gate.splits)
  moreover have "fst (apply_claim g change' (verify_claim c' change' rows')) = g"
    if "\<not> on_target c' change' \<or> \<not> claim_true c' change' rows'"
    using that verify_claim_holds [of change' c' rows'] unfolding gate by auto
  moreover have "fst (apply_claim g change (verify_claim c change rows)) =
      (if nothing_to_lose c change rows then AutoApply else g)"
    unfolding gate using verify_claim_holds [of change c rows] risk by auto
  ultimately show ?thesis by blast
qed

lemma proof_lowers_exactly_witness:
  "fst (apply_claim ShadowValidate (AlterColumnType ''t'' ''c'' TFloat TInt)
     (verify_claim (NoValueViolatesType ''t'' ''c'') (AlterColumnType ''t'' ''c'' TFloat TInt)
        (\<lambda>_. [(''t/1'', VMap [(''c'', VInt 1)])]))) = AutoApply \<and>
   fst (apply_claim ShadowValidate (AlterColumnType ''t'' ''c'' TFloat TInt)
     (verify_claim (NoValueViolatesType ''t'' ''c'') (AlterColumnType ''t'' ''c'' TFloat TInt)
        (\<lambda>_. [(''t/1'', VMap [(''c'', VText ''nineteen'')])]))) = ShadowValidate"
proof -
  let ?change = "AlterColumnType ''t'' ''c'' TFloat TInt" and ?c = "NoValueViolatesType ''t'' ''c''"
  let ?rows = "\<lambda>v _. [(''t/1'', VMap [(''c'', v)])]"
  have "\<not> presence_for_type ?c ?change" by (simp add: presence_for_type_def)
  moreover have "\<not> beyond_i64 (VInt 1)" "\<not> beyond_i64 (VText ''nineteen'')" by (simp_all add: beyond_i64_def)
  moreover have "nothing_to_lose ?c ?change (?rows (VInt 1))" "\<not> nothing_to_lose ?c ?change (?rows (VText ''nineteen''))"
    by (simp_all add: nothing_to_lose_def lossless_def row_column_def key_column_def)
  ultimately show ?thesis
    using proof_lowers_exactly [of ?c ?change "?rows (VInt 1)" ShadowValidate]
      proof_lowers_exactly [of ?c ?change "?rows (VText ''nineteen'')" ShadowValidate]
    by (fastforce simp: row_column_def key_column_def)
qed

text \<open>The claim need not be about what the change puts at risk: that no row lacks the
  column clears a narrowing of its type, whatever the values are.\<close>

lemma presence_clears_a_narrowing:
  "fst (apply_claim ShadowValidate (AlterColumnType ''t'' ''c'' TFloat TInt)
     (verify_claim (NoRowIsMissing ''t'' ''c'') (AlterColumnType ''t'' ''c'' TFloat TInt)
       (\<lambda>_. [(''t/1'', VMap [(''c'', VText ''nineteen'')])]))) = AutoApply"
  by (simp add: apply_claim_def verify_claim_def mismatch_def is_type_claim_def claim_target_def change_target_def
      judge_def has_column_def key_column_def lowers_def)

text \<open>A float that is whole but beyond every \<open>i64\<close> counts as fitting an integer column.\<close>

lemma huge_float_fits_int: "fits (VFloat 0x7FE0000000000000) TInt"
  by (simp add: f64_is_whole_def f64_nan_def f64_is_inf_def f64_inf_mag_def f64_mag_def mag_exp_def)

section \<open>Replaying decisions\<close>

record recorded_decision =
  rd_id :: string
  rd_change :: schema_change
  rd_impact :: impact
  rd_protected :: bool
  rd_branch :: nat
  rd_gate :: gate
  rd_at :: int

datatype divergence = Same | Stricter | Looser

record replayed_decision =
  rp_id :: string
  rp_recorded :: gate
  rp_replayed :: gate
  rp_divergence :: divergence
  rp_reason :: string

record replay_report =
  rr_decisions :: "replayed_decision list"
  rr_agreed :: nat
  rr_stricter :: nat
  rr_looser :: nat

definition has_loosened :: "replay_report \<Rightarrow> bool" where
  "has_loosened r \<longleftrightarrow> 0 < rr_looser r"

definition loosened :: "replay_report \<Rightarrow> replayed_decision list" where
  "loosened r = filter (\<lambda>d. rp_divergence d = Looser) (rr_decisions r)"

definition replay_summary :: "replay_report \<Rightarrow> string" where
  "replay_summary r =
     (if rr_decisions r = [] then ''nothing to replay: no decisions were recorded''
      else show_nat (length (rr_decisions r)) @ '' decisions replayed: '' @ show_nat (rr_agreed r) @
        '' unchanged, '' @ show_nat (rr_stricter r) @ '' would now be gated harder, '' @ show_nat (rr_looser r) @
        '' would now be gated LESS'')"

definition diverge :: "gate \<Rightarrow> gate \<Rightarrow> divergence" where
  "diverge replayed recorded =
     (if strictness replayed = strictness recorded then Same
      else if strictness recorded < strictness replayed then Stricter else Looser)"

definition replay_one ::
  "(schema_change \<Rightarrow> byte list) \<Rightarrow> (byte list \<Rightarrow> hash) \<Rightarrow> safety_policy \<Rightarrow> recorded_decision \<Rightarrow> replay_report \<Rightarrow> replay_report" where
  "replay_one js b3 pol d r =
     (let diff = classify js b3 (rd_change d) (rd_impact d) pol (rd_protected d) (rd_branch d);
          way = diverge (cd_gate diff) (rd_gate d)
      in \<lparr>rr_decisions = rr_decisions r @ [\<lparr>rp_id = rd_id d, rp_recorded = rd_gate d, rp_replayed = cd_gate diff,
             rp_divergence = way, rp_reason = cd_reason diff\<rparr>],
          rr_agreed = rr_agreed r + (if way = Same then 1 else 0),
          rr_stricter = rr_stricter r + (if way = Stricter then 1 else 0),
          rr_looser = rr_looser r + (if way = Looser then 1 else 0)\<rparr>)"

definition replay ::
  "(schema_change \<Rightarrow> byte list) \<Rightarrow> (byte list \<Rightarrow> hash) \<Rightarrow> recorded_decision list \<Rightarrow> safety_policy \<Rightarrow> replay_report" where
  "replay js b3 ds pol = fold (replay_one js b3 pol) ds \<lparr>rr_decisions = [], rr_agreed = 0, rr_stricter = 0, rr_looser = 0\<rparr>"

definition replayed_gate :: "safety_policy \<Rightarrow> recorded_decision \<Rightarrow> gate" where
  "replayed_gate pol d = cd_gate (classify (\<lambda>_. []) (\<lambda>x. x) (rd_change d) (rd_impact d) pol (rd_protected d) (rd_branch d))"

lemma gate_needs_no_hash: "cd_gate (classify js b3 c im pol prot br) = cd_gate (classify js' b3' c im pol prot br)"
  by (simp add: classify_def decide_gate_def Let_def case_prod_beta)

text \<open>A replay judges every decision by the classifier and counts each once; it reports
  a loosening exactly when some decision would now be gated less than it was, and lists
  exactly those.\<close>

theorem replay_counts_every_decision:
  "map rp_replayed (rr_decisions (replay js b3 ds pol)) = map (replayed_gate pol) ds \<and>
   map rp_id (rr_decisions (replay js b3 ds pol)) = map rd_id ds \<and>
   rr_agreed (replay js b3 ds pol) + rr_stricter (replay js b3 ds pol) + rr_looser (replay js b3 ds pol) = length ds \<and>
   rr_looser (replay js b3 ds pol) = length (loosened (replay js b3 ds pol)) \<and>
   (has_loosened (replay js b3 ds pol) \<longleftrightarrow> (\<exists>d \<in> set ds. strictness (replayed_gate pol d) < strictness (rd_gate d)))"
proof -
  have gate: "cd_gate (classify js b3 (rd_change d) (rd_impact d) pol (rd_protected d) (rd_branch d)) = replayed_gate pol d" for d
    unfolding replayed_gate_def by (rule gate_needs_no_hash)
  have "map rp_replayed (rr_decisions (fold (replay_one js b3 pol) ds r)) = map rp_replayed (rr_decisions r) @ map (replayed_gate pol) ds \<and>
     map rp_id (rr_decisions (fold (replay_one js b3 pol) ds r)) = map rp_id (rr_decisions r) @ map rd_id ds \<and>
     rr_agreed (fold (replay_one js b3 pol) ds r) + rr_stricter (fold (replay_one js b3 pol) ds r) + rr_looser (fold (replay_one js b3 pol) ds r) =
       rr_agreed r + rr_stricter r + rr_looser r + length ds \<and>
     (rr_looser r = length (loosened r) \<longrightarrow>
       rr_looser (fold (replay_one js b3 pol) ds r) = length (loosened (fold (replay_one js b3 pol) ds r))) \<and>
     rr_looser (fold (replay_one js b3 pol) ds r) =
       rr_looser r + length (filter (\<lambda>d. strictness (replayed_gate pol d) < strictness (rd_gate d)) ds)" for r
  proof (induction ds arbitrary: r)
    case (Cons d ds)
    have way: "diverge (replayed_gate pol d) (rd_gate d) = Looser \<longleftrightarrow> strictness (replayed_gate pol d) < strictness (rd_gate d)"
      by (auto simp: diverge_def)
    show ?case using Cons.IH [of "replay_one js b3 pol d r"] way
      by (cases "diverge (replayed_gate pol d) (rd_gate d)") (simp_all add: replay_one_def Let_def gate loosened_def)
  qed simp
  note all = this [of "\<lparr>rr_decisions = [], rr_agreed = 0, rr_stricter = 0, rr_looser = 0\<rparr>", folded replay_def]
  have "has_loosened (replay js b3 ds pol) \<longleftrightarrow> filter (\<lambda>d. strictness (replayed_gate pol d) < strictness (rd_gate d)) ds \<noteq> []"
    using all by (simp add: has_loosened_def del: filter_False)
  then show ?thesis using all by (auto simp: loosened_def filter_empty_conv)
qed

end
