(* ===== verification/Identity_Keys.thy ===== *)
theory Identity_Keys
  imports Core_Hash Ordered_Map
begin

text \<open>
  A project's keys (\<open>theta-identity/src/keys.rs\<close>): what the control plane holds, what an
  instance holds, and how keys come and go.  A private key is a value of the type
  \<open>'k\<close>, a public one of \<open>'p\<close>; the signature library's functions are arguments, and
  so is the fresh key an operation draws from the operating system.
\<close>

section \<open>One project\<close>

record 'k project_keys =
  pk_project :: string
  pk_active :: string
  pk_keys :: "(string, 'k) omap"
  pk_data :: "byte list option"

definition key_name :: "string \<Rightarrow> nat \<Rightarrow> string" where
  "key_name project n = project @ ''-k'' @ show_nat n"

definition keys_generate :: "string \<Rightarrow> 'k \<Rightarrow> 'k project_keys" where
  "keys_generate project fresh =
     (let active = project @ ''-k1'' in
      \<lparr>pk_project = project, pk_active = active, pk_keys = omput active fresh omempty, pk_data = None\<rparr>)"

definition ensure_data_key :: "byte list \<Rightarrow> 'k project_keys \<Rightarrow> byte list \<times> 'k project_keys" where
  "ensure_data_key fresh p =
     (case pk_data p of Some d \<Rightarrow> (d, p) | None \<Rightarrow> (fresh, p\<lparr>pk_data := Some fresh\<rparr>))"

definition keys_rotate :: "'k \<Rightarrow> 'k project_keys \<Rightarrow> string \<times> 'k project_keys" where
  "keys_rotate fresh p =
     (let next' = key_name (pk_project p) (length (omlist (pk_keys p)) + 1) in
      (next', p\<lparr>pk_keys := omput next' fresh (pk_keys p), pk_active := next'\<rparr>))"

definition revoke_key :: "string \<Rightarrow> 'k project_keys \<Rightarrow> 'k project_keys" where
  "revoke_key i p = p\<lparr>pk_keys := omdel i (pk_keys p)\<rparr>"

definition signing_key :: "'k project_keys \<Rightarrow> string \<Rightarrow> 'k option" where
  "signing_key p i = omget (pk_keys p) i"

text \<open>\<open>active_signing_key\<close> panics where this is \<open>None\<close>.\<close>

definition active_signing_key :: "'k project_keys \<Rightarrow> 'k option" where
  "active_signing_key p = omget (pk_keys p) (pk_active p)"

record exported_keys =
  ek_project :: string
  ek_active :: string
  ek_keys :: "(string, byte list) omap"
  ek_data :: "byte list option"

definition keys_export :: "('k \<Rightarrow> byte list) \<Rightarrow> 'k project_keys \<Rightarrow> exported_keys" where
  "keys_export to_bytes p =
     \<lparr>ek_project = pk_project p, ek_active = pk_active p, ek_keys = ommap (\<lambda>_. to_bytes) (pk_keys p), ek_data = pk_data p\<rparr>"

definition keys_import :: "(byte list \<Rightarrow> 'k) \<Rightarrow> exported_keys \<Rightarrow> 'k project_keys option" where
  "keys_import from_bytes e =
     (if \<not> omhas (ek_keys e) (ek_active e) then None
      else Some \<lparr>pk_project = ek_project e, pk_active = ek_active e, pk_keys = ommap (\<lambda>_. from_bytes) (ek_keys e), pk_data = ek_data e\<rparr>)"

section \<open>What an instance holds\<close>

record 'p public_keyset =
  ks_project :: string
  ks_keys :: "(string, 'p) omap"

definition public_keyset :: "('k \<Rightarrow> 'p) \<Rightarrow> 'k project_keys \<Rightarrow> 'p public_keyset" where
  "public_keyset pub p = \<lparr>ks_project = pk_project p, ks_keys = ommap (\<lambda>_. pub) (pk_keys p)\<rparr>"

definition verifying_key :: "'p public_keyset \<Rightarrow> string \<Rightarrow> 'p option" where
  "verifying_key ks i = omget (ks_keys ks) i"

record wire_keyset =
  wk_project :: string
  wk_keys :: "(string \<times> byte list) list"

definition keyset_to_wire :: "('p \<Rightarrow> byte list) \<Rightarrow> 'p public_keyset \<Rightarrow> wire_keyset" where
  "keyset_to_wire bytes ks = \<lparr>wk_project = ks_project ks, wk_keys = map (\<lambda>(i, k). (i, bytes k)) (omlist (ks_keys ks))\<rparr>"

datatype keyset_error = MalformedKey string string

text \<open>\<open>key_of\<close> is the library's decoding of 32 bytes, or its error's text.\<close>

fun keys_from_wire ::
  "(byte list \<Rightarrow> string + 'p) \<Rightarrow> (string \<times> byte list) list \<Rightarrow> (string, 'p) omap \<Rightarrow> keyset_error + (string, 'p) omap" where
  "keys_from_wire key_of [] m = Inr m"
| "keys_from_wire key_of ((i, bytes) # rest) m =
     (if length bytes \<noteq> 32 then Inl (MalformedKey i (''expected 32 bytes, got '' @ show_nat (length bytes)))
      else case key_of bytes of
        Inl detail \<Rightarrow> Inl (MalformedKey i detail)
      | Inr k \<Rightarrow> keys_from_wire key_of rest (omput i k m))"

definition keyset_from_wire :: "(byte list \<Rightarrow> string + 'p) \<Rightarrow> wire_keyset \<Rightarrow> keyset_error + 'p public_keyset" where
  "keyset_from_wire key_of w =
     (case keys_from_wire key_of (wk_keys w) omempty of
        Inl e \<Rightarrow> Inl e
      | Inr m \<Rightarrow> Inr \<lparr>ks_project = wk_project w, ks_keys = m\<rparr>)"

section \<open>Every project\<close>

type_synonym 'k signing_keyset = "(string, 'k project_keys) omap"

definition keyset_ensure :: "string \<Rightarrow> 'k \<Rightarrow> 'k signing_keyset \<Rightarrow> 'k project_keys \<times> 'k signing_keyset" where
  "keyset_ensure project fresh s =
     (case omget s project of
        Some p \<Rightarrow> (p, s)
      | None \<Rightarrow> (let p = keys_generate project fresh in (p, omput project p s)))"

definition keyset_insert :: "'k project_keys \<Rightarrow> 'k signing_keyset \<Rightarrow> 'k signing_keyset" where
  "keyset_insert p s = omput (pk_project p) p s"

definition keyset_get :: "'k signing_keyset \<Rightarrow> string \<Rightarrow> 'k project_keys option" where
  "keyset_get s project = omget s project"

definition keyset_forget :: "string \<Rightarrow> 'k signing_keyset \<Rightarrow> 'k project_keys option \<times> 'k signing_keyset" where
  "keyset_forget project s = (omget s project, omdel project s)"

section \<open>Round trips\<close>

lemma ommap_comp: "ommap f (ommap g m) = ommap (\<lambda>k x. f k (g k x)) m"
  by (rule omap_eqI) (simp add: option.map_comp comp_def)

lemma ommap_id: "(\<And>k x. omget m k = Some x \<Longrightarrow> f k x = x) \<Longrightarrow> ommap f m = m"
  by (rule omap_eqI) (simp add: map_option_cong option.map_ident cong: option.map_cong)

lemma export_import:
  assumes "active_signing_key p \<noteq> None" and "\<And>k. from_bytes (to_bytes k) = k"
  shows "keys_import from_bytes (keys_export to_bytes p) = Some p"
  using assms by (simp add: keys_import_def keys_export_def active_signing_key_def omhas_def ommap_comp ommap_id)

lemma keys_from_wire_all:
  assumes "\<forall>(i, b) \<in> set ws. length b = 32 \<and> (\<exists>k. key_of b = Inr k)"
  shows "\<exists>m'. keys_from_wire key_of ws m = Inr m' \<and>
    m' = fold (\<lambda>(i, b) m. omput i (projr (key_of b)) m) ws m"
  using assms by (induction ws arbitrary: m) (auto split: sum.splits)

lemma fold_omput_pairs:
  assumes "distinct (map fst xs)"
  shows "omget (fold (\<lambda>(i, x) m. omput i x m) xs m) k = (case map_of xs k of None \<Rightarrow> omget m k | Some x \<Rightarrow> Some x)"
  using assms
proof (induction xs arbitrary: m)
  case (Cons x xs)
  then have "map_of xs (fst x) = None" by (simp add: map_of_eq_None_iff)
  then show ?case using Cons by (auto simp: split_def split: option.splits)
qed simp

lemma wire_keyset_roundtrip:
  assumes "\<And>k. length (bytes k) = 32 \<and> key_of (bytes k) = Inr k"
  shows "keyset_from_wire key_of (keyset_to_wire bytes ks) = Inr ks"
proof -
  let ?ws = "map (\<lambda>(i, k). (i, bytes k)) (omlist (ks_keys ks))"
  have "keys_from_wire key_of ?ws m = Inr (fold (\<lambda>(i, k) m. omput i k m) (omlist (ks_keys ks)) m)" for m
  proof -
    have "keys_from_wire key_of (map (\<lambda>(i, k). (i, bytes k)) xs) m = Inr (fold (\<lambda>(i, k) m. omput i k m) xs m)" for xs
      using assms by (induction xs arbitrary: m) auto
    then show ?thesis .
  qed
  moreover have "fold (\<lambda>(i, k) m. omput i k m) (omlist (ks_keys ks)) omempty = ks_keys ks"
  proof (rule omap_eqI)
    fix k
    show "omget (fold (\<lambda>(i, k) m. omput i k m) (omlist (ks_keys ks)) omempty) k = omget (ks_keys ks) k"
      using fold_omput_pairs [of "omlist (ks_keys ks)" omempty k] omkeys_distinct [of "ks_keys ks"]
      by (simp add: omkeys_def omget_map_of [of "ks_keys ks"] split: option.splits)
  qed
  ultimately show ?thesis by (simp add: keyset_from_wire_def keyset_to_wire_def)
qed

section \<open>Rotation\<close>

fun rotations :: "'k list \<Rightarrow> 'k project_keys \<Rightarrow> 'k project_keys" where
  "rotations [] p = p"
| "rotations (k # ks) p = rotations ks (snd (keys_rotate k p))"

lemma key_name_inj [simp]: "key_name p m = key_name p n \<longleftrightarrow> m = n"
  by (auto simp: key_name_def dest: show_nat_inj)

text \<open>The keys of a project that only ever rotated are numbered from one.\<close>

definition numbered :: "string \<Rightarrow> 'k list \<Rightarrow> 'k project_keys \<Rightarrow> bool" where
  "numbered project ks p \<longleftrightarrow> ks \<noteq> [] \<and> pk_project p = project \<and>
     set (omkeys (pk_keys p)) = key_name project ` {1..length ks} \<and>
     (\<forall>n < length ks. omget (pk_keys p) (key_name project (n + 1)) = Some (ks ! n)) \<and>
     pk_active p = key_name project (length ks)"

lemma numbered_length: "numbered project ks p \<Longrightarrow> length (omlist (pk_keys p)) = length ks"
proof -
  assume n: "numbered project ks p"
  have "length (omkeys (pk_keys p)) = card (set (omkeys (pk_keys p)))" by (simp add: distinct_card)
  also have "\<dots> = card (key_name project ` {1..length ks})" using n by (simp add: numbered_def)
  also have "\<dots> = length ks" by (subst card_image) (auto simp: inj_on_def)
  finally show ?thesis by (simp add: omkeys_def)
qed

lemma numbered_rotate: "numbered project ks p \<Longrightarrow> numbered project (ks @ [k]) (snd (keys_rotate k p))"
proof -
  assume n: "numbered project ks p"
  let ?new = "key_name project (length ks + 1)"
  have p: "pk_project p = project" using n by (simp add: numbered_def)
  have rot: "snd (keys_rotate k p) = p\<lparr>pk_keys := omput ?new k (pk_keys p), pk_active := ?new\<rparr>"
    using numbered_length [OF n] p by (simp add: keys_rotate_def Let_def)
  have "set (omkeys (omput ?new k (pk_keys p))) = insert ?new (set (omkeys (pk_keys p)))" by (auto simp: omkeys_set)
  also have "\<dots> = key_name project ` {1..length (ks @ [k])}"
    using n by (simp add: numbered_def atLeastAtMostSuc_conv)
  finally have keys: "set (omkeys (omput ?new k (pk_keys p))) = key_name project ` {1..length (ks @ [k])}" .
  have "omget (omput ?new k (pk_keys p)) (key_name project (i + 1)) = Some ((ks @ [k]) ! i)" if "i < length (ks @ [k])" for i
    using n that by (auto simp: numbered_def nth_append less_Suc_eq)
  then show ?thesis unfolding rot using keys p by (simp add: numbered_def)
qed

lemma numbered_rotations: "numbered project ks p \<Longrightarrow> numbered project (ks @ fs) (rotations fs p)"
proof (induction fs arbitrary: ks p)
  case (Cons f fs)
  from Cons.IH [OF numbered_rotate [OF Cons.prems]] show ?case by simp
qed simp

lemma show_one: "show_nat 1 = ''1''"
proof -
  have "digit_char 1 = CHR ''1''" by code_simp
  then show ?thesis by (simp add: show_nat.simps)
qed

lemma numbered_generate: "numbered project [k] (keys_generate project k)"
  by (auto simp: numbered_def keys_generate_def Let_def key_name_def omkeys_set show_one [simplified])

text \<open>Rotation keeps what was signed verifiable, as long as no key is removed: after any
  rotations of a generated set every key that was ever active is still held under its own
  name, and the instance's copy holds its public half; the active key is the last drawn.\<close>

theorem rotation_keeps_every_key:
  assumes "p = rotations fs (keys_generate project k)" and "n \<le> length fs"
  shows "signing_key p (key_name project (n + 1)) = Some ((k # fs) ! n) \<and>
    verifying_key (public_keyset pub p) (key_name project (n + 1)) = Some (pub ((k # fs) ! n)) \<and>
    active_signing_key p = Some (last (k # fs))"
proof -
  have num: "numbered project (k # fs) p"
    using numbered_rotations [OF numbered_generate [of project k], of fs] assms(1) by simp
  then have get: "omget (pk_keys p) (key_name project (i + 1)) = Some ((k # fs) ! i)" if "i < length (k # fs)" for i
    using that unfolding numbered_def by blast
  have "omget (pk_keys p) (pk_active p) = Some (last (k # fs))"
    using get [of "length fs"] num by (simp add: numbered_def last_conv_nth)
  then show ?thesis using get [of n] assms(2)
    by (simp add: signing_key_def verifying_key_def public_keyset_def active_signing_key_def)
qed

lemma rotation_keeps_every_key_witness:
  "signing_key (rotations [20, 30] (keys_generate ''p'' (10::nat))) (key_name ''p'' 2) = Some 20"
  using rotation_keeps_every_key [OF refl, of 1 "[20, 30]" "''p''" "10 :: nat" "\<lambda>k. k"] by (simp add: numeral_2_eq_2 del: rotations.simps)

text \<open>After a removal the next name may be taken: rotating then replaces a key that was not
  removed, the active one here, and what it signed stops verifying.\<close>

lemma rotation_after_removal_replaces_a_key:
  assumes "p = rotations [20, 30] (keys_generate ''p'' (10::nat))"
  shows "pk_active p = key_name ''p'' 3 \<and> signing_key p (key_name ''p'' 3) = Some 30 \<and>
    signing_key (snd (keys_rotate 40 (revoke_key (key_name ''p'' 1) p))) (key_name ''p'' 3) = Some 40"
proof -
  have num: "numbered ''p'' [10, 20, 30] p"
    using numbered_rotations [OF numbered_generate [of "''p''" 10], of "[20, 30]"] assms by simp
  have gone: "set (omkeys (omdel (key_name ''p'' 1) (pk_keys p))) = set (omkeys (pk_keys p)) - {key_name ''p'' 1}"
    by (auto simp: omkeys_set)
  have "length (omkeys (omdel (key_name ''p'' 1) (pk_keys p))) = card (set (omkeys (pk_keys p)) - {key_name ''p'' 1})"
    unfolding gone [symmetric] by (simp add: distinct_card)
  also have "\<dots> = 2"
  proof -
    have "key_name ''p'' 1 \<in> set (omkeys (pk_keys p))" using num by (auto simp: numbered_def)
    moreover have "card (set (omkeys (pk_keys p))) = 3"
      using numbered_length [OF num] distinct_card [OF omkeys_distinct, of "pk_keys p"] by (simp add: omkeys_def)
    ultimately show ?thesis by simp
  qed
  finally have "length (omlist (omdel (key_name ''p'' 1) (pk_keys p))) = 2" by (simp add: omkeys_def)
  moreover have "pk_project p = ''p''" "pk_active p = key_name ''p'' 3" using num by (simp_all add: numbered_def)
  moreover have "omget (pk_keys p) (key_name ''p'' 3) = Some 30"
  proof -
    have "\<forall>n < 3. omget (pk_keys p) (key_name ''p'' (n + 1)) = Some ([10, 20, 30] ! n)"
      using num by (simp add: numbered_def numeral_3_eq_3)
    from this [rule_format, of 2] show ?thesis by simp
  qed
  ultimately show ?thesis
    by (simp add: keys_rotate_def revoke_key_def signing_key_def Let_def numeral_2_eq_2 numeral_3_eq_3)
qed

text \<open>Removing the active key leaves the project without one, where signing panics.\<close>

lemma removing_the_active_key: "active_signing_key (revoke_key (pk_active p) p) = None"
  by (simp add: active_signing_key_def revoke_key_def)

end
