(* ===== verification/Identity_Access.thy ===== *)
theory Identity_Access
  imports Identity_Keys
begin

text \<open>
  Session and identity tokens (\<open>theta-identity/src/token.rs\<close>, \<open>identity.rs\<close>), the
  revocation list and its synchronisation (\<open>revocation.rs\<close>) and the decision an instance
  makes on a request (\<open>thetad/src/session.rs\<close>).

  The libraries' work is the record \<open>wire\<close>: unpadded base64, the JSON of a scope, and
  Ed25519 over bytes.  A public key is of type \<open>'p\<close>, a parsed signature of type \<open>'g\<close>.
\<close>

section \<open>Scopes\<close>

record token_scope =
  ts_token :: string
  ts_project :: string
  ts_environment :: string
  ts_session :: string
  ts_user :: string
  ts_org :: string
  ts_issued :: int
  ts_expires :: int
  ts_key :: string
  ts_signing :: "string option"

definition is_expired :: "token_scope \<Rightarrow> int \<Rightarrow> bool" where
  "is_expired s now \<longleftrightarrow> ts_expires s \<le> now"

text \<open>The subtraction wraps; a negative rest is zero, so the division is the truncating one.\<close>

definition remaining_secs :: "token_scope \<Rightarrow> int \<Rightarrow> int" where
  "remaining_secs s now = max 0 (wrap_i64 (ts_expires s - now)) div 1000"

datatype token_error =
    TokenMalformed
  | UnsupportedFormat string
  | TokenBadPayload string
  | TokenBadSignature
  | TokenWrongProject string string
  | TokenExpired int
  | TokenRevoked

record ('p, 'g) wire =
  w_decode64 :: "string \<Rightarrow> byte list option"
  w_scope :: "byte list \<Rightarrow> string + token_scope"
  w_signature :: "byte list \<Rightarrow> 'g option"
  w_verify :: "'p \<Rightarrow> byte list \<Rightarrow> 'g \<Rightarrow> bool"

section \<open>Tokens\<close>

text \<open>\<open>str::split\<close> on a character: one part more than there are separators.\<close>

fun split_on :: "char \<Rightarrow> string \<Rightarrow> string list" where
  "split_on sep [] = [[]]"
| "split_on sep (c # cs) =
     (case split_on sep cs of
        [] \<Rightarrow> [[]]
      | p # ps \<Rightarrow> if c = sep then [] # p # ps else (c # p) # ps)"

definition split_token :: "(string \<Rightarrow> byte list option) \<Rightarrow> string \<Rightarrow> string \<Rightarrow> token_error + byte list \<times> byte list" where
  "split_token decode64 fmt encoded =
     (case split_on CHR ''.'' encoded of
        [version, payload, signature] \<Rightarrow>
          if version \<noteq> fmt then Inl (UnsupportedFormat version)
          else (case (decode64 payload, decode64 signature) of
                  (Some p, Some s) \<Rightarrow> Inr (p, s)
                | _ \<Rightarrow> Inl TokenMalformed)
      | _ \<Rightarrow> Inl TokenMalformed)"

definition session_format :: string where
  "session_format = ''v1''"

definition mint_token :: "(byte list \<Rightarrow> string) \<Rightarrow> byte list \<Rightarrow> byte list \<Rightarrow> string" where
  "mint_token encode64 payload signature = session_format @ ''.'' @ encode64 payload @ ''.'' @ encode64 signature"

definition scope_unverified :: "('p, 'g) wire \<Rightarrow> string \<Rightarrow> token_error + token_scope" where
  "scope_unverified W encoded =
     (case split_token (w_decode64 W) session_format encoded of
        Inl e \<Rightarrow> Inl e
      | Inr (payload, _) \<Rightarrow> (case w_scope W payload of Inl d \<Rightarrow> Inl (TokenBadPayload d) | Inr s \<Rightarrow> Inr s))"

definition check_signature :: "('p, 'g) wire \<Rightarrow> 'p public_keyset \<Rightarrow> string \<Rightarrow> byte list \<Rightarrow> byte list \<Rightarrow> bool" where
  "check_signature W ks key payload signature \<longleftrightarrow>
     (case (verifying_key ks key, w_signature W signature) of
        (Some k, Some g) \<Rightarrow> w_verify W k payload g
      | _ \<Rightarrow> False)"

definition token_verify :: "('p, 'g) wire \<Rightarrow> 'p public_keyset \<Rightarrow> string \<Rightarrow> int \<Rightarrow> token_error + token_scope" where
  "token_verify W ks encoded now =
     (case split_token (w_decode64 W) session_format encoded of
        Inl e \<Rightarrow> Inl e
      | Inr (payload, signature) \<Rightarrow>
          (case w_scope W payload of
             Inl d \<Rightarrow> Inl (TokenBadPayload d)
           | Inr s \<Rightarrow>
               if ts_project s \<noteq> ks_project ks then Inl (TokenWrongProject (ts_project s) (ks_project ks))
               else if \<not> check_signature W ks (ts_key s) payload signature then Inl TokenBadSignature
               else if is_expired s now then Inl (TokenExpired (ts_expires s)) else Inr s))"

subsection \<open>Identity tokens\<close>

datatype provider_kind = Google | Github

datatype org_source = GoogleWorkspace | GithubOrg | Personal

record verified_org =
  vo_id :: string
  vo_name :: string
  vo_source :: org_source

record identity_scope =
  id_token :: string
  id_user :: string
  id_email :: "string option"
  id_display :: "string option"
  id_provider :: provider_kind
  id_orgs :: "verified_org list"
  id_issued :: int
  id_expires :: int
  id_key :: string

definition identity_expired :: "identity_scope \<Rightarrow> int \<Rightarrow> bool" where
  "identity_expired s now \<longleftrightarrow> id_expires s \<le> now"

definition is_member_of :: "identity_scope \<Rightarrow> string \<Rightarrow> bool" where
  "is_member_of s org = list_ex (\<lambda>o'. vo_id o' = org) (id_orgs s)"

definition identity_format :: string where
  "identity_format = ''vi1''"

definition identity_verify ::
  "('p, 'g) wire \<Rightarrow> (byte list \<Rightarrow> string + identity_scope) \<Rightarrow> 'p public_keyset \<Rightarrow> string \<Rightarrow> int \<Rightarrow> token_error + identity_scope" where
  "identity_verify W scope_of ks encoded now =
     (case split_token (w_decode64 W) identity_format encoded of
        Inl e \<Rightarrow> Inl e
      | Inr (payload, signature) \<Rightarrow>
          (case scope_of payload of
             Inl d \<Rightarrow> Inl (TokenBadPayload d)
           | Inr s \<Rightarrow>
               if \<not> check_signature W ks (id_key s) payload signature then Inl TokenBadSignature
               else if identity_expired s now then Inl (TokenExpired (id_expires s)) else Inr s))"

section \<open>Revocation\<close>

record revocation_list =
  rl_version :: nat
  rl_tokens :: "(string, unit) omap"
  rl_sessions :: "(string, unit) omap"
  rl_users :: "(string, unit) omap"
  rl_orgs :: "(string, unit) omap"

definition revocations_new :: revocation_list where
  "revocations_new = \<lparr>rl_version = 0, rl_tokens = omempty, rl_sessions = omempty, rl_users = omempty, rl_orgs = omempty\<rparr>"

datatype revocation = RevokeToken string | RevokeSession string | RevokeUser string | RevokeOrg string

fun revoke :: "revocation \<Rightarrow> revocation_list \<Rightarrow> revocation_list" where
  "revoke (RevokeToken i) l = l\<lparr>rl_tokens := omput i () (rl_tokens l), rl_version := wrap64 (rl_version l + 1)\<rparr>"
| "revoke (RevokeSession i) l = l\<lparr>rl_sessions := omput i () (rl_sessions l), rl_version := wrap64 (rl_version l + 1)\<rparr>"
| "revoke (RevokeUser i) l = l\<lparr>rl_users := omput i () (rl_users l), rl_version := wrap64 (rl_version l + 1)\<rparr>"
| "revoke (RevokeOrg i) l = l\<lparr>rl_orgs := omput i () (rl_orgs l), rl_version := wrap64 (rl_version l + 1)\<rparr>"

definition covers :: "revocation_list \<Rightarrow> token_scope \<Rightarrow> bool" where
  "covers l s \<longleftrightarrow> omhas (rl_tokens l) (ts_token s) \<or> omhas (rl_sessions l) (ts_session s) \<or>
     omhas (rl_users l) (ts_user s) \<or> omhas (rl_orgs l) (ts_org s)"

definition revocations_empty :: "revocation_list \<Rightarrow> bool" where
  "revocations_empty l \<longleftrightarrow> omlist (rl_tokens l) = [] \<and> omlist (rl_sessions l) = [] \<and> omlist (rl_users l) = [] \<and> omlist (rl_orgs l) = []"

definition revocations_len :: "revocation_list \<Rightarrow> nat" where
  "revocations_len l = length (omlist (rl_tokens l)) + length (omlist (rl_sessions l)) +
     length (omlist (rl_users l)) + length (omlist (rl_orgs l))"

definition compact :: "(string \<Rightarrow> bool) \<Rightarrow> revocation_list \<Rightarrow> revocation_list" where
  "compact still_relevant l = l\<lparr>rl_tokens := omfilter (\<lambda>i _. still_relevant i) (rl_tokens l)\<rparr>"

datatype revocation_error = RevocationBadSignature | RevocationBadPayload string

record signed_payload =
  sg_payload :: "byte list"
  sg_signature :: "byte list"
  sg_key :: string

definition revocations_verify ::
  "('p, 'g) wire \<Rightarrow> (byte list \<Rightarrow> string + revocation_list) \<Rightarrow> 'p public_keyset \<Rightarrow> signed_payload \<Rightarrow> revocation_error + revocation_list" where
  "revocations_verify W list_of ks s =
     (if \<not> check_signature W ks (sg_key s) (sg_payload s) (sg_signature s) then Inl RevocationBadSignature
      else case list_of (sg_payload s) of Inl d \<Rightarrow> Inl (RevocationBadPayload d) | Inr l \<Rightarrow> Inr l)"

record revocation_sync =
  rs_list :: revocation_list
  rs_synced :: "int option"
  rs_limit :: int

definition awaiting_first_sync :: "int \<Rightarrow> revocation_sync" where
  "awaiting_first_sync limit = \<lparr>rs_list = revocations_new, rs_synced = None, rs_limit = limit\<rparr>"

definition sync_new :: "int \<Rightarrow> int \<Rightarrow> revocation_sync" where
  "sync_new limit now = \<lparr>rs_list = revocations_new, rs_synced = Some now, rs_limit = limit\<rparr>"

definition has_synced :: "revocation_sync \<Rightarrow> bool" where
  "has_synced s \<longleftrightarrow> rs_synced s \<noteq> None"

definition sync_apply :: "revocation_list \<Rightarrow> int \<Rightarrow> revocation_sync \<Rightarrow> bool \<times> revocation_sync" where
  "sync_apply update now s =
     (if rl_version update < rl_version (rs_list s) then (False, s\<lparr>rs_synced := Some now\<rparr>)
      else (True, s\<lparr>rs_list := update, rs_synced := Some now\<rparr>))"

definition sync_heartbeat :: "int \<Rightarrow> revocation_sync \<Rightarrow> revocation_sync" where
  "sync_heartbeat now s = s\<lparr>rs_synced := Some now\<rparr>"

definition age_ms :: "revocation_sync \<Rightarrow> int \<Rightarrow> int" where
  "age_ms s now = (case rs_synced s of Some at \<Rightarrow> max 0 (wrap_i64 (now - at)) | None \<Rightarrow> i64_max)"

definition is_stale :: "revocation_sync \<Rightarrow> int \<Rightarrow> bool" where
  "is_stale s now \<longleftrightarrow> rs_limit s < age_ms s now"

datatype revocation_decision = RevAllowed | RevRevoked | RevStale int int

definition revocation_check :: "revocation_sync \<Rightarrow> token_scope \<Rightarrow> int \<Rightarrow> revocation_decision" where
  "revocation_check s scope now =
     (if covers (rs_list s) scope then RevRevoked
      else if is_stale s now then RevStale (age_ms s now) (rs_limit s)
      else RevAllowed)"

section \<open>The authorizer\<close>

datatype environment = Dev | Preview | Prod

fun environment_name :: "environment \<Rightarrow> string" where
  "environment_name Dev = ''dev''"
| "environment_name Preview = ''preview''"
| "environment_name Prod = ''prod''"

datatype auth_error =
    AuthToken token_error
  | WrongEnvironment string environment
  | AuthRevoked
  | RevocationStale int int

record 'p authorizer =
  au_keys :: "'p public_keyset"
  au_environment :: environment
  au_revocations :: revocation_sync

definition authorizer_new :: "'p public_keyset \<Rightarrow> environment \<Rightarrow> int \<Rightarrow> int \<Rightarrow> 'p authorizer" where
  "authorizer_new ks env limit now = \<lparr>au_keys = ks, au_environment = env, au_revocations = sync_new limit now\<rparr>"

definition authorizer_awaiting :: "'p public_keyset \<Rightarrow> environment \<Rightarrow> int \<Rightarrow> 'p authorizer" where
  "authorizer_awaiting ks env limit = \<lparr>au_keys = ks, au_environment = env, au_revocations = awaiting_first_sync limit\<rparr>"

definition authorize :: "('p, 'g) wire \<Rightarrow> 'p authorizer \<Rightarrow> string \<Rightarrow> int \<Rightarrow> auth_error + token_scope" where
  "authorize W a encoded now =
     (case token_verify W (au_keys a) encoded now of
        Inl e \<Rightarrow> Inl (AuthToken e)
      | Inr s \<Rightarrow>
          if ts_environment s \<noteq> environment_name (au_environment a)
          then Inl (WrongEnvironment (ts_environment s) (au_environment a))
          else (case revocation_check (au_revocations a) s now of
                  RevAllowed \<Rightarrow> Inr s
                | RevRevoked \<Rightarrow> Inl AuthRevoked
                | RevStale age limit \<Rightarrow> Inl (RevocationStale age limit)))"

section \<open>Splitting\<close>

lemma split_on_ne: "split_on sep cs \<noteq> []"
  by (cases cs) (simp_all split: list.split)

lemma split_on_join:
  "split_on sep (p @ sep # cs) = (if sep \<in> set p then split_on sep (p @ sep # cs) else p # split_on sep cs)"
proof (cases "sep \<in> set p")
  case False
  then have "split_on sep (p @ sep # cs) = p # split_on sep cs"
    using split_on_ne [of sep cs] by (induction p) (auto split: list.splits)
  then show ?thesis by simp
qed simp

lemma split_on_plain: "sep \<notin> set p \<Longrightarrow> split_on sep p = [p]"
  by (induction p) auto

lemma split_on_parts: "split_on sep cs = ps \<Longrightarrow> \<forall>p \<in> set ps. sep \<notin> set p"
  by (induction cs arbitrary: ps) (auto split: list.splits if_splits)

lemma split_on_three:
  "split_on sep cs = [a, b, c] \<longleftrightarrow> cs = a @ sep # b @ sep # c \<and> sep \<notin> set a \<and> sep \<notin> set b \<and> sep \<notin> set c"
proof
  have join: "split_on sep cs = p # q # ps \<Longrightarrow> \<exists>rest. cs = p @ sep # rest \<and> split_on sep rest = q # ps" for cs p q ps
  proof (induction cs arbitrary: p)
    case (Cons x xs)
    then show ?case by (cases "split_on sep xs") (auto split: if_splits)
  qed simp
  have single: "split_on sep cs = [p] \<Longrightarrow> cs = p" for cs p
    by (induction cs arbitrary: p) (auto simp: split_on_ne split: list.splits if_splits)
  assume "split_on sep cs = [a, b, c]"
  then show "cs = a @ sep # b @ sep # c \<and> sep \<notin> set a \<and> sep \<notin> set b \<and> sep \<notin> set c"
    using join [of cs a b "[c]"] join [of _ b c "[]"] single split_on_parts [of sep cs "[a, b, c]"] by fastforce
next
  assume "cs = a @ sep # b @ sep # c \<and> sep \<notin> set a \<and> sep \<notin> set b \<and> sep \<notin> set c"
  then show "split_on sep cs = [a, b, c]" by (simp add: split_on_join split_on_plain)
qed

section \<open>What is authorized\<close>

lemma split_token_iff:
  "split_token decode64 fmt encoded = Inr (payload, signature) \<longleftrightarrow>
     (\<exists>p g. encoded = fmt @ ''.'' @ p @ ''.'' @ g \<and> CHR ''.'' \<notin> set fmt \<union> set p \<union> set g \<and>
        decode64 p = Some payload \<and> decode64 g = Some signature)"
proof -
  have "split_token decode64 fmt encoded = Inr (payload, signature) \<longleftrightarrow>
      (\<exists>p g. split_on CHR ''.'' encoded = [fmt, p, g] \<and> decode64 p = Some payload \<and> decode64 g = Some signature)"
    by (auto simp: split_token_def split: list.splits option.splits)
  then show ?thesis unfolding split_on_three by auto
qed

definition signed_by ::
  "('p, 'g) wire \<Rightarrow> 'p public_keyset \<Rightarrow> string \<Rightarrow> byte list \<Rightarrow> byte list \<Rightarrow> bool" where
  "signed_by W ks key payload signature \<longleftrightarrow>
     (\<exists>k g. verifying_key ks key = Some k \<and> w_signature W signature = Some g \<and> w_verify W k payload g)"

lemma check_signature_iff: "check_signature W ks key payload signature = signed_by W ks key payload signature"
  by (auto simp: check_signature_def signed_by_def split: option.splits)

lemma token_verify_iff:
  "token_verify W ks encoded now = Inr s \<longleftrightarrow>
     (\<exists>p g payload signature. encoded = session_format @ ''.'' @ p @ ''.'' @ g \<and> CHR ''.'' \<notin> set p \<union> set g \<and>
        w_decode64 W p = Some payload \<and> w_decode64 W g = Some signature \<and> w_scope W payload = Inr s \<and>
        signed_by W ks (ts_key s) payload signature) \<and>
     ts_project s = ks_project ks \<and> now < ts_expires s"
proof -
  have "token_verify W ks encoded now = Inr s \<longleftrightarrow>
      (\<exists>payload signature. split_token (w_decode64 W) session_format encoded = Inr (payload, signature) \<and>
         w_scope W payload = Inr s \<and> signed_by W ks (ts_key s) payload signature) \<and> ts_project s = ks_project ks \<and> now < ts_expires s"
    by (auto simp: token_verify_def check_signature_iff is_expired_def not_le split: sum.splits if_splits)
  then show ?thesis unfolding split_token_iff by (auto simp: session_format_def)
qed

text \<open>C36: An instance authorizes exactly the unrevoked scopes its project signed: the token
  has the three parts of the format, one of the instance's keys verifies the payload bytes
  as they arrived, the scope parsed from those bytes is for this project and environment
  and has not expired, no revocation covers it, and the revocation list is fresh.\<close>

theorem authorize_exactly:
  "authorize W a encoded now = Inr s \<longleftrightarrow>
     (\<exists>p g payload signature. encoded = ''v1.'' @ p @ ''.'' @ g \<and> CHR ''.'' \<notin> set p \<union> set g \<and>
        w_decode64 W p = Some payload \<and> w_decode64 W g = Some signature \<and> w_scope W payload = Inr s \<and>
        signed_by W (au_keys a) (ts_key s) payload signature) \<and>
     ts_project s = ks_project (au_keys a) \<and> ts_environment s = environment_name (au_environment a) \<and>
     now < ts_expires s \<and> \<not> covers (rs_list (au_revocations a)) s \<and> \<not> is_stale (au_revocations a) now"
proof -
  have "authorize W a encoded now = Inr s \<longleftrightarrow> token_verify W (au_keys a) encoded now = Inr s \<and>
      ts_environment s = environment_name (au_environment a) \<and>
      \<not> covers (rs_list (au_revocations a)) s \<and> \<not> is_stale (au_revocations a) now"
    by (auto simp: authorize_def revocation_check_def split: sum.splits if_splits)
  then show ?thesis unfolding token_verify_iff by (auto simp: session_format_def)
qed

text \<open>An instance that never heard from the control plane authorizes nothing.\<close>

lemma awaiting_authorizes_nothing:
  assumes "limit < i64_max"
  shows "authorize W (authorizer_awaiting ks env limit) encoded now \<noteq> Inr s"
proof -
  have "is_stale (awaiting_first_sync limit) now"
    using assms by (simp add: is_stale_def age_ms_def awaiting_first_sync_def)
  then show ?thesis
    by (auto simp: authorize_def authorizer_awaiting_def revocation_check_def split: sum.splits if_splits)
qed

section \<open>Revocations arrive in any order\<close>

text \<open>The list after the first \<open>n\<close> of the control plane's revocations.\<close>

definition list_after :: "revocation list \<Rightarrow> nat \<Rightarrow> revocation_list" where
  "list_after rs n = fold revoke (take n rs) revocations_new"

lemma revoke_version: "rl_version (revoke r l) = wrap64 (rl_version l + 1)"
  by (cases r) simp_all

lemma covers_revoke: "covers l s \<Longrightarrow> covers (revoke r l) s"
  by (cases r) (auto simp: covers_def)

lemma fold_revoke_version: "rl_version l + length rs \<le> u64_max \<Longrightarrow> rl_version (fold revoke rs l) = rl_version l + length rs"
  by (induction rs arbitrary: l) (auto simp: revoke_version wrap64_id)

lemma fold_revoke_covers: "covers l s \<Longrightarrow> covers (fold revoke rs l) s"
  by (induction rs arbitrary: l) (auto simp: covers_revoke)

lemma list_after_version: "n \<le> length rs \<Longrightarrow> length rs \<le> u64_max \<Longrightarrow> rl_version (list_after rs n) = n"
  unfolding list_after_def by (subst fold_revoke_version) (auto simp: revocations_new_def)

lemma list_after_covers: "m \<le> n \<Longrightarrow> covers (list_after rs m) s \<Longrightarrow> covers (list_after rs n) s"
proof -
  assume mn: "m \<le> n" and c: "covers (list_after rs m) s"
  have "take n rs = take m rs @ take (n - m) (drop m rs)" using mn by (metis le_add_diff_inverse take_add)
  then have "list_after rs n = fold revoke (take (n - m) (drop m rs)) (list_after rs m)" by (simp add: list_after_def)
  then show ?thesis using fold_revoke_covers [OF c] by simp
qed

fun deliver :: "revocation list \<Rightarrow> (nat \<times> int) list \<Rightarrow> revocation_sync \<Rightarrow> revocation_sync" where
  "deliver rs [] s = s"
| "deliver rs ((n, at) # ds) s = deliver rs ds (snd (sync_apply (list_after rs n) at s))"

lemma deliver_newest:
  assumes "rs_list s = list_after rs m" and "m \<le> length rs" and "length rs \<le> u64_max" and "\<forall>(n, at) \<in> set ds. n \<le> length rs"
  shows "\<exists>k. rs_list (deliver rs ds s) = list_after rs k \<and> m \<le> k \<and> k \<le> length rs \<and> (\<forall>(n, at) \<in> set ds. n \<le> k)"
  using assms
proof (induction ds arbitrary: s m)
  case (Cons d ds)
  obtain n at where d: "d = (n, at)" by force
  let ?s = "snd (sync_apply (list_after rs n) at s)" and ?m = "max m n"
  have n: "n \<le> length rs" using Cons.prems(4) d by simp
  have "rl_version (list_after rs n) < rl_version (rs_list s) \<longleftrightarrow> n < m"
    using Cons.prems(1-3) n by (simp add: list_after_version)
  then have "rs_list ?s = list_after rs ?m" using Cons.prems(1) by (auto simp: sync_apply_def max_def)
  moreover have "?m \<le> length rs" using Cons.prems(2) n by simp
  ultimately obtain k where "rs_list (deliver rs ds ?s) = list_after rs k \<and> ?m \<le> k \<and> k \<le> length rs \<and> (\<forall>(n, at) \<in> set ds. n \<le> k)"
    using Cons.IH [of ?s ?m] Cons.prems(3,4) by auto
  then show ?case by (intro exI [of _ k]) (simp add: d)
qed auto

text \<open>C37: What was revoked stays revoked: whatever lists of the control plane's history an
  instance is sent, in any order and any number of times, once one that covers a scope has
  arrived no token with that scope is authorized again.\<close>

theorem revoked_stays_revoked:
  assumes "length rs \<le> u64_max" and "\<forall>(n, at) \<in> set ds. n \<le> length rs"
    and "(n, at) \<in> set ds" and "covers (list_after rs n) scope"
    and "au_revocations a = deliver rs ds (awaiting_first_sync limit)"
  shows "authorize W a encoded now \<noteq> Inr scope"
proof -
  have "rs_list (awaiting_first_sync limit) = list_after rs 0" by (simp add: awaiting_first_sync_def list_after_def)
  then obtain k where k: "rs_list (deliver rs ds (awaiting_first_sync limit)) = list_after rs k" "\<forall>(n, at) \<in> set ds. n \<le> k"
    using deliver_newest [OF _ _ assms(1,2)] by blast
  have "n \<le> k" using k(2) assms(3) by auto
  then have "covers (rs_list (au_revocations a)) scope" using list_after_covers assms(4,5) k(1) by simp
  then show ?thesis
    by (auto simp: authorize_def revocation_check_def split: sum.splits if_splits)
qed

definition sample_scope :: token_scope where
  "sample_scope = \<lparr>ts_token = ''t'', ts_project = ''p'', ts_environment = ''dev'', ts_session = ''s'', ts_user = ''u'',
     ts_org = ''o'', ts_issued = 0, ts_expires = 9, ts_key = ''k'', ts_signing = None\<rparr>"

definition sample_wire :: "(nat, nat) wire" where
  "sample_wire = \<lparr>w_decode64 = \<lambda>_. Some [], w_scope = \<lambda>_. Inr sample_scope, w_signature = \<lambda>_. Some 1, w_verify = \<lambda>_ _ _. True\<rparr>"

definition sample_keys :: "nat public_keyset" where
  "sample_keys = \<lparr>ks_project = ''p'', ks_keys = omput ''k'' 1 omempty\<rparr>"

text \<open>The token is authorized until the revocation of its user arrives; the older list that
  comes after it changes nothing.\<close>

lemma revoked_stays_revoked_witness:
  "authorize sample_wire \<lparr>au_keys = sample_keys, au_environment = Dev,
      au_revocations = deliver [RevokeUser ''u''] [(1, 1), (0, 2)] (awaiting_first_sync 5)\<rparr> ''v1.x.y'' 3 \<noteq> Inr sample_scope \<and>
   authorize sample_wire \<lparr>au_keys = sample_keys, au_environment = Dev,
      au_revocations = deliver [RevokeUser ''u''] [(0, 2)] (awaiting_first_sync 5)\<rparr> ''v1.x.y'' 3 = Inr sample_scope"
proof
  show "authorize sample_wire \<lparr>au_keys = sample_keys, au_environment = Dev,
      au_revocations = deliver [RevokeUser ''u''] [(1, 1), (0, 2)] (awaiting_first_sync 5)\<rparr> ''v1.x.y'' 3 \<noteq> Inr sample_scope"
    by (rule revoked_stays_revoked [of "[RevokeUser ''u'']" "[(1, 1), (0, 2)]" 1 1 sample_scope _ 5])
      (simp_all add: list_after_def covers_def sample_scope_def)
  show "authorize sample_wire \<lparr>au_keys = sample_keys, au_environment = Dev,
      au_revocations = deliver [RevokeUser ''u''] [(0, 2)] (awaiting_first_sync 5)\<rparr> ''v1.x.y'' 3 = Inr sample_scope"
    by (simp add: authorize_def token_verify_def split_token_def session_format_def sample_wire_def sample_scope_def sample_keys_def
        check_signature_def verifying_key_def is_expired_def revocation_check_def sync_apply_def list_after_def awaiting_first_sync_def
        covers_def revocations_new_def is_stale_def age_ms_def wrap_i64_def)
qed

section \<open>What the synchronisation lets through\<close>

text \<open>An old list, signed once and sent again, is ignored and still counts as a heartbeat: with
  it the list stays fresh although the control plane is out of reach.\<close>

lemma replay_keeps_the_list_fresh:
  assumes "rl_version old < rl_version (rs_list s)" and "0 \<le> rs_limit s"
  shows "\<not> is_stale (snd (sync_apply old now s)) now \<and> rs_list (snd (sync_apply old now s)) = rs_list s"
  using assms by (simp add: sync_apply_def is_stale_def age_ms_def wrap_i64_def)

end
