(* ===== verification/Safety_Signed.thy ===== *)
theory Safety_Signed
  imports Safety_Classify Identity_Access
begin

text \<open>
  Policies signed by a project and pushed to an instance
  (\<open>theta-safety/src/signed.rs\<close>).  The JSON of a policy is the argument \<open>policy_of\<close>,
  the signature library the record \<open>wire\<close>.
\<close>

section \<open>Model\<close>

record versioned_policy =
  vp_version :: nat
  vp_project :: string
  vp_policy :: safety_policy
  vp_issued :: int

datatype policy_error =
    PolicyBadSignature
  | PolicyBadPayload string
  | PolicyWrongProject string string

definition policy_verify ::
  "('p, 'g) wire \<Rightarrow> (byte list \<Rightarrow> string + versioned_policy) \<Rightarrow> 'p public_keyset \<Rightarrow> signed_payload \<Rightarrow> policy_error + versioned_policy" where
  "policy_verify W policy_of ks s =
     (if \<not> check_signature W ks (sg_key s) (sg_payload s) (sg_signature s) then Inl PolicyBadSignature
      else case policy_of (sg_payload s) of Inl d \<Rightarrow> Inl (PolicyBadPayload d) | Inr p \<Rightarrow> Inr p)"

record policy_sync =
  ps_policy :: safety_policy
  ps_version :: nat

definition policy_sync_new :: "safety_policy \<Rightarrow> policy_sync" where
  "policy_sync_new p = \<lparr>ps_policy = p, ps_version = 0\<rparr>"

definition policy_apply :: "string \<Rightarrow> versioned_policy \<Rightarrow> policy_sync \<Rightarrow> (policy_error + bool) \<times> policy_sync" where
  "policy_apply project incoming s =
     (if vp_project incoming \<noteq> project then (Inl (PolicyWrongProject (vp_project incoming) project), s)
      else if vp_version incoming \<le> ps_version s then (Inr False, s)
      else (Inr True, \<lparr>ps_policy = vp_policy incoming, ps_version = vp_version incoming\<rparr>))"

section \<open>Pushes in any order\<close>

definition policy_pushes :: "string \<Rightarrow> versioned_policy list \<Rightarrow> policy_sync \<Rightarrow> policy_sync" where
  "policy_pushes project ps s = fold (\<lambda>p s. snd (policy_apply project p s)) ps s"

lemma policy_pushes_simps [simp]:
  "policy_pushes project [] s = s"
  "policy_pushes project (p # ps) s = policy_pushes project ps (snd (policy_apply project p s))"
  by (simp_all add: policy_pushes_def)

text \<open>The policies of a push history that count: those of this project, above the version held.\<close>

definition newer :: "string \<Rightarrow> nat \<Rightarrow> versioned_policy list \<Rightarrow> versioned_policy list" where
  "newer project v ps = filter (\<lambda>p. vp_project p = project \<and> v < vp_version p) ps"

text \<open>C38: A push never rolls a policy back: after any pushes, repeated or out of order, the
  instance holds what it had if nothing newer was meant for its project, and otherwise the
  first policy received of the highest version among those; what other projects' policies
  say has no effect.\<close>

theorem policy_never_rolls_back:
  "(newer project (ps_version s) ps = [] \<longrightarrow> policy_pushes project ps s = s) \<and>
   (newer project (ps_version s) ps \<noteq> [] \<longrightarrow>
     (\<exists>p. find_first (\<lambda>q. vp_version q = Max (vp_version ` set (newer project (ps_version s) ps)))
            (newer project (ps_version s) ps) = Some p \<and>
       policy_pushes project ps s = \<lparr>ps_policy = vp_policy p, ps_version = vp_version p\<rparr>))"
proof (induction ps arbitrary: s)
  case (Cons q ps)
  let ?new = "newer project (ps_version s) (q # ps)"
  show ?case
  proof (cases "vp_project q = project \<and> ps_version s < vp_version q")
    case False
    then have "snd (policy_apply project q s) = s" "?new = newer project (ps_version s) ps"
      by (auto simp: policy_apply_def newer_def)
    then show ?thesis using Cons.IH [of s] by simp
  next
    case True
    let ?s = "\<lparr>ps_policy = vp_policy q, ps_version = vp_version q\<rparr>"
    have step: "snd (policy_apply project q s) = ?s" using True by (simp add: policy_apply_def)
    let ?later = "newer project (vp_version q) ps" and ?rest = "newer project (ps_version s) ps"
    have new: "?new = q # ?rest" using True by (simp add: newer_def)
    have later: "p \<in> set ?later \<longleftrightarrow> p \<in> set ?rest \<and> vp_version q < vp_version p" for p using True by (auto simp: newer_def)
    show ?thesis
    proof (cases "?later = []")
      case True
      then have "\<forall>p \<in> set ?rest. vp_version p \<le> vp_version q" using later by (metis empty_iff empty_set not_less)
      then have "Max (vp_version ` set ?new) = vp_version q" unfolding new by (intro Max_eqI) auto
      then show ?thesis using Cons.IH [of ?s] True step by (simp add: new)
    next
      case False
      have fin: "finite (vp_version ` set ?rest)" "finite (vp_version ` set ?later)" by simp_all
      have max: "Max (vp_version ` set ?later) \<in> vp_version ` set ?later" using False by (intro Max_in) auto
      then obtain top where t: "top \<in> set ?later" "Max (vp_version ` set ?later) = vp_version top" by auto
      then have above: "vp_version q < Max (vp_version ` set ?later)" and in_rest: "top \<in> set ?rest" using later by simp_all
      have top: "Max (vp_version ` set ?new) = Max (vp_version ` set ?later)"
      proof (rule Max_eqI)
        fix v assume "v \<in> vp_version ` set ?new"
        then consider "v = vp_version q" | p where "p \<in> set ?rest" "v = vp_version p" unfolding new by auto
        then show "v \<le> Max (vp_version ` set ?later)"
        proof cases
          case 2
          show ?thesis
          proof (cases "vp_version q < v")
            case True
            then have "p \<in> set ?later" using 2 later by simp
            then show ?thesis using fin(2) 2(2) by (intro Max_ge) auto
          qed (use above in simp)
        qed (use above in simp)
      qed (use t(2) in_rest in \<open>simp_all add: new\<close>)
      have pick: "find_first (\<lambda>p. vp_version p = m) ?rest = find_first (\<lambda>p. vp_version p = m) ?later" if "vp_version q < m" for m
        using that True by (induction ps) (auto simp: newer_def)
      have "find_first (\<lambda>p. vp_version p = Max (vp_version ` set ?new)) ?new =
          find_first (\<lambda>p. vp_version p = Max (vp_version ` set ?later)) ?later"
        unfolding top using pick [OF above] above by (simp add: new)
      moreover obtain p where "find_first (\<lambda>p. vp_version p = Max (vp_version ` set ?later)) ?later = Some p"
        "policy_pushes project ps ?s = \<lparr>ps_policy = vp_policy p, ps_version = vp_version p\<rparr>"
        using Cons.IH [of ?s] False by auto
      moreover have "?new \<noteq> []" by (simp add: new)
      ultimately show ?thesis unfolding policy_pushes_simps step by simp
    qed
  qed
qed (simp add: newer_def)

definition pushed :: "nat \<Rightarrow> nat \<Rightarrow> versioned_policy" where
  "pushed v rows = \<lparr>vp_version = v, vp_project = ''p'', vp_policy = development_policy\<lparr>sp_row_impact := rows\<rparr>, vp_issued = 0\<rparr>"

lemma policy_never_rolls_back_witness:
  "sp_row_impact (ps_policy (policy_pushes ''p'' [pushed 1 10, pushed 2 5, pushed 1 10] (policy_sync_new protected_policy))) = 5"
proof -
  have new: "newer ''p'' (ps_version (policy_sync_new protected_policy)) [pushed 1 10, pushed 2 5, pushed 1 10] =
      [pushed 1 10, pushed 2 5, pushed 1 10]"
    by (simp add: newer_def pushed_def policy_sync_new_def)
  have "Max (vp_version ` set [pushed 1 10, pushed 2 5, pushed 1 10]) = 2" by (simp add: pushed_def)
  then show ?thesis
    using policy_never_rolls_back [of "''p''" "policy_sync_new protected_policy" "[pushed 1 10, pushed 2 5, pushed 1 10]"]
    unfolding new by (simp add: pushed_def)
qed

end
