(* ===== verification/Safety_Audit.thy ===== *)
theory Safety_Audit
  imports Safety_Breaker "HOL-Library.Multiset"
begin

text \<open>
  The audit trail's entries (\<open>theta-safety/src/audit.rs\<close>): the escaping of text that a
  caller controls, the summary line and risk of each kind of entry, the redaction of a
  recorded change and the order of a review.  The structured detail of an entry, JSON kept
  beside the line, is left out.

  A summary is handled by character: a list of Unicode scalar values.  Everywhere else a
  string is its bytes, so this theory has the UTF-8 decoding of \<open>str::chars\<close>.
\<close>

section \<open>Characters\<close>

type_synonym chars = "nat list"

fun utf8_chars :: "nat list \<Rightarrow> chars" where
  "utf8_chars [] = []"
| "utf8_chars (b # bs) =
     (if b < 128 then b # utf8_chars bs
      else if b < 224 then (case bs of c1 # r \<Rightarrow> ((b - 192) * 64 + (c1 - 128)) # utf8_chars r | _ \<Rightarrow> [])
      else if b < 240 then
        (case bs of c1 # c2 # r \<Rightarrow> ((b - 224) * 4096 + (c1 - 128) * 64 + (c2 - 128)) # utf8_chars r | _ \<Rightarrow> [])
      else (case bs of c1 # c2 # c3 # r \<Rightarrow>
          ((b - 240) * 262144 + (c1 - 128) * 4096 + (c2 - 128) * 64 + (c3 - 128)) # utf8_chars r | _ \<Rightarrow> []))"

definition utf8_encode :: "nat \<Rightarrow> nat list" where
  "utf8_encode c =
     (if c < 128 then [c]
      else if c < 2048 then [192 + c div 64, 128 + c mod 64]
      else if c < 65536 then [224 + c div 4096, 128 + c div 64 mod 64, 128 + c mod 64]
      else [240 + c div 262144, 128 + c div 4096 mod 64, 128 + c div 64 mod 64, 128 + c mod 64])"

definition chars_of :: "string \<Rightarrow> chars" where
  "chars_of s = utf8_chars (map of_char s)"

definition string_of :: "chars \<Rightarrow> string" where
  "string_of t = map char_of (concat (map utf8_encode t))"

definition lit :: "string \<Rightarrow> chars" where
  "lit s = map of_char s"

section \<open>Escaping\<close>

definition max_identifier_len :: nat where
  "max_identifier_len = 120"

definition is_control :: "nat \<Rightarrow> bool" where
  "is_control c \<longleftrightarrow> c \<le> 0x1F \<or> (0x7F \<le> c \<and> c \<le> 0x9F)"

definition must_escape :: "nat \<Rightarrow> bool" where
  "must_escape c \<longleftrightarrow> is_control c \<or> (0x200B \<le> c \<and> c \<le> 0x200F) \<or> c = 0x2028 \<or> c = 0x2029 \<or>
     (0x202A \<le> c \<and> c \<le> 0x202E) \<or> (0x2066 \<le> c \<and> c \<le> 0x2069) \<or> c = 0x061C \<or> c = 0x180E \<or> c = 0xFEFF"

definition hex_char :: "nat \<Rightarrow> nat" where
  "hex_char d = (if d < 10 then 48 + d else 87 + d)"

fun show_hex :: "nat \<Rightarrow> chars" where
  "show_hex n = (if n < 16 then [hex_char n] else show_hex (n div 16) @ [hex_char (n mod 16)])"

declare show_hex.simps [simp del]

definition pad4 :: "chars \<Rightarrow> chars" where
  "pad4 t = replicate (4 - length t) 48 @ t"

definition escape_char :: "nat \<Rightarrow> chars" where
  "escape_char c =
     (if c = 10 then [92, 110]
      else if c = 13 then [92, 114]
      else if c = 9 then [92, 116]
      else if must_escape c then [92, 117, 123] @ pad4 (show_hex c) @ [125]
      else if c = 96 then [39]
      else [c])"

definition safe_text :: "string \<Rightarrow> chars" where
  "safe_text s =
     (let out = concat (map escape_char (chars_of s)) in
      if length out \<le> max_identifier_len then out
      else take max_identifier_len out @ [0x2026] @ lit '' ('' @ lit (show_nat (length (chars_of s))) @ lit '' chars)'')"

section \<open>Entries\<close>

datatype risk_level = RInfo | RLow | RMedium | RHigh

fun risk_rank :: "risk_level \<Rightarrow> nat" where
  "risk_rank RInfo = 0"
| "risk_rank RLow = 1"
| "risk_rank RMedium = 2"
| "risk_rank RHigh = 3"

record audit_entry =
  ae_risk :: risk_level
  ae_summary :: chars
  ae_author :: author
  ae_ts :: int

definition author_label :: "author \<Rightarrow> chars" where
  "author_label a =
     (case a of
        Agent session _ _ \<Rightarrow> lit ''agent session '' @ safe_text session
      | Human user \<Rightarrow> lit ''user '' @ safe_text user
      | System \<Rightarrow> lit ''the system'')"

definition em_dash :: chars where
  "em_dash = lit '' '' @ [0x2014] @ lit '' ''"

definition spaced :: "string \<Rightarrow> string" where
  "spaced s = map (\<lambda>c. if c = CHR ''_'' then CHR '' '' else c) s"

definition change_risk :: "change_diff \<Rightarrow> gate \<Rightarrow> risk_level" where
  "change_risk d g =
     (if g = ShadowValidate then RHigh
      else if cd_destructive d then (if cd_reversible d then RMedium else RHigh)
      else if g = Confirm then RLow else RInfo)"

definition change_outcome :: "change_diff \<Rightarrow> gate \<Rightarrow> chars" where
  "change_outcome d g =
     (case g of
        AutoApply \<Rightarrow> lit ''applied''
      | Confirm \<Rightarrow> lit ''blocked, awaiting confirmation''
      | ShadowValidate \<Rightarrow>
          (case cd_shadow_branch d of
             Some i \<Rightarrow> lit ''blocked, redirected to shadow branch shadow-'' @ lit (show_nat i)
           | None \<Rightarrow> lit ''blocked, shadow-branch validation required''))"

definition change_target_text :: "change_diff \<Rightarrow> chars" where
  "change_target_text d =
     (case af_column (cd_affected d) of
        Some c \<Rightarrow> safe_text (af_table (cd_affected d)) @ lit ''.'' @ safe_text c
      | None \<Rightarrow> safe_text (af_table (cd_affected d)))"

definition for_change :: "change_diff \<Rightarrow> gate \<Rightarrow> string \<Rightarrow> author \<Rightarrow> int \<Rightarrow> audit_entry" where
  "for_change d g branch a now =
     \<lparr>ae_risk = change_risk d g,
      ae_summary = author_label a @ lit '' attempted '' @ safe_text (spaced (af_change_type (cd_affected d))) @
        lit '' on `'' @ change_target_text d @ lit ''` ('' @ lit (show_nat (cd_rows d)) @ lit '' rows, '' @
        lit (if cd_reversible d then ''reversible'' else ''irreversible'') @ lit '') on `'' @ safe_text branch @
        lit ''`'' @ em_dash @ change_outcome d g,
      ae_author = a, ae_ts = now\<rparr>"

definition for_validation :: "string \<Rightarrow> string \<Rightarrow> bool \<Rightarrow> string \<Rightarrow> author \<Rightarrow> int \<Rightarrow> audit_entry" where
  "for_validation change_id branch passed summary a now =
     \<lparr>ae_risk = (if passed then RInfo else RHigh),
      ae_summary = author_label a @ lit '' validated '' @ safe_text change_id @ lit '' on a shadow branch for `'' @
        safe_text branch @ lit ''`'' @ em_dash @ safe_text summary,
      ae_author = a, ae_ts = now\<rparr>"

definition for_promotion :: "string \<Rightarrow> string \<Rightarrow> author \<Rightarrow> int \<Rightarrow> audit_entry" where
  "for_promotion change_id branch a now =
     \<lparr>ae_risk = RMedium,
      ae_summary = author_label a @ lit '' promoted validated change '' @ safe_text change_id @ lit '' onto `'' @
        safe_text branch @ lit ''`'' @ em_dash @ lit ''merged, so what landed is what was validated'',
      ae_author = a, ae_ts = now\<rparr>"

definition for_rejection :: "string \<Rightarrow> string \<Rightarrow> string \<Rightarrow> author \<Rightarrow> int \<Rightarrow> audit_entry" where
  "for_rejection change_id branch reason a now =
     \<lparr>ae_risk = RInfo,
      ae_summary = author_label a @ lit '' rejected change '' @ safe_text change_id @ lit '' on `'' @
        safe_text branch @ lit ''`'' @ em_dash @ safe_text reason,
      ae_author = a, ae_ts = now\<rparr>"

text \<open>\<open>i64\<close> division truncates.\<close>

definition hours_of :: "int \<Rightarrow> int" where
  "hours_of ms = (if ms < 0 then - ((- ms) div 3600000) else ms div 3600000)"

definition for_expiry :: "string \<Rightarrow> string \<Rightarrow> int \<Rightarrow> int \<Rightarrow> audit_entry" where
  "for_expiry change_id branch age now =
     \<lparr>ae_risk = RInfo,
      ae_summary = lit ''shadow branch for change '' @ safe_text change_id @ lit '' on `'' @ safe_text branch @
        lit ''` expired after '' @ lit (show_int (hours_of age)) @ lit ''h and was reclaimed'' @ em_dash @
        lit ''the change did not land'',
      ae_author = System, ae_ts = now\<rparr>"

definition for_branch_discard :: "string \<Rightarrow> author \<Rightarrow> int \<Rightarrow> audit_entry" where
  "for_branch_discard name a now =
     \<lparr>ae_risk = RLow,
      ae_summary = author_label a @ lit '' discarded branch `'' @ safe_text name @ lit ''`'' @ em_dash @
        lit ''the pointer is gone, its commits remain in the log'',
      ae_author = a, ae_ts = now\<rparr>"

definition for_policy :: "nat \<Rightarrow> string \<Rightarrow> int \<Rightarrow> audit_entry" where
  "for_policy version summary now =
     \<lparr>ae_risk = RMedium,
      ae_summary = lit ''the project owner set safety policy v'' @ lit (show_nat version) @ em_dash @ chars_of summary,
      ae_author = System, ae_ts = now\<rparr>"

definition for_breaker :: "breaker_decision \<Rightarrow> author \<Rightarrow> int \<Rightarrow> audit_entry option" where
  "for_breaker d a now =
     (case d of
        Allow \<Rightarrow> None
      | Trip rows limit window reason \<Rightarrow> Some
          \<lparr>ae_risk = RHigh,
           ae_summary = lit ''Blast-radius breaker tripped for '' @ author_label a @ lit '': '' @ lit (show_nat rows) @
             lit '' rows in '' @ lit (show_nat (window div 1000)) @ lit ''s exceeded the '' @ lit (show_nat limit) @
             lit ''-row ceiling'' @ em_dash @ lit ''further writes rejected until reset ('' @ chars_of reason @ lit '')'',
           ae_author = a, ae_ts = now\<rparr>)"

definition rank :: "audit_entry list \<Rightarrow> audit_entry list" where
  "rank es = sort_key (\<lambda>e. (3 - risk_rank (ae_risk e), - ae_ts e)) es"

section \<open>Redaction\<close>

fun redacted_for_audit :: "schema_change \<Rightarrow> schema_change" where
  "redacted_for_audit (SetNullable t c nullable backfill) =
     SetNullable t c nullable (map_option (\<lambda>_. VText ''<redacted>'') backfill)"
| "redacted_for_audit change = change"

section \<open>What reaches the reader\<close>

text \<open>A character that neither breaks or repaints a line nor closes a quotation.\<close>

definition plain :: "nat \<Rightarrow> bool" where
  "plain c \<longleftrightarrow> \<not> must_escape c \<and> c \<noteq> 96"

lemmas plain_defs = plain_def must_escape_def is_control_def

lemma plain_hex: "list_all plain (show_hex n)"
proof (induction n rule: show_hex.induct)
  case (1 n)
  have digit: "plain (hex_char d)" if "d < 16" for d
    using that by (auto simp: plain_defs hex_char_def)
  show ?case using 1 by (subst show_hex.simps) (auto simp: digit)
qed

lemma plain_escape: "list_all plain (escape_char c)"
proof -
  have "list_all plain (pad4 (show_hex c))"
    using plain_hex by (auto simp: pad4_def list_all_iff plain_defs)
  moreover have "list_all plain [92, 110]" "list_all plain [92, 114]" "list_all plain [92, 116]" "list_all plain [92, 117, 123]"
    "plain 125" "plain 39" by (simp_all add: plain_defs)
  moreover have "c \<noteq> 96 \<Longrightarrow> \<not> must_escape c \<Longrightarrow> plain c" by (simp add: plain_def)
  ultimately show ?thesis unfolding escape_char_def by (simp split: if_split)
qed

lemma plain_show_nat: "list_all plain (lit (show_nat n))"
proof (induction n rule: show_nat.induct)
  case (1 n)
  have digit: "plain (of_char (digit_char d))" if "d < 10" for d
    using that by (auto simp: plain_defs digit_char_def)
  show ?case using 1 by (subst show_nat.simps) (auto simp: lit_def digit)
qed

lemma plain_safe: "list_all plain (safe_text s)"
proof -
  have out: "list_all plain (concat (map escape_char cs))" for cs
    using plain_escape by (induction cs) auto
  have ending: "list_all plain (lit '' ('')" "list_all plain (lit '' chars)'')" "plain 0x2026"
    by (simp_all add: lit_def plain_defs)
  have "list_all plain (take n xs)" if "list_all plain xs" for n and xs :: chars
    using that by (auto simp: list_all_iff dest: in_set_takeD)
  then show ?thesis using out ending plain_show_nat by (simp add: safe_text_def Let_def)
qed

lemma safe_length: "length (safe_text s) \<le> max_identifier_len + 10 + length (show_nat (length (chars_of s)))"
  by (auto simp: safe_text_def Let_def lit_def max_identifier_len_def)

text \<open>One line, with as many backticks as the sentence has.\<close>

definition one_line :: "nat \<Rightarrow> chars \<Rightarrow> bool" where
  "one_line n t \<longleftrightarrow> list_all (\<lambda>c. \<not> must_escape c) t \<and> count_list t 96 = n"

lemma plain_one_line: "list_all plain t \<Longrightarrow> one_line 0 t"
  by (induction t) (auto simp: one_line_def plain_def)

lemma one_line_append: "one_line m s \<Longrightarrow> one_line n t \<Longrightarrow> one_line (m + n) (s @ t)"
  by (simp add: one_line_def)

lemma one_line_safe: "one_line 0 (safe_text s)"
  by (rule plain_one_line [OF plain_safe])

lemma one_line_label: "one_line 0 (author_label a)"
proof -
  have "one_line 0 (lit ''agent session '')" "one_line 0 (lit ''user '')" "one_line 0 (lit ''the system'')"
    by (simp_all add: one_line_def lit_def plain_defs)
  then show ?thesis using one_line_append [of 0 _ 0] one_line_safe by (auto simp: author_label_def split: author.splits)
qed

lemma one_line_nat: "one_line 0 (lit (show_nat n))"
  by (rule plain_one_line [OF plain_show_nat])

lemma one_line_dash: "one_line 0 em_dash"
  by (simp add: one_line_def em_dash_def lit_def plain_defs)

lemma one_line_target: "one_line 0 (change_target_text d)"
proof -
  have "one_line 0 (lit ''.'')" by (simp add: one_line_def lit_def plain_defs)
  then show ?thesis
    using one_line_append [of 0 _ 0] one_line_safe by (auto simp: change_target_text_def split: option.splits)
qed

lemma one_line_outcome: "one_line 0 (change_outcome d g)"
proof -
  have "one_line 0 (lit ''applied'')" "one_line 0 (lit ''blocked, awaiting confirmation'')"
    "one_line 0 (lit ''blocked, redirected to shadow branch shadow-'')"
    "one_line 0 (lit ''blocked, shadow-branch validation required'')"
    by (simp_all add: one_line_def lit_def plain_defs)
  then show ?thesis
    using one_line_append [of 0 _ 0] one_line_nat by (auto simp: change_outcome_def split: gate.splits option.splits)
qed

lemmas one_line_parts = one_line_label one_line_safe one_line_nat one_line_dash one_line_target one_line_outcome

lemmas one_line_facts = one_line_parts [unfolded one_line_def, THEN conjunct1] one_line_parts [unfolded one_line_def, THEN conjunct2]

text \<open>No name forges a line of the audit trail: the summary of a change, a validation, a
  promotion, a rejection, an expiry or a discarded branch has no character that breaks,
  repaints or hides text, and its backticks are those of the sentence, whatever the names,
  reasons and identifiers in it are.\<close>

theorem summary_is_one_line:
  "one_line 4 (ae_summary (for_change d g branch a now)) \<and>
   one_line 2 (ae_summary (for_validation i branch passed verdict a now)) \<and>
   one_line 2 (ae_summary (for_promotion i branch a now)) \<and>
   one_line 2 (ae_summary (for_rejection i branch reason a now)) \<and>
   one_line 2 (ae_summary (for_branch_discard branch a now))"
  by (simp add: one_line_def for_change_def for_validation_def for_promotion_def for_rejection_def for_branch_discard_def
      one_line_facts) (simp add: lit_def plain_defs)

text \<open>The recorded change decides as the real one and tells no row value: a redacted change
  is classified to the same diff, its id apart, under every policy and impact, and two
  changes that differ in the value of a backfill are recorded alike.\<close>

theorem redaction_keeps_the_decision:
  "(classify js b3 (redacted_for_audit change) im pol prot br)\<lparr>cd_id := i\<rparr> = (classify js b3 change im pol prot br)\<lparr>cd_id := i\<rparr> \<and>
   redacted_for_audit (SetNullable t c nullable (Some v)) = redacted_for_audit (SetNullable t c nullable (Some w))"
proof (cases change)
  case (SetNullable t' c' n' b')
  then show ?thesis by (cases b') (simp_all add: classify_def decide_gate_def effective_kind_def Let_def case_prod_beta)
qed simp_all

text \<open>A review reads the riskiest entries first, the newest of them first, and all of them.\<close>

lemma rank_orders: "mset (rank es) = mset es \<and> sorted (map (\<lambda>e. (3 - risk_rank (ae_risk e), - ae_ts e)) (rank es))"
  by (simp add: rank_def)

section \<open>Characters survive the encoding\<close>

lemma utf8_roundtrip: "\<forall>c \<in> set cs. c < 0x110000 \<Longrightarrow> utf8_chars (concat (map utf8_encode cs)) = cs"
proof (induction cs)
  case (Cons c cs)
  have "utf8_chars (utf8_encode c @ bs) = c # utf8_chars bs" for bs
  proof -
    have parts: "c div 4096 = c div 64 div 64" "c div 262144 = c div 64 div 64 div 64"
      by (simp_all add: div_mult2_eq [symmetric])
    have two: "x div 64 * 64 + x mod 64 = x" for x :: nat by (rule div_mult_mod_eq)
    have three: "x div 64 div 64 * 4096 + x div 64 mod 64 * 64 + x mod 64 = x" for x :: nat
    proof -
      define q r where "q = x div 64" and "r = x mod 64"
      show ?thesis using two [of x] two [of q] unfolding q_def [symmetric] r_def [symmetric] by linarith
    qed
    have four: "x div 64 div 64 div 64 * 262144 + x div 64 div 64 mod 64 * 4096 + x div 64 mod 64 * 64 + x mod 64 = x" for x :: nat
    proof -
      define q r where "q = x div 64" and "r = x mod 64"
      show ?thesis using two [of x] three [of q] unfolding q_def [symmetric] r_def [symmetric] by linarith
    qed
    have small: "c div 64 < 32" if "c < 2048" using that by simp
    have mid: "c div 64 div 64 < 16" if "c < 65536" using that by simp
    consider "c < 128" | "128 \<le> c" "c < 2048" | "2048 \<le> c" "c < 65536" | "65536 \<le> c" by linarith
    then show ?thesis
    proof cases
      case 2
      then show ?thesis using two [of c] small by (simp add: utf8_encode_def)
    next
      case 3
      then show ?thesis using three [of c] mid unfolding utf8_encode_def parts by simp
    next
      case 4
      then show ?thesis using four [of c] unfolding utf8_encode_def parts by simp
    qed (simp add: utf8_encode_def)
  qed
  then show ?case using Cons by simp
qed simp

end
