(* ===== verification/Store_Region.thy ===== *)
theory Store_Region
  imports Store_View
begin

text \<open>
  Regions (\<open>theta-storage/src/region.rs\<close>): which branch serves a region, which regions
  have fallen behind, and whether a replica may answer a read of a caller who has seen a
  version already.
\<close>

section \<open>Placement\<close>

datatype region_error = Unplaced string | AlreadyPlaced string

record placement =
  pl_regions :: "(string, nat) omap"
  pl_home :: "nat option"

definition placement_new :: placement where
  "placement_new = \<lparr>pl_regions = omempty, pl_home = None\<rparr>"

definition with_home :: "nat \<Rightarrow> placement \<Rightarrow> placement" where
  "with_home br p = p\<lparr>pl_home := Some br\<rparr>"

definition place :: "string \<Rightarrow> nat \<Rightarrow> placement \<Rightarrow> (region_error + unit) \<times> placement" where
  "place r br p =
     (if omhas (pl_regions p) r then (Inl (AlreadyPlaced r), p)
      else (Inr (), p\<lparr>pl_regions := omput r br (pl_regions p)\<rparr>))"

definition route :: "placement \<Rightarrow> string \<Rightarrow> region_error + nat" where
  "route p r = (case omget (pl_regions p) r of None \<Rightarrow> Inl (Unplaced r) | Some br \<Rightarrow> Inr br)"

record merge_cadence =
  mc_interval :: int
  mc_max_lag :: int

definition default_cadence :: merge_cadence where
  "default_cadence = \<lparr>mc_interval = 60 * 1000, mc_max_lag = 15 * 60 * 1000\<rparr>"

definition lag_of :: "(string, int) omap \<Rightarrow> int \<Rightarrow> string \<Rightarrow> int" where
  "lag_of merged now r =
     (let last' = omget_or i64_min merged r in
      if last' = i64_min then i64_max else sat_i64 (now - last'))"

definition lagging :: "(string, int) omap \<Rightarrow> placement \<Rightarrow> merge_cadence \<Rightarrow> int \<Rightarrow> (string \<times> int) list" where
  "lagging merged p cadence now =
     map (\<lambda>r. (r, lag_of merged now r)) (filter (\<lambda>r. mc_max_lag cadence < lag_of merged now r) (omkeys (pl_regions p)))"

section \<open>Reading from a replica\<close>

type_synonym version_floor = "(string, nat) omap"

datatype read_decision =
    Serve "nat option"
  | Redirect string "nat option" nat string

definition served :: "read_decision \<Rightarrow> bool" where
  "served d \<longleftrightarrow> (case d of Serve _ \<Rightarrow> True | _ \<Rightarrow> False)"

definition floor_observed :: "string \<Rightarrow> nat \<Rightarrow> version_floor \<Rightarrow> version_floor" where
  "floor_observed k v f = omput k (max (omget_or v f k) v) f"

definition floor_required :: "version_floor \<Rightarrow> string \<Rightarrow> nat option" where
  "floor_required f k = omget f k"

definition floor_record :: "string \<Rightarrow> read_decision \<Rightarrow> version_floor \<Rightarrow> version_floor" where
  "floor_record k d f = (case d of Serve (Some v) \<Rightarrow> floor_observed k v f | _ \<Rightarrow> f)"

definition redirect_reason :: "string \<Rightarrow> nat option \<Rightarrow> nat \<Rightarrow> string" where
  "redirect_reason k have required =
     ''this replica holds '' @ (case have of None \<Rightarrow> ''nothing'' | Some v \<Rightarrow> ''version '' @ show_nat v) @
     '' for `'' @ k @ ''` and you have already seen version '' @ show_nat required @
     ''. Answering would break read-your-writes, so you are being sent to a replica that is current instead.''"

definition may_serve :: "view \<Rightarrow> version_floor \<Rightarrow> string \<Rightarrow> read_decision" where
  "may_serve replica f k =
     (case floor_required f k of
        None \<Rightarrow> Serve (version_of replica k)
      | Some required \<Rightarrow>
          (case version_of replica k of
             Some v \<Rightarrow> if required \<le> v then Serve (Some v)
               else Redirect k (Some v) required (redirect_reason k (Some v) required)
           | None \<Rightarrow> Redirect k None required (redirect_reason k None required)))"

section \<open>A caller who moves between replicas\<close>

text \<open>A caller reads keys from any replicas in turn and records what it was served; a write
  it made is recorded as observed.\<close>

datatype caller_step = Reads view string | Wrote string nat

fun call_step :: "caller_step \<Rightarrow> version_floor \<Rightarrow> version_floor" where
  "call_step (Reads replica k) f = floor_record k (may_serve replica f k) f"
| "call_step (Wrote k v) f = floor_observed k v f"

fun session :: "caller_step list \<Rightarrow> version_floor \<Rightarrow> version_floor" where
  "session [] f = f"
| "session (s # ss) f = session ss (call_step s f)"

definition seen_at_least :: "nat \<Rightarrow> nat option \<Rightarrow> bool" where
  "seen_at_least v r \<longleftrightarrow> (case r of None \<Rightarrow> False | Some w \<Rightarrow> v \<le> w)"

lemma observed_grows: "seen_at_least v (floor_required f k) \<Longrightarrow> seen_at_least v (floor_required (floor_observed j w f) k)"
  by (auto simp: seen_at_least_def floor_required_def floor_observed_def omget_or_def split: option.splits)

lemma step_grows: "seen_at_least v (floor_required f k) \<Longrightarrow> seen_at_least v (floor_required (call_step s f) k)"
  by (cases s) (auto simp: floor_record_def observed_grows split: read_decision.splits option.splits)

lemma session_grows: "seen_at_least v (floor_required f k) \<Longrightarrow> seen_at_least v (floor_required (session ss f) k)"
  by (induction ss arbitrary: f) (auto simp: step_grows)

lemma may_serve_floor:
  "seen_at_least v (floor_required f k) \<Longrightarrow>
     (case may_serve replica f k of Serve r \<Rightarrow> r = version_of replica k \<and> seen_at_least v r | Redirect _ _ required _ \<Rightarrow> v \<le> required)"
  by (auto simp: seen_at_least_def may_serve_def split: option.splits)

text \<open>C40: Reads go forward: once a caller was served a version of a key, or wrote one, no
  replica it reads the key from afterwards answers with an older version or with nothing;
  a replica that is behind redirects, naming a version at least as new.\<close>

theorem reads_go_forward:
  assumes "(case s of Reads replica k' \<Rightarrow> k' = k \<and> may_serve replica f k = Serve (Some v) | Wrote k' v' \<Rightarrow> k' = k \<and> v' = v)"
  shows "(case may_serve replica' (session (s # ss) f) k of
      Serve r \<Rightarrow> r = version_of replica' k \<and> seen_at_least v r
    | Redirect _ _ required _ \<Rightarrow> v \<le> required)"
proof -
  have "seen_at_least v (floor_required (call_step s f) k)"
    using assms by (auto simp: seen_at_least_def floor_required_def floor_record_def floor_observed_def omget_or_def
        split: caller_step.splits option.splits)
  then show ?thesis using may_serve_floor [OF session_grows] by simp
qed

lemma reads_go_forward_witness:
  "may_serve view_new (session [Wrote ''k'' 7] omempty) ''k'' \<noteq> Serve None"
  using reads_go_forward [where s = "Wrote ''k'' 7" and k = "''k''" and f = omempty and v = 7 and replica' = view_new and ss = "[]"]
  by (auto simp: seen_at_least_def)

text \<open>Placing a region never moves one that is placed, and a write for an unplaced region is
  refused.\<close>

lemma place_keeps_routes: "route p r = Inr br \<Longrightarrow> route (snd (place r' br' p)) r = Inr br"
  by (auto simp: route_def place_def omhas_def split: option.splits)

lemma lagging_exactly:
  "(r, l) \<in> set (lagging merged p cadence now) \<longleftrightarrow>
     (\<exists>br. route p r = Inr br) \<and> l = lag_of merged now r \<and> mc_max_lag cadence < l"
  by (auto simp: lagging_def route_def omkeys_set split: option.splits)

end
