(* ===== verification/Store_Sync.thy ===== *)
theory Store_Sync
  imports Store_History
begin

text \<open>
  Synchronising two instances (\<open>theta-storage/src/sync.rs\<close>): a digest of content hashes,
  the plan of what to send and which keys conflict, and the rebase of what was received
  onto the receiver's chain.
\<close>

section \<open>Model\<close>

record digest =
  dg_branch :: nat
  dg_content :: "(hash, unit) omap"

definition digest_of :: "codec \<Rightarrow> nat \<Rightarrow> log_entry list \<Rightarrow> digest" where
  "digest_of D br es = \<lparr>dg_branch = br, dg_content = fold (\<lambda>e. omput (content_hash D e) ()) es omempty\<rparr>"

record sync_plan =
  sy_send :: "log_entry list"
  sy_conflicts :: "string list"

definition plan_is_empty :: "sync_plan \<Rightarrow> bool" where
  "plan_is_empty p \<longleftrightarrow> sy_send p = [] \<and> sy_conflicts p = []"

definition plan_is_clean :: "sync_plan \<Rightarrow> bool" where
  "plan_is_clean p \<longleftrightarrow> sy_conflicts p = []"

definition only_here :: "codec \<Rightarrow> log_entry list \<Rightarrow> digest \<Rightarrow> log_entry list" where
  "only_here D es d = filter (\<lambda>e. \<not> omhas (dg_content d) (content_hash D e)) es"

definition sync_plan_of :: "codec \<Rightarrow> log_entry list \<Rightarrow> digest \<Rightarrow> sync_plan" where
  "sync_plan_of D ours theirs = \<lparr>sy_send = only_here D ours theirs, sy_conflicts = []\<rparr>"

fun collect_keys :: "op_type \<Rightarrow> (string, unit) omap \<Rightarrow> (string, unit) omap" where
  "collect_keys (Put k _) m = omput k () m"
| "collect_keys (Delete k) m = omput k () m"
| "collect_keys (Transaction ops) m = fold collect_keys ops m"
| "collect_keys (Crdt _ _) m = m"
| "collect_keys (SchemaOp _) m = m"
| "collect_keys (BranchCreate _ _) m = m"
| "collect_keys (Merge _ _) m = m"

definition assigned_keys :: "log_entry list \<Rightarrow> (string, unit) omap" where
  "assigned_keys es = fold (\<lambda>e. collect_keys (le_op e)) es omempty"

definition plan_with_conflicts :: "codec \<Rightarrow> log_entry list \<Rightarrow> log_entry list \<Rightarrow> sync_plan" where
  "plan_with_conflicts D ours theirs =
     (let ours_only = only_here D ours (digest_of D main_branch theirs);
          theirs_only = only_here D theirs (digest_of D main_branch ours)
      in \<lparr>sy_send = ours_only,
          sy_conflicts = filter (\<lambda>k. omhas (assigned_keys theirs_only) k) (omkeys (assigned_keys ours_only))\<rparr>)"

fun rebase :: "codec \<Rightarrow> log_entry list \<Rightarrow> hash \<Rightarrow> log_entry list \<times> hash" where
  "rebase D [] prev = ([], prev)"
| "rebase D (e # es) prev =
     (let rebased = e\<lparr>le_prev := prev\<rparr>; (out, head') = rebase D es (entry_hash D rebased) in (rebased # out, head'))"

section \<open>An exchange\<close>

lemma digest_has: "omhas (dg_content (digest_of D br es)) h \<longleftrightarrow> h \<in> content_hash D ` set es"
proof -
  have "omhas (fold (\<lambda>e. omput (content_hash D e) ()) es m) h \<longleftrightarrow> h \<in> content_hash D ` set es \<or> omhas m h" for m
    by (induction es arbitrary: m) auto
  then show ?thesis by (simp add: digest_of_def)
qed

lemma only_here_set: "set (only_here D ours (digest_of D br theirs)) = {e \<in> set ours. content_hash D e \<notin> content_hash D ` set theirs}"
  by (auto simp: only_here_def digest_has)

lemma rebase_content: "map (content_hash D) (fst (rebase D es prev)) = map (content_hash D) es"
  by (induction es arbitrary: prev) (simp_all add: Let_def content_hash_rechained split_def)

lemma rebase_fields:
  "map (\<lambda>e. (le_commit e, le_branch e, le_op e, le_author e, le_ts e)) (fst (rebase D es prev)) =
     map (\<lambda>e. (le_commit e, le_branch e, le_op e, le_author e, le_ts e)) es"
  by (induction es arbitrary: prev) (simp_all add: Let_def split_def)

text \<open>What is received goes onto the receiver's chain, newest first on top of its history.\<close>

lemma rebase_chain:
  assumes "chained D prev hist" and "\<forall>e. entry_hash D e \<noteq> zero_hash"
  shows "chained D (snd (rebase D es prev)) (rev (fst (rebase D es prev)) @ hist)"
  using assms(1)
proof (induction es arbitrary: prev hist)
  case (Cons e es)
  let ?r = "e\<lparr>le_prev := prev\<rparr>"
  have "chained D (entry_hash D ?r) (?r # hist)" using Cons.prems assms(2) by simp
  from Cons.IH [OF this] show ?case by (simp add: Let_def split_def)
qed simp

text \<open>The keys an operation assigns outright.\<close>

fun assigns :: "op_type \<Rightarrow> string \<Rightarrow> bool" where
  "assigns (Put k _) k' = (k = k')"
| "assigns (Delete k) k' = (k = k')"
| "assigns (Transaction ops) k' = list_ex (\<lambda>op. assigns op k') ops"
| "assigns (Crdt _ _) k' = False"
| "assigns (SchemaOp _) k' = False"
| "assigns (BranchCreate _ _) k' = False"
| "assigns (Merge _ _) k' = False"

lemma collect_keys_has: "omhas (collect_keys op m) k \<longleftrightarrow> assigns op k \<or> omhas m k"
proof (induction op m rule: collect_keys.induct)
  case (3 ops m)
  have "\<lbrakk>\<And>op m. op \<in> set ops' \<Longrightarrow> omhas (collect_keys op m) k \<longleftrightarrow> assigns op k \<or> omhas m k\<rbrakk> \<Longrightarrow>
      omhas (fold collect_keys ops' m) k \<longleftrightarrow> list_ex (\<lambda>op. assigns op k) ops' \<or> omhas m k" for ops' m
    by (induction ops' arbitrary: m) auto
  then show ?case using 3 by simp
qed auto

lemma assigned_keys_has: "omhas (assigned_keys es) k \<longleftrightarrow> (\<exists>e \<in> set es. assigns (le_op e) k)"
proof -
  have "omhas (fold (\<lambda>e. collect_keys (le_op e)) es m) k \<longleftrightarrow> (\<exists>e \<in> set es. assigns (le_op e) k) \<or> omhas m k" for m
    by (induction es arbitrary: m) (auto simp: collect_keys_has)
  then show ?thesis by (simp add: assigned_keys_def)
qed

lemma conflicts_exactly:
  "k \<in> set (sy_conflicts (plan_with_conflicts D ours theirs)) \<longleftrightarrow>
      (\<exists>e \<in> set ours. content_hash D e \<notin> content_hash D ` set theirs \<and> assigns (le_op e) k) \<and>
      (\<exists>e \<in> set theirs. content_hash D e \<notin> content_hash D ` set ours \<and> assigns (le_op e) k)"
  using assigned_keys_has [of "only_here D ours (digest_of D main_branch theirs)" k]
    assigned_keys_has [of "only_here D theirs (digest_of D main_branch ours)" k]
  by (auto simp: plan_with_conflicts_def Let_def only_here_set omkeys_set omhas_def)

lemma sent_content:
  "content_hash D ` set (sy_send (sync_plan_of D es (digest_of D br fs))) = content_hash D ` set es - content_hash D ` set fs"
  by (auto simp: sync_plan_of_def only_here_set)

lemma rebased_content: "content_hash D ` set (fst (rebase D es prev)) = content_hash D ` set es"
  using arg_cong [OF rebase_content [of D es prev], of set] by simp

text \<open>C33: The plan reports a key exactly when both sides assigned it in entries the other
  lacks, whichever side makes it.  When it reports none, so that the exchange may be applied,
  the exchange converges and loses nothing: each side rebases what the other's plan lists
  onto its own chain, the entries received stand on that chain (each naming its predecessor,
  the first of them the old head, and the new head is the last one's hash) and say what the
  ones sent say in everything but the link; both sides then hold the same writes, those of
  either before, and a second exchange would send nothing.\<close>

theorem exchange_converges:
  assumes "sent = sy_send (sync_plan_of D theirs (digest_of D b ours))"
    and "sent' = sy_send (sync_plan_of D ours (digest_of D b' theirs))"
    and "rebase D sent h = (new, head)" and "rebase D sent' h' = (new', head')"
    and "chained D h (rev ours)" and "chained D h' (rev theirs)" and "\<forall>e. entry_hash D e \<noteq> zero_hash"
  shows "(k \<in> set (sy_conflicts (plan_with_conflicts D ours theirs)) \<longleftrightarrow>
      (\<exists>e \<in> set ours. content_hash D e \<notin> content_hash D ` set theirs \<and> assigns (le_op e) k) \<and>
      (\<exists>e \<in> set theirs. content_hash D e \<notin> content_hash D ` set ours \<and> assigns (le_op e) k)) \<and>
    (plan_is_clean (plan_with_conflicts D ours theirs) \<longleftrightarrow> plan_is_clean (plan_with_conflicts D theirs ours)) \<and>
    (plan_is_clean (plan_with_conflicts D ours theirs) \<longrightarrow>
      chained D head (rev (ours @ new)) \<and> chained D head' (rev (theirs @ new')) \<and>
      map (\<lambda>e. (le_commit e, le_branch e, le_op e, le_author e, le_ts e)) new =
        map (\<lambda>e. (le_commit e, le_branch e, le_op e, le_author e, le_ts e)) sent \<and>
      map (\<lambda>e. (le_commit e, le_branch e, le_op e, le_author e, le_ts e)) new' =
        map (\<lambda>e. (le_commit e, le_branch e, le_op e, le_author e, le_ts e)) sent' \<and>
      content_hash D ` set (ours @ new) = content_hash D ` set (theirs @ new') \<and>
      content_hash D ` set (ours @ new) = content_hash D ` set ours \<union> content_hash D ` set theirs \<and>
      plan_is_empty (plan_with_conflicts D (ours @ new) (theirs @ new')) \<and>
      plan_is_empty (sync_plan_of D (ours @ new) (digest_of D b' (theirs @ new'))))"
proof (intro conjI impI)
  have clean: "plan_is_clean (plan_with_conflicts D es fs) \<longleftrightarrow> set (sy_conflicts (plan_with_conflicts D es fs)) = {}" for es fs
    by (simp add: plan_is_clean_def)
  show "plan_is_clean (plan_with_conflicts D ours theirs) \<longleftrightarrow> plan_is_clean (plan_with_conflicts D theirs ours)"
    unfolding clean set_eq_iff conflicts_exactly by blast
  show "chained D head (rev (ours @ new))" "chained D head' (rev (theirs @ new'))"
    using rebase_chain [OF assms(5,7), of sent] rebase_chain [OF assms(6,7), of sent'] assms(3,4) by simp_all
  show "map (\<lambda>e. (le_commit e, le_branch e, le_op e, le_author e, le_ts e)) new =
      map (\<lambda>e. (le_commit e, le_branch e, le_op e, le_author e, le_ts e)) sent"
    "map (\<lambda>e. (le_commit e, le_branch e, le_op e, le_author e, le_ts e)) new' =
      map (\<lambda>e. (le_commit e, le_branch e, le_op e, le_author e, le_ts e)) sent'"
    using rebase_fields [of D sent h] rebase_fields [of D sent' h'] assms(3,4) by simp_all
  show all: "content_hash D ` set (ours @ new) = content_hash D ` set ours \<union> content_hash D ` set theirs"
    using rebased_content [of D sent h] sent_content [of D theirs b ours] assms(1,3) by (auto simp: image_Un)
  show same: "content_hash D ` set (ours @ new) = content_hash D ` set (theirs @ new')"
    unfolding all using rebased_content [of D sent' h'] sent_content [of D ours b' theirs] assms(2,4)
    by (auto simp: image_Un)
  have none: "only_here D es (digest_of D br fs) = []" if "content_hash D ` set es = content_hash D ` set fs" for es br fs
    using that by (auto simp: only_here_def digest_has filter_empty_conv)
  show "plan_is_empty (plan_with_conflicts D (ours @ new) (theirs @ new'))"
    "plan_is_empty (sync_plan_of D (ours @ new) (digest_of D b' (theirs @ new')))"
    using none [OF same] none [OF same [symmetric]]
    by (auto simp: plan_is_empty_def plan_with_conflicts_def Let_def sync_plan_of_def assigned_keys_def omkeys_def)
qed (rule conflicts_exactly)

lemma exchange_converges_witness:
  "\<exists>new head. rebase sample_codec [(sample_entry zero_hash 2)\<lparr>le_op := Merge 0 []\<rparr>]
      (entry_hash sample_codec (sample_entry zero_hash 1)) = (new, head) \<and>
     chained sample_codec head (rev ([sample_entry zero_hash 1] @ new)) \<and>
     content_hash sample_codec ` set ([sample_entry zero_hash 1] @ new) =
       {content_hash sample_codec (sample_entry zero_hash 1), content_hash sample_codec (sample_entry zero_hash 2)}"
proof -
  let ?e = "sample_entry zero_hash 1" and ?f = "(sample_entry zero_hash 2)\<lparr>le_op := Merge 0 []\<rparr>"
  have content: "content_hash sample_codec ?f = content_hash sample_codec (sample_entry zero_hash 2)"
    by (simp add: content_hash_def content_fields_def sample_codec_def)
  have diff: "content_hash sample_codec ?e \<noteq> content_hash sample_codec ?f"
  proof
    assume "content_hash sample_codec ?e = content_hash sample_codec ?f"
    moreover have "entry_ok sample_codec ?e" "entry_ok sample_codec ?f"
      by (simp_all add: entry_ok_def sample_codec_def sample_entry_def zero_hash_def hash_len_def)
    ultimately show False
      using of_fields_collision [of "blake3 sample_codec" "content_fields sample_codec ?e" "content_fields sample_codec ?f"]
      by (auto simp: content_hash_def content_fields_def sample_codec_def sample_entry_def entry_ok_def dest: le64_inj)
  qed
  have sent: "[?f] = sy_send (sync_plan_of sample_codec [?f] (digest_of sample_codec 0 [?e]))"
    "[?e] = sy_send (sync_plan_of sample_codec [?e] (digest_of sample_codec 0 [?f]))"
    using diff by (simp_all add: sync_plan_of_def only_here_def digest_has)
  have "set (sy_conflicts (plan_with_conflicts sample_codec [?e] [?f])) = {}"
    unfolding set_eq_iff conflicts_exactly by simp
  then have clean: "plan_is_clean (plan_with_conflicts sample_codec [?e] [?f])" by (simp add: plan_is_clean_def)
  obtain new head where r: "rebase sample_codec [?f] (entry_hash sample_codec ?e) = (new, head)" by fastforce
  obtain new' head' where r': "rebase sample_codec [?e] (entry_hash sample_codec ?f) = (new', head')" by fastforce
  have ch: "chained sample_codec (entry_hash sample_codec ?e) (rev [?e])"
    "chained sample_codec (entry_hash sample_codec ?f) (rev [?f])"
    by (simp_all add: sample_hash_nonzero) (simp_all add: sample_entry_def)
  show ?thesis
    using exchange_converges [OF sent r r' ch, of "''k''"] clean content r by (auto simp: sample_hash_nonzero)
qed

end
