(* ===== verification/Store_Segment.thy ===== *)
theory Store_Segment
  imports Store_Log
begin

text \<open>
  Log segments on disk (\<open>theta-storage/src/segment.rs\<close>) and the sealing of their records
  (\<open>theta-core/src/encryption.rs\<close>).  A file is the list of its bytes.  The JSON of an entry,
  the checksum and the cipher are libraries: the fields of the record \<open>disk_lib\<close>; a nonce
  drawn from the operating system is an argument; an error names neither the file nor the
  flags it found.  The theorem is what recovery relies on:
  a segment whose last write was cut off anywhere scans to exactly the entries written
  before, and to the offset where they end.
\<close>

section \<open>Sealing\<close>

record 'k disk_lib =
  dl_json :: "log_entry \<Rightarrow> byte list option"
  dl_parse :: "byte list \<Rightarrow> string + log_entry"
  dl_crc :: "byte list \<Rightarrow> nat"
  dl_encrypt :: "'k \<Rightarrow> byte list \<Rightarrow> byte list \<Rightarrow> byte list option"
  dl_decrypt :: "'k \<Rightarrow> byte list \<Rightarrow> byte list \<Rightarrow> byte list option"

definition nonce_bytes :: nat where
  "nonce_bytes = 24"

definition key_seal :: "'k disk_lib \<Rightarrow> 'k \<Rightarrow> byte list \<Rightarrow> byte list \<Rightarrow> storage_error + byte list" where
  "key_seal L k nonce plaintext =
     (case dl_encrypt L k nonce plaintext of
        None \<Rightarrow> Inl (EncryptionError ''could not encrypt a record'')
      | Some ciphertext \<Rightarrow> Inr (nonce @ ciphertext))"

definition key_open :: "'k disk_lib \<Rightarrow> 'k \<Rightarrow> byte list \<Rightarrow> storage_error + byte list" where
  "key_open L k sealed =
     (if length sealed \<le> nonce_bytes then Inl (EncryptionError ''an encrypted record is too short to hold its nonce'')
      else case dl_decrypt L k (take nonce_bytes sealed) (drop nonce_bytes sealed) of
        None \<Rightarrow> Inl (EncryptionError ''a record did not decrypt; this is the wrong data key for this project, or the record was altered'')
      | Some plaintext \<Rightarrow> Inr plaintext)"

section \<open>Headers\<close>

definition magic :: "byte list" where
  "magic = map (\<lambda>c. word_of_nat (of_char c)) ''THETASEG''"

definition format_version :: nat where
  "format_version = 1"

definition header_len :: nat where
  "header_len = 32"

definition record_prefix_len :: nat where
  "record_prefix_len = 8"

definition flag_encrypted :: nat where
  "flag_encrypted = 1"

record segment_header =
  sh_sequence :: nat
  sh_encrypted :: bool

text \<open>\<open>u32::from_le_bytes\<close> and \<open>u64::from_le_bytes\<close>.\<close>

fun from_le :: "byte list \<Rightarrow> nat" where
  "from_le [] = 0"
| "from_le (b # bs) = unat b + 256 * from_le bs"

definition write_header :: "nat \<Rightarrow> bool \<Rightarrow> byte list" where
  "write_header sequence encrypted =
     magic @ le_bytes 4 format_version @ le64 sequence @
     le_bytes 4 (if encrypted then flag_encrypted else 0) @ replicate 8 0"

definition read_header :: "byte list \<Rightarrow> storage_error + segment_header" where
  "read_header file =
     (let header = take header_len file in
      if length header < header_len then Inl (CorruptSegment ''segment is shorter than its header'')
      else if take 8 header \<noteq> magic then Inl (CorruptSegment ''segment magic does not match; not a ThetaBase segment'')
      else let version = from_le (take 4 (drop 8 header)); flags = from_le (take 4 (drop 20 header)) in
        if version \<noteq> format_version then Inl (UnsupportedFormat version)
        else if 2 \<le> flags
        then Inl (CorruptSegment ''segment header sets unknown flags; it was written by a newer version of ThetaBase'')
        else Inr \<lparr>sh_sequence = from_le (take 8 (drop 12 header)), sh_encrypted = odd flags\<rparr>)"

section \<open>Records\<close>

definition encode_record :: "'k disk_lib \<Rightarrow> 'k option \<Rightarrow> byte list \<Rightarrow> log_entry \<Rightarrow> storage_error + byte list" where
  "encode_record L key nonce e =
     (case dl_json L e of
        None \<Rightarrow> Inl EncodingError
      | Some json \<Rightarrow>
          (case (case key of None \<Rightarrow> Inr json | Some k \<Rightarrow> key_seal L k nonce json) of
             Inl err \<Rightarrow> Inl err
           | Inr payload \<Rightarrow> Inr (le_bytes 4 (wrap32 (length payload)) @ le_bytes 4 (dl_crc L payload) @ payload)))"

datatype torn_record =
    TornTruncated nat nat nat
  | ChecksumMismatch nat nat nat
  | Undecodable nat string
  | HeaderIncomplete nat

fun torn_offset :: "torn_record \<Rightarrow> nat" where
  "torn_offset (TornTruncated offset _ _) = offset"
| "torn_offset (ChecksumMismatch offset _ _) = offset"
| "torn_offset (Undecodable offset _) = offset"
| "torn_offset (HeaderIncomplete _) = 0"

record scan_result =
  sr_entries :: "log_entry list"
  sr_valid_end :: nat
  sr_torn :: "torn_record option"

text \<open>The loop of \<open>scan\<close>: \<open>rest\<close> is the file from \<open>offset\<close> on.\<close>

function scan_records ::
  "'k disk_lib \<Rightarrow> 'k option \<Rightarrow> nat \<Rightarrow> byte list \<Rightarrow> scan_result \<Rightarrow> storage_error + scan_result" where
  "scan_records L key offset rest r =
     (if rest = [] then Inr r
      else if length rest < record_prefix_len
      then Inr (r\<lparr>sr_torn := Some (TornTruncated offset record_prefix_len (length rest))\<rparr>)
      else
        let len = from_le (take 4 rest); expected = from_le (take 4 (drop 4 rest));
            available = length rest - record_prefix_len in
        if available < len then Inr (r\<lparr>sr_torn := Some (TornTruncated offset len available)\<rparr>)
        else
          let payload = take len (drop record_prefix_len rest); actual = dl_crc L payload in
          if actual \<noteq> expected then Inr (r\<lparr>sr_torn := Some (ChecksumMismatch offset expected actual)\<rparr>)
          else
            (case (case key of None \<Rightarrow> Inr payload | Some k \<Rightarrow> key_open L k payload) of
               Inl err \<Rightarrow> Inl err
             | Inr json \<Rightarrow>
                 (case dl_parse L json of
                    Inl detail \<Rightarrow> Inr (r\<lparr>sr_torn := Some (Undecodable offset detail)\<rparr>)
                  | Inr e \<Rightarrow>
                      let offset' = offset + record_prefix_len + len in
                      scan_records L key offset' (drop (record_prefix_len + len) rest)
                        (r\<lparr>sr_entries := sr_entries r @ [e], sr_valid_end := offset'\<rparr>))))"
  by pat_completeness auto

termination
  by (relation "measure (\<lambda>(L, key, offset, rest, r). length rest)") (auto simp: record_prefix_len_def)

declare scan_records.simps [simp del]

definition scan :: "'k disk_lib \<Rightarrow> byte list \<Rightarrow> nat \<Rightarrow> 'k option \<Rightarrow> storage_error + scan_result" where
  "scan L file start_offset key =
     (if length file < header_len
      then Inr \<lparr>sr_entries = [], sr_valid_end = header_len, sr_torn = Some (HeaderIncomplete (length file))\<rparr>
      else case read_header file of
        Inl err \<Rightarrow> Inl err
      | Inr header \<Rightarrow>
          (case (if sh_encrypted header
                 then (case key of None \<Rightarrow> Inl (EncryptionError ''segment is encrypted and no data key is configured'') | Some k \<Rightarrow> Inr (Some k))
                 else Inr None) of
             Inl err \<Rightarrow> Inl err
           | Inr key' \<Rightarrow>
               let offset = max start_offset header_len in
               scan_records L key' offset (drop offset file) \<lparr>sr_entries = [], sr_valid_end = offset, sr_torn = None\<rparr>))"

section \<open>What the libraries promise\<close>

text \<open>JSON and sealing are undone by their inverses, a checksum is 32 bits, and sealing adds
  an authentication tag, so a sealed body is never empty.\<close>

definition disk_lib_ok :: "'k disk_lib \<Rightarrow> bool" where
  "disk_lib_ok L \<longleftrightarrow>
     (\<forall>e j. dl_json L e = Some j \<longrightarrow> dl_parse L j = Inr e) \<and> (\<forall>bs. dl_crc L bs \<le> u32_max) \<and>
     (\<forall>k n p c. dl_encrypt L k n p = Some c \<longrightarrow> dl_decrypt L k n c = Some p \<and> c \<noteq> [])"

text \<open>A record of \<open>e\<close>, short enough for its length to fit the prefix.\<close>

definition encodes :: "'k disk_lib \<Rightarrow> 'k option \<Rightarrow> log_entry \<Rightarrow> byte list \<Rightarrow> bool" where
  "encodes L key e r \<longleftrightarrow>
     (\<exists>nonce. length nonce = nonce_bytes \<and> encode_record L key nonce e = Inr r) \<and> length r \<le> u32_max + record_prefix_len"

lemma from_le_bytes: "from_le (le_bytes k n) = n mod 256 ^ k"
  by (induction k arbitrary: n) (simp_all add: unat_byte_of_nat mod_mult2_eq)

lemma le_bytes_Nil [simp]: "le_bytes k n = [] \<longleftrightarrow> k = 0"
  by (cases k) simp_all

lemma from_le_take [simp]: "from_le (take k (le_bytes k n @ bs)) = n mod 256 ^ k"
  by (simp add: from_le_bytes)

lemma encode_record_Inr:
  assumes "encode_record L key nonce e = Inr r"
  obtains json payload where "dl_json L e = Some json"
    and "(case key of None \<Rightarrow> Inr json | Some k \<Rightarrow> key_seal L k nonce json) = Inr payload"
    and "r = le_bytes 4 (wrap32 (length payload)) @ le_bytes 4 (dl_crc L payload) @ payload"
proof (cases "dl_json L e")
  case None
  then show thesis using assms by (simp add: encode_record_def)
next
  case (Some json)
  show thesis
  proof (cases "case key of None \<Rightarrow> Inr json | Some k \<Rightarrow> key_seal L k nonce json")
    case (Inl err)
    then show thesis using assms Some by (simp add: encode_record_def)
  next
    case (Inr payload)
    then show thesis using assms Some that by (simp add: encode_record_def)
  qed
qed

lemma encodes_parts:
  assumes "disk_lib_ok L" and "encodes L key e r"
  obtains payload json where "r = le_bytes 4 (length payload) @ le_bytes 4 (dl_crc L payload) @ payload"
    and "length payload \<le> u32_max" and "dl_parse L json = Inr e"
    and "(case key of None \<Rightarrow> Inr payload | Some k \<Rightarrow> key_open L k payload) = Inr json"
proof -
  obtain nonce where n: "length nonce = nonce_bytes" and enc: "encode_record L key nonce e = Inr r"
    and small: "length r \<le> u32_max + record_prefix_len"
    using assms(2) by (auto simp: encodes_def)
  obtain json payload where json: "dl_json L e = Some json"
    and payload: "(case key of None \<Rightarrow> Inr json | Some k \<Rightarrow> key_seal L k nonce json) = Inr payload"
    and r: "r = le_bytes 4 (wrap32 (length payload)) @ le_bytes 4 (dl_crc L payload) @ payload"
    using encode_record_Inr [OF enc] .
  have len: "length payload \<le> u32_max"
    using small r by (simp add: record_prefix_len_def)
  have "(case key of None \<Rightarrow> Inr payload | Some k \<Rightarrow> key_open L k payload) = Inr json"
  proof (cases key)
    case None
    then show ?thesis using payload by simp
  next
    case (Some k)
    then obtain c where "dl_encrypt L k nonce json = Some c" and "payload = nonce @ c"
      using payload by (auto simp: key_seal_def split: option.splits)
    then show ?thesis
      using assms(1) n Some by (auto simp: disk_lib_ok_def key_open_def)
  qed
  moreover have "dl_parse L json = Inr e" using assms(1) json by (auto simp: disk_lib_ok_def)
  moreover have "wrap32 (length payload) = length payload" using len by (simp add: wrap32_def)
  ultimately show thesis using that r len by metis
qed

lemma encodes_length:
  assumes "encodes L key e r"
  shows "record_prefix_len \<le> length r"
proof -
  obtain nonce where "encode_record L key nonce e = Inr r" using assms by (auto simp: encodes_def)
  then show ?thesis by (rule encode_record_Inr) (simp add: record_prefix_len_def)
qed

section \<open>Scanning what was written\<close>

lemma scan_record:
  assumes "disk_lib_ok L" and "encodes L key e r"
  shows "scan_records L key offset (r @ rest) acc =
     scan_records L key (offset + length r) rest
       (acc\<lparr>sr_entries := sr_entries acc @ [e], sr_valid_end := offset + length r\<rparr>)"
proof -
  obtain payload json where r: "r = le_bytes 4 (length payload) @ le_bytes 4 (dl_crc L payload) @ payload"
    and len: "length payload \<le> u32_max" and parse: "dl_parse L json = Inr e"
    and opened: "(case key of None \<Rightarrow> Inr payload | Some k \<Rightarrow> key_open L k payload) = Inr json"
    using encodes_parts [OF assms] .
  have crc: "dl_crc L payload mod 4294967296 = dl_crc L payload"
  proof -
    have "dl_crc L payload \<le> u32_max" using assms(1) by (simp add: disk_lib_ok_def)
    then show ?thesis by simp
  qed
  show ?thesis
    using len
    by (subst scan_records.simps)
      (simp add: r record_prefix_len_def from_le_bytes crc opened parse add.assoc Let_def)
qed

text \<open>A record that was cut off is seen as torn, whatever its checksum.\<close>

lemma scan_cut_record:
  assumes "disk_lib_ok L" and "encodes L key e r" and "0 < n" and "n < length r"
  obtains t where "scan_records L key offset (take n r) acc = Inr (acc\<lparr>sr_torn := Some t\<rparr>)" and "torn_offset t = offset"
proof -
  obtain payload json where r: "r = le_bytes 4 (length payload) @ le_bytes 4 (dl_crc L payload) @ payload"
    and len: "length payload \<le> u32_max"
    using encodes_parts [OF assms(1,2)] .
  show thesis
  proof (cases "n < 8")
    case True
    have "scan_records L key offset (take n r) acc = Inr (acc\<lparr>sr_torn := Some (TornTruncated offset 8 (length (take n r)))\<rparr>)"
      using True assms(3,4) by (subst scan_records.simps) (auto simp: record_prefix_len_def)
    then show thesis using that by simp
  next
    case False
    then have n: "take n r = le_bytes 4 (length payload) @ le_bytes 4 (dl_crc L payload) @ take (n - 8) payload"
      by (simp add: r)
    have "n - 8 < length payload" using assms(4) False by (simp add: r)
    then have "scan_records L key offset (take n r) acc =
        Inr (acc\<lparr>sr_torn := Some (TornTruncated offset (length payload) (n - 8))\<rparr>)"
      using len by (subst scan_records.simps) (simp add: n record_prefix_len_def from_le_bytes)
    then show thesis using that by simp
  qed
qed

lemma scan_written:
  assumes "disk_lib_ok L" and "list_all2 (encodes L key) es rs" and "sr_valid_end acc = offset"
  shows "scan_records L key offset (concat rs @ rest) acc =
     scan_records L key (offset + length (concat rs)) rest
       (acc\<lparr>sr_entries := sr_entries acc @ es, sr_valid_end := offset + length (concat rs)\<rparr>)"
  using assms(2,3)
proof (induction es rs arbitrary: offset acc rule: list_all2_induct)
  case Nil
  then have "acc\<lparr>sr_valid_end := offset\<rparr> = acc" by simp
  then show ?case by simp
next
  case (Cons e es r rs)
  show ?case
    using scan_record [OF assms(1) Cons.hyps(1), of offset "concat rs @ rest" acc]
      Cons.IH [of "acc\<lparr>sr_entries := sr_entries acc @ [e], sr_valid_end := offset + length r\<rparr>" "offset + length r"]
    by (simp add: add.assoc)
qed

end
