(* ===== verification/Store_Wal.thy ===== *)
theory Store_Wal
  imports Store_Segment Store_History
begin

text \<open>
  The write-ahead log (\<open>theta-storage/src/wal.rs\<close>).  The data directory is a record: the
  files of the segment directory by sequence number, the checkpoint file, and the view
  snapshot kept beside them.  Writes,
  syncs and renames succeed; what a power failure leaves behind of the write in progress
  is the predicate \<open>crash_leaves\<close>.  A nonce is drawn for every entry that is sealed, so an
  append is given entries paired with their nonces.  The JSON of a checkpoint is a library
  function.
\<close>

section \<open>State\<close>

record log_position =
  lp_segment :: nat
  lp_offset :: nat

definition log_start :: log_position where
  "log_start = \<lparr>lp_segment = 0, lp_offset = header_len\<rparr>"

record checkpoint =
  cp_format :: nat
  cp_position :: log_position
  cp_applied :: nat

definition checkpoint_default :: checkpoint where
  "checkpoint_default = \<lparr>cp_format = format_version, cp_position = log_start, cp_applied = 0\<rparr>"

record recovery =
  rv_entries :: "log_entry list"
  rv_from :: log_position
  rv_to :: log_position
  rv_truncated :: "torn_record option"

record 'k wal_config =
  wc_segment_bytes :: nat
  wc_key :: "'k option"

definition wal_config_new :: "'k wal_config" where
  "wal_config_new = \<lparr>wc_segment_bytes = 67108864, wc_key = None\<rparr>"

record disk =
  dk_segments :: "(nat, byte list) omap"
  dk_checkpoint :: "byte list option"
  dk_snapshot :: "byte list option"

record 'k wal =
  wl_config :: "'k wal_config"
  wl_position :: log_position
  wl_checkpoint :: checkpoint
  wl_disk :: disk

record 'k wal_lib = "'k disk_lib" +
  wb_cp_json :: "checkpoint \<Rightarrow> byte list"
  wb_cp_parse :: "byte list \<Rightarrow> string + checkpoint"

abbreviation disk_lib_of :: "'k wal_lib \<Rightarrow> 'k disk_lib" where
  "disk_lib_of L \<equiv> disk_lib.truncate L"

section \<open>Writing\<close>

text \<open>A segment is opened for appending, so a file that is there already gets a second header.\<close>

definition create_segment :: "nat \<Rightarrow> bool \<Rightarrow> disk \<Rightarrow> log_position \<times> disk" where
  "create_segment sequence encrypted d =
     (\<lparr>lp_segment = sequence, lp_offset = header_len\<rparr>,
      d\<lparr>dk_segments := omput sequence (omget_or [] (dk_segments d) sequence @ write_header sequence encrypted)
          (dk_segments d)\<rparr>)"

definition roll_if_needed :: "'k wal \<Rightarrow> 'k wal" where
  "roll_if_needed w =
     (if lp_offset (wl_position w) < wc_segment_bytes (wl_config w) then w
      else case create_segment (wrap64 (lp_segment (wl_position w) + 1)) (wc_key (wl_config w) \<noteq> None) (wl_disk w) of
        (p, d) \<Rightarrow> w\<lparr>wl_position := p, wl_disk := d\<rparr>)"

fun encode_batch :: "'k disk_lib \<Rightarrow> 'k option \<Rightarrow> (byte list \<times> log_entry) list \<Rightarrow> storage_error + byte list" where
  "encode_batch L key [] = Inr []"
| "encode_batch L key ((nonce, e) # es) =
     (case encode_record L key nonce e of
        Inl err \<Rightarrow> Inl err
      | Inr r \<Rightarrow> map_sum id (\<lambda>rs. r @ rs) (encode_batch L key es))"

definition write_active :: "byte list \<Rightarrow> 'k wal \<Rightarrow> disk" where
  "write_active buffer w =
     (wl_disk w)\<lparr>dk_segments := omput (lp_segment (wl_position w))
        (omget_or [] (dk_segments (wl_disk w)) (lp_segment (wl_position w)) @ buffer) (dk_segments (wl_disk w))\<rparr>"

definition append_batch ::
  "'k wal_lib \<Rightarrow> (byte list \<times> log_entry) list \<Rightarrow> 'k wal \<Rightarrow> (storage_error + log_position) \<times> 'k wal" where
  "append_batch L es w =
     (if es = [] then (Inr (wl_position w), w)
      else let w = roll_if_needed w in
        case encode_batch (disk_lib_of L) (wc_key (wl_config w)) es of
          Inl err \<Rightarrow> (Inl err, w)
        | Inr buffer \<Rightarrow>
            let p = (wl_position w)\<lparr>lp_offset := wrap64 (lp_offset (wl_position w) + length buffer)\<rparr> in
            (Inr p, w\<lparr>wl_disk := write_active buffer w, wl_position := p\<rparr>))"

definition wal_append :: "'k wal_lib \<Rightarrow> byte list \<Rightarrow> log_entry \<Rightarrow> 'k wal \<Rightarrow> (storage_error + log_position) \<times> 'k wal" where
  "wal_append L nonce e w = append_batch L [(nonce, e)] w"

definition wal_checkpoint :: "'k wal_lib \<Rightarrow> log_position \<Rightarrow> nat \<Rightarrow> 'k wal \<Rightarrow> 'k wal" where
  "wal_checkpoint L p applied w =
     (let cp = \<lparr>cp_format = format_version, cp_position = p, cp_applied = applied\<rparr> in
      w\<lparr>wl_disk := (wl_disk w)\<lparr>dk_checkpoint := Some (wb_cp_json L cp)\<rparr>, wl_checkpoint := cp\<rparr>)"

definition storage_bytes :: "'k wal \<Rightarrow> nat" where
  "storage_bytes w = wrap64 (sum_list (map length (omvalues (dk_segments (wl_disk w)))))"

definition archivable_segments :: "'k wal \<Rightarrow> nat list" where
  "archivable_segments w = filter (\<lambda>s. s < lp_segment (cp_position (wl_checkpoint w))) (omkeys (dk_segments (wl_disk w)))"

definition release_segment :: "nat \<Rightarrow> 'k wal \<Rightarrow> (storage_error + nat) \<times> 'k wal" where
  "release_segment sequence w =
     (let current = lp_segment (cp_position (wl_checkpoint w)); files = dk_segments (wl_disk w) in
      if current \<le> sequence then (Inl (SegmentInUse sequence current), w)
      else case omget files sequence of
        None \<Rightarrow> (Inr 0, w)
      | Some file \<Rightarrow> (Inr (length file), w\<lparr>wl_disk := (wl_disk w)\<lparr>dk_segments := omdel sequence files\<rparr>\<rparr>))"

section \<open>Recovery\<close>

record 'k recovering_wal =
  rw_config :: "'k wal_config"
  rw_checkpoint :: checkpoint
  rw_disk :: disk

definition read_checkpoint :: "'k wal_lib \<Rightarrow> disk \<Rightarrow> storage_error + checkpoint" where
  "read_checkpoint L d =
     (case dk_checkpoint d of
        None \<Rightarrow> Inr checkpoint_default
      | Some bytes \<Rightarrow>
          (case wb_cp_parse L bytes of
             Inl detail \<Rightarrow> Inl (BadCheckpoint detail)
           | Inr cp \<Rightarrow> if cp_format cp \<noteq> format_version then Inl (UnsupportedFormat (cp_format cp)) else Inr cp))"

definition wal_open :: "'k wal_lib \<Rightarrow> 'k wal_config \<Rightarrow> disk \<Rightarrow> storage_error + 'k recovering_wal" where
  "wal_open L c d =
     map_sum id (\<lambda>cp. \<lparr>rw_config = c, rw_checkpoint = cp, rw_disk = d\<rparr>) (read_checkpoint L d)"

definition set_len :: "nat \<Rightarrow> byte list \<Rightarrow> byte list" where
  "set_len n file = take n file @ replicate (n - length file) 0"

text \<open>The scan of the segments in turn, up to the first torn one, which is repaired.\<close>

fun recover_segments ::
  "'k disk_lib \<Rightarrow> 'k option \<Rightarrow> log_position \<Rightarrow> nat list \<Rightarrow> (nat, byte list) omap \<Rightarrow> recovery \<Rightarrow>
     storage_error + (nat, byte list) omap \<times> recovery \<times> nat option" where
  "recover_segments L key from' [] files r = Inr (files, r, None)"
| "recover_segments L key from' (s # ss) files r =
     (if s < lp_segment from' then recover_segments L key from' ss files r
      else case omget files s of
        None \<Rightarrow> Inl IoNotFound
      | Some file \<Rightarrow>
          (case scan L file (if s = lp_segment from' then lp_offset from' else header_len) key of
             Inl err \<Rightarrow> Inl err
           | Inr sc \<Rightarrow>
               let r = r\<lparr>rv_entries := rv_entries r @ sr_entries sc,
                         rv_to := \<lparr>lp_segment = s, lp_offset = sr_valid_end sc\<rparr>\<rparr> in
               (case sr_torn sc of
                  None \<Rightarrow> recover_segments L key from' ss files r
                | Some t \<Rightarrow>
                    let repaired = (case t of
                           HeaderIncomplete _ \<Rightarrow> write_header s (key \<noteq> None)
                         | _ \<Rightarrow> set_len (sr_valid_end sc) file)
                    in Inr (omput s repaired files, r\<lparr>rv_truncated := Some t\<rparr>, Some s))))"

text \<open>The result of \<open>recover_at\<close> and the directory it leaves: a repair stays when the
  recovery is refused afterwards.\<close>

definition recover_at ::
  "'k wal_lib \<Rightarrow> log_position \<Rightarrow> 'k recovering_wal \<Rightarrow> (storage_error + 'k wal \<times> recovery) \<times> disk" where
  "recover_at L from' rw =
     (let d = rw_disk rw; key = wc_key (rw_config rw); seqs = omkeys (dk_segments d) in
      if seqs = [] then
        (case create_segment 0 (key \<noteq> None) d of (p, d) \<Rightarrow>
           (Inr (\<lparr>wl_config = rw_config rw, wl_position = p, wl_checkpoint = rw_checkpoint rw, wl_disk = d\<rparr>,
                 \<lparr>rv_entries = [], rv_from = log_start, rv_to = p, rv_truncated = None\<rparr>), d))
      else
        (case recover_segments (disk_lib_of L) key from' seqs (dk_segments d)
            \<lparr>rv_entries = [], rv_from = from', rv_to = from', rv_truncated = None\<rparr> of
           Inl err \<Rightarrow> (Inl err, d)
         | Inr (files, r, damaged) \<Rightarrow>
             let d = d\<lparr>dk_segments := files\<rparr>;
                 orphaned = (case damaged of None \<Rightarrow> [] | Some s \<Rightarrow> filter (\<lambda>q. s < q) seqs) in
             if orphaned \<noteq> []
             then (Inl (OrphanedSegments (the damaged) (join_with '', '' (map show_nat orphaned))), d)
             else
               (case omget files (lp_segment (rv_to r)) of
                  None \<Rightarrow> (Inl IoNotFound, d)
                | Some file \<Rightarrow>
                    (case read_header file of
                       Inl err \<Rightarrow> (Inl err, d)
                     | Inr h \<Rightarrow>
                         (case (if sh_encrypted h \<noteq> (key \<noteq> None)
                                then create_segment (wrap64 (lp_segment (rv_to r) + 1)) (key \<noteq> None) d
                                else (rv_to r, d)) of
                            (p, d) \<Rightarrow>
                              (Inr (\<lparr>wl_config = rw_config rw, wl_position = p, wl_checkpoint = rw_checkpoint rw,
                                     wl_disk = d\<rparr>, r\<lparr>rv_to := p\<rparr>), d))))))"

definition recover :: "'k wal_lib \<Rightarrow> 'k recovering_wal \<Rightarrow> (storage_error + 'k wal \<times> recovery) \<times> disk" where
  "recover L rw = recover_at L (cp_position (rw_checkpoint rw)) rw"

definition recover_from_genesis :: "'k wal_lib \<Rightarrow> 'k recovering_wal \<Rightarrow> (storage_error + 'k wal \<times> recovery) \<times> disk" where
  "recover_from_genesis L rw = recover_at L log_start rw"

section \<open>What is on disk\<close>

definition seg_file :: "'k option \<Rightarrow> nat \<Rightarrow> byte list list \<Rightarrow> byte list" where
  "seg_file key i rs = write_header i (key \<noteq> None) @ concat rs"

text \<open>The segments are numbered from zero, each holds whole records, and together they hold
  the entries \<open>ess\<close>.\<close>

definition laid_out ::
  "'k disk_lib \<Rightarrow> 'k option \<Rightarrow> (nat, byte list) omap \<Rightarrow> log_entry list list \<Rightarrow> byte list list list \<Rightarrow> bool" where
  "laid_out L key files ess rss \<longleftrightarrow>
     rss \<noteq> [] \<and> length rss \<le> u64_max \<and> list_all2 (list_all2 (encodes L key)) ess rss \<and>
     (\<forall>i. omget files i = (if i < length rss then Some (seg_file key i (rss ! i)) else None))"

definition wal_holds :: "'k wal_lib \<Rightarrow> 'k wal \<Rightarrow> log_entry list \<Rightarrow> bool" where
  "wal_holds L w es \<longleftrightarrow>
     (\<exists>ess rss. es = concat ess \<and>
        laid_out (disk_lib_of L) (wc_key (wl_config w)) (dk_segments (wl_disk w)) ess rss \<and>
        wl_position w = \<lparr>lp_segment = length rss - 1, lp_offset = header_len + length (concat (last rss))\<rparr>)"

lemma magic_length [simp]: "length magic = 8"
  by (simp add: magic_def)

lemma write_header_length [simp]: "length (write_header i b) = header_len"
  by (simp add: write_header_def header_len_def)

lemma read_header_write [simp]:
  "i \<le> u64_max \<Longrightarrow> read_header (write_header i b @ rest) = Inr \<lparr>sh_sequence = i, sh_encrypted = b\<rparr>"
  by (simp add: read_header_def write_header_def header_len_def Let_def le64_def from_le_bytes
      format_version_def flag_encrypted_def)

lemma omkeys_upto:
  assumes "\<And>i. omget m i \<noteq> None \<longleftrightarrow> i < (n :: nat)"
  shows "omkeys m = [0..<n]"
proof (rule sorted_distinct_set_unique)
  show "set (omkeys m) = set [0..<n]" unfolding omkeys_set assms by auto
qed simp_all

lemma laid_out_keys: "laid_out L key files ess rss \<Longrightarrow> omkeys files = [0..<length rss]"
  by (intro omkeys_upto) (auto simp: laid_out_def)

lemma scan_segment:
  assumes "disk_lib_ok L" and "list_all2 (encodes L key) es rs" and "i \<le> u64_max"
  shows "scan L (seg_file key i (pre @ rs) @ tail) (header_len + length (concat pre)) key =
     scan_records L key (header_len + length (concat (pre @ rs))) tail
       \<lparr>sr_entries = es, sr_valid_end = header_len + length (concat (pre @ rs)), sr_torn = None\<rparr>"
proof -
  let ?off = "header_len + length (concat pre)"
  have dropped: "drop ?off (seg_file key i (pre @ rs) @ tail) = concat rs @ tail"
    by (simp add: seg_file_def)
  have "scan L (seg_file key i (pre @ rs) @ tail) ?off key =
      scan_records L key ?off (concat rs @ tail) \<lparr>sr_entries = [], sr_valid_end = ?off, sr_torn = None\<rparr>"
    using assms(3) dropped by (cases key) (simp_all add: scan_def seg_file_def Let_def)
  then show ?thesis
    using scan_written [OF assms(1,2), of "\<lparr>sr_entries = [], sr_valid_end = ?off, sr_torn = None\<rparr>" ?off tail]
    by (simp add: add.assoc)
qed

lemma scan_records_done [simp]: "scan_records L key offset [] r = Inr r"
  by (subst scan_records.simps) simp

text \<open>The loop over segments without damage.\<close>

lemma recover_clean:
  assumes "disk_lib_ok L"
    and "\<And>i. i \<in> set is \<Longrightarrow> i \<le> u64_max \<and> lp_segment from' \<le> i \<and> list_all2 (encodes L key) (es i) (rs i) \<and>
      omget files i = Some (seg_file key i (pre i @ rs i)) \<and>
      (if i = lp_segment from' then lp_offset from' = header_len + length (concat (pre i)) else pre i = [])"
  shows "recover_segments L key from' (is @ js) files r =
     recover_segments L key from' js files
       (r\<lparr>rv_entries := rv_entries r @ concat (map es is),
          rv_to := (if is = [] then rv_to r
            else \<lparr>lp_segment = last is, lp_offset = header_len + length (concat (pre (last is) @ rs (last is)))\<rparr>)\<rparr>)"
  using assms(2)
proof (induction "is" arbitrary: r)
  case Nil
  have "r\<lparr>rv_entries := rv_entries r, rv_to := rv_to r\<rparr> = r" by simp
  then show ?case by simp
next
  case (Cons i "is")
  have i: "i \<le> u64_max" "lp_segment from' \<le> i" "list_all2 (encodes L key) (es i) (rs i)"
    "omget files i = Some (seg_file key i (pre i @ rs i))"
    and start: "(if i = lp_segment from' then lp_offset from' else header_len) = header_len + length (concat (pre i))"
    using Cons.prems [of i] by (auto split: if_splits)
  have "scan L (seg_file key i (pre i @ rs i)) (header_len + length (concat (pre i))) key =
      Inr \<lparr>sr_entries = es i, sr_valid_end = header_len + length (concat (pre i @ rs i)), sr_torn = None\<rparr>"
    using scan_segment [OF assms(1) i(3,1), of "pre i" "[]"] by simp
  then show ?case
    using Cons.IH [OF Cons.prems] i by (simp add: start Let_def)
qed

section \<open>Appending\<close>

text \<open>The nonces have their length, each record fits its prefix, and neither the segment's
  number nor an offset runs out of 64 bits.\<close>

definition batch_fits :: "'k wal_lib \<Rightarrow> (byte list \<times> log_entry) list \<Rightarrow> 'k wal \<Rightarrow> bool" where
  "batch_fits L ps w \<longleftrightarrow>
     (\<forall>(nonce, e) \<in> set ps. length nonce = nonce_bytes \<and>
        (\<forall>r. encode_record (disk_lib_of L) (wc_key (wl_config w)) nonce e = Inr r \<longrightarrow> length r \<le> u32_max + record_prefix_len)) \<and>
     lp_segment (wl_position w) + 2 \<le> u64_max \<and>
     (\<forall>buffer. encode_batch (disk_lib_of L) (wc_key (wl_config w)) ps = Inr buffer \<longrightarrow>
        lp_offset (wl_position (roll_if_needed w)) + length buffer \<le> u64_max)"

lemma encode_batch_records:
  assumes "encode_batch L key ps = Inr buffer"
    and "\<forall>(nonce, e) \<in> set ps. length nonce = nonce_bytes \<and>
      (\<forall>r. encode_record L key nonce e = Inr r \<longrightarrow> length r \<le> u32_max + record_prefix_len)"
  obtains rs where "buffer = concat rs" and "list_all2 (encodes L key) (map snd ps) rs"
  using assms
proof (induction ps arbitrary: buffer thesis)
  case Nil
  then show ?case by (auto intro: Nil.prems(1) [of "[]"])
next
  case (Cons p ps)
  obtain nonce e where p: "p = (nonce, e)" by (cases p)
  obtain r rest where r: "encode_record L key nonce e = Inr r" and rest: "encode_batch L key ps = Inr rest"
    and buffer: "buffer = r @ rest"
    using Cons.prems(2) p by (cases "encode_record L key nonce e"; cases "encode_batch L key ps") auto
  obtain rs where "rest = concat rs" "list_all2 (encodes L key) (map snd ps) rs"
    using Cons.IH [OF _ rest] Cons.prems(3) by auto
  moreover have "encodes L key e r" using Cons.prems(3) p r by (auto simp: encodes_def)
  ultimately show ?case using Cons.prems(1) [of "r # rs"] buffer p by simp
qed

lemma roll_config [simp]: "wl_config (roll_if_needed w) = wl_config w"
  by (simp add: roll_if_needed_def split: prod.splits)

lemma laid_out_roll:
  assumes "laid_out L key files ess rss" and "length rss + 1 \<le> u64_max"
  shows "laid_out L key (omput (length rss) (write_header (length rss) (key \<noteq> None)) files) (ess @ [[]]) (rss @ [[]])"
  using assms by (auto simp: laid_out_def seg_file_def nth_append intro: list_all2_appendI)

lemma wal_holds_roll:
  assumes "wal_holds L w es" and "lp_segment (wl_position w) + 2 \<le> u64_max"
  shows "wal_holds L (roll_if_needed w) es"
proof (cases "lp_offset (wl_position w) < wc_segment_bytes (wl_config w)")
  case True
  then show ?thesis using assms(1) by (simp add: roll_if_needed_def)
next
  case False
  obtain ess rss where es: "es = concat ess"
    and out: "laid_out (disk_lib_of L) (wc_key (wl_config w)) (dk_segments (wl_disk w)) ess rss"
    and pos: "wl_position w = \<lparr>lp_segment = length rss - 1, lp_offset = header_len + length (concat (last rss))\<rparr>"
    using assms(1) by (auto simp: wal_holds_def)
  have n: "0 < length rss" using out by (simp add: laid_out_def)
  have small: "length rss + 1 \<le> u64_max" using assms(2) pos n by simp
  have none: "omget (dk_segments (wl_disk w)) (length rss) = None" using out by (simp add: laid_out_def)
  have "wrap64 (length rss - 1 + 1) = length rss" using small n by (simp add: wrap64_def)
  then have "wl_disk (roll_if_needed w) = (wl_disk w)\<lparr>dk_segments :=
        omput (length rss) (write_header (length rss) (wc_key (wl_config w) \<noteq> None)) (dk_segments (wl_disk w))\<rparr>"
    and "wl_position (roll_if_needed w) = \<lparr>lp_segment = length rss, lp_offset = header_len\<rparr>"
    using False pos none by (simp_all add: roll_if_needed_def create_segment_def omget_or_def)
  then show ?thesis
    using laid_out_roll [OF out small] es unfolding wal_holds_def
    by (intro exI [of _ "ess @ [[]]"] exI [of _ "rss @ [[]]"]) simp
qed

lemma laid_out_write:
  assumes "laid_out L key files ess rss" and "list_all2 (encodes L key) es rs"
  shows "laid_out L key (omput (length rss - 1) (seg_file key (length rss - 1) (last rss) @ concat rs) files)
     (butlast ess @ [last ess @ es]) (butlast rss @ [last rss @ rs])"
proof -
  have rss: "rss = butlast rss @ [last rss]" and len: "length ess = length rss"
    using assms(1) by (auto simp: laid_out_def list_all2_lengthD)
  then have ess: "ess = butlast ess @ [last ess]" using assms(1) by (metis append_butlast_last_id laid_out_def length_0_conv)
  have "list_all2 (list_all2 (encodes L key)) (butlast ess @ [last ess]) (butlast rss @ [last rss])"
    using assms(1) rss ess by (simp add: laid_out_def)
  then have "list_all2 (list_all2 (encodes L key)) (butlast ess) (butlast rss)" "list_all2 (encodes L key) (last ess) (last rss)"
    using len by (simp_all add: list_all2_append)
  moreover have "omget files i = (if i < length rss then Some (seg_file key i (rss ! i)) else None)" for i
    using assms(1) by (simp add: laid_out_def)
  ultimately show ?thesis
    using assms rss len
    by (auto simp: laid_out_def list_all2_append seg_file_def nth_append nth_butlast intro: list_all2_appendI)
qed

lemma wal_holds_write:
  assumes "wal_holds L w es" and "list_all2 (encodes (disk_lib_of L) (wc_key (wl_config w))) es' rs"
    and "lp_offset (wl_position w) + length (concat rs) \<le> u64_max"
  shows "wal_holds L (w\<lparr>wl_disk := write_active (concat rs) w,
      wl_position := (wl_position w)\<lparr>lp_offset := wrap64 (lp_offset (wl_position w) + length (concat rs))\<rparr>\<rparr>) (es @ es')"
proof -
  obtain ess rss where es: "es = concat ess"
    and out: "laid_out (disk_lib_of L) (wc_key (wl_config w)) (dk_segments (wl_disk w)) ess rss"
    and pos: "wl_position w = \<lparr>lp_segment = length rss - 1, lp_offset = header_len + length (concat (last rss))\<rparr>"
    using assms(1) by (auto simp: wal_holds_def)
  have ne: "rss \<noteq> []" "ess \<noteq> []" using out by (auto simp: laid_out_def)
  have "omget (dk_segments (wl_disk w)) (length rss - 1) = Some (seg_file (wc_key (wl_config w)) (length rss - 1) (last rss))"
    using out ne by (simp add: laid_out_def last_conv_nth)
  then have "dk_segments (write_active (concat rs) w) =
      omput (length rss - 1) (seg_file (wc_key (wl_config w)) (length rss - 1) (last rss) @ concat rs) (dk_segments (wl_disk w))"
    by (simp add: write_active_def pos omget_or_def)
  moreover have "concat (butlast ess @ [last ess @ es']) = es @ es'"
    using ne es by (metis append.assoc append_butlast_last_id concat.simps(1,2) concat_append append_Nil2)
  ultimately show ?thesis
    using laid_out_write [OF out assms(2)] ne assms(3) pos unfolding wal_holds_def
    by (intro exI [of _ "butlast ess @ [last ess @ es']"] exI [of _ "butlast rss @ [last rss @ rs]"])
      (simp add: wrap64_def)
qed

lemma append_batch_holds:
  assumes "wal_holds L w es" and "batch_fits L ps w" and "append_batch L ps w = (res, w')"
  shows "wal_holds L w' (case res of Inl _ \<Rightarrow> es | Inr _ \<Rightarrow> es @ map snd ps)"
proof (cases "ps = []")
  case True
  then show ?thesis using assms by (auto simp: append_batch_def)
next
  case False
  have rolled: "wal_holds L (roll_if_needed w) es"
    using assms(1,2) by (intro wal_holds_roll) (auto simp: batch_fits_def)
  show ?thesis
  proof (cases "encode_batch (disk_lib_of L) (wc_key (wl_config w)) ps")
    case (Inl err)
    then show ?thesis using assms(3) False rolled by (auto simp: append_batch_def Let_def)
  next
    case (Inr buffer)
    obtain rs where rs: "buffer = concat rs" "list_all2 (encodes (disk_lib_of L) (wc_key (wl_config w))) (map snd ps) rs"
      using encode_batch_records [OF Inr] assms(2) unfolding batch_fits_def by blast
    have "lp_offset (wl_position (roll_if_needed w)) + length buffer \<le> u64_max"
      using assms(2) Inr by (simp add: batch_fits_def)
    then show ?thesis
      using wal_holds_write [OF rolled, of "map snd ps" rs] rs assms(3) False Inr by (auto simp: append_batch_def Let_def)
  qed
qed

section \<open>Recovery after a crash\<close>

definition blank_recovery :: recovery where
  "blank_recovery = \<lparr>rv_entries = [], rv_from = log_start, rv_to = log_start, rv_truncated = None\<rparr>"

definition ends_at :: "byte list list list \<Rightarrow> log_position" where
  "ends_at rss = \<lparr>lp_segment = length rss - 1, lp_offset = header_len + length (concat (last rss))\<rparr>"

lemma recover_upto:
  assumes "disk_lib_ok L" and "laid_out L key files ess rss" and "n \<le> length rss"
    and "\<And>i. i < n \<Longrightarrow> omget files' i = omget files i"
  shows "recover_segments L key log_start ([0..<n] @ js) files' r =
     recover_segments L key log_start js files'
       (r\<lparr>rv_entries := rv_entries r @ concat (take n ess), rv_to := (if n = 0 then rv_to r else ends_at (take n rss))\<rparr>)"
proof -
  have len: "length ess = length rss" using assms(2) by (auto simp: laid_out_def list_all2_lengthD)
  have "map ((!) ess) [0..<n] = take n ess" using len assms(3) by (intro nth_equalityI) simp_all
  then show ?thesis
    using recover_clean [OF assms(1), of "[0..<n]" log_start key "(!) ess" "(!) rss" files' "\<lambda>_. []" js r] assms(2-4) len
    by (auto simp: laid_out_def list_all2_conv_all_nth log_start_def ends_at_def last_conv_nth min_def)
qed

lemma recover_all:
  assumes "disk_lib_ok L" and "laid_out L key files ess rss"
  shows "recover_segments L key log_start [0..<length rss] files r =
     Inr (files, r\<lparr>rv_entries := rv_entries r @ concat ess, rv_to := ends_at rss\<rparr>, None)"
  using recover_upto [OF assms le_refl, of files "[]" r] assms(2) by (auto simp: laid_out_def dest: list_all2_lengthD)

text \<open>A record cut off at the end of the last segment.\<close>

lemma recover_cut_at:
  assumes "disk_lib_ok L" and "laid_out L key files ess rss" and "encodes L key e c" and "0 < n" and "n < length c"
    and "i < length rss" and "files' = omput i (seg_file key i (rss ! i) @ take n c) files"
  obtains t where "recover_segments L key log_start ([0..<i] @ i # js) files' r =
     Inr (files, r\<lparr>rv_entries := rv_entries r @ concat (take (Suc i) ess), rv_to := ends_at (take (Suc i) rss),
       rv_truncated := Some t\<rparr>, Some i)"
proof -
  have len: "length ess = length rss" and small: "length rss \<le> u64_max"
    using assms(2) by (auto simp: laid_out_def list_all2_lengthD)
  have seg_ok: "list_all2 (encodes L key) (ess ! i) (rss ! i)" and there: "omget files i = Some (seg_file key i (rss ! i))"
    using assms(2,6) by (auto simp: laid_out_def list_all2_conv_all_nth)
  have ends: "ends_at (take (Suc i) rss) = \<lparr>lp_segment = i, lp_offset = header_len + length (concat (rss ! i))\<rparr>"
    using assms(6) by (simp add: ends_at_def take_Suc_conv_app_nth)
  let ?s = "\<lparr>sr_entries = ess ! i, sr_valid_end = header_len + length (concat (rss ! i)), sr_torn = None\<rparr>"
  obtain t where t: "scan_records L key (header_len + length (concat (rss ! i))) (take n c) ?s = Inr (?s\<lparr>sr_torn := Some t\<rparr>)"
    and off: "torn_offset t = header_len + length (concat (rss ! i))"
    using scan_cut_record [OF assms(1,3-5)] .
  have "scan L (seg_file key i (rss ! i) @ take n c) header_len key = Inr (?s\<lparr>sr_torn := Some t\<rparr>)"
    using scan_segment [OF assms(1) seg_ok, of i "[]" "take n c"] small assms(6) t by simp
  moreover have "(if i = lp_segment log_start then lp_offset log_start else header_len) = header_len"
    by (simp add: log_start_def)
  moreover have "\<not> i < lp_segment log_start" by (simp add: log_start_def)
  moreover have "set_len (header_len + length (concat (rss ! i))) (seg_file key i (rss ! i) @ take n c) = seg_file key i (rss ! i)"
    by (simp add: set_len_def seg_file_def)
  moreover have "omput i (seg_file key i (rss ! i)) files' = files"
    using there assms(7) by (intro omap_eqI) auto
  moreover have "\<exists>o1 o2 o3. t = TornTruncated o1 o2 o3 \<or> t = ChecksumMismatch o1 o2 o3 \<or> (\<exists>d. t = Undecodable o1 d)"
    using off by (cases t) (auto simp: header_len_def)
  ultimately have cut: "recover_segments L key log_start (i # js) files' r' =
      Inr (files, r'\<lparr>rv_entries := rv_entries r' @ ess ! i, rv_to := ends_at (take (Suc i) rss), rv_truncated := Some t\<rparr>, Some i)" for r'
    using assms(7) by (auto simp: Let_def ends)
  have "concat (take i ess) @ ess ! i = concat (take (Suc i) ess)"
    using len assms(6) by (simp add: take_Suc_conv_app_nth)
  moreover have "recover_segments L key log_start ([0..<i] @ i # js) files' r =
      recover_segments L key log_start (i # js) files' (r\<lparr>rv_entries := rv_entries r @ concat (take i ess),
        rv_to := (if i = 0 then rv_to r else ends_at (take i rss))\<rparr>)"
    using assms(6) by (intro recover_upto [OF assms(1,2)]) (auto simp: assms(7))
  ultimately have "recover_segments L key log_start ([0..<i] @ i # js) files' r =
     Inr (files, r\<lparr>rv_entries := rv_entries r @ concat (take (Suc i) ess), rv_to := ends_at (take (Suc i) rss),
       rv_truncated := Some t\<rparr>, Some i)"
    unfolding cut by simp
  then show thesis by (rule that)
qed

lemma recover_cut_record:
  assumes "disk_lib_ok L" and "laid_out L key files ess rss" and "encodes L key e c" and "0 < n" and "n < length c"
    and "files' = omput (length rss - 1) (seg_file key (length rss - 1) (last rss) @ take n c) files"
  obtains t where "recover_segments L key log_start [0..<length rss] files' r =
     Inr (files, r\<lparr>rv_entries := rv_entries r @ concat ess, rv_to := ends_at rss, rv_truncated := Some t\<rparr>, Some (length rss - 1))"
proof -
  have ne: "rss \<noteq> []" and len: "length ess = length rss"
    using assms(2) by (auto simp: laid_out_def list_all2_lengthD)
  then have keys: "[0..<length rss] = [0..<length rss - 1] @ [length rss - 1]" by (simp flip: upt_Suc_append)
  show thesis
    using recover_cut_at [OF assms(1-5), of "length rss - 1" files' "[]" r] that ne len assms(6)
    by (auto simp: keys last_conv_nth simp del: upt_Suc)
qed

text \<open>A new segment whose header was cut off.\<close>

lemma recover_cut_header:
  assumes "disk_lib_ok L" and "laid_out L key files ess rss" and "n < header_len"
    and "files' = omput (length rss) (take n (write_header (length rss) (key \<noteq> None))) files"
  shows "recover_segments L key log_start [0..<length rss + 1] files' r =
     Inr (omput (length rss) (write_header (length rss) (key \<noteq> None)) files,
       r\<lparr>rv_entries := rv_entries r @ concat ess, rv_to := ends_at (rss @ [[]]), rv_truncated := Some (HeaderIncomplete n)\<rparr>,
       Some (length rss))"
proof -
  let ?k = "length rss"
  have len: "length ess = length rss" using assms(2) by (auto simp: laid_out_def list_all2_lengthD)
  have "omput ?k h files' = omput ?k h files" for h using assms(4) by (intro omap_eqI) simp
  moreover have "scan L (take n (write_header ?k (key \<noteq> None))) s key =
      Inr \<lparr>sr_entries = [], sr_valid_end = header_len, sr_torn = Some (HeaderIncomplete n)\<rparr>" for s
    using assms(3) by (simp add: scan_def)
  ultimately have "recover_segments L key log_start [?k] files' r' =
      Inr (omput ?k (write_header ?k (key \<noteq> None)) files,
        r'\<lparr>rv_entries := rv_entries r', rv_to := ends_at (rss @ [[]]), rv_truncated := Some (HeaderIncomplete n)\<rparr>, Some ?k)" for r'
    using assms(4) by (simp add: log_start_def Let_def ends_at_def)
  then show ?thesis
    using recover_upto [OF assms(1,2) le_refl, of files' "[?k]" r] assms(4) len by simp
qed

definition recovery_from :: "log_position \<Rightarrow> recovery" where
  "recovery_from p = \<lparr>rv_entries = [], rv_from = p, rv_to = p, rv_truncated = None\<rparr>"

lemma recover_at_holds:
  assumes "recover_segments (disk_lib_of L) (wc_key (rw_config rw)) p (omkeys (dk_segments (rw_disk rw)))
      (dk_segments (rw_disk rw)) (recovery_from p) = Inr (files, r, dam)"
    and "omkeys (dk_segments (rw_disk rw)) \<noteq> []" and "\<And>m. dam = Some m \<Longrightarrow> \<forall>q \<in> set (omkeys (dk_segments (rw_disk rw))). q \<le> m"
    and "laid_out (disk_lib_of L) (wc_key (rw_config rw)) files ess rss" and "rv_to r = ends_at rss"
  shows "recover_at L p rw = (Inr (\<lparr>wl_config = rw_config rw, wl_position = ends_at rss, wl_checkpoint = rw_checkpoint rw,
      wl_disk = (rw_disk rw)\<lparr>dk_segments := files\<rparr>\<rparr>, r), (rw_disk rw)\<lparr>dk_segments := files\<rparr>)"
proof -
  let ?k = "length rss - 1"
  have ne: "rss \<noteq> []" and small: "?k \<le> u64_max" using assms(4) by (auto simp: laid_out_def)
  then have last_file: "omget files ?k = Some (seg_file (wc_key (rw_config rw)) ?k (last rss))"
    using assms(4) by (simp add: laid_out_def last_conv_nth)
  have orphaned: "(case dam of None \<Rightarrow> [] | Some s \<Rightarrow> filter (\<lambda>q. s < q) (omkeys (dk_segments (rw_disk rw)))) = []"
    using assms(3) by (cases dam) (fastforce simp: filter_empty_conv)+
  have rt: "r\<lparr>rv_to := ends_at rss\<rparr> = r" using assms(5) by (metis recovery.surjective recovery.update_convs(3) recovery.select_convs(3))
  show ?thesis
    using assms(1,2) orphaned last_file small
    by (simp add: recover_at_def recovery_from_def Let_def assms(5) seg_file_def ends_at_def rt [unfolded ends_at_def])
qed

lemma recover_genesis_holds:
  assumes "recover_segments (disk_lib_of L) (wc_key (rw_config rw)) log_start (omkeys (dk_segments (rw_disk rw)))
      (dk_segments (rw_disk rw)) blank_recovery = Inr (files, r, dam)"
    and "omkeys (dk_segments (rw_disk rw)) \<noteq> []" and "\<And>m. dam = Some m \<Longrightarrow> \<forall>q \<in> set (omkeys (dk_segments (rw_disk rw))). q \<le> m"
    and "laid_out (disk_lib_of L) (wc_key (rw_config rw)) files ess rss"
    and "rv_to r = ends_at rss" and "rv_entries r = concat ess"
  obtains w' where "recover_from_genesis L rw = (Inr (w', r), wl_disk w')"
    and "wal_holds L w' (rv_entries r)" and "wl_config w' = rw_config rw"
proof -
  let ?w = "\<lparr>wl_config = rw_config rw, wl_position = ends_at rss, wl_checkpoint = rw_checkpoint rw,
      wl_disk = (rw_disk rw)\<lparr>dk_segments := files\<rparr>\<rparr>"
  have "blank_recovery = recovery_from log_start" by (simp add: blank_recovery_def recovery_from_def)
  then have "recover_from_genesis L rw = (Inr (?w, r), wl_disk ?w)"
    unfolding recover_from_genesis_def using recover_at_holds [of L rw log_start, OF _ assms(2-5)] assms(1) by simp
  moreover have "wal_holds L ?w (rv_entries r)"
    using assms(4,6) by (auto simp: wal_holds_def ends_at_def)
  ultimately show thesis by (intro that [of ?w]) simp_all
qed

lemma recover_skip:
  "(\<And>i. i \<in> set is \<Longrightarrow> i < lp_segment p) \<Longrightarrow> recover_segments L key p (is @ js) files r = recover_segments L key p js files r"
  by (induction "is") simp_all

text \<open>Recovery from where the log ends reads nothing.\<close>

lemma recover_at_end:
  assumes "disk_lib_ok (disk_lib_of L)" and "wal_holds L w es" and "rw_config rw = wl_config w"
    and "dk_segments (rw_disk rw) = dk_segments (wl_disk w)"
  shows "recover_at L (wl_position w) rw =
     (Inr (\<lparr>wl_config = wl_config w, wl_position = wl_position w, wl_checkpoint = rw_checkpoint rw, wl_disk = rw_disk rw\<rparr>,
        recovery_from (wl_position w)), rw_disk rw)"
proof -
  obtain ess rss where out: "laid_out (disk_lib_of L) (wc_key (wl_config w)) (dk_segments (wl_disk w)) ess rss"
    and pos: "wl_position w = ends_at rss"
    using assms(2) by (auto simp: wal_holds_def ends_at_def)
  let ?k = "length rss - 1"
  have ne: "rss \<noteq> []" using out by (simp add: laid_out_def)
  then have keys: "[0..<length rss] = [0..<?k] @ [?k]" by (simp flip: upt_Suc_append)
  have "recover_segments (disk_lib_of L) (wc_key (wl_config w)) (ends_at rss) ([?k] @ []) (dk_segments (wl_disk w)) (recovery_from (ends_at rss)) =
    recover_segments (disk_lib_of L) (wc_key (wl_config w)) (ends_at rss) [] (dk_segments (wl_disk w))
      ((recovery_from (ends_at rss))\<lparr>rv_entries := rv_entries (recovery_from (ends_at rss)) @ concat (map (\<lambda>_. []) [?k]),
        rv_to := (if [?k] = [] then rv_to (recovery_from (ends_at rss))
          else \<lparr>lp_segment = last [?k], lp_offset = header_len + length (concat (last rss @ []))\<rparr>)\<rparr>)"
    by (rule recover_clean [where pre = "\<lambda>_. last rss" and rs = "\<lambda>_. []", OF assms(1)])
      (use out ne in \<open>auto simp: laid_out_def ends_at_def last_conv_nth\<close>)
  then have last: "recover_segments (disk_lib_of L) (wc_key (wl_config w)) (ends_at rss) [?k] (dk_segments (wl_disk w)) (recovery_from (ends_at rss)) =
    Inr (dk_segments (wl_disk w), recovery_from (ends_at rss), None)"
    by (simp add: recovery_from_def ends_at_def del: recover_segments.simps(2))
  have "recover_segments (disk_lib_of L) (wc_key (wl_config w)) (ends_at rss) [0..<length rss] (dk_segments (wl_disk w)) (recovery_from (ends_at rss)) =
    Inr (dk_segments (wl_disk w), recovery_from (ends_at rss), None)"
    unfolding keys using last by (subst recover_skip) (simp_all add: ends_at_def del: recover_segments.simps(2))
  moreover have "(rw_disk rw)\<lparr>dk_segments := dk_segments (wl_disk w)\<rparr> = rw_disk rw"
    using assms(4) by simp
  ultimately show ?thesis
    using recover_at_holds [of L rw "ends_at rss" "dk_segments (wl_disk w)" "recovery_from (ends_at rss)" None ess rss]
      laid_out_keys [OF out] out ne by (simp add: assms(3,4) pos) (simp add: recovery_from_def flip: assms(4))
qed

text \<open>What a power failure during an append leaves: nothing of it, part of the header of a
  new segment, or part of what was written.\<close>

definition crash_leaves :: "'k wal_lib \<Rightarrow> (byte list \<times> log_entry) list \<Rightarrow> 'k wal \<Rightarrow> disk \<Rightarrow> bool" where
  "crash_leaves L ps w d \<longleftrightarrow>
     d = wl_disk w \<or>
     (\<exists>n < header_len. wc_segment_bytes (wl_config w) \<le> lp_offset (wl_position w) \<and>
        d = (wl_disk w)\<lparr>dk_segments := omput (lp_segment (wl_position w) + 1)
          (take n (write_header (lp_segment (wl_position w) + 1) (wc_key (wl_config w) \<noteq> None))) (dk_segments (wl_disk w))\<rparr>) \<or>
     (\<exists>buffer m. encode_batch (disk_lib_of L) (wc_key (wl_config w)) ps = Inr buffer \<and> m \<le> length buffer \<and>
        d = write_active (take m buffer) (roll_if_needed w))"

lemma take_concat_split:
  "m \<le> length (concat rs) \<Longrightarrow> \<exists>k \<le> length rs. take m (concat rs) = concat (take k rs) \<or>
     (\<exists>n. k < length rs \<and> 0 < n \<and> n < length (rs ! k) \<and> take m (concat rs) = concat (take k rs) @ take n (rs ! k))"
proof (induction rs arbitrary: m)
  case Nil
  then show ?case by simp
next
  case (Cons r rs)
  show ?case
  proof (cases "m < length r")
    case True
    then have "take m (concat (r # rs)) = (if m = 0 then concat (take 0 (r # rs)) else concat (take 0 (r # rs)) @ take m ((r # rs) ! 0))"
      by simp
    then show ?thesis using True
      by (intro exI [of _ 0]) (auto split: if_splits simp del: take_append)
  next
    case False
    have "m - length r \<le> length (concat rs)" using Cons.prems by simp
    from Cons.IH [OF this] obtain k where k: "k \<le> length rs" "take (m - length r) (concat rs) = concat (take k rs) \<or>
       (\<exists>n. k < length rs \<and> 0 < n \<and> n < length (rs ! k) \<and> take (m - length r) (concat rs) = concat (take k rs) @ take n (rs ! k))"
      by blast
    then show ?thesis using False by (intro exI [of _ "Suc k"]) auto
  qed
qed

lemma intact_recovers:
  assumes "disk_lib_ok (disk_lib_of L)" and "wal_holds L w es"
    and "rw_config rw = wl_config w" and "dk_segments (rw_disk rw) = dk_segments (wl_disk w)"
  obtains w' r where "recover_from_genesis L rw = (Inr (w', r), wl_disk w')" and "rv_entries r = es"
    and "wal_holds L w' es" and "wl_config w' = wl_config w"
proof -
  obtain ess rss where es: "es = concat ess"
    and out: "laid_out (disk_lib_of L) (wc_key (wl_config w)) (dk_segments (wl_disk w)) ess rss"
    using assms(2) by (auto simp: wal_holds_def)
  show thesis
    by (rule recover_genesis_holds [of L rw "dk_segments (wl_disk w)"
          "blank_recovery\<lparr>rv_entries := concat ess, rv_to := ends_at rss\<rparr>" None ess rss])
      (use out es that in \<open>auto simp: assms(3,4) laid_out_keys [OF out] recover_all [OF assms(1) out] blank_recovery_def laid_out_def\<close>)
qed

lemma cut_header_recovers:
  assumes "disk_lib_ok (disk_lib_of L)" and "wal_holds L w es" and "n < header_len"
    and "lp_segment (wl_position w) + 2 \<le> u64_max" and "rw_config rw = wl_config w"
    and "dk_segments (rw_disk rw) = omput (lp_segment (wl_position w) + 1)
      (take n (write_header (lp_segment (wl_position w) + 1) (wc_key (wl_config w) \<noteq> None))) (dk_segments (wl_disk w))"
  obtains w' r where "recover_from_genesis L rw = (Inr (w', r), wl_disk w')" and "rv_entries r = es"
    and "wal_holds L w' es" and "wl_config w' = wl_config w"
proof -
  obtain ess rss where es: "es = concat ess"
    and out: "laid_out (disk_lib_of L) (wc_key (wl_config w)) (dk_segments (wl_disk w)) ess rss"
    and pos: "lp_segment (wl_position w) = length rss - 1"
    using assms(2) by (auto simp: wal_holds_def)
  have n: "0 < length rss" using out by (simp add: laid_out_def)
  then have seg: "lp_segment (wl_position w) + 1 = length rss" and small: "length rss + 1 \<le> u64_max"
    using pos assms(4) by simp_all
  let ?key = "wc_key (wl_config w)"
  have files: "dk_segments (rw_disk rw) = omput (length rss) (take n (write_header (length rss) (?key \<noteq> None))) (dk_segments (wl_disk w))"
    unfolding assms(6) seg ..
  have keys: "omkeys (dk_segments (rw_disk rw)) = [0..<length rss + 1]"
    using out by (intro omkeys_upto) (auto simp: files laid_out_def)
  have found: "recover_segments (disk_lib_of L) (wc_key (rw_config rw)) log_start (omkeys (dk_segments (rw_disk rw)))
      (dk_segments (rw_disk rw)) blank_recovery =
    Inr (omput (length rss) (write_header (length rss) (?key \<noteq> None)) (dk_segments (wl_disk w)),
      blank_recovery\<lparr>rv_entries := rv_entries blank_recovery @ concat ess, rv_to := ends_at (rss @ [[]]),
        rv_truncated := Some (HeaderIncomplete n)\<rparr>, Some (length rss))"
    unfolding keys assms(5) by (rule recover_cut_header [OF assms(1) out assms(3) files])
  have laid: "laid_out (disk_lib_of L) (wc_key (rw_config rw))
      (omput (length rss) (write_header (length rss) (?key \<noteq> None)) (dk_segments (wl_disk w))) (ess @ [[]]) (rss @ [[]])"
    unfolding assms(5) by (rule laid_out_roll [OF out small])
  show thesis
    by (rule recover_genesis_holds [OF found _ _ laid])
      (use es assms(5) that in \<open>auto simp: keys blank_recovery_def\<close>)
qed

lemma cut_record_recovers:
  assumes "disk_lib_ok (disk_lib_of L)" and "wal_holds L w es"
    and "encodes (disk_lib_of L) (wc_key (wl_config w)) e c" and "0 < n" and "n < length c" and "rw_config rw = wl_config w"
    and "dk_segments (rw_disk rw) = dk_segments (write_active (take n c) w)"
  obtains w' r where "recover_from_genesis L rw = (Inr (w', r), wl_disk w')" and "rv_entries r = es"
    and "wal_holds L w' es" and "wl_config w' = wl_config w"
proof -
  obtain ess rss where es: "es = concat ess"
    and out: "laid_out (disk_lib_of L) (wc_key (wl_config w)) (dk_segments (wl_disk w)) ess rss"
    and pos: "lp_segment (wl_position w) = length rss - 1"
    using assms(2) by (auto simp: wal_holds_def)
  have n: "0 < length rss" using out by (simp add: laid_out_def)
  have "omget (dk_segments (wl_disk w)) (length rss - 1) = Some (seg_file (wc_key (wl_config w)) (length rss - 1) (last rss))"
    using out n by (simp add: laid_out_def last_conv_nth)
  then have files: "dk_segments (rw_disk rw) =
      omput (length rss - 1) (seg_file (wc_key (wl_config w)) (length rss - 1) (last rss) @ take n c) (dk_segments (wl_disk w))"
    by (simp add: assms(7) write_active_def pos omget_or_def)
  have keys: "omkeys (dk_segments (rw_disk rw)) = [0..<length rss]"
    using out n by (intro omkeys_upto) (auto simp: files laid_out_def)
  obtain t where t: "recover_segments (disk_lib_of L) (wc_key (wl_config w)) log_start [0..<length rss] (dk_segments (rw_disk rw)) blank_recovery =
     Inr (dk_segments (wl_disk w), blank_recovery\<lparr>rv_entries := rv_entries blank_recovery @ concat ess, rv_to := ends_at rss,
       rv_truncated := Some t\<rparr>, Some (length rss - 1))"
    using recover_cut_record [OF assms(1) out assms(3-5) files] .
  show thesis
    by (rule recover_genesis_holds [of L rw "dk_segments (wl_disk w)"
          "blank_recovery\<lparr>rv_entries := rv_entries blank_recovery @ concat ess, rv_to := ends_at rss, rv_truncated := Some t\<rparr>"
          "Some (length rss - 1)" ess rss])
      (use es out n t that in \<open>auto simp: assms(6) keys blank_recovery_def\<close>)
qed

text \<open>Whatever a crash leaves of an append, recovery finds the entries that were there and
  a prefix of the ones being appended.\<close>

lemma crash_recovers:
  assumes "disk_lib_ok (disk_lib_of L)" and "wal_holds L w es" and "batch_fits L ps w" and "crash_leaves L ps w d"
    and "rw_config rw = wl_config w" and "rw_disk rw = d"
  obtains k w' r where "recover_from_genesis L rw = (Inr (w', r), wl_disk w')"
    and "rv_entries r = es @ take k (map snd ps)" and "wal_holds L w' (rv_entries r)" and "wl_config w' = wl_config w"
proof -
  have seg: "lp_segment (wl_position w) + 2 \<le> u64_max" using assms(3) by (simp add: batch_fits_def)
  consider (none) "d = wl_disk w"
    | (header) n where "n < header_len" "dk_segments d = omput (lp_segment (wl_position w) + 1)
          (take n (write_header (lp_segment (wl_position w) + 1) (wc_key (wl_config w) \<noteq> None))) (dk_segments (wl_disk w))"
    | (records) buffer m where "encode_batch (disk_lib_of L) (wc_key (wl_config w)) ps = Inr buffer" "m \<le> length buffer"
        "d = write_active (take m buffer) (roll_if_needed w)"
    using assms(4) unfolding crash_leaves_def by fastforce
  then show thesis
  proof cases
    case none
    show thesis
      by (rule intact_recovers [OF assms(1,2,5)]) (use none assms(6) that [of _ _ 0] in auto)
  next
    case (header n)
    show thesis
      by (rule cut_header_recovers [OF assms(1,2) header(1) seg assms(5)]) (use header assms(6) that [of _ _ 0] in auto)
  next
    case (records buffer m)
    let ?w = "roll_if_needed w"
    obtain rs where rs: "buffer = concat rs" "list_all2 (encodes (disk_lib_of L) (wc_key (wl_config w))) (map snd ps) rs"
      using encode_batch_records [OF records(1)] assms(3) unfolding batch_fits_def by blast
    obtain k where k: "k \<le> length rs" and cut: "take m buffer = concat (take k rs) \<or> (\<exists>n. k < length rs \<and> 0 < n \<and>
        n < length (rs ! k) \<and> take m buffer = concat (take k rs) @ take n (rs ! k))"
      using take_concat_split [of m rs] records(2) rs(1) by auto
    have "length (concat (take k rs)) \<le> length buffer"
      using rs(1) by (metis append_take_drop_id concat_append le_add1 length_append)
    then have off: "lp_offset (wl_position ?w) + length (concat (take k rs)) \<le> u64_max"
      using assms(3) records(1) unfolding batch_fits_def by (meson add_le_cancel_left le_trans)
    define w1 where "w1 = ?w\<lparr>wl_disk := write_active (concat (take k rs)) ?w, wl_position := (wl_position ?w)
        \<lparr>lp_offset := wrap64 (lp_offset (wl_position ?w) + length (concat (take k rs)))\<rparr>\<rparr>"
    have "list_all2 (encodes (disk_lib_of L) (wc_key (wl_config ?w))) (take k (map snd ps)) (take k rs)"
      using rs(2) by simp
    then have w1: "wal_holds L w1 (es @ take k (map snd ps))"
      using wal_holds_write [OF wal_holds_roll [OF assms(2) seg] _ off] by (simp add: w1_def)
    have config: "wl_config w1 = wl_config w" by (simp add: w1_def)
    from cut show thesis
    proof
      assume "take m buffer = concat (take k rs)"
      then have "dk_segments (rw_disk rw) = dk_segments (wl_disk w1)" using records(3) assms(6) by (simp add: w1_def)
      then show thesis
        by (rule intact_recovers [OF assms(1) w1 assms(5) [folded config]]) (use config that in auto)
    next
      assume "\<exists>n. k < length rs \<and> 0 < n \<and> n < length (rs ! k) \<and> take m buffer = concat (take k rs) @ take n (rs ! k)"
      then obtain n where n: "k < length rs" "0 < n" "n < length (rs ! k)" "take m buffer = concat (take k rs) @ take n (rs ! k)" by blast
      have "encodes (disk_lib_of L) (wc_key (wl_config w1)) (map snd ps ! k) (rs ! k)"
        using list_all2_nthD2 [OF rs(2) n(1)] config by simp
      moreover have "dk_segments (rw_disk rw) = dk_segments (write_active (take n (rs ! k)) w1)"
        using n(4) records(3) assms(6) by (simp add: w1_def write_active_def) (rule omap_eqI, simp add: omget_or_def split: option.splits)
      ultimately show thesis
        using cut_record_recovers [OF assms(1) w1 _ n(2,3) assms(5) [folded config]] config that by metis
    qed
  qed
qed

section \<open>A log that crashes and recovers\<close>

text \<open>The log \<open>w\<close> may hold the entries \<open>es\<close>: created empty, appended to, checkpointed, with a
  snapshot file written beside it, or recovered from what a crash left of an append.\<close>

inductive wal_reach :: "'k wal_lib \<Rightarrow> 'k wal_config \<Rightarrow> 'k wal \<Rightarrow> log_entry list \<Rightarrow> bool" for L c where
  created: "recover_from_genesis L \<lparr>rw_config = c, rw_checkpoint = checkpoint_default,
      rw_disk = \<lparr>dk_segments = omempty, dk_checkpoint = None, dk_snapshot = None\<rparr>\<rparr> = (Inr (w, r), d) \<Longrightarrow> wal_reach L c w []"
| appended: "wal_reach L c w es \<Longrightarrow> batch_fits L ps w \<Longrightarrow> append_batch L ps w = (Inr p, w') \<Longrightarrow>
    wal_reach L c w' (es @ map snd ps)"
| refused: "wal_reach L c w es \<Longrightarrow> batch_fits L ps w \<Longrightarrow> append_batch L ps w = (Inl err, w') \<Longrightarrow> wal_reach L c w' es"
| checkpointed: "wal_reach L c w es \<Longrightarrow> wal_reach L c (wal_checkpoint L p n w) es"
| snapshotted: "wal_reach L c w es \<Longrightarrow> wal_reach L c (w\<lparr>wl_disk := (wl_disk w)\<lparr>dk_snapshot := x\<rparr>\<rparr>) es"
| recovered: "wal_reach L c w es \<Longrightarrow> batch_fits L ps w \<Longrightarrow> crash_leaves L ps w d \<Longrightarrow> wal_open L c d = Inr rw \<Longrightarrow>
    recover_from_genesis L rw = (Inr (w', r), d') \<Longrightarrow> wal_reach L c w' (rv_entries r)"

definition checkpoint_readable :: "'k wal_lib \<Rightarrow> disk \<Rightarrow> bool" where
  "checkpoint_readable L d \<longleftrightarrow> (\<exists>cp. read_checkpoint L d = Inr cp)"

definition checkpoints_parse :: "'k wal_lib \<Rightarrow> bool" where
  "checkpoints_parse L \<longleftrightarrow> (\<forall>cp. wb_cp_parse L (wb_cp_json L cp) = Inr cp)"

lemma created_holds:
  assumes "recover_from_genesis L \<lparr>rw_config = c, rw_checkpoint = cp,
      rw_disk = \<lparr>dk_segments = omempty, dk_checkpoint = None, dk_snapshot = None\<rparr>\<rparr> = (Inr (w, r), d)"
  shows "wal_holds L w []" and "wl_config w = c" and "dk_checkpoint (wl_disk w) = None"
proof -
  have w: "w = \<lparr>wl_config = c, wl_position = log_start, wl_checkpoint = cp,
      wl_disk = \<lparr>dk_segments = omput 0 (write_header 0 (wc_key c \<noteq> None)) omempty, dk_checkpoint = None, dk_snapshot = None\<rparr>\<rparr>"
    using assms by (auto simp: recover_from_genesis_def recover_at_def om_eval create_segment_def omget_or_def log_start_def Let_def)
  show "wal_holds L w []"
    unfolding wal_holds_def w
    by (intro exI [of _ "[[]]"]) (auto simp: laid_out_def seg_file_def log_start_def)
  show "wl_config w = c" "dk_checkpoint (wl_disk w) = None" by (simp_all add: w)
qed

lemma append_batch_frame:
  assumes "append_batch L ps w = (res, w')"
  shows "wl_config w' = wl_config w" and "dk_checkpoint (wl_disk w') = dk_checkpoint (wl_disk w)"
  using assms
  by (auto simp: append_batch_def Let_def write_active_def roll_if_needed_def create_segment_def split: if_splits sum.splits)

lemma crash_frame: "crash_leaves L ps w d \<Longrightarrow> dk_checkpoint d = dk_checkpoint (wl_disk w)"
  by (auto simp: crash_leaves_def write_active_def roll_if_needed_def create_segment_def)

lemma recover_frame:
  assumes "recover_from_genesis L rw = (res, d)"
  shows "dk_checkpoint d = dk_checkpoint (rw_disk rw)"
  using assms
  by (auto simp: recover_from_genesis_def recover_at_def Let_def create_segment_def
      split: if_splits sum.splits option.splits prod.splits)

lemma wal_open_config: "wal_open L c d = Inr rw \<Longrightarrow> rw_config rw = c \<and> rw_disk rw = d"
  by (auto simp: wal_open_def map_sum_def split: sum.splits)

lemma wal_holds_checkpoint [simp]: "wal_holds L (wal_checkpoint L p n w) es = wal_holds L w es"
  by (simp add: wal_holds_def wal_checkpoint_def Let_def)

lemma wal_holds_snapshot [simp]: "wal_holds L (w\<lparr>wl_disk := (wl_disk w)\<lparr>dk_snapshot := x\<rparr>\<rparr>) es = wal_holds L w es"
  by (simp add: wal_holds_def)

lemma wal_reach_holds:
  assumes "disk_lib_ok (disk_lib_of L)" and "checkpoints_parse L" and "wal_reach L c w es"
  shows "wal_holds L w es \<and> wl_config w = c \<and> checkpoint_readable L (wl_disk w)"
  using assms(3)
proof (induction rule: wal_reach.induct)
  case (created w r d)
  then show ?case using created_holds [OF created] by (simp add: checkpoint_readable_def read_checkpoint_def)
next
  case (appended w es ps p w')
  then show ?case
    using append_batch_holds [of L w es ps "Inr p" w'] append_batch_frame [of L ps w "Inr p" w']
    by (simp add: checkpoint_readable_def read_checkpoint_def)
next
  case (refused w es ps err w')
  then show ?case
    using append_batch_holds [of L w es ps "Inl err" w'] append_batch_frame [of L ps w "Inl err" w']
    by (simp add: checkpoint_readable_def read_checkpoint_def)
next
  case (checkpointed w es p n)
  then show ?case
    using assms(2) wal_holds_checkpoint
    by (simp add: checkpoint_readable_def read_checkpoint_def checkpoints_parse_def) (simp add: wal_checkpoint_def Let_def)
next
  case (snapshotted w es x)
  then show ?case by (simp add: checkpoint_readable_def read_checkpoint_def)
next
  case (recovered w es ps d rw w' r d')
  then have rw: "rw_config rw = wl_config w" "rw_disk rw = d" using wal_open_config by metis+
  obtain k w1 r1 where "recover_from_genesis L rw = (Inr (w1, r1), wl_disk w1)" and "wal_holds L w1 (rv_entries r1)"
    and "wl_config w1 = wl_config w"
    using crash_recovers [OF assms(1) conjunct1 [OF recovered.IH] recovered.hyps(2,3) rw] by blast
  then show ?case
    using recovered crash_frame [OF recovered.hyps(3)] recover_frame [OF recovered.hyps(5)] rw
    by (auto simp: checkpoint_readable_def read_checkpoint_def)
qed

lemma wal_recovers:
  assumes "disk_lib_ok (disk_lib_of L)" and "checkpoints_parse L" and "wal_reach L c w es"
    and "batch_fits L ps w" and "crash_leaves L ps w d"
  shows "\<exists>rw k w' r. wal_open L c d = Inr rw \<and> recover_from_genesis L rw = (Inr (w', r), wl_disk w') \<and>
    rv_entries r = es @ take k (map snd ps) \<and> wal_reach L c w' (es @ take k (map snd ps))"
proof -
  have w: "wal_holds L w es" "wl_config w = c" "checkpoint_readable L (wl_disk w)"
    using wal_reach_holds [OF assms(1-3)] by auto
  then obtain rw where rw: "wal_open L c d = Inr rw"
    using crash_frame [OF assms(5)] by (auto simp: wal_open_def checkpoint_readable_def read_checkpoint_def)
  then have "rw_config rw = wl_config w" "rw_disk rw = d" using wal_open_config w(2) by auto
  then obtain k w' r where "recover_from_genesis L rw = (Inr (w', r), wl_disk w')" and r: "rv_entries r = es @ take k (map snd ps)"
    using crash_recovers [OF assms(1) w(1) assms(4,5)] by blast
  then show ?thesis using rw wal_reach.recovered [OF assms(3-5) rw] r by metis
qed

text \<open>C31: No acknowledged entry is lost.  Whatever a power failure leaves of the append in
  progress, at any byte, and however many failures came before, the log opens again and
  replays every entry whose append was acknowledged, in order and unchanged, and after them
  at most a prefix of the batch that was being written; nothing else.\<close>

theorem wal_recovers_acknowledged:
  assumes "disk_lib_ok (disk_lib_of L)" and "checkpoints_parse L" and "wal_reach L c w es"
    and "batch_fits L ps w" and "crash_leaves L ps w d"
  shows "\<exists>rw k w' r. wal_open L c d = Inr rw \<and> recover_from_genesis L rw = (Inr (w', r), wl_disk w') \<and>
    rv_entries r = es @ take k (map snd ps) \<and> wal_reach L c w' (es @ take k (map snd ps))"
  using assms by (rule wal_recovers)

text \<open>A library for a log of one kind of entry, with checkpoints written in unary.\<close>

definition unary :: "nat \<Rightarrow> byte list" where
  "unary n = replicate n 1 @ [0]"

definition read_unary :: "byte list \<Rightarrow> nat \<times> byte list" where
  "read_unary bs = (length (takeWhile (\<lambda>b. b = 1) bs), tl (dropWhile (\<lambda>b. b = 1) bs))"

lemma read_unary_unary [simp]: "read_unary (unary n @ bs) = (n, bs)"
  by (simp add: read_unary_def unary_def takeWhile_append dropWhile_append)

abbreviation sample_write :: log_entry where
  "sample_write \<equiv> sample_entry zero_hash 1"

definition sample_lib :: "unit wal_lib" where
  "sample_lib = \<lparr>dl_json = (\<lambda>e. if e = sample_write then Some [7] else None), dl_parse = (\<lambda>_. Inr sample_write),
     dl_crc = (\<lambda>_. 0), dl_encrypt = (\<lambda>_ _ _. None), dl_decrypt = (\<lambda>_ _ _. None),
     wb_cp_json = (\<lambda>cp. unary (cp_format cp) @ unary (lp_segment (cp_position cp)) @ unary (lp_offset (cp_position cp)) @ unary (cp_applied cp)),
     wb_cp_parse = (\<lambda>bs. let (f, r) = read_unary bs; (s, r) = read_unary r; (p, r) = read_unary r; (a, r) = read_unary r
       in Inr \<lparr>cp_format = f, cp_position = \<lparr>lp_segment = s, lp_offset = p\<rparr>, cp_applied = a\<rparr>)\<rparr>"

lemma sample_lib_ok: "disk_lib_ok (disk_lib_of sample_lib)" "checkpoints_parse sample_lib"
proof -
  show "disk_lib_ok (disk_lib_of sample_lib)"
    by (auto simp: disk_lib_ok_def sample_lib_def disk_lib.defs split: if_splits)
  have "read_unary (unary n) = (n, [])" for n
    using read_unary_unary [of n "[]"] by simp
  then show "checkpoints_parse sample_lib"
    by (simp add: checkpoints_parse_def sample_lib_def)
qed

definition sample_wal :: "unit wal" where
  "sample_wal = \<lparr>wl_config = wal_config_new, wl_position = log_start, wl_checkpoint = checkpoint_default,
     wl_disk = \<lparr>dk_segments = omput 0 (write_header 0 False) omempty, dk_checkpoint = None, dk_snapshot = None\<rparr>\<rparr>"

lemma sample_wal_reach: "wal_reach sample_lib wal_config_new sample_wal []"
  by (rule wal_reach.created) (simp add: recover_from_genesis_def recover_at_def om_eval create_segment_def omget_or_def
      sample_wal_def wal_config_new_def log_start_def)

lemma sample_encoded: "encode_record (disk_lib_of sample_lib) None nonce sample_write = Inr (le_bytes 4 1 @ le_bytes 4 0 @ [7])"
  by (simp add: encode_record_def sample_lib_def disk_lib.defs wrap32_def)

lemma sample_record: "encode_batch (disk_lib_of sample_lib) None [(nonce, sample_write)] = Inr (le_bytes 4 1 @ le_bytes 4 0 @ [7])"
  by (simp add: sample_encoded del: One_nat_def)

lemma sample_crash:
  "crash_leaves sample_lib [(replicate nonce_bytes 0, sample_write)] sample_wal
     (write_active (take 5 (le_bytes 4 1 @ le_bytes 4 0 @ [7])) sample_wal)"
  "batch_fits sample_lib [(replicate nonce_bytes 0, sample_write)] sample_wal"
proof -
  have roll: "roll_if_needed sample_wal = sample_wal"
    by (simp add: roll_if_needed_def sample_wal_def wal_config_new_def log_start_def header_len_def)
  show "crash_leaves sample_lib [(replicate nonce_bytes 0, sample_write)] sample_wal
      (write_active (take 5 (le_bytes 4 1 @ le_bytes 4 0 @ [7])) sample_wal)"
    unfolding crash_leaves_def roll
    by (intro disjI2 exI [of _ "le_bytes 4 1 @ le_bytes 4 0 @ [7]"] exI [of _ 5])
      (simp add: sample_record sample_wal_def wal_config_new_def del: One_nat_def encode_batch.simps)
  show "batch_fits sample_lib [(replicate nonce_bytes 0, sample_write)] sample_wal"
    by (auto simp: batch_fits_def roll_if_needed_def sample_wal_def wal_config_new_def log_start_def header_len_def record_prefix_len_def
        sample_encoded simp del: One_nat_def)
qed

lemma wal_recovers_acknowledged_witness:
  "\<exists>rw k w' r. wal_open sample_lib wal_config_new (write_active (take 5 (le_bytes 4 1 @ le_bytes 4 0 @ [7])) sample_wal) = Inr rw \<and>
     recover_from_genesis sample_lib rw = (Inr (w', r), wl_disk w') \<and> rv_entries r = [] @ take k [sample_write] \<and>
     wal_reach sample_lib wal_config_new w' ([] @ take k [sample_write])"
proof -
  show ?thesis
    using wal_recovers_acknowledged [OF sample_lib_ok sample_wal_reach sample_crash(2,1)] unfolding list.map snd_conv .
qed

text \<open>A segment damaged in the middle of the log is refused because records after it can no
  longer be chained to, but its repair is written first.  The next opening finds no damage
  and replays the later segments behind the gap.\<close>

theorem orphaned_segments_are_refused_once:
  assumes "disk_lib_ok (disk_lib_of L)" and "laid_out (disk_lib_of L) (wc_key (rw_config rw)) files ess rss"
    and "encodes (disk_lib_of L) (wc_key (rw_config rw)) e c" and "0 < n" and "n < length c" and "Suc i < length rss"
    and "dk_segments (rw_disk rw) = omput i (seg_file (wc_key (rw_config rw)) i (rss ! i) @ take n c) files"
  shows "\<exists>later d w' r. recover_from_genesis L rw = (Inl (OrphanedSegments i later), d) \<and>
    recover_from_genesis L (rw\<lparr>rw_disk := d\<rparr>) = (Inr (w', r), wl_disk w') \<and> rv_entries r = concat ess"
proof -
  let ?key = "wc_key (rw_config rw)"
  have keys: "omkeys (dk_segments (rw_disk rw)) = [0..<length rss]"
    using assms(2,6) by (intro omkeys_upto) (auto simp: assms(7) laid_out_def)
  have split: "[0..<length rss] = [0..<i] @ i # [Suc i..<length rss]"
    using assms(6) by (metis Suc_lessD less_imp_le_nat upt_conv_Cons upt_add_eq_append le_add_diff_inverse zero_le)
  obtain t where t: "recover_segments (disk_lib_of L) ?key log_start ([0..<i] @ i # [Suc i..<length rss]) (dk_segments (rw_disk rw)) blank_recovery =
     Inr (files, blank_recovery\<lparr>rv_entries := rv_entries blank_recovery @ concat (take (Suc i) ess),
       rv_to := ends_at (take (Suc i) rss), rv_truncated := Some t\<rparr>, Some i)"
    using recover_cut_at [OF assms(1-5) Suc_lessD [OF assms(6)] assms(7)] by blast
  let ?d = "(rw_disk rw)\<lparr>dk_segments := files\<rparr>"
  have ne: "rss \<noteq> []" using assms(6) by auto
  have "filter (\<lambda>q. i < q) [0..<length rss] \<noteq> []" using assms(6) by (auto simp: filter_empty_conv)
  then have refused: "recover_from_genesis L rw =
      (Inl (OrphanedSegments i (join_with '', '' (map show_nat (filter (\<lambda>q. i < q) [0..<length rss])))), ?d)"
    using t [folded split] assms(6) ne
    by (simp add: recover_from_genesis_def recover_at_def keys Let_def flip: blank_recovery_def)
  obtain w' r where "recover_from_genesis L (rw\<lparr>rw_disk := ?d\<rparr>) = (Inr (w', r), wl_disk w')" and "rv_entries r = concat ess"
    by (rule recover_genesis_holds [of L "rw\<lparr>rw_disk := ?d\<rparr>" files
          "blank_recovery\<lparr>rv_entries := concat ess, rv_to := ends_at rss\<rparr>" None ess rss])
      (use assms(2) in \<open>auto simp: laid_out_keys [OF assms(2)] recover_all [OF assms(1,2)] blank_recovery_def laid_out_def\<close>)
  then show ?thesis using refused by blast
qed

end
