(* ===== verification/Store_Durable.thy ===== *)
theory Store_Durable
  imports Store_Wal Store_View
begin

text \<open>
  The durable log store (\<open>theta-storage/src/durable.rs\<close>): the write-ahead log, its entries
  and heads in memory, and the views of the branches folded in step with it.  The entries
  and heads are a \<open>mem_log\<close>, so that walks are shared with the log in memory.  The JSON of
  a snapshot and the nonces drawn for the record and for the snapshot after the \<open>n\<close>-th
  entry are fields of the record \<open>store_lib\<close>.  A branch's view is that of
  \<open>Store_View\<close>, for the value encoding \<open>enc\<close>.
\<close>

section \<open>State\<close>

type_synonym branch_views = "(nat, view) omap"

record 'k store_lib = "'k wal_lib" +
  sl_snapshot_json :: "nat \<Rightarrow> branch_views \<Rightarrow> byte list"
  sl_snapshot_parse :: "byte list \<Rightarrow> (nat \<times> branch_views) option"
  sl_record_nonce :: "nat \<Rightarrow> byte list"
  sl_snapshot_nonce :: "nat \<Rightarrow> byte list"

abbreviation wal_lib_of :: "'k store_lib \<Rightarrow> 'k wal_lib" where
  "wal_lib_of L \<equiv> wal_lib.truncate L"

record 'k durable =
  du_wal :: "'k wal"
  du_log :: mem_log
  du_since :: nat
  du_interval :: nat
  du_applied :: nat

record 'k opened =
  op_store :: "'k durable"
  op_views :: branch_views
  op_recovery :: recovery

definition opened_view :: "'k opened \<Rightarrow> nat \<Rightarrow> view" where
  "opened_view o' br = omget_or view_new (op_views o') br"

definition default_checkpoint_interval :: nat where
  "default_checkpoint_interval = 1000"

definition snapshot_sealed_magic :: "byte list" where
  "snapshot_sealed_magic = map (\<lambda>c. word_of_nat (of_char c)) ''THETASNAPSEALED1''"

section \<open>Snapshots\<close>

definition strip_prefix :: "byte list \<Rightarrow> byte list \<Rightarrow> byte list option" where
  "strip_prefix p bs = (if take (length p) bs = p then Some (drop (length p) bs) else None)"

definition read_view_snapshot :: "'k store_lib \<Rightarrow> 'k option \<Rightarrow> disk \<Rightarrow> (nat \<times> branch_views) option" where
  "read_view_snapshot L key d =
     (case dk_snapshot d of
        None \<Rightarrow> None
      | Some raw \<Rightarrow>
          (case (case strip_prefix snapshot_sealed_magic raw of
                   Some sealed \<Rightarrow>
                     (case key of
                        None \<Rightarrow> None
                      | Some k \<Rightarrow> (case key_open (disk_lib_of (wal_lib_of L)) k sealed of Inl _ \<Rightarrow> None | Inr plaintext \<Rightarrow> Some plaintext))
                 | None \<Rightarrow> Some raw) of
             None \<Rightarrow> None
           | Some plaintext \<Rightarrow>
               map_option (\<lambda>(applied, views). (applied, ommap (\<lambda>_. rebuild_indexes) views))
                 (sl_snapshot_parse L plaintext)))"

definition write_view_snapshot ::
  "'k store_lib \<Rightarrow> nat \<Rightarrow> branch_views \<Rightarrow> 'k option \<Rightarrow> disk \<Rightarrow> (storage_error + unit) \<times> disk" where
  "write_view_snapshot L applied views key d =
     (let body = sl_snapshot_json L applied views in
      case key of
        None \<Rightarrow> (Inr (), d\<lparr>dk_snapshot := Some body\<rparr>)
      | Some k \<Rightarrow>
          (case key_seal (disk_lib_of (wal_lib_of L)) k (sl_snapshot_nonce L applied) body of
             Inl err \<Rightarrow> (Inl err, d)
           | Inr sealed \<Rightarrow> (Inr (), d\<lparr>dk_snapshot := Some (snapshot_sealed_magic @ sealed)\<rparr>)))"

section \<open>Appending\<close>

definition du_index :: "codec \<Rightarrow> log_entry \<Rightarrow> mem_log \<Rightarrow> mem_log" where
  "du_index D e l =
     l\<lparr>ml_entries := omput (entry_hash D e) e (ml_entries l), ml_heads := (ml_heads l)(le_branch e \<mapsto> entry_hash D e)\<rparr>"

text \<open>A new branch inherits the present view of the branch that owns the commit it forks from.\<close>

definition seed_branch_view :: "mem_log \<Rightarrow> log_entry \<Rightarrow> branch_views \<Rightarrow> branch_views" where
  "seed_branch_view l e views =
     (case le_op e of
        BranchCreate _ from' \<Rightarrow>
          omput (le_branch e)
            (case log_get l from' of
               None \<Rightarrow> view_new
             | Some parent \<Rightarrow> omget_or view_new views (le_branch parent)) views
      | _ \<Rightarrow> views)"

definition fold_into :: "(val \<Rightarrow> byte list) \<Rightarrow> log_entry \<Rightarrow> branch_views \<Rightarrow> branch_views" where
  "fold_into enc e views = omput (le_branch e) (view_apply enc e (omget_or view_new views (le_branch e))) views"

definition du_checkpoint ::
  "'k store_lib \<Rightarrow> branch_views \<Rightarrow> 'k durable \<Rightarrow> (storage_error + unit) \<times> 'k durable" where
  "du_checkpoint L views s =
     (case write_view_snapshot L (du_applied s) views (wc_key (wl_config (du_wal s))) (wl_disk (du_wal s)) of
        (Inl err, d) \<Rightarrow> (Inl err, s\<lparr>du_wal := (du_wal s)\<lparr>wl_disk := d\<rparr>\<rparr>)
      | (Inr _, d) \<Rightarrow>
          (Inr (), s\<lparr>du_wal := wal_checkpoint (wal_lib_of L) (wl_position (du_wal s)) (du_applied s)
                        ((du_wal s)\<lparr>wl_disk := d\<rparr>),
                     du_since := 0\<rparr>))"

definition du_expected :: "'k durable \<Rightarrow> nat \<Rightarrow> hash" where
  "du_expected s br = (case log_head (du_log s) br of None \<Rightarrow> zero_hash | Some h \<Rightarrow> h)"

definition append_and_apply ::
  "codec \<Rightarrow> (val \<Rightarrow> byte list) \<Rightarrow> 'k store_lib \<Rightarrow> log_entry \<Rightarrow> branch_views \<Rightarrow> 'k durable \<Rightarrow>
     (storage_error + hash) \<times> branch_views \<times> 'k durable" where
  "append_and_apply D enc L e views s =
     (if le_prev e \<noteq> du_expected s (le_branch e)
      then (Inl (HeadMoved (to_hex (le_prev e)) (to_hex (du_expected s (le_branch e)))), views, s)
      else
        (case wal_append (wal_lib_of L) (sl_record_nonce L (du_applied s)) e (du_wal s) of
           (Inl err, w) \<Rightarrow> (Inl err, views, s\<lparr>du_wal := w\<rparr>)
         | (Inr _, w) \<Rightarrow>
             let views = fold_into enc e (seed_branch_view (du_log s) e views);
                 s = s\<lparr>du_wal := w, du_log := du_index D e (du_log s), du_applied := wrap64 (du_applied s + 1),
                       du_since := wrap64 (du_since s + 1)\<rparr>
             in if du_interval s \<le> du_since s
                then (case du_checkpoint L views s of
                        (Inl err, s) \<Rightarrow> (Inl err, views, s)
                      | (Inr _, s) \<Rightarrow> (Inr (entry_hash D e), views, s))
                else (Inr (entry_hash D e), views, s)))"

text \<open>The trait's plain append folds into no view.\<close>

definition du_append :: "codec \<Rightarrow> 'k store_lib \<Rightarrow> log_entry \<Rightarrow> 'k durable \<Rightarrow> (storage_error + hash) \<times> 'k durable" where
  "du_append D L e s =
     (if le_prev e \<noteq> du_expected s (le_branch e)
      then (Inl (HeadMoved (to_hex (le_prev e)) (to_hex (du_expected s (le_branch e)))), s)
      else
        (case wal_append (wal_lib_of L) (sl_record_nonce L (du_applied s)) e (du_wal s) of
           (Inl err, w) \<Rightarrow> (Inl err, s\<lparr>du_wal := w\<rparr>)
         | (Inr _, w) \<Rightarrow>
             (Inr (entry_hash D e),
              s\<lparr>du_wal := w, du_log := du_index D e (du_log s), du_applied := wrap64 (du_applied s + 1),
                du_since := wrap64 (du_since s + 1)\<rparr>)))"

definition du_set_head :: "nat \<Rightarrow> hash \<Rightarrow> 'k durable \<Rightarrow> 'k durable" where
  "du_set_head br h s = s\<lparr>du_log := log_set_head br h (du_log s)\<rparr>"

definition with_checkpoint_interval :: "nat \<Rightarrow> 'k durable \<Rightarrow> 'k durable" where
  "with_checkpoint_interval n s = s\<lparr>du_interval := max n 1\<rparr>"

section \<open>Walks\<close>

text \<open>\<open>chain\<close> and \<open>schema_chain\<close> stop at a gap; the fuel is one step per entry held.\<close>

fun chain_walk :: "nat \<Rightarrow> mem_log \<Rightarrow> (log_entry \<Rightarrow> bool) \<Rightarrow> hash option \<Rightarrow> log_entry list \<Rightarrow> log_entry list option" where
  "chain_walk n l keep None walked = Some walked"
| "chain_walk n l keep (Some h) walked =
     (if hash_is_zero h then Some walked
      else case log_get l h of
        None \<Rightarrow> Some walked
      | Some e \<Rightarrow>
          (case n of
             0 \<Rightarrow> None
           | Suc k \<Rightarrow> chain_walk k l keep (Some (le_prev e)) (if keep e then walked @ [e] else walked)))"

declare chain_walk.simps [simp del]

definition is_schema_op :: "op_type \<Rightarrow> bool" where
  "is_schema_op op = (case op of SchemaOp _ \<Rightarrow> True | _ \<Rightarrow> False)"

definition du_chain :: "'k durable \<Rightarrow> nat \<Rightarrow> log_entry list option" where
  "du_chain s br =
     map_option rev (chain_walk (length (omlist (ml_entries (du_log s)))) (du_log s) (\<lambda>_. True) (log_head (du_log s) br) [])"

definition du_schema_chain :: "'k durable \<Rightarrow> nat \<Rightarrow> log_entry list option" where
  "du_schema_chain s br =
     map_option rev (chain_walk (length (omlist (ml_entries (du_log s)))) (du_log s) (\<lambda>e. is_schema_op (le_op e))
       (log_head (du_log s) br) [])"

text \<open>Where the walk of the trait's \<open>history\<close> arrives, so does \<open>chain_walk\<close>, with the entries kept.\<close>

lemma chain_walk_history:
  "history_walk n l None h = Some (Inr es) \<Longrightarrow> chain_walk n l keep (Some h) walked = Some (walked @ filter keep es)"
proof (induction n arbitrary: h es walked)
  case 0
  then show ?case by (subst (asm) history_walk.simps) (subst chain_walk.simps, auto split: if_splits)
next
  case (Suc n)
  show ?case
  proof (cases "hash_is_zero h")
    case True
    then show ?thesis using Suc.prems by (subst (asm) history_walk.simps) (subst chain_walk.simps, auto)
  next
    case False
    then have walk: "history_walk (Suc n) l None h = (case omget (ml_entries l) h of
        None \<Rightarrow> Some (Inl (UnknownCommit (to_hex h)))
      | Some e \<Rightarrow> map_option (map_sum id ((#) e)) (history_walk n l None (le_prev e)))"
      by (subst history_walk.simps) simp
    then obtain e es' where e: "omget (ml_entries l) h = Some e" and rest: "history_walk n l None (le_prev e) = Some (Inr es')" "es = e # es'"
    proof -
      obtain e where e: "omget (ml_entries l) h = Some e"
        using Suc.prems walk by (cases "omget (ml_entries l) h") auto
      then obtain x where x: "history_walk n l None (le_prev e) = Some x"
        using Suc.prems walk by (cases "history_walk n l None (le_prev e)") auto
      then show thesis using Suc.prems walk e that by (cases x) auto
    qed
    then show ?thesis
      using False Suc.IH [OF rest(1)] by (subst chain_walk.simps) (auto simp: log_get_def)
  qed
qed

section \<open>Opening\<close>

text \<open>What \<open>assemble\<close> carries along the replay: the store's log, the views, the branches
  begun and the count of entries.\<close>

record assembly =
  as_log :: mem_log
  as_views :: branch_views
  as_started :: "nat set"
  as_applied :: nat

definition assemble_entry :: "codec \<Rightarrow> (val \<Rightarrow> byte list) \<Rightarrow> bool \<Rightarrow> log_entry \<Rightarrow> assembly \<Rightarrow> storage_error + assembly" where
  "assemble_entry D enc from_genesis e a =
     (let first = le_branch e \<notin> as_started a;
          links = (le_prev e = zero_hash \<or> log_get (as_log a) (le_prev e) \<noteq> None);
          boundary = (first \<and> \<not> from_genesis)
      in if \<not> (links \<or> boundary) then Inl (BrokenChain (le_commit e) (to_hex (le_prev e)) (le_branch e))
         else let l = du_index D e (as_log a) in
           Inr \<lparr>as_log = l, as_views = fold_into enc e (seed_branch_view l e (as_views a)),
                as_started = insert (le_branch e) (as_started a), as_applied = wrap64 (as_applied a + 1)\<rparr>)"

fun assemble_entries ::
  "codec \<Rightarrow> (val \<Rightarrow> byte list) \<Rightarrow> bool \<Rightarrow> log_entry list \<Rightarrow> assembly \<Rightarrow> storage_error + assembly" where
  "assemble_entries D enc from_genesis [] a = Inr a"
| "assemble_entries D enc from_genesis (e # es) a =
     (case assemble_entry D enc from_genesis e a of
        Inl err \<Rightarrow> Inl err
      | Inr a \<Rightarrow> assemble_entries D enc from_genesis es a)"

definition assemble ::
  "codec \<Rightarrow> (val \<Rightarrow> byte list) \<Rightarrow> 'k wal \<Rightarrow> recovery \<Rightarrow> branch_views \<Rightarrow> nat \<Rightarrow> storage_error + 'k opened" where
  "assemble D enc w r views from_applied =
     (case assemble_entries D enc (from_applied = 0) (rv_entries r)
        \<lparr>as_log = log_new, as_views = views, as_started = {}, as_applied = from_applied\<rparr> of
        Inl err \<Rightarrow> Inl err
      | Inr a \<Rightarrow>
          Inr \<lparr>op_store = \<lparr>du_wal = w, du_log = as_log a, du_since = length (rv_entries r),
                          du_interval = default_checkpoint_interval, du_applied = as_applied a\<rparr>,
               op_views = as_views a, op_recovery = r\<rparr>)"

definition du_open ::
  "codec \<Rightarrow> (val \<Rightarrow> byte list) \<Rightarrow> 'k store_lib \<Rightarrow> 'k wal_config \<Rightarrow> disk \<Rightarrow> (storage_error + 'k opened) \<times> disk" where
  "du_open D enc L c d =
     (case wal_open (wal_lib_of L) c d of
        Inl err \<Rightarrow> (Inl err, d)
      | Inr rw \<Rightarrow>
          let applied = cp_applied (rw_checkpoint rw);
              resumable = (case read_view_snapshot L (wc_key c) d of
                  Some (n, views) \<Rightarrow> if n = applied then Some views else None
                | None \<Rightarrow> None)
          in (case (case resumable of
                      Some views \<Rightarrow> (views, applied, recover (wal_lib_of L) rw)
                    | None \<Rightarrow> (omempty, 0, recover_from_genesis (wal_lib_of L) rw)) of
                (views, from_applied, (Inl err, d)) \<Rightarrow> (Inl err, d)
              | (views, from_applied, (Inr (w, r), d)) \<Rightarrow> (assemble D enc w r views from_applied, d)))"

definition du_open_with_views ::
  "codec \<Rightarrow> (val \<Rightarrow> byte list) \<Rightarrow> 'k store_lib \<Rightarrow> 'k wal_config \<Rightarrow> nat \<Rightarrow> branch_views \<Rightarrow> disk \<Rightarrow>
     (storage_error + 'k opened) \<times> disk" where
  "du_open_with_views D enc L c applied views d =
     (case wal_open (wal_lib_of L) c d of
        Inl err \<Rightarrow> (Inl err, d)
      | Inr rw \<Rightarrow>
          let expected = cp_applied (rw_checkpoint rw) in
          if applied \<noteq> expected then (Inl (ViewDrift applied expected), d)
          else (case recover (wal_lib_of L) rw of
                  (Inl err, d) \<Rightarrow> (Inl err, d)
                | (Inr (w, r), d) \<Rightarrow> (assemble D enc w r views expected, d)))"

fun check_links :: "codec \<Rightarrow> log_entry list \<Rightarrow> hash set \<Rightarrow> storage_error + unit" where
  "check_links D [] seen = Inr ()"
| "check_links D (e # es) seen =
     (if le_prev e \<noteq> zero_hash \<and> le_prev e \<notin> seen
      then Inl (BrokenChain (le_commit e) (to_hex (le_prev e)) (le_branch e))
      else check_links D es (insert (entry_hash D e) seen))"

definition du_verify_chain :: "codec \<Rightarrow> 'k store_lib \<Rightarrow> 'k wal_config \<Rightarrow> disk \<Rightarrow> (storage_error + nat) \<times> disk" where
  "du_verify_chain D L c d =
     (case wal_open (wal_lib_of L) c d of
        Inl err \<Rightarrow> (Inl err, d)
      | Inr rw \<Rightarrow>
          (case recover_from_genesis (wal_lib_of L) rw of
             (Inl err, d) \<Rightarrow> (Inl err, d)
           | (Inr (w, r), d) \<Rightarrow> (map_sum id (\<lambda>_. length (rv_entries r)) (check_links D (rv_entries r) {}), d)))"

section \<open>The live store and the replayed one\<close>

text \<open>The entries and heads, and the views, that a sequence of entries stands for.\<close>

definition live_step :: "codec \<Rightarrow> (val \<Rightarrow> byte list) \<Rightarrow> log_entry \<Rightarrow> mem_log \<times> branch_views \<Rightarrow> mem_log \<times> branch_views" where
  "live_step D enc e lv = (du_index D e (fst lv), fold_into enc e (seed_branch_view (fst lv) e (snd lv)))"

definition live_fold :: "codec \<Rightarrow> (val \<Rightarrow> byte list) \<Rightarrow> log_entry list \<Rightarrow> mem_log \<times> branch_views" where
  "live_fold D enc es = fold (live_step D enc) es (log_new, omempty)"

text \<open>The append of \<open>e\<close> fits the machine's integers, and a new branch does not fork from its
  own first entry.\<close>

definition entry_fits :: "codec \<Rightarrow> 'k store_lib \<Rightarrow> log_entry \<Rightarrow> 'k durable \<Rightarrow> bool" where
  "entry_fits D L e s \<longleftrightarrow>
     batch_fits (wal_lib_of L) [(sl_record_nonce L (du_applied s), e)] (du_wal s) \<and> du_applied s < u64_max \<and>
     (\<forall>name. le_op e \<noteq> BranchCreate name (entry_hash D e))"

text \<open>A store that was opened on an empty directory and written to; an append to a branch
  that has just been pointed at an entry is the first of a fork.\<close>

inductive du_live :: "codec \<Rightarrow> (val \<Rightarrow> byte list) \<Rightarrow> 'k store_lib \<Rightarrow> 'k wal_config \<Rightarrow> 'k durable \<Rightarrow> branch_views \<Rightarrow> log_entry list \<Rightarrow> bool"
  for D enc L c where
  opened: "du_open D enc L c \<lparr>dk_segments = omempty, dk_checkpoint = None, dk_snapshot = None\<rparr> = (Inr o', d) \<Longrightarrow>
    du_live D enc L c (op_store o') (op_views o') []"
| wrote: "du_live D enc L c s views es \<Longrightarrow> entry_fits D L e s \<Longrightarrow>
    append_and_apply D enc L e views s = (Inr h, views', s') \<Longrightarrow> du_live D enc L c s' views' (es @ [e])"
| forked: "du_live D enc L c s views es \<Longrightarrow> entry_fits D L e s \<Longrightarrow>
    h = zero_hash \<or> log_get (du_log s) h \<noteq> None \<Longrightarrow>
    append_and_apply D enc L e views (du_set_head (le_branch e) h s) = (Inr h', views', s') \<Longrightarrow>
    du_live D enc L c s' views' (es @ [e])"

lemma live_fold_snoc: "live_fold D enc (es @ [e]) = live_step D enc e (live_fold D enc es)"
  by (simp add: live_fold_def)

lemma live_heads: "ml_heads (fst (live_fold D enc es)) br = Some h \<Longrightarrow> omget (ml_entries (fst (live_fold D enc es))) h \<noteq> None"
proof (induction es arbitrary: br h rule: rev_induct)
  case Nil
  then show ?case by (simp add: live_fold_def log_new_def)
next
  case (snoc e es)
  then show ?case by (auto simp: live_fold_snoc live_step_def du_index_def split: if_splits)
qed

text \<open>The parents named by entries are zero or came before.\<close>

fun parents_known :: "codec \<Rightarrow> log_entry list \<Rightarrow> hash set \<Rightarrow> bool" where
  "parents_known D [] seen = True"
| "parents_known D (e # es) seen =
     ((le_prev e = zero_hash \<or> le_prev e \<in> seen) \<and> (\<forall>name. le_op e \<noteq> BranchCreate name (entry_hash D e)) \<and>
      parents_known D es (insert (entry_hash D e) seen))"

lemma parents_known_snoc:
  "parents_known D (es @ [e]) seen \<longleftrightarrow> parents_known D es seen \<and>
     (le_prev e = zero_hash \<or> le_prev e \<in> seen \<union> entry_hash D ` set es) \<and> (\<forall>name. le_op e \<noteq> BranchCreate name (entry_hash D e))"
  by (induction es arbitrary: seen) auto

lemma live_entries: "omget (ml_entries (fst (live_fold D enc es))) h \<noteq> None \<longleftrightarrow> h \<in> entry_hash D ` set es"
  by (induction es rule: rev_induct) (auto simp: live_fold_snoc live_step_def du_index_def live_fold_def log_new_def)

lemma seed_after_index:
  "(\<forall>name. le_op e \<noteq> BranchCreate name (entry_hash D e)) \<Longrightarrow>
     seed_branch_view (du_index D e l) e views = seed_branch_view l e views"
  by (auto simp: seed_branch_view_def du_index_def log_get_def split: op_type.splits)

lemma assemble_replays:
  assumes "parents_known D es {h. log_get l h \<noteq> None}" and "n + length es \<le> u64_max"
  shows "\<exists>started. assemble_entries D enc True es \<lparr>as_log = l, as_views = v, as_started = st, as_applied = n\<rparr> =
     Inr \<lparr>as_log = fst (fold (live_step D enc) es (l, v)), as_views = snd (fold (live_step D enc) es (l, v)),
          as_started = started, as_applied = n + length es\<rparr>"
  using assms
proof (induction es arbitrary: l v st n)
  case Nil
  then show ?case by simp
next
  case (Cons e es)
  have "insert (entry_hash D e) {h. log_get l h \<noteq> None} = {h. log_get (du_index D e l) h \<noteq> None}"
    by (auto simp: log_get_def du_index_def)
  then have "parents_known D es {h. log_get (du_index D e l) h \<noteq> None}" using Cons.prems(1) by simp
  moreover have "wrap64 (n + 1) = n + 1" "n + 1 + length es \<le> u64_max" using Cons.prems(2) by (simp_all add: wrap64_def)
  moreover have "assemble_entry D enc True e \<lparr>as_log = l, as_views = v, as_started = st, as_applied = n\<rparr> =
      Inr \<lparr>as_log = du_index D e l, as_views = fold_into enc e (seed_branch_view l e v),
           as_started = insert (le_branch e) st, as_applied = wrap64 (n + 1)\<rparr>"
    using Cons.prems(1) seed_after_index [of e D l v] by (auto simp: assemble_entry_def Let_def)
  ultimately show ?case
    using Cons.IH [of "du_index D e l" "n + 1" "fold_into enc e (seed_branch_view l e v)" "insert (le_branch e) st"]
    by (auto simp: live_step_def)
qed

lemma assemble_live:
  assumes "parents_known D es {}" and "length es \<le> u64_max"
  shows "\<exists>started. assemble_entries D enc True es \<lparr>as_log = log_new, as_views = omempty, as_started = {}, as_applied = 0\<rparr> =
     Inr \<lparr>as_log = fst (live_fold D enc es), as_views = snd (live_fold D enc es), as_started = started, as_applied = length es\<rparr>"
  using assemble_replays [of D es log_new 0 enc omempty "{}"] assms by (simp add: live_fold_def log_get_def log_new_def)

definition du_inv ::
  "codec \<Rightarrow> (val \<Rightarrow> byte list) \<Rightarrow> 'k store_lib \<Rightarrow> 'k wal_config \<Rightarrow> 'k durable \<Rightarrow> branch_views \<Rightarrow> log_entry list \<Rightarrow> bool" where
  "du_inv D enc L c s views es \<longleftrightarrow>
     (du_log s, views) = live_fold D enc es \<and> parents_known D es {} \<and> du_applied s = length es \<and> length es \<le> u64_max \<and>
     wal_reach (wal_lib_of L) c (du_wal s) es"

lemma write_snapshot_disk:
  "write_view_snapshot L n views key d = (res, d') \<Longrightarrow> d' = d \<or> (\<exists>x. d' = d\<lparr>dk_snapshot := x\<rparr>)"
  by (auto simp: write_view_snapshot_def Let_def split: option.splits sum.splits)

lemma du_checkpoint_frame:
  assumes "du_checkpoint L views s = (res, s')" and "wal_reach (wal_lib_of L) c (du_wal s) es"
  shows "du_log s' = du_log s \<and> du_applied s' = du_applied s \<and> wal_reach (wal_lib_of L) c (du_wal s') es"
proof -
  obtain r d where w: "write_view_snapshot L (du_applied s) views (wc_key (wl_config (du_wal s))) (wl_disk (du_wal s)) = (r, d)"
    by fastforce
  have "wal_reach (wal_lib_of L) c ((du_wal s)\<lparr>wl_disk := d\<rparr>) es"
    using write_snapshot_disk [OF w] by (elim disjE exE) (simp_all add: assms(2) wal_reach.snapshotted)
  note reach = this wal_reach.checkpointed [OF this]
  show ?thesis
  proof (cases r)
    case (Inl err)
    then have "s' = s\<lparr>du_wal := (du_wal s)\<lparr>wl_disk := d\<rparr>\<rparr>" using assms(1) w by (simp add: du_checkpoint_def)
    then show ?thesis using reach(1) by simp
  next
    case (Inr u)
    then have "s' = s\<lparr>du_wal := wal_checkpoint (wal_lib_of L) (wl_position (du_wal s)) (du_applied s) ((du_wal s)\<lparr>wl_disk := d\<rparr>),
        du_since := 0\<rparr>"
      using assms(1) w by (simp add: du_checkpoint_def)
    then show ?thesis using reach(2) by simp
  qed
qed

text \<open>Pointing the branch of \<open>e\<close> elsewhere before appending \<open>e\<close> is seen by the parent check only.\<close>

definition repointed :: "mem_log \<Rightarrow> nat \<Rightarrow> mem_log \<Rightarrow> bool" where
  "repointed l br l' \<longleftrightarrow> ml_entries l' = ml_entries l \<and> (\<forall>b. b \<noteq> br \<longrightarrow> ml_heads l' b = ml_heads l b) \<and>
     (\<forall>h. ml_heads l' br = Some h \<longrightarrow> h = zero_hash \<or> omget (ml_entries l) h \<noteq> None)"

lemma repointed_index: "repointed l (le_branch e) l' \<Longrightarrow> du_index D e l' = du_index D e l"
  by (auto simp: repointed_def du_index_def intro!: mem_log.equality)

lemma repointed_seed: "repointed l br l' \<Longrightarrow> seed_branch_view l' e views = seed_branch_view l e views"
  by (simp add: repointed_def seed_branch_view_def log_get_def cong: op_type.case_cong)

lemma append_and_apply_inv:
  assumes "du_inv D enc L c s views es" and "entry_fits D L e s" and "repointed (du_log s) (le_branch e) l'"
    and "append_and_apply D enc L e views (s\<lparr>du_log := l'\<rparr>) = (Inr h', views'', s'')"
  shows "du_inv D enc L c s'' views'' (es @ [e])"
proof -
  have lv: "du_log s = fst (live_fold D enc es)" "views = snd (live_fold D enc es)"
    and known: "parents_known D es {}" and n: "du_applied s = length es" "length es < u64_max"
    and reach: "wal_reach (wal_lib_of L) c (du_wal s) es"
    using assms(1,2) by (auto simp: du_inv_def entry_fits_def prod_eq_iff)
  have prev: "le_prev e = du_expected (s\<lparr>du_log := l'\<rparr>) (le_branch e)"
    using assms(4) by (auto simp: append_and_apply_def split: if_splits)
  obtain p w where app: "wal_append (wal_lib_of L) (sl_record_nonce L (du_applied s)) e (du_wal s) = (Inr p, w)"
    using assms(4) prev by (auto simp: append_and_apply_def split: sum.splits prod.splits)
  have reach': "wal_reach (wal_lib_of L) c w (es @ [e])"
    using wal_reach.appended [OF reach, of "[(sl_record_nonce L (du_applied s), e)]" p w] assms(2) app
    by (simp add: entry_fits_def wal_append_def)
  have "le_prev e = zero_hash \<or> omget (ml_entries (du_log s)) (le_prev e) \<noteq> None"
    using assms(3) prev by (cases "ml_heads l' (le_branch e)") (simp_all add: du_expected_def log_head_def repointed_def)
  then have pk: "parents_known D (es @ [e]) {}"
    using live_entries [of D enc es "le_prev e"] known assms(2) unfolding lv(1) parents_known_snoc entry_fits_def by simp
  have step: "(du_index D e l', fold_into enc e (seed_branch_view l' e views)) = live_fold D enc (es @ [e])"
    using lv by (simp add: live_fold_snoc live_step_def repointed_index [OF assms(3)] repointed_seed [OF assms(3)])
  let ?t = "s\<lparr>du_wal := w, du_log := du_index D e l', du_applied := wrap64 (du_applied s + 1),
      du_since := wrap64 (du_since s + 1)\<rparr>"
  let ?v = "fold_into enc e (seed_branch_view l' e views)"
  obtain r t where t: "du_checkpoint L ?v ?t = (r, t)" by fastforce
  have "(if du_interval s \<le> du_since ?t
         then (case r of Inl err \<Rightarrow> (Inl err, ?v, t) | Inr _ \<Rightarrow> (Inr (entry_hash D e), ?v, t))
         else (Inr (entry_hash D e), ?v, ?t)) = (Inr h', views'', s'')"
    using assms(4) prev app t by (cases r) (simp_all add: append_and_apply_def Let_def split: if_splits)
  then have fin: "views'' = ?v \<and> (s'' = ?t \<or> (\<exists>r. du_checkpoint L views'' ?t = (r, s'')))"
    using t by (cases r) (auto split: if_splits)
  have "du_log s'' = du_index D e l' \<and> du_applied s'' = wrap64 (du_applied s + 1) \<and> wal_reach (wal_lib_of L) c (du_wal s'') (es @ [e])"
    using fin reach' by (auto dest: du_checkpoint_frame [where c = c and es = "es @ [e]"])
  then show ?thesis
    using pk step fin n by (simp add: du_inv_def wrap64_def)
qed

lemma inv_repointed:
  assumes "du_inv D enc L c s views es"
  shows "repointed (du_log s) br (du_log s)"
    and "h = zero_hash \<or> log_get (du_log s) h \<noteq> None \<Longrightarrow> repointed (du_log s) br (log_set_head br h (du_log s))"
proof -
  have "du_log s = fst (live_fold D enc es)" using assms by (auto simp: du_inv_def prod_eq_iff)
  then show "repointed (du_log s) br (du_log s)"
    using live_heads [of D enc es] by (auto simp: repointed_def)
  show "repointed (du_log s) br (log_set_head br h (du_log s))" if "h = zero_hash \<or> log_get (du_log s) h \<noteq> None"
    using that by (auto simp: repointed_def log_set_head_def log_get_def)
qed

lemma opened_empty:
  assumes "du_open D enc L c \<lparr>dk_segments = omempty, dk_checkpoint = None, dk_snapshot = None\<rparr> = (Inr o', d)"
  shows "du_inv D enc L c (op_store o') (op_views o') []"
proof -
  let ?d = "\<lparr>dk_segments = omempty, dk_checkpoint = None, dk_snapshot = None\<rparr>"
  let ?rw = "\<lparr>rw_config = c, rw_checkpoint = checkpoint_default, rw_disk = ?d\<rparr>"
  obtain w r d1 where rec: "recover_from_genesis (wal_lib_of L) ?rw = (Inr (w, r), d1)" and r: "rv_entries r = []"
    by (simp add: recover_from_genesis_def recover_at_def om_eval Let_def create_segment_def)
  then have "assemble D enc w r omempty 0 = Inr o'"
    using assms by (simp add: du_open_def wal_open_def read_checkpoint_def read_view_snapshot_def Let_def checkpoint_default_def)
  then have "op_store o' = \<lparr>du_wal = w, du_log = log_new, du_since = 0, du_interval = default_checkpoint_interval, du_applied = 0\<rparr>"
    and "op_views o' = omempty"
    using r by (auto simp: assemble_def)
  then show ?thesis using wal_reach.created [OF rec] by (simp add: du_inv_def live_fold_def)
qed

lemma du_live_inv: "du_live D enc L c s views es \<Longrightarrow> du_inv D enc L c s views es"
proof (induction rule: du_live.induct)
  case (opened o' d)
  then show ?case by (rule opened_empty)
next
  case (wrote s views es e h views' s')
  have "s\<lparr>du_log := du_log s\<rparr> = s" by simp
  then show ?case
    using append_and_apply_inv [OF wrote.IH wrote.hyps(2) inv_repointed(1) [OF wrote.IH], of h views' s'] wrote.hyps(3) by simp
next
  case (forked s views es e h h' views' s')
  then show ?case
    using append_and_apply_inv [OF forked.IH forked.hyps(2) inv_repointed(2) [OF forked.IH forked.hyps(3)], of h' views' s']
    by (simp add: du_set_head_def)
qed

text \<open>C32: What is reopened is what was there.  A store that was written to, forked and
  checkpointed in any order, and lost power in the middle of an append, opens again from
  its log with the same entries and heads and the same view of every branch it had in
  memory, or with those after the append that was under way; nothing else, and nothing is
  lost.  It is so whenever the log is replayed from its start, which it is when there is no
  usable snapshot.\<close>

theorem reopening_restores_the_store:
  assumes "disk_lib_ok (disk_lib_of (wal_lib_of L))" and "checkpoints_parse (wal_lib_of L)"
    and "du_live D enc L c s views es" and "entry_fits D L e s" and "le_prev e = du_expected s (le_branch e)"
    and "crash_leaves (wal_lib_of L) [(sl_record_nonce L (du_applied s), e)] (du_wal s) d"
    and "read_view_snapshot L (wc_key c) d = None"
  shows "\<exists>o' d' es'. du_open D enc L c d = (Inr o', d') \<and> es' \<in> {es, es @ [e]} \<and> rv_entries (op_recovery o') = es' \<and>
    (du_log (op_store o'), op_views o') = live_fold D enc es' \<and> du_applied (op_store o') = length es' \<and>
    (du_log s, views) = live_fold D enc es"
proof -
  have inv: "du_inv D enc L c s views es" using assms(3) by (rule du_live_inv)
  then have reach: "wal_reach (wal_lib_of L) c (du_wal s) es" by (simp add: du_inv_def)
  have fits: "batch_fits (wal_lib_of L) [(sl_record_nonce L (du_applied s), e)] (du_wal s)" and small: "length es + 1 \<le> u64_max"
    using assms(4) inv by (auto simp: entry_fits_def du_inv_def)
  obtain rw k w' r where rw: "wal_open (wal_lib_of L) c d = Inr rw"
    and rec: "recover_from_genesis (wal_lib_of L) rw = (Inr (w', r), wl_disk w')" and r: "rv_entries r = es @ take k [e]"
    using wal_recovers [OF assms(1,2) reach fits assms(6)] by auto
  have "le_prev e = zero_hash \<or> omget (ml_entries (du_log s)) (le_prev e) \<noteq> None"
    using inv_repointed(1) [OF inv, of "le_branch e"] assms(5)
    by (cases "ml_heads (du_log s) (le_branch e)") (simp_all add: du_expected_def log_head_def repointed_def)
  moreover have "du_log s = fst (live_fold D enc es)" using inv by (auto simp: du_inv_def prod_eq_iff)
  ultimately have "parents_known D (es @ take k [e]) {}"
    using live_entries [of D enc es "le_prev e"] inv assms(4)
    by (cases k) (auto simp: parents_known_snoc entry_fits_def du_inv_def)
  moreover have len: "length (es @ take k [e]) \<le> u64_max" using small by (cases k) auto
  ultimately obtain started where "assemble_entries D enc True (es @ take k [e])
      \<lparr>as_log = log_new, as_views = omempty, as_started = {}, as_applied = 0\<rparr> =
     Inr \<lparr>as_log = fst (live_fold D enc (es @ take k [e])), as_views = snd (live_fold D enc (es @ take k [e])),
          as_started = started, as_applied = length (es @ take k [e])\<rparr>"
    using assemble_live len by blast
  then have "du_open D enc L c d = (Inr \<lparr>op_store = \<lparr>du_wal = w', du_log = fst (live_fold D enc (es @ take k [e])),
        du_since = length (es @ take k [e]), du_interval = default_checkpoint_interval, du_applied = length (es @ take k [e])\<rparr>,
      op_views = snd (live_fold D enc (es @ take k [e])), op_recovery = r\<rparr>, wl_disk w')"
    using rw rec r assms(7) by (simp add: du_open_def assemble_def Let_def)
  moreover have "es @ take k [e] \<in> {es, es @ [e]}" by (cases k) auto
  ultimately show ?thesis using r inv unfolding du_inv_def by (intro exI conjI) (simp_all, auto)
qed

definition sample_store_lib :: "unit store_lib" where
  "sample_store_lib = wal_lib.extend sample_lib
     \<lparr>sl_snapshot_json = (\<lambda>_ _. []), sl_snapshot_parse = (\<lambda>_. None), sl_record_nonce = (\<lambda>_. replicate nonce_bytes 0),
      sl_snapshot_nonce = (\<lambda>_. replicate nonce_bytes 0)\<rparr>"

lemma sample_store_lib [simp]: "wal_lib_of sample_store_lib = sample_lib" "sl_record_nonce sample_store_lib n = replicate nonce_bytes 0"
  by (simp_all add: sample_store_lib_def wal_lib.defs)

definition sample_durable :: "unit durable" where
  "sample_durable = \<lparr>du_wal = sample_wal, du_log = log_new, du_since = 0, du_interval = default_checkpoint_interval, du_applied = 0\<rparr>"

lemma sample_durable_live: "du_live sample_codec (\<lambda>_. []) sample_store_lib wal_config_new sample_durable omempty []"
proof -
  have "\<exists>d. du_open sample_codec (\<lambda>_. []) sample_store_lib wal_config_new \<lparr>dk_segments = omempty, dk_checkpoint = None, dk_snapshot = None\<rparr> =
      (Inr \<lparr>op_store = sample_durable, op_views = omempty, op_recovery = blank_recovery\<rparr>, d)"
    by (simp add: du_open_def wal_open_def read_checkpoint_def read_view_snapshot_def Let_def checkpoint_default_def
        recover_from_genesis_def recover_at_def om_eval create_segment_def assemble_def sample_durable_def sample_wal_def
        wal_config_new_def log_start_def blank_recovery_def omget_or_def)
  then show ?thesis
    using du_live.opened [of sample_codec "\<lambda>_. []" sample_store_lib wal_config_new
        "\<lparr>op_store = sample_durable, op_views = omempty, op_recovery = blank_recovery\<rparr>"] by auto
qed

lemma reopening_restores_the_store_witness:
  "\<exists>o' d' es'. du_open sample_codec (\<lambda>_. []) sample_store_lib wal_config_new
      (write_active (take 5 (le_bytes 4 1 @ le_bytes 4 0 @ [7])) sample_wal) = (Inr o', d') \<and>
    es' \<in> {[], [] @ [sample_write]} \<and> rv_entries (op_recovery o') = es' \<and>
    (du_log (op_store o'), op_views o') = live_fold sample_codec (\<lambda>_. []) es' \<and> du_applied (op_store o') = length es' \<and>
    (du_log sample_durable, omempty) = live_fold sample_codec (\<lambda>_. []) []"
proof (rule reopening_restores_the_store [OF _ _ sample_durable_live])
  show "disk_lib_ok (disk_lib_of (wal_lib_of sample_store_lib))" "checkpoints_parse (wal_lib_of sample_store_lib)"
    using sample_lib_ok by simp_all
  show "entry_fits sample_codec sample_store_lib sample_write sample_durable"
    using sample_crash(2) by (simp add: entry_fits_def sample_durable_def) (simp add: sample_entry_def)
  show "le_prev sample_write = du_expected sample_durable (le_branch sample_write)"
    by (simp add: du_expected_def sample_durable_def log_head_def log_new_def sample_entry_def)
  show "crash_leaves (wal_lib_of sample_store_lib) [(sl_record_nonce sample_store_lib (du_applied sample_durable), sample_write)]
      (du_wal sample_durable) (write_active (take 5 (le_bytes 4 1 @ le_bytes 4 0 @ [7])) sample_wal)"
    using sample_crash(1) by (simp add: sample_durable_def)
  show "read_view_snapshot sample_store_lib (wc_key wal_config_new)
      (write_active (take 5 (le_bytes 4 1 @ le_bytes 4 0 @ [7])) sample_wal) = None"
    by (simp add: read_view_snapshot_def write_active_def sample_wal_def)
qed

text \<open>Reopening after a clean checkpoint resumes from the snapshot and replays nothing, so
  the store comes back with every view and no head: the next entry of every branch is
  accepted with the zero hash for its parent, and the history before the checkpoint is cut off.\<close>

theorem clean_reopen_forgets_the_heads:
  assumes "disk_lib_ok (disk_lib_of (wal_lib_of L))" and "checkpoints_parse (wal_lib_of L)"
    and "du_live D enc L c s views es" and "du_checkpoint L views s = (Inr (), s')" and "wc_key c = None"
    and "sl_snapshot_parse L (sl_snapshot_json L (du_applied s) views) = Some (du_applied s, views)"
    and "strip_prefix snapshot_sealed_magic (sl_snapshot_json L (du_applied s) views) = None"
  shows "\<exists>o' d. du_open D enc L c (wl_disk (du_wal s')) = (Inr o', d) \<and>
    op_views o' = ommap (\<lambda>_. rebuild_indexes) views \<and> du_applied (op_store o') = length es \<and>
    (\<forall>br. log_head (du_log (op_store o')) br = None \<and> du_expected (op_store o') br = zero_hash)"
proof -
  have inv: "du_inv D enc L c s views es" using assms(3) by (rule du_live_inv)
  then have reach: "wal_reach (wal_lib_of L) c (du_wal s) es" and n: "du_applied s = length es" by (simp_all add: du_inv_def)
  let ?w = "du_wal s" and ?body = "sl_snapshot_json L (du_applied s) views"
  have holds: "wal_holds (wal_lib_of L) ?w es" and conf: "wl_config ?w = c"
    using wal_reach_holds [OF assms(1,2) reach] by simp_all
  define cp where "cp = \<lparr>cp_format = format_version, cp_position = wl_position ?w, cp_applied = du_applied s\<rparr>"
  define d where "d = (wl_disk ?w)\<lparr>dk_snapshot := Some ?body, dk_checkpoint := Some (wb_cp_json (wal_lib_of L) cp)\<rparr>"
  have d: "wl_disk (du_wal s') = d"
    using assms(4,5) by (auto simp: du_checkpoint_def write_view_snapshot_def conf Let_def wal_checkpoint_def d_def cp_def)
  let ?rw = "\<lparr>rw_config = c, rw_checkpoint = cp, rw_disk = d\<rparr>"
  have opened: "wal_open (wal_lib_of L) c d = Inr ?rw"
    using assms(2) by (simp add: wal_open_def read_checkpoint_def d_def checkpoints_parse_def) (simp add: cp_def)
  have snap: "read_view_snapshot L (wc_key c) d = Some (du_applied s, ommap (\<lambda>_. rebuild_indexes) views)"
    using assms(6,7) by (simp add: read_view_snapshot_def d_def)
  have "recover (wal_lib_of L) ?rw = (Inr (\<lparr>wl_config = wl_config ?w, wl_position = wl_position ?w, wl_checkpoint = cp, wl_disk = d\<rparr>,
        recovery_from (wl_position ?w)), d)"
    using recover_at_end [OF assms(1) holds, of ?rw] by (simp add: recover_def conf d_def) (simp add: cp_def)
  then have "du_open D enc L c d = (assemble D enc \<lparr>wl_config = wl_config ?w, wl_position = wl_position ?w, wl_checkpoint = cp, wl_disk = d\<rparr>
      (recovery_from (wl_position ?w)) (ommap (\<lambda>_. rebuild_indexes) views) (du_applied s), d)"
    using opened snap by (simp add: du_open_def Let_def) (simp add: cp_def)
  then show ?thesis
    unfolding d by (simp add: assemble_def recovery_from_def n du_expected_def log_head_def log_new_def)
qed

end
