(* ===== verification/Daemon_Impact.thy ===== *)
theory Daemon_Impact
  imports Store_View_Index Safety_Classify
begin

text \<open>
  The rows a proposed change touches, counted in the branch's own view
  (\<open>thetad/src/impact.rs\<close>).  The gate reads this number, and nothing the caller sends.
\<close>

section \<open>The model\<close>

definition fixed_cost_ms :: nat where
  "fixed_cost_ms = 5"

definition per_row_cost_us :: nat where
  "per_row_cost_us = 20"

definition estimated_cost_ms :: "nat \<Rightarrow> nat" where
  "estimated_cost_ms rows =
     (let total_us = min (rows * per_row_cost_us) u64_max;
          ms = sat_add64 fixed_cost_ms (total_us div 1000)
      in if ms \<le> u32_max then ms else u32_max)"

definition count_rows :: "view \<Rightarrow> string \<Rightarrow> (val \<Rightarrow> bool) \<Rightarrow> nat" where
  "count_rows v t keep =
     (let prefix = address_prefix t;
          plain = length (filter (\<lambda>(key, x). parse_address key \<noteq> None \<and> keep x) (prefix_range prefix (vw_keys v)));
          crdt = length (filter (\<lambda>(key, st). parse_address key \<noteq> None \<and> keep (state_value st))
                   (prefix_range prefix (vw_crdts v)))
      in plain + crdt)"

definition rows_in :: "view \<Rightarrow> string \<Rightarrow> nat" where
  "rows_in v t = count_rows v t (\<lambda>_. True)"

definition rows_with_column :: "view \<Rightarrow> string \<Rightarrow> string \<Rightarrow> nat" where
  "rows_with_column v t c = count_rows v t (\<lambda>row. has_column row True c)"

definition rows_without_column :: "view \<Rightarrow> string \<Rightarrow> string \<Rightarrow> nat" where
  "rows_without_column v t c = count_rows v t (\<lambda>row. \<not> has_column row True c)"

fun rows_affected :: "view \<Rightarrow> schema_change \<Rightarrow> nat" where
  "rows_affected v (AddTable td) = 0"
| "rows_affected v (AddColumn t fd) = 0"
| "rows_affected v (AddIndex t i) = 0"
| "rows_affected v (SetCrdt t c k) = 0"
| "rows_affected v (DropIndex t i) = 0"
| "rows_affected v (DropTable t) = rows_in v t"
| "rows_affected v (DropColumn t c) = rows_with_column v t c"
| "rows_affected v (RenameColumn t from' to') = rows_with_column v t from'"
| "rows_affected v (AlterColumnType t c a b) = rows_with_column v t c"
| "rows_affected v (SetNullable t c nullable fill) = (if nullable then 0 else rows_without_column v t c)"

definition estimate :: "view \<Rightarrow> schema_change \<Rightarrow> impact" where
  "estimate v c = (let rows = rows_affected v c in \<lparr>im_rows = rows, im_cost_ms = estimated_cost_ms rows\<rparr>)"

section \<open>What is counted\<close>

lemma fst_image_iff: "k \<in> fst ` S \<longleftrightarrow> (\<exists>x. (k, x) \<in> S)"
  by force

lemma addressed_iff:
  "k \<in> set (addressed t m) \<longleftrightarrow> omget m k \<noteq> None \<and> starts_with (address_prefix t) k \<and> parse_address k \<noteq> None"
  unfolding addressed_def set_filter set_map mem_Collect_eq fst_image_iff prefix_range_set by blast

lemma range_keys_set:
  "set (map fst (filter (\<lambda>(key, x). parse_address key \<noteq> None \<and> f x) (prefix_range (address_prefix t) m))) =
     {k \<in> set (addressed t m). \<exists>x. omget m k = Some x \<and> f x}"
proof (rule set_eqI)
  fix k
  show "k \<in> set (map fst (filter (\<lambda>(key, x). parse_address key \<noteq> None \<and> f x) (prefix_range (address_prefix t) m))) \<longleftrightarrow>
      k \<in> {k \<in> set (addressed t m). \<exists>x. omget m k = Some x \<and> f x}"
    unfolding set_map set_filter fst_image_iff mem_Collect_eq prefix_range_set addressed_iff case_prod_conv
    by (cases "omget m k") (auto simp only: option.distinct option.inject)
qed

lemma range_count:
  "length (filter (\<lambda>(key, x). parse_address key \<noteq> None \<and> f x) (prefix_range (address_prefix t) m)) =
     card {k \<in> set (addressed t m). \<exists>x. omget m k = Some x \<and> f x}"
proof -
  let ?xs = "filter (\<lambda>(key, x). parse_address key \<noteq> None \<and> f x) (prefix_range (address_prefix t) m)"
  have "distinct (map fst (filter q (omlist m)))" for q
    using omlist_ok [of m] by (simp add: al_ok_distinct distinct_map_filter)
  then have "distinct (map fst ?xs)" by (simp only: prefix_range_filter filter_filter)
  then have "length ?xs = card (set (map fst ?xs))" using distinct_card by fastforce
  then show ?thesis unfolding range_keys_set .
qed

lemma count_rows_card:
  "count_rows v t keep =
     card {k \<in> set (addressed t (vw_keys v)). \<exists>x. omget (vw_keys v) k = Some x \<and> keep x} +
     card {k \<in> set (addressed t (vw_crdts v)). \<exists>x. omget (vw_crdts v) k = Some x \<and> keep (state_value x)}"
  unfolding count_rows_def Let_def using range_count [of keep t "vw_keys v"] range_count [of "\<lambda>st. keep (state_value st)" t "vw_crdts v"]
  by simp

text \<open>A table whose rows hold something a change can be counted by: no row is null or
  without columns, no column is null, and no register holds a map.\<close>

definition solid_row :: "val \<Rightarrow> bool" where
  "solid_row x \<longleftrightarrow> (case x of VMap kvs \<Rightarrow> kvs \<noteq> [] \<and> list_all (\<lambda>(_, y). y \<noteq> VNull) kvs | VNull \<Rightarrow> False | _ \<Rightarrow> True)"

definition solid_field :: "val \<Rightarrow> bool" where
  "solid_field x \<longleftrightarrow> (case x of VMap _ \<Rightarrow> False | VNull \<Rightarrow> False | _ \<Rightarrow> True)"

definition rows_solid :: "view \<Rightarrow> string \<Rightarrow> bool" where
  "rows_solid v t \<longleftrightarrow>
     list_all (\<lambda>k. case omget (vw_keys v) k of Some x \<Rightarrow> solid_row x | None \<Rightarrow> True) (addressed t (vw_keys v)) \<and>
     list_all (\<lambda>k. case omget (vw_crdts v) k of Some st \<Rightarrow> solid_field (state_value st) | None \<Rightarrow> True)
       (addressed t (vw_crdts v))"

fun change_table :: "schema_change \<Rightarrow> string" where
  "change_table (AddTable td) = td_name td"
| "change_table (DropTable t) = t"
| "change_table (AddColumn t _) = t"
| "change_table (DropColumn t _) = t"
| "change_table (AlterColumnType t _ _ _) = t"
| "change_table (SetNullable t _ _ _) = t"
| "change_table (AddIndex t _) = t"
| "change_table (DropIndex t _) = t"
| "change_table (RenameColumn t _ _) = t"
| "change_table (SetCrdt t _ _) = t"

text \<open>The keys whose plain row, or replicated field, a change alters.\<close>

definition altered_rows :: "view \<Rightarrow> schema_change \<Rightarrow> string set" where
  "altered_rows v c = {k. omget (vw_keys (apply_schema c v)) k \<noteq> omget (vw_keys v) k}"

definition altered_fields :: "view \<Rightarrow> schema_change \<Rightarrow> string set" where
  "altered_fields v c = {k. omget (vw_crdts (apply_schema c v)) k \<noteq> omget (vw_crdts v) k}"

lemma al_del_absent: "map_of kvs c = None \<Longrightarrow> al_del c kvs = kvs"
  by (induction kvs) (auto split: if_splits)

lemma solid_has: "list_all (\<lambda>(_, y). y \<noteq> VNull) kvs \<Longrightarrow> map_of kvs c = Some y \<Longrightarrow> has_column (VMap kvs) True c"
  by (auto simp: has_column_def list_all_iff dest: map_of_SomeD)

lemma drop_result_counted:
  assumes "drop_result c x \<noteq> Some x" and "solid_row x"
  shows "has_column x True c"
proof (cases x)
  case (VMap kvs)
  then have "map_of kvs c \<noteq> None" using assms by (cases "map_of kvs c") (auto simp: drop_result_def solid_row_def al_del_absent)
  then show ?thesis using assms(2) VMap solid_has by (auto simp: solid_row_def)
qed (use assms in \<open>auto simp: drop_result_def has_column_def solid_row_def split: if_splits\<close>)

lemma rename_counted:
  assumes "rename_result a b x \<noteq> x" and "solid_row x"
  shows "has_column x True a"
  using assms solid_has by (auto simp: rename_result_def solid_row_def split: val.splits option.splits)

lemma rename_column_rows:
  "omget (vw_keys (apply_schema (RenameColumn t a b) v)) k =
     (if a \<noteq> b \<and> k \<in> set (addressed t (vw_keys v)) then map_option (rename_result a b) (omget (vw_keys v) k)
      else omget (vw_keys v) k)"
  by (simp add: rename_column_values_def keys_of_def omget_fold_rename addressed_distinct)

lemma drop_column_fields:
  "omget (vw_crdts (apply_schema (DropColumn t c) v)) k =
     (if c = value_column \<and> k \<in> set (addressed t (vw_crdts v)) then None else omget (vw_crdts v) k)"
  by (simp add: drop_column_values_def keys_of_def Let_def omget_fold_del)

lemma other_changes_alter_nothing:
  "\<not> rewrites_rows (SchemaOp c) \<Longrightarrow> altered_rows v c = {} \<and> altered_fields v c = {}"
  by (cases c) (simp_all add: altered_rows_def altered_fields_def)

abbreviation rows_where :: "view \<Rightarrow> string \<Rightarrow> (val \<Rightarrow> bool) \<Rightarrow> string set" where
  "rows_where v t p \<equiv> {k \<in> set (addressed t (vw_keys v)). \<exists>x. omget (vw_keys v) k = Some x \<and> p x}"

abbreviation fields_where :: "view \<Rightarrow> string \<Rightarrow> (val \<Rightarrow> bool) \<Rightarrow> string set" where
  "fields_where v t p \<equiv> {k \<in> set (addressed t (vw_crdts v)). \<exists>x. omget (vw_crdts v) k = Some x \<and> p (state_value x)}"

lemma solid_rowD:
  "rows_solid v t \<Longrightarrow> k \<in> set (addressed t (vw_keys v)) \<Longrightarrow> omget (vw_keys v) k = Some x \<Longrightarrow> solid_row x"
  by (auto simp: rows_solid_def list_all_iff split: option.splits)

lemma solid_fieldD:
  "rows_solid v t \<Longrightarrow> k \<in> set (addressed t (vw_crdts v)) \<Longrightarrow> omget (vw_crdts v) k = Some st \<Longrightarrow>
    has_column (state_value st) True value_column"
  by (auto simp: rows_solid_def list_all_iff solid_field_def has_column_def split: option.splits val.splits)

lemma drop_column_alters:
  assumes "rows_solid v t"
  shows "altered_rows v (DropColumn t c) \<subseteq> rows_where v t (\<lambda>x. has_column x True c)"
    and "altered_fields v (DropColumn t c) \<subseteq> fields_where v t (\<lambda>x. has_column x True c)"
proof -
  show "altered_rows v (DropColumn t c) \<subseteq> rows_where v t (\<lambda>x. has_column x True c)"
  proof
    fix k assume "k \<in> altered_rows v (DropColumn t c)"
    then have k: "k \<in> set (addressed t (vw_keys v))" "Option.bind (omget (vw_keys v) k) (drop_result c) \<noteq> omget (vw_keys v) k"
      unfolding altered_rows_def mem_Collect_eq drop_column_rows by (simp_all split: if_splits)
    then obtain x where "omget (vw_keys v) k = Some x" "drop_result c x \<noteq> Some x" by (cases "omget (vw_keys v) k") auto
    then show "k \<in> rows_where v t (\<lambda>x. has_column x True c)"
      using drop_result_counted solid_rowD [OF assms k(1)] k(1) by blast
  qed
  show "altered_fields v (DropColumn t c) \<subseteq> fields_where v t (\<lambda>x. has_column x True c)"
  proof
    fix k assume "k \<in> altered_fields v (DropColumn t c)"
    then have k: "c = value_column" "k \<in> set (addressed t (vw_crdts v))" "omget (vw_crdts v) k \<noteq> None"
      unfolding altered_fields_def mem_Collect_eq drop_column_fields
      by (cases "omget (vw_crdts v) k"; simp split: if_splits)+
    from k(3) obtain st where st: "omget (vw_crdts v) k = Some st" using option.exhaust by metis
    have "has_column (state_value st) True c" using solid_fieldD [OF assms k(2) st] k(1) by simp
    then show "k \<in> fields_where v t (\<lambda>x. has_column x True c)" using k(2) st by blast
  qed
qed

lemma rename_column_alters:
  assumes "rows_solid v t"
  shows "altered_rows v (RenameColumn t a b) \<subseteq> rows_where v t (\<lambda>x. has_column x True a)"
    and "altered_fields v (RenameColumn t a b) = {}"
proof -
  show "altered_rows v (RenameColumn t a b) \<subseteq> rows_where v t (\<lambda>x. has_column x True a)"
  proof
    fix k assume "k \<in> altered_rows v (RenameColumn t a b)"
    then have k: "k \<in> set (addressed t (vw_keys v))" "map_option (rename_result a b) (omget (vw_keys v) k) \<noteq> omget (vw_keys v) k"
      unfolding altered_rows_def mem_Collect_eq rename_column_rows by (simp_all split: if_splits)
    then obtain x where "omget (vw_keys v) k = Some x" "rename_result a b x \<noteq> x" by (cases "omget (vw_keys v) k") auto
    then show "k \<in> rows_where v t (\<lambda>x. has_column x True a)"
      using rename_counted solid_rowD [OF assms k(1)] k(1) by blast
  qed
  show "altered_fields v (RenameColumn t a b) = {}" by (simp add: altered_fields_def)
qed

lemma drop_table_alters:
  "altered_rows v (DropTable t) = rows_where v t (\<lambda>_. True)" "altered_fields v (DropTable t) = fields_where v t (\<lambda>_. True)"
proof -
  have "k \<in> altered_rows v (DropTable t) \<longleftrightarrow> k \<in> rows_where v t (\<lambda>_. True)"
    "k \<in> altered_fields v (DropTable t) \<longleftrightarrow> k \<in> fields_where v t (\<lambda>_. True)" for k
    unfolding altered_rows_def altered_fields_def drop_table_rows mem_Collect_eq
    by (cases "omget (vw_keys v) k", auto) (cases "omget (vw_crdts v) k", auto)
  then show "altered_rows v (DropTable t) = rows_where v t (\<lambda>_. True)"
    "altered_fields v (DropTable t) = fields_where v t (\<lambda>_. True)" by blast+
qed

lemma count_bounds:
  "A \<subseteq> rows_where v t p \<Longrightarrow> B \<subseteq> fields_where v t p \<Longrightarrow> finite A \<and> finite B \<and> card A + card B \<le> count_rows v t p"
  unfolding count_rows_card by (intro conjI add_mono card_mono) (auto intro: finite_subset)

text \<open>What a change destroys.  A row loses something when a value it holds in some column is
  not there afterwards, the row gone or the column reading otherwise.\<close>

definition loses :: "val option \<Rightarrow> val option \<Rightarrow> bool" where
  "loses before after \<longleftrightarrow>
     (\<exists>x col y. before = Some x \<and> col \<noteq> key_column \<and> row_column x '''' col = Some y \<and> y \<noteq> VNull \<and>
        (case after of None \<Rightarrow> True | Some x' \<Rightarrow> row_column x' '''' col \<noteq> Some y))"

definition lost_rows :: "view \<Rightarrow> schema_change \<Rightarrow> string set" where
  "lost_rows v c = {k. loses (omget (vw_keys v) k) (omget (vw_keys (apply_schema c v)) k)}"

definition lost_fields :: "view \<Rightarrow> schema_change \<Rightarrow> string set" where
  "lost_fields v c = {k. loses (map_option state_value (omget (vw_crdts v) k))
     (map_option state_value (omget (vw_crdts (apply_schema c v)) k))}"

text \<open>The two cases the estimate does not see: a rename onto a name rows hold already, and a
  drop of the whole-value column of a table with a register that holds a map.\<close>

definition seen_by_estimate :: "view \<Rightarrow> schema_change \<Rightarrow> bool" where
  "seen_by_estimate v c \<longleftrightarrow>
     (case c of
        RenameColumn t a b \<Rightarrow> (\<forall>k \<in> set (addressed t (vw_keys v)). \<forall>x. omget (vw_keys v) k = Some x \<longrightarrow> row_column x '''' b = None)
      | DropColumn t c' \<Rightarrow> c' = value_column \<longrightarrow>
          (\<forall>k \<in> set (addressed t (vw_crdts v)). \<forall>st kvs. omget (vw_crdts v) k = Some st \<longrightarrow> state_value st \<noteq> VMap kvs)
      | _ \<Rightarrow> True)"

lemma loses_same: "\<not> loses a a"
  by (auto simp: loses_def)

lemma lost_altered: "lost_rows v c \<subseteq> altered_rows v c" "lost_fields v c \<subseteq> altered_fields v c"
  using loses_same by (fastforce simp: lost_rows_def altered_rows_def lost_fields_def altered_fields_def)+

lemma drop_loses: "loses (Some x) (drop_result c x) \<Longrightarrow> has_column x True c"
proof (cases x)
  case (VMap kvs)
  assume l: "loses (Some x) (drop_result c x)"
  then obtain col y where y: "col \<noteq> key_column" "map_of kvs col = Some y" "y \<noteq> VNull"
      "case drop_result c x of None \<Rightarrow> True | Some x' \<Rightarrow> row_column x' '''' col \<noteq> Some y"
    using VMap by (auto simp: loses_def row_column_def)
  show "has_column x True c"
  proof (rule ccontr)
    assume "\<not> has_column x True c"
    then have "col \<noteq> c" using y(1-3) VMap by (auto simp: has_column_def split: if_splits)
    then have "map_of (al_del c kvs) col = Some y" using y(2) by simp
    then have "al_del c kvs \<noteq> []" by (metis map_of.simps(1) option.distinct(1))
    then have "drop_result c x = Some (VMap (al_del c kvs))" using VMap by (simp add: drop_result_def)
    then show False using y(1,4) \<open>map_of (al_del c kvs) col = Some y\<close> by (simp add: row_column_def)
  qed
qed (auto simp: loses_def row_column_def drop_result_def has_column_def split: if_splits)

lemma rename_loses:
  assumes "loses (Some x) (Some (rename_result a b x))" and "row_column x '''' b = None"
  shows "has_column x True a"
proof (cases x)
  case (VMap kvs)
  obtain col y where y: "col \<noteq> key_column" "map_of kvs col = Some y" "y \<noteq> VNull"
      "row_column (rename_result a b x) '''' col \<noteq> Some y"
    using assms(1) VMap by (auto simp: loses_def row_column_def)
  show ?thesis
  proof (cases "map_of kvs a")
    case None
    then show ?thesis using y VMap by (simp add: rename_result_def row_column_def)
  next
    case (Some z)
    then have "rename_result a b x = VMap (al_put b z (al_del a kvs))" using VMap by (simp add: rename_result_def)
    then have "col = a \<or> col = b" using y by (auto simp: row_column_def split: if_splits)
    then have "col = a" using assms(2) y(1,2) VMap by (auto simp: row_column_def)
    then show ?thesis using y(1-3) VMap by (simp add: has_column_def)
  qed
qed (use assms(1) in \<open>auto simp: loses_def rename_result_def\<close>)

lemma drop_column_lost:
  assumes "seen_by_estimate v (DropColumn t c)"
  shows "lost_rows v (DropColumn t c) \<subseteq> rows_where v t (\<lambda>x. has_column x True c)"
    and "lost_fields v (DropColumn t c) \<subseteq> fields_where v t (\<lambda>x. has_column x True c)"
proof -
  show "lost_rows v (DropColumn t c) \<subseteq> rows_where v t (\<lambda>x. has_column x True c)"
  proof
    fix k assume "k \<in> lost_rows v (DropColumn t c)"
    then have l: "loses (omget (vw_keys v) k) (omget (vw_keys (apply_schema (DropColumn t c) v)) k)"
      by (simp add: lost_rows_def)
    then have k: "k \<in> set (addressed t (vw_keys v))"
      unfolding drop_column_rows using loses_same by (auto split: if_splits)
    obtain x where x: "omget (vw_keys v) k = Some x" using l by (auto simp: loses_def)
    have "loses (Some x) (drop_result c x)" using l k x unfolding drop_column_rows by simp
    then show "k \<in> rows_where v t (\<lambda>x. has_column x True c)" using k x drop_loses by auto
  qed
  show "lost_fields v (DropColumn t c) \<subseteq> fields_where v t (\<lambda>x. has_column x True c)"
  proof
    fix k assume "k \<in> lost_fields v (DropColumn t c)"
    then have l: "loses (map_option state_value (omget (vw_crdts v) k))
        (map_option state_value (omget (vw_crdts (apply_schema (DropColumn t c) v)) k))" by (simp add: lost_fields_def)
    then have k: "c = value_column" "k \<in> set (addressed t (vw_crdts v))"
      unfolding drop_column_fields using loses_same by (auto split: if_splits)
    obtain st where st: "omget (vw_crdts v) k = Some st" using l by (auto simp: loses_def)
    obtain col y where y: "row_column (state_value st) '''' col = Some y" "y \<noteq> VNull" "col \<noteq> key_column"
      using l st by (auto simp: loses_def)
    have "state_value st \<noteq> VMap kvs" for kvs
      using assms k st by (auto simp: seen_by_estimate_def)
    then have "has_column (state_value st) True c"
      using y k(1) by (cases "state_value st") (auto simp: has_column_def row_column_def split: if_splits)
    then show "k \<in> fields_where v t (\<lambda>x. has_column x True c)" using k(2) st by blast
  qed
qed

lemma rename_column_lost:
  assumes "seen_by_estimate v (RenameColumn t a b)"
  shows "lost_rows v (RenameColumn t a b) \<subseteq> rows_where v t (\<lambda>x. has_column x True a)"
    and "lost_fields v (RenameColumn t a b) = {}"
proof -
  show "lost_rows v (RenameColumn t a b) \<subseteq> rows_where v t (\<lambda>x. has_column x True a)"
  proof
    fix k assume "k \<in> lost_rows v (RenameColumn t a b)"
    then have l: "loses (omget (vw_keys v) k) (omget (vw_keys (apply_schema (RenameColumn t a b) v)) k)"
      by (simp add: lost_rows_def)
    then have k: "k \<in> set (addressed t (vw_keys v))" "a \<noteq> b"
      unfolding rename_column_rows using loses_same by (auto split: if_splits)
    obtain x where x: "omget (vw_keys v) k = Some x" using l by (auto simp: loses_def)
    have "loses (Some x) (Some (rename_result a b x))" using l k x unfolding rename_column_rows by simp
    then have "has_column x True a"
      by (rule rename_loses) (use assms k(1) x in \<open>auto simp: seen_by_estimate_def\<close>)
    then show "k \<in> rows_where v t (\<lambda>x. has_column x True a)" using k(1) x by blast
  qed
  show "lost_fields v (RenameColumn t a b) = {}"
    using lost_altered(2) [of v "RenameColumn t a b"] by (simp add: altered_fields_def)
qed

text \<open>C14: The number the gate reads never understates what a change destroys: the rows and
  replicated fields that lose a value they hold are at most the estimate, a dropped table
  loses exactly the rows it was estimated at, and in a table without nulls and empty rows
  even the rows that are altered at all are at most the estimate.  This is for renames onto
  a name no row holds, and for drops of the whole-value column of tables without a register
  that holds a map.\<close>

theorem impact_covers_the_change:
  assumes "seen_by_estimate v c"
  shows "finite (lost_rows v c) \<and> finite (lost_fields v c) \<and>
    card (lost_rows v c) + card (lost_fields v c) \<le> im_rows (estimate v c) \<and>
    (c = DropTable t \<longrightarrow> card (altered_rows v c) + card (altered_fields v c) = im_rows (estimate v c)) \<and>
    (rows_solid v (change_table c) \<longrightarrow> finite (altered_rows v c) \<and> finite (altered_fields v c) \<and>
       card (altered_rows v c) + card (altered_fields v c) \<le> im_rows (estimate v c))"
proof (cases c)
  case (DropTable u)
  have lost: "lost_rows v c \<subseteq> rows_where v u (\<lambda>_. True)" "lost_fields v c \<subseteq> fields_where v u (\<lambda>_. True)"
    using lost_altered [of v c] drop_table_alters [of v u] unfolding DropTable by blast+
  show ?thesis
    using count_bounds [OF equalityD1 [OF drop_table_alters(1)] equalityD1 [OF drop_table_alters(2)]] drop_table_alters [of v u]
      count_bounds [OF lost] DropTable
    by (auto simp: estimate_def rows_in_def count_rows_card Let_def)
next
  case (DropColumn u x)
  then show ?thesis
    using count_bounds [OF drop_column_alters] count_bounds [OF drop_column_lost] assms
    by (simp add: estimate_def rows_with_column_def Let_def)
next
  case (RenameColumn u a b)
  then show ?thesis
    using count_bounds [OF rename_column_alters(1) empty_subsetI] rename_column_alters(2) [of v u a b]
      count_bounds [OF rename_column_lost(1) empty_subsetI] rename_column_lost(2) [of v u a b] assms
    by (simp add: estimate_def rows_with_column_def Let_def)
qed (use other_changes_alter_nothing [of c v] lost_altered [of v c] in simp_all)

definition sample_rows :: "val \<Rightarrow> view" where
  "sample_rows x = view_new\<lparr>vw_keys := omput ''t:1'' x omempty\<rparr>"

lemmas sample_rows_eval = sample_rows_def view_new_def prefix_range_def address_prefix_def starts_with_def
  parse_address_def addressed_def om_eval

lemma impact_covers_the_change_witness:
  "card (altered_rows (sample_rows (VMap [(''c'', VInt 1)])) (DropTable ''t'')) +
     card (altered_fields (sample_rows (VMap [(''c'', VInt 1)])) (DropTable ''t'')) = 1 \<and>
   card (lost_rows (sample_rows (VMap [(''c'', VInt 1)])) (DropColumn ''t'' ''d'')) = 0"
proof -
  let ?v = "sample_rows (VMap [(''c'', VInt 1)])"
  have "seen_by_estimate ?v (DropTable ''t'')" "seen_by_estimate ?v (DropColumn ''t'' ''d'')"
    by (simp_all add: seen_by_estimate_def value_column_def)
  moreover have "im_rows (estimate ?v (DropTable ''t'')) = 1" "im_rows (estimate ?v (DropColumn ''t'' ''d'')) = 0"
    by (simp_all add: estimate_def Let_def rows_in_def rows_with_column_def count_rows_def has_column_def key_column_def
        sample_rows_eval)
  ultimately show ?thesis
    using impact_covers_the_change [of ?v "DropTable ''t''" "''t''"]
      impact_covers_the_change [of ?v "DropColumn ''t'' ''d''" "''t''"] by simp
qed

text \<open>A rename over a column that is there, from one that is null, loses a value nobody counts.\<close>

lemma rename_overwrites_uncounted:
  "im_rows (estimate (sample_rows (VMap [(''a'', VNull), (''b'', VInt 5)])) (RenameColumn ''t'' ''a'' ''b'')) = 0 \<and>
   view_get (apply_schema (RenameColumn ''t'' ''a'' ''b'') (sample_rows (VMap [(''a'', VNull), (''b'', VInt 5)]))) ''t:1'' =
     Some (VMap [(''b'', VNull)])"
  unfolding view_get_def rename_column_rows
  by (simp add: estimate_def Let_def rows_with_column_def count_rows_def has_column_def key_column_def rename_result_def
      sample_rows_eval)

text \<open>A row whose columns are all null is deleted with the last of them, and neither the drop
  of that column nor of a column no row has counts it.\<close>

theorem drop_of_nulls_counts_nothing:
  "im_rows (estimate (sample_rows (VMap [(''c'', VNull)])) (DropColumn ''t'' ''c'')) = 0 \<and>
   view_get (apply_schema (DropColumn ''t'' ''c'') (sample_rows (VMap [(''c'', VNull)]))) ''t:1'' = None \<and>
   im_rows (estimate (sample_rows (VMap [])) (DropColumn ''t'' ''x'')) = 0 \<and>
   view_get (apply_schema (DropColumn ''t'' ''x'') (sample_rows (VMap []))) ''t:1'' = None"
  unfolding view_get_def drop_column_rows
  by (simp add: estimate_def Let_def rows_with_column_def count_rows_def has_column_def key_column_def drop_result_def
      sample_rows_eval)

end
