(* ===== verification/Daemon_Shadow.thy ===== *)
theory Daemon_Shadow
  imports Daemon_Impact
begin

text \<open>
  The validation of a change on its shadow branch (\<open>thetad/src/shadow.rs\<close>): three checks,
  each a comparison of the two branches' views, and the record of what they found.
\<close>

section \<open>Checks\<close>

definition sample_limit :: nat where
  "sample_limit = 20"

record row_sample =
  sm_key :: string
  sm_before :: "val option"
  sm_after :: "val option"

record check =
  ck_name :: string
  ck_passed :: bool
  ck_detail :: string
  ck_samples :: "row_sample list"

fun named_table :: "schema_change \<Rightarrow> string option" where
  "named_table (AddTable td) = Some (td_name td)"
| "named_table (DropTable t) = Some t"
| "named_table (AddColumn t _) = Some t"
| "named_table (DropColumn t _) = Some t"
| "named_table (AlterColumnType t _ _ _) = Some t"
| "named_table (SetNullable t _ _ _) = Some t"
| "named_table (AddIndex t _) = Some t"
| "named_table (DropIndex t _) = Some t"
| "named_table (RenameColumn t _ _) = Some t"
| "named_table (SetCrdt t _ _) = Some t"

definition shadow_rows :: "view \<Rightarrow> string \<Rightarrow> nat" where
  "shadow_rows v t =
     (let prefix = address_prefix t;
          plain = length (filter (\<lambda>(key, _). parse_address key \<noteq> None) (prefix_range prefix (vw_keys v)));
          crdt = length (filter (\<lambda>(key, _). parse_address key \<noteq> None) (prefix_range prefix (vw_crdts v)))
      in plain + crdt)"

definition rows_differ :: "view \<Rightarrow> view \<Rightarrow> string \<Rightarrow> bool" where
  "rows_differ tv sv t =
     (\<not> value_map_eq (prefix_range (address_prefix t) (vw_keys tv)) (prefix_range (address_prefix t) (vw_keys sv)))"

abbreviation tick_quote :: "string \<Rightarrow> string" where
  "tick_quote s \<equiv> ''`'' @ s @ ''`''"

abbreviation tick_column :: "string \<Rightarrow> string \<Rightarrow> string" where
  "tick_column t c \<equiv> ''`'' @ t @ ''.'' @ c @ ''`''"

definition change_took_effect :: "view \<Rightarrow> view \<Rightarrow> schema_change \<Rightarrow> check" where
  "change_took_effect tv sv change =
     (let declared = (\<lambda>v t c. schema_field (vw_schema v) t c \<noteq> None);
          (passed, detail) =
            (case change of
               DropTable t \<Rightarrow>
                 let before = shadow_rows tv t;
                     declared_before = omhas (sc_tables (vw_schema tv)) t;
                     after = shadow_rows sv t
                 in if \<not> (0 < before \<or> declared_before)
                    then (False, tick_quote t @ '' does not exist, so dropping it does nothing'')
                    else if after = 0 then (True, tick_quote t @ '' and its '' @ show_nat before @ '' rows are gone'')
                    else (False, tick_quote t @ '' still holds '' @ show_nat after @ '' rows after the drop'')
             | DropColumn t c \<Rightarrow>
                 let dropped_declaration = (declared tv t c \<and> \<not> declared sv t c);
                     data_moved = rows_differ tv sv t
                 in if dropped_declaration \<or> data_moved then (True, tick_column t c @ '' is gone from the branch'')
                    else (False, tick_column t c @ '' was not there to drop: this change removes nothing, so validating it proves nothing'')
             | RenameColumn t from' to' \<Rightarrow>
                 let moved = (declared tv t from' \<and> declared sv t to');
                     data_moved = rows_differ tv sv t
                 in if moved \<or> data_moved then (True, tick_column t from' @ '' is now '' @ tick_column t to')
                    else (False, tick_column t from' @ '' was not there to rename'')
             | other \<Rightarrow>
                 let t = (case named_table other of None \<Rightarrow> [] | Some t \<Rightarrow> t) in
                 if omget (sc_tables (vw_schema tv)) t \<noteq> omget (sc_tables (vw_schema sv)) t
                 then (True, ''the declaration of '' @ tick_quote t @ '' changed'')
                 else (False, ''the declaration of '' @ tick_quote t @ '' is unchanged: this change does nothing''))
      in \<lparr>ck_name = ''change_took_effect'', ck_passed = passed, ck_detail = detail, ck_samples = []\<rparr>)"

fun stray_scan :: "string option \<Rightarrow> view \<Rightarrow> view \<Rightarrow> string list \<Rightarrow> row_sample list \<Rightarrow> row_sample list" where
  "stray_scan named tv sv [] strays = strays"
| "stray_scan named tv sv (key # keys) strays =
     (if sample_limit \<le> length strays then strays
      else if map_option ra_table (parse_address key) = named then stray_scan named tv sv keys strays
      else let before = omget (vw_keys tv) key; after = omget (vw_keys sv) key in
        if \<not> value_option_eq before after \<and> \<not> list_ex (\<lambda>s. sm_key s = key) strays
        then stray_scan named tv sv keys (strays @ [\<lparr>sm_key = key, sm_before = before, sm_after = after\<rparr>])
        else stray_scan named tv sv keys strays)"

definition only_the_named_table_changed :: "view \<Rightarrow> view \<Rightarrow> schema_change \<Rightarrow> check" where
  "only_the_named_table_changed tv sv change =
     (let named = named_table change;
          strays = stray_scan named tv sv (omkeys (vw_keys tv) @ omkeys (vw_keys sv)) [];
          passed = (strays = [])
      in \<lparr>ck_name = ''only_the_named_table_changed'', ck_passed = passed,
          ck_detail = (case (named, passed) of
              (Some t, True) \<Rightarrow> ''nothing outside '' @ tick_quote t @ '' moved''
            | (None, True) \<Rightarrow> ''nothing moved outside the change's own scope''
            | (_, False) \<Rightarrow> show_nat (length strays) @ '' row(s) outside this change's table differ; '' @
                ''a change that touches a table it does not name is not the change that was reviewed''),
          ck_samples = strays\<rparr>)"

definition sample_missing_rows :: "view \<Rightarrow> view \<Rightarrow> string \<Rightarrow> row_sample list" where
  "sample_missing_rows tv sv t =
     map (\<lambda>(key, x). \<lparr>sm_key = key, sm_before = Some x, sm_after = omget (vw_keys sv) key\<rparr>)
       (take sample_limit
         (filter (\<lambda>(key, x). \<not> value_option_eq (omget (vw_keys sv) key) (Some x))
           (prefix_range (address_prefix t) (vw_keys tv))))"

definition row_count_matches_the_change :: "view \<Rightarrow> view \<Rightarrow> schema_change \<Rightarrow> check" where
  "row_count_matches_the_change tv sv change =
     (case named_table change of
        None \<Rightarrow> \<lparr>ck_name = ''row_count_matches_the_change'', ck_passed = True,
                  ck_detail = ''this change names no table'', ck_samples = []\<rparr>
      | Some t \<Rightarrow>
          let before = shadow_rows tv t; after = shadow_rows sv t;
              (passed, detail) =
                (case change of
                   DropTable _ \<Rightarrow>
                     (after = 0,
                      if after = 0
                      then tick_quote t @ '' went from '' @ show_nat before @ '' rows to none, as a table drop should''
                      else tick_quote t @ '' still holds '' @ show_nat after @ '' of its '' @ show_nat before @ '' rows after a drop'')
                 | _ \<Rightarrow>
                     (before = after,
                      if before = after
                      then tick_quote t @ '' still holds all '' @ show_nat before @ '' of its rows''
                      else tick_quote t @ '' went from '' @ show_nat before @ '' rows to '' @ show_nat after @
                        '': this change was not supposed to remove rows''))
          in \<lparr>ck_name = ''row_count_matches_the_change'', ck_passed = passed, ck_detail = detail,
              ck_samples = sample_missing_rows tv sv t\<rparr>)"

definition shadow_validate :: "view \<Rightarrow> view \<Rightarrow> schema_change \<Rightarrow> check list" where
  "shadow_validate tv sv change =
     [change_took_effect tv sv change, only_the_named_table_changed tv sv change,
      row_count_matches_the_change tv sv change]"

section \<open>The record\<close>

record validation =
  vd_passed :: bool
  vd_ran_at :: int
  vd_head :: hash
  vd_checks :: "check list"

definition validation_summary :: "validation \<Rightarrow> string" where
  "validation_summary d =
     (case map ck_name (filter (\<lambda>c. \<not> ck_passed c) (vd_checks d)) of
        [] \<Rightarrow> ''validation passed ('' @ show_nat (length (vd_checks d)) @ '' checks)''
      | names \<Rightarrow> ''validation failed: '' @ join_with '', '' names)"

record shadow_validation =
  sv_change_id :: string
  sv_target :: nat
  sv_shadow :: nat
  sv_applied_head :: hash
  sv_opened_at :: int
  sv_outcome :: "validation option"

definition is_current :: "hash \<Rightarrow> shadow_validation \<Rightarrow> bool" where
  "is_current shadow_head r = (case sv_outcome r of Some o' \<Rightarrow> vd_head o' = shadow_head | None \<Rightarrow> False)"

section \<open>What a passing validation says\<close>

lemma stray_scan_keeps: "strays \<noteq> [] \<Longrightarrow> stray_scan named tv sv keys strays \<noteq> []"
  by (induction keys arbitrary: strays) (simp_all add: Let_def)

lemma stray_scan_none:
  "stray_scan named tv sv keys [] = [] \<longleftrightarrow>
     list_all (\<lambda>key. map_option ra_table (parse_address key) = named \<or>
       value_option_eq (omget (vw_keys tv) key) (omget (vw_keys sv) key)) keys"
  by (induction keys) (auto simp: Let_def sample_limit_def stray_scan_keeps)

lemma stray_check_exact:
  "ck_passed (only_the_named_table_changed tv sv c) \<longleftrightarrow>
     (\<forall>key. map_option ra_table (parse_address key) = named_table c \<or> value_option_eq (view_get tv key) (view_get sv key))"
proof -
  have "key \<in> set (omkeys (vw_keys tv) @ omkeys (vw_keys sv)) \<or> value_option_eq (view_get tv key) (view_get sv key)" for key
    by (cases "omget (vw_keys tv) key"; cases "omget (vw_keys sv) key") (simp_all add: omkeys_set view_get_def)
  then show ?thesis
    unfolding only_the_named_table_changed_def Let_def check.simps stray_scan_none view_get_def list_all_iff by blast
qed


lemma named_change_table: "named_table c = Some (change_table c)"
  by (cases c) simp_all

lemma altered_addressed:
  "k \<in> altered_rows v c \<Longrightarrow> k \<in> set (addressed (change_table c) (vw_keys v))"
proof (cases c)
  case (DropColumn t x)
  then show "k \<in> altered_rows v c \<Longrightarrow> k \<in> set (addressed (change_table c) (vw_keys v))"
    unfolding altered_rows_def mem_Collect_eq by (simp add: drop_column_rows del: apply_schema.simps split: if_splits)
next
  case (RenameColumn t a b)
  then show "k \<in> altered_rows v c \<Longrightarrow> k \<in> set (addressed (change_table c) (vw_keys v))"
    unfolding altered_rows_def mem_Collect_eq by (simp add: rename_column_rows del: apply_schema.simps split: if_splits)
next
  case (DropTable t)
  then show "k \<in> altered_rows v c \<Longrightarrow> k \<in> set (addressed (change_table c) (vw_keys v))"
    by (simp add: drop_table_alters)
qed (simp_all add: other_changes_alter_nothing)

text \<open>The change itself never strays, as long as its table's name can be addressed and no
  row holds a NaN, which differs from itself.\<close>

lemma change_never_strays:
  assumes "table_name_ok (change_table c)" and "\<And>k. value_option_eq (view_get v k) (view_get v k)"
  shows "ck_passed (only_the_named_table_changed v (apply_schema c v) c)"
  unfolding stray_check_exact named_change_table
proof
  fix k
  show "map_option ra_table (parse_address k) = Some (change_table c) \<or>
      value_option_eq (view_get v k) (view_get (apply_schema c v) k)"
  proof (cases "k \<in> altered_rows v c")
    case True
    then have "starts_with (address_prefix (change_table c)) k" "parse_address k \<noteq> None"
      by (simp_all add: altered_addressed [THEN addressed_iff [THEN iffD1]])
    then show ?thesis using parse_of_prefix [OF assms(1)] by auto
  next
    case False
    then show ?thesis using assms(2) [of k] by (simp add: altered_rows_def view_get_def)
  qed
qed

section \<open>What it means that a change took effect\<close>















section \<open>What a passing validation does not say\<close>

text \<open>Replicated fields of other tables, and their declarations, are not compared.\<close>

theorem replicated_strays_pass:
  "ck_passed (only_the_named_table_changed tv (sv\<lparr>vw_crdts := m, vw_schema := sc\<rparr>) c) \<longleftrightarrow>
   ck_passed (only_the_named_table_changed tv sv c)"
  unfolding stray_check_exact by (simp add: view_get_def)

text \<open>Dropping the only column of a table empties its rows, so the drop never validates.\<close>

theorem only_column_never_validates:
  "let v = sample_rows (VMap [(''c'', VInt 1)]); c = DropColumn ''t'' ''c'' in
   \<not> list_all ck_passed (shadow_validate v (apply_schema c v) c) \<and> ck_passed (change_took_effect v (apply_schema c v) c)"
  by (simp add: Let_def shadow_validate_def row_count_matches_the_change_def change_took_effect_def shadow_rows_def
      rows_differ_def drop_column_values_def keys_of_def drop_value_def sample_rows_eval table_mut_def)

end
