(* ===== verification/Store_Signing.thy ===== *)
theory Store_Signing
  imports Core_Log
begin

text \<open>
  Entries signed by the session that wrote them (\<open>theta-storage/src/signing.rs\<close>): the
  registry of public keys and the book of signatures kept beside the log.  Ed25519 is the
  record \<open>signing_lib\<close>: the parser of a public key and of a signature, and the check.
\<close>

record ('p, 'g) signing_lib =
  sg_key_of :: "byte list \<Rightarrow> 'p option"
  sg_parse :: "byte list \<Rightarrow> 'g option"
  sg_check :: "'p \<Rightarrow> byte list \<Rightarrow> 'g \<Rightarrow> bool"

record entry_signature =
  es_hash :: hash
  es_key :: string
  es_bytes :: "byte list"

datatype signing_error =
    UnknownKey string
  | BadSignature string string
  | WrongSigner string string string
  | MissingSignature string

type_synonym 'p key_registry = "(string, 'p) omap"

type_synonym signature_book = "(hash, entry_signature) omap"

definition register_key :: "string \<Rightarrow> 'p \<Rightarrow> 'p key_registry \<Rightarrow> 'p key_registry" where
  "register_key i key keys = omput i key keys"

definition register_hex ::
  "('p, 'g) signing_lib \<Rightarrow> string \<Rightarrow> string \<Rightarrow> 'p key_registry \<Rightarrow> (signing_error + unit) \<times> 'p key_registry" where
  "register_hex S i hex keys =
     (if length hex \<noteq> 64 then (Inl (UnknownKey i), keys)
      else case bytes_from_hex hex of
          None \<Rightarrow> (Inl (UnknownKey i), keys)
        | Some bytes \<Rightarrow>
            (case sg_key_of S bytes of
               None \<Rightarrow> (Inl (UnknownKey i), keys)
             | Some key \<Rightarrow> (Inr (), register_key i key keys)))"

definition book_verify ::
  "('p, 'g) signing_lib \<Rightarrow> codec \<Rightarrow> log_entry \<Rightarrow> 'p key_registry \<Rightarrow> signature_book \<Rightarrow> signing_error + unit" where
  "book_verify S D e keys book =
     (let h = content_hash D e in
      case omget book h of
        None \<Rightarrow> Inl (MissingSignature (to_hex h))
      | Some held \<Rightarrow>
          (case (case author_session_id (le_author e) of
                   Some session \<Rightarrow> if es_key held \<noteq> session then Some session else None
                 | None \<Rightarrow> None) of
             Some session \<Rightarrow> Inl (WrongSigner (to_hex h) session (es_key held))
           | None \<Rightarrow>
               (case omget keys (es_key held) of
                  None \<Rightarrow> Inl (UnknownKey (es_key held))
                | Some key \<Rightarrow>
                    (case sg_parse S (es_bytes held) of
                       None \<Rightarrow> Inl (BadSignature (to_hex h) (es_key held))
                     | Some g \<Rightarrow>
                         if sg_check S key h g then Inr () else Inl (BadSignature (to_hex h) (es_key held))))))"

definition book_accept ::
  "('p, 'g) signing_lib \<Rightarrow> codec \<Rightarrow> log_entry \<Rightarrow> string \<Rightarrow> byte list \<Rightarrow> 'p key_registry \<Rightarrow> signature_book \<Rightarrow>
     (signing_error + unit) \<times> signature_book" where
  "book_accept S D e i bytes keys book =
     (let h = content_hash D e;
          candidate = \<lparr>es_hash = h, es_key = i, es_bytes = bytes\<rparr>
      in case book_verify S D e keys (omput h candidate omempty) of
           Inl err \<Rightarrow> (Inl err, book)
         | Inr _ \<Rightarrow> (Inr (), omput h candidate book))"

fun book_verify_all ::
  "('p, 'g) signing_lib \<Rightarrow> codec \<Rightarrow> log_entry list \<Rightarrow> 'p key_registry \<Rightarrow> (author \<Rightarrow> bool) \<Rightarrow> signature_book \<Rightarrow> nat \<Rightarrow>
     signing_error + nat" where
  "book_verify_all S D [] keys expected book checked = Inr checked"
| "book_verify_all S D (e # es) keys expected book checked =
     (if \<not> expected (le_author e) then book_verify_all S D es keys expected book checked
      else case book_verify S D e keys book of
          Inl err \<Rightarrow> Inl err
        | Inr _ \<Rightarrow> book_verify_all S D es keys expected book (checked + 1))"

section \<open>What a verified history says\<close>

text \<open>An entry carries a signature that its own session's registered key made over it.\<close>

definition signed_by_session ::
  "('p, 'g) signing_lib \<Rightarrow> codec \<Rightarrow> 'p key_registry \<Rightarrow> signature_book \<Rightarrow> log_entry \<Rightarrow> bool" where
  "signed_by_session S D keys book e \<longleftrightarrow>
     (\<exists>s key g. omget book (content_hash D e) = Some s \<and> omget keys (es_key s) = Some key \<and>
        sg_parse S (es_bytes s) = Some g \<and> sg_check S key (content_hash D e) g \<and>
        (author_session_id (le_author e) = None \<or> author_session_id (le_author e) = Some (es_key s)))"

lemma book_verify_ok: "book_verify S D e keys book = Inr () \<longleftrightarrow> signed_by_session S D keys book e"
  by (auto simp: book_verify_def signed_by_session_def Let_def split: option.splits if_splits)

lemma book_verify_all_from:
  "book_verify_all S D es keys expected book n = Inr m \<longleftrightarrow>
     m = n + length (filter (\<lambda>e. expected (le_author e)) es) \<and>
     list_all (\<lambda>e. expected (le_author e) \<longrightarrow> signed_by_session S D keys book e) es"
proof (induction es arbitrary: n)
  case (Cons e es)
  show ?case
  proof (cases "book_verify S D e keys book")
    case (Inl err)
    then have "\<not> signed_by_session S D keys book e" using book_verify_ok [of S D e keys book] by simp
    then show ?thesis using Cons.IH [of n] Inl by auto
  next
    case (Inr u)
    then have "signed_by_session S D keys book e" using book_verify_ok [of S D e keys book] by simp
    then show ?thesis using Cons.IH [of n] Cons.IH [of "n + 1"] Inr by auto
  qed
qed auto

text \<open>A history verifies exactly when every entry that should be signed is signed by the
  session it is attributed to, and all of them are counted.\<close>

theorem verified_history_is_signed:
  "book_verify_all S D es keys expected book 0 = Inr n \<longleftrightarrow>
     n = length (filter (\<lambda>e. expected (le_author e)) es) \<and>
     (\<forall>e. e \<in> set (filter (\<lambda>e. expected (le_author e)) es) \<longrightarrow> signed_by_session S D keys book e)"
  by (auto simp: book_verify_all_from list_all_iff)

text \<open>What is accepted verifies, and what is refused leaves the book as it was.\<close>

theorem accepted_signature_verifies:
  "(fst (book_accept S D e i bytes keys book) = Inr () \<longrightarrow>
      signed_by_session S D keys (snd (book_accept S D e i bytes keys book)) e) \<and>
   (fst (book_accept S D e i bytes keys book) \<noteq> Inr () \<longrightarrow> snd (book_accept S D e i bytes keys book) = book)"
proof (cases "book_verify S D e keys (omput (content_hash D e) \<lparr>es_hash = content_hash D e, es_key = i, es_bytes = bytes\<rparr> omempty)")
  case (Inr u)
  then have "signed_by_session S D keys (omput (content_hash D e) \<lparr>es_hash = content_hash D e, es_key = i, es_bytes = bytes\<rparr> omempty) e"
    using book_verify_ok [of S D e keys] by simp
  then show ?thesis using Inr by (simp add: book_accept_def Let_def signed_by_session_def)
qed (simp add: book_accept_def Let_def)

text \<open>A session that signs fails the check with its first write that is not signed.\<close>

lemma unsigned_write_fails:
  "expected (le_author e) \<Longrightarrow> omget book (content_hash D e) = None \<Longrightarrow>
   book_verify_all S D [e] keys expected book 0 = Inl (MissingSignature (to_hex (content_hash D e)))"
  by (simp add: book_verify_def Let_def)

end
