(* ===== verification/Daemon_Engine.thy ===== *)
theory Daemon_Engine
  imports Daemon_Shadow Store_Durable Store_MergeQueue Store_Region Store_Verifier Store_Temporal Store_Signing
    Safety_Audit Safety_Signed Safety_Budget Safety_Spend
begin

text \<open>
  The engine (\<open>thetad/src/engine.rs\<close>): the log, the branches, their views and the safety
  layer in one state, and the writes that go through them.  The state is passed explicitly;
  an operation answers an error or a result beside the state it leaves.  The libraries are
  gathered in the record \<open>engine_lib\<close>.

  Two of the engine's hash maps, the pending changes and the shadow branches, are iterated;
  they are ordered maps here, which fixes one of the orders the code may take.
\<close>

section \<open>State\<close>

record ('k, 'p, 'g) engine_lib =
  el_codec :: codec
  el_enc :: "val \<Rightarrow> byte list"
  el_store :: "'k store_lib"
  el_js :: "schema_change \<Rightarrow> val option"
  el_change :: "schema_change \<Rightarrow> byte list"
  el_wire :: "('p, 'g) wire"
  el_policy :: "byte list \<Rightarrow> string + versioned_policy"
  el_signing :: "('p, 'g) signing_lib"
  el_value :: "string \<Rightarrow> string + val"

datatype engine_error =
    ReviewExhausted budget_scope string
  | RegionRefused region_error
  | SignedWriteRaced nat nat nat
  | SignatureRefused signing_error
  | PreconditionFailed string bool nat
  | UniqueViolation string string string string
  | EmptyTransaction
  | DuplicateKeyInTransaction string
  | Gated string change_diff
  | BreakerOpen string
  | UnknownChange string
  | TypeMismatch string string string
  | BadRequest string
  | StorageFailed storage_error
  | TemporalFailed temporal_error

record pending_change =
  pc_diff :: change_diff
  pc_change :: schema_change
  pc_branch :: nat
  pc_proposed_at :: int

record ('k, 'p) engine =
  en_project :: string
  en_log :: "'k durable"
  en_branches :: branch_store
  en_views :: branch_views
  en_breaker :: breaker
  en_pending :: "(string, pending_change) omap"
  en_shadows :: "(string, shadow_validation) omap"
  en_shadow_changes :: "string \<Rightarrow> schema_change option"
  en_rows_written :: nat
  en_keys :: "'p public_keyset option"
  en_policy :: policy_sync
  en_audit :: "audit_entry list"
  en_review :: review_budget
  en_reservations :: "string \<Rightarrow> nat option"
  en_spend :: spend_ledger
  en_verifier :: verifier
  en_queues :: "nat \<Rightarrow> merge_queue option"
  en_session_keys :: "'p key_registry"
  en_signatures :: signature_book
  en_placement :: placement

type_synonym ('k, 'p, 'a) act = "('k, 'p) engine \<Rightarrow> (engine_error + 'a) \<times> ('k, 'p) engine"

text \<open>The question mark operator.\<close>

definition and_then :: "('k, 'p, 'a) act \<Rightarrow> ('a \<Rightarrow> ('k, 'p, 'b) act) \<Rightarrow> ('k, 'p, 'b) act" where
  "and_then m f e = (case m e of (Inl err, e') \<Rightarrow> (Inl err, e') | (Inr x, e') \<Rightarrow> f x e')"

definition checked :: "(('k, 'p) engine \<Rightarrow> engine_error + unit) \<Rightarrow> ('k, 'p, unit) act" where
  "checked c e = (c e, e)"

section \<open>Reading\<close>

definition engine_get :: "('k, 'p) engine \<Rightarrow> nat \<Rightarrow> string \<Rightarrow> val option" where
  "engine_get e br key = Option.bind (omget (en_views e) br) (\<lambda>v. view_get v key)"

definition engine_get_crdt :: "('k, 'p) engine \<Rightarrow> nat \<Rightarrow> string \<Rightarrow> val option" where
  "engine_get_crdt e br key = Option.bind (omget (en_views e) br) (\<lambda>v. get_crdt v key)"

definition engine_version_of :: "('k, 'p) engine \<Rightarrow> nat \<Rightarrow> string \<Rightarrow> nat option" where
  "engine_version_of e br key = Option.bind (omget (en_views e) br) (\<lambda>v. version_of v key)"

definition engine_head :: "('k, 'p) engine \<Rightarrow> nat \<Rightarrow> hash option" where
  "engine_head e br = log_head (du_log (en_log e)) br"

definition next_commit :: "('k, 'p) engine \<Rightarrow> nat \<Rightarrow> nat" where
  "next_commit e br = (case bs_by_id (en_branches e) br of None \<Rightarrow> 0 | Some b \<Rightarrow> br_next_commit b)"

definition branch_name_of :: "('k, 'p) engine \<Rightarrow> nat \<Rightarrow> string" where
  "branch_name_of e br = (case bs_by_id (en_branches e) br of None \<Rightarrow> show_nat br | Some b \<Rightarrow> br_name b)"

definition sequence_ids :: "('k, 'p) engine \<Rightarrow> nat \<Rightarrow> string \<Rightarrow> elem_id list" where
  "sequence_ids e br key =
     (case Option.bind (omget (en_views e) br) (\<lambda>v. omget (vw_crdts v) key) of
        Some (SSequence s) \<Rightarrow> rga_live_ids s
      | _ \<Rightarrow> [])"

section \<open>The checks before a write\<close>

definition record_audit :: "audit_entry \<Rightarrow> ('k, 'p) engine \<Rightarrow> ('k, 'p) engine" where
  "record_audit a e = e\<lparr>en_audit := en_audit e @ [a]\<rparr>"

definition check_type :: "nat \<Rightarrow> string \<Rightarrow> val \<Rightarrow> ('k, 'p) engine \<Rightarrow> engine_error + unit" where
  "check_type br key x e =
     (case omget (en_views e) br of
        None \<Rightarrow> Inr ()
      | Some v \<Rightarrow>
          (case parse_address key of
             None \<Rightarrow> Inr ()
           | Some a \<Rightarrow>
               (case check_row (vw_schema v) (ra_table a) x of
                  Inl err \<Rightarrow> Inl (TypeMismatch (fe_table err @ ''.'' @ fe_column err)
                               (type_name (fe_declared err)) (type_name (fe_actual err)))
                | Inr _ \<Rightarrow> Inr ())))"

text \<open>The tuple a row holds in an index, when it has all its columns.\<close>

definition index_tuple :: "index_def \<Rightarrow> string \<Rightarrow> val \<Rightarrow> val list option" where
  "index_tuple ix pk row = those (map (row_column row pk) (ix_columns ix))"

definition tuples_collide :: "val list option \<Rightarrow> val list option \<Rightarrow> bool" where
  "tuples_collide a b = (case (a, b) of (Some x, Some y) \<Rightarrow> value_list_eq x y | _ \<Rightarrow> False)"

fun unique_indexes_ok :: "view \<Rightarrow> row_address \<Rightarrow> val \<Rightarrow> index_def list \<Rightarrow> engine_error + unit" where
  "unique_indexes_ok v a x [] = Inr ()"
| "unique_indexes_ok v a x (ix # ixs) =
     (case index_tuple ix (ra_primary_key a) x of
        None \<Rightarrow> unique_indexes_ok v a x ixs
      | Some incoming \<Rightarrow>
          (case find_first (\<lambda>(pk, row). pk \<noteq> ra_primary_key a \<and> tuples_collide (index_tuple ix pk row) (Some incoming))
                  (view_scan v (ra_table a)) of
             Some (pk, _) \<Rightarrow> Inl (UniqueViolation (ix_name ix) (ra_table a) (join_with '', '' (ix_columns ix)) pk)
           | None \<Rightarrow> unique_indexes_ok v a x ixs))"

definition check_unique :: "nat \<Rightarrow> string \<Rightarrow> val \<Rightarrow> ('k, 'p) engine \<Rightarrow> engine_error + unit" where
  "check_unique br key x e =
     (case omget (en_views e) br of
        None \<Rightarrow> Inr ()
      | Some v \<Rightarrow>
          (case parse_address key of
             None \<Rightarrow> Inr ()
           | Some a \<Rightarrow>
               (case omget (sc_tables (vw_schema v)) (ra_table a) of
                  None \<Rightarrow> Inr ()
                | Some td \<Rightarrow> unique_indexes_ok v a x (filter ix_unique (td_indexes td)))))"

definition check_breaker :: "nat \<Rightarrow> int \<Rightarrow> author \<Rightarrow> ('k, 'p, unit) act" where
  "check_breaker rows now a e =
     (case breaker_record rows (nat (max now 0)) (en_breaker e) of
        (d, b) \<Rightarrow>
          let e1 = e\<lparr>en_breaker := b, en_rows_written := sat_add64 (en_rows_written e) rows\<rparr> in
          (case d of
             Allow \<Rightarrow> (Inr (), e1)
           | Trip _ _ _ reason \<Rightarrow>
               (Inl (BreakerOpen reason), case for_breaker d a now of None \<Rightarrow> e1 | Some t \<Rightarrow> record_audit t e1)))"

section \<open>Appending\<close>

definition engine_entry :: "nat \<Rightarrow> op_type \<Rightarrow> author \<Rightarrow> int \<Rightarrow> ('k, 'p) engine \<Rightarrow> log_entry" where
  "engine_entry br op a now e =
     \<lparr>le_prev = du_expected (en_log e) br, le_commit = next_commit e br, le_branch = br, le_op = op, le_author = a, le_ts = now\<rparr>"

definition land_entry :: "('k, 'p, 'g) engine_lib \<Rightarrow> log_entry \<Rightarrow> ('k, 'p, hash) act" where
  "land_entry L en e =
     (case append_and_apply (el_codec L) (el_enc L) (el_store L) en (en_views e) (en_log e) of
        (Inl err, views, log) \<Rightarrow> (Inl (StorageFailed err), e\<lparr>en_views := views, en_log := log\<rparr>)
      | (Inr h, views, log) \<Rightarrow>
          (case branch_set_head (le_branch en) h (en_branches e) of
             (Inl err, bs) \<Rightarrow> (Inl (StorageFailed err), e\<lparr>en_views := views, en_log := log, en_branches := bs\<rparr>)
           | (Inr _, bs) \<Rightarrow> (Inr h, e\<lparr>en_views := views, en_log := log, en_branches := bs\<rparr>)))"

definition engine_append :: "('k, 'p, 'g) engine_lib \<Rightarrow> nat \<Rightarrow> op_type \<Rightarrow> author \<Rightarrow> int \<Rightarrow> ('k, 'p, hash) act" where
  "engine_append L br op a now e = land_entry L (engine_entry br op a now e) e"

section \<open>Writes\<close>

definition engine_put :: "('k, 'p, 'g) engine_lib \<Rightarrow> nat \<Rightarrow> string \<Rightarrow> val \<Rightarrow> author \<Rightarrow> int \<Rightarrow> ('k, 'p, hash) act" where
  "engine_put L br key x a now =
     and_then (checked (check_type br key x)) (\<lambda>_.
     and_then (checked (check_unique br key x)) (\<lambda>_.
     and_then (check_breaker 1 now a) (\<lambda>_.
     engine_append L br (Put key x) a now)))"

datatype precondition = Absent | AtVersion nat

fun satisfied :: "precondition \<Rightarrow> nat option \<Rightarrow> bool" where
  "satisfied Absent current = (current = None)"
| "satisfied (AtVersion wanted) current = (current = Some wanted)"

definition check_precondition :: "nat \<Rightarrow> string \<Rightarrow> precondition \<Rightarrow> ('k, 'p) engine \<Rightarrow> engine_error + unit" where
  "check_precondition br key expect e =
     (let current = engine_version_of e br key in
      if satisfied expect current then Inr ()
      else Inl (PreconditionFailed key (current \<noteq> None) (case current of None \<Rightarrow> 0 | Some n \<Rightarrow> n)))"

definition engine_put_if ::
  "('k, 'p, 'g) engine_lib \<Rightarrow> nat \<Rightarrow> string \<Rightarrow> val \<Rightarrow> precondition \<Rightarrow> author \<Rightarrow> int \<Rightarrow> ('k, 'p, hash) act" where
  "engine_put_if L br key x expect a now =
     and_then (checked (check_precondition br key expect)) (\<lambda>_. engine_put L br key x a now)"

definition engine_write_batch ::
  "('k, 'p, 'g) engine_lib \<Rightarrow> nat \<Rightarrow> op_type list \<Rightarrow> author \<Rightarrow> int \<Rightarrow> ('k, 'p, hash) act" where
  "engine_write_batch L br ops a now =
     and_then (check_breaker (length ops) now a) (\<lambda>_. engine_append L br (Transaction ops) a now)"

definition engine_delete :: "('k, 'p, 'g) engine_lib \<Rightarrow> nat \<Rightarrow> string \<Rightarrow> author \<Rightarrow> int \<Rightarrow> ('k, 'p, hash) act" where
  "engine_delete L br key a now =
     and_then (check_breaker 1 now a) (\<lambda>_. engine_append L br (Delete key) a now)"

datatype tx_action = TxPut val nat | TxDelete

record tx_write =
  tw_key :: string
  tw_expect :: "precondition option"
  tw_action :: tx_action

fun check_distinct :: "tx_write list \<Rightarrow> (string, unit) omap \<Rightarrow> engine_error + unit" where
  "check_distinct [] seen = Inr ()"
| "check_distinct (w # ws) seen =
     (if omhas seen (tw_key w) then Inl (DuplicateKeyInTransaction (tw_key w))
      else check_distinct ws (omput (tw_key w) () seen))"

fun check_preconditions :: "nat \<Rightarrow> tx_write list \<Rightarrow> ('k, 'p) engine \<Rightarrow> engine_error + unit" where
  "check_preconditions br [] e = Inr ()"
| "check_preconditions br (w # ws) e =
     (case tw_expect w of
        None \<Rightarrow> check_preconditions br ws e
      | Some expect \<Rightarrow>
          (case check_precondition br (tw_key w) expect e of
             Inl err \<Rightarrow> Inl err
           | Inr _ \<Rightarrow> check_preconditions br ws e))"

fun check_values :: "nat \<Rightarrow> tx_write list \<Rightarrow> ('k, 'p) engine \<Rightarrow> engine_error + unit" where
  "check_values br [] e = Inr ()"
| "check_values br (w # ws) e =
     (case tw_action w of
        TxDelete \<Rightarrow> check_values br ws e
      | TxPut x _ \<Rightarrow>
          (case check_type br (tw_key w) x e of
             Inl err \<Rightarrow> Inl err
           | Inr _ \<Rightarrow>
               (case check_unique br (tw_key w) x e of
                  Inl err \<Rightarrow> Inl err
                | Inr _ \<Rightarrow> check_values br ws e)))"

definition tx_op :: "tx_write \<Rightarrow> op_type" where
  "tx_op w = (case tw_action w of TxPut x _ \<Rightarrow> Put (tw_key w) x | TxDelete \<Rightarrow> Delete (tw_key w))"

definition engine_transaction ::
  "('k, 'p, 'g) engine_lib \<Rightarrow> nat \<Rightarrow> tx_write list \<Rightarrow> author \<Rightarrow> int \<Rightarrow> ('k, 'p, hash) act" where
  "engine_transaction L br ws a now =
     and_then (checked (\<lambda>e. if ws = [] then Inl EmptyTransaction else Inr ())) (\<lambda>_.
     and_then (checked (\<lambda>e. check_distinct ws omempty)) (\<lambda>_.
     and_then (checked (check_preconditions br ws)) (\<lambda>_.
     and_then (checked (check_values br ws)) (\<lambda>_.
     and_then (check_breaker (length ws) now a) (\<lambda>_.
     engine_append L br (Transaction (map tx_op ws)) a now)))))"

section \<open>Replicated fields\<close>

datatype crdt_mutation =
    MIncrement int
  | MSetRegister string
  | MSetAdd string
  | MSetRemove string
  | MSeqInsert "elem_id option" string
  | MSeqRemove elem_id

fun crdt_kind_of :: "crdt_mutation \<Rightarrow> crdt_kind" where
  "crdt_kind_of (MIncrement _) = KCounter"
| "crdt_kind_of (MSetRegister _) = KRegister"
| "crdt_kind_of (MSetAdd _) = KSet"
| "crdt_kind_of (MSetRemove _) = KSet"
| "crdt_kind_of (MSeqInsert _ _) = KSequence"
| "crdt_kind_of (MSeqRemove _) = KSequence"

definition decode_wire_value :: "('k, 'p, 'g) engine_lib \<Rightarrow> string \<Rightarrow> engine_error + val" where
  "decode_wire_value L t =
     (case el_value L t of
        Inl d \<Rightarrow> Inl (BadRequest (''value is not a valid encoding: '' @ d))
      | Inr x \<Rightarrow> Inr x)"

fun lower_mutation :: "('k, 'p, 'g) engine_lib \<Rightarrow> nat \<Rightarrow> ('k, 'p) engine \<Rightarrow> crdt_mutation \<Rightarrow> engine_error + crdt_op" where
  "lower_mutation L br e (MIncrement d) = Inr (Increment d)"
| "lower_mutation L br e (MSetRegister t) = map_sum id SetRegister (decode_wire_value L t)"
| "lower_mutation L br e (MSetAdd t) = map_sum id SetAdd (decode_wire_value L t)"
| "lower_mutation L br e (MSetRemove t) = map_sum id SetRemove (decode_wire_value L t)"
| "lower_mutation L br e (MSeqInsert after t) =
     map_sum id (SeqInsert (ElemId (next_commit e br) br) after) (decode_wire_value L t)"
| "lower_mutation L br e (MSeqRemove i) = Inr (SeqRemove i)"

definition kind_mismatch :: "string \<Rightarrow> crdt_kind \<Rightarrow> crdt_kind option \<Rightarrow> string \<Rightarrow> engine_error option" where
  "kind_mismatch key requested kind source =
     (case kind of
        Some k \<Rightarrow> if k \<noteq> requested
          then Some (TypeMismatch key (''a '' @ kind_debug k @ '' ('' @ source @ '')'') (''a '' @ kind_debug requested @ '' operation''))
          else None
      | None \<Rightarrow> None)"

definition check_kind :: "nat \<Rightarrow> string \<Rightarrow> crdt_mutation \<Rightarrow> ('k, 'p) engine \<Rightarrow> engine_error + unit" where
  "check_kind br key mutation e =
     (case parse_address key of
        None \<Rightarrow> Inl (BadRequest (''`'' @ key @
          ''` is not a row address: a CRDT-typed row is addressed `table:id`, like every other row''))
      | Some a \<Rightarrow>
          let requested = crdt_kind_of mutation;
              declared = Option.bind (omget (en_views e) br) (\<lambda>v.
                Option.bind (schema_field (vw_schema v) (ra_table a) value_column) fd_crdt);
              existing = Option.bind (omget (en_views e) br) (\<lambda>v. map_option state_kind (omget (vw_crdts v) key))
          in (case kind_mismatch key requested declared ''declared'' of
                Some err \<Rightarrow> Inl err
              | None \<Rightarrow>
                  (case kind_mismatch key requested existing ''already'' of
                     Some err \<Rightarrow> Inl err
                   | None \<Rightarrow> Inr ())))"

definition engine_apply_crdt ::
  "('k, 'p, 'g) engine_lib \<Rightarrow> nat \<Rightarrow> string \<Rightarrow> crdt_mutation \<Rightarrow> author \<Rightarrow> int \<Rightarrow> ('k, 'p, hash) act" where
  "engine_apply_crdt L br key mutation a now =
     and_then (checked (check_kind br key mutation)) (\<lambda>_.
     and_then (check_breaker 1 now a) (\<lambda>_.
     and_then (\<lambda>e. (lower_mutation L br e mutation, e)) (\<lambda>op.
     engine_append L br (Crdt key op) a now)))"

end
