(* ===== verification/Daemon_Writes.thy ===== *)
theory Daemon_Writes
  imports Daemon_Engine
begin

text \<open>
  What the engine's writes promise: a refused write changes no data, an accepted one is
  one entry, and a conditional write is won once.
\<close>

section \<open>One append\<close>

text \<open>The data of the engine: what a reader or the next write can see of it.\<close>

definition same_data :: "('k, 'p) engine \<Rightarrow> ('k, 'p) engine \<Rightarrow> bool" where
  "same_data e e' \<longleftrightarrow> en_log e' = en_log e \<and> en_branches e' = en_branches e \<and> en_views e' = en_views e"

lemma same_data_refl [simp]: "same_data e e"
  by (simp add: same_data_def)

lemma same_data_reads:
  assumes "same_data e e'"
  shows "next_commit e' br = next_commit e br" "engine_version_of e' br k = engine_version_of e br k"
    "engine_entry br op a now e' = engine_entry br op a now e" "check_type br k x e' = check_type br k x e"
    "check_unique br k x e' = check_unique br k x e" "engine_get e' br k = engine_get e br k"
    "lower_mutation L br e' m = lower_mutation L br e m"
  using assms by (cases m; simp add: same_data_def next_commit_def engine_version_of_def engine_entry_def check_type_def
      check_unique_def engine_get_def)+

lemma record_audit_data [simp]:
  "en_log (record_audit t e) = en_log e" "en_branches (record_audit t e) = en_branches e" "en_views (record_audit t e) = en_views e"
  by (simp_all add: record_audit_def)

lemma check_breaker_data: "check_breaker rows now a e = (r, e') \<Longrightarrow> same_data e e' \<and> (\<forall>s. r \<noteq> Inl (StorageFailed s))"
  by (auto simp: check_breaker_def Let_def same_data_def split: prod.splits breaker_decision.splits option.splits)

lemma checked_ok [simp]: "checked c e = (r, e') \<longleftrightarrow> r = c e \<and> e' = e"
  by (auto simp: checked_def)

lemma checked_then [simp]: "and_then (checked c) f e = (case c e of Inl err \<Rightarrow> (Inl err, e) | Inr x \<Rightarrow> f x e)"
  by (simp add: and_then_def checked_def split: sum.split)

lemma and_then_ok: "and_then m f e = (Inr y, e') \<Longrightarrow> \<exists>x e1. m e = (Inr x, e1) \<and> f x e1 = (Inr y, e')"
  by (auto simp: and_then_def split: prod.splits sum.splits)

lemma and_then_err:
  "and_then m f e = (Inl err, e') \<Longrightarrow> m e = (Inl err, e') \<or> (\<exists>x e1. m e = (Inr x, e1) \<and> f x e1 = (Inl err, e'))"
  by (auto simp: and_then_def split: prod.splits sum.splits)

lemma append_and_apply_ok:
  assumes "append_and_apply D enc L en views s = (Inr h, views', s')"
  shows "h = entry_hash D en" "views' = fold_into enc en (seed_branch_view (du_log s) en views)"
    "du_log s' = du_index D en (du_log s)" "le_prev en = du_expected s (le_branch en)"
  using assms
  by (auto simp: append_and_apply_def Let_def du_checkpoint_def split: if_splits sum.splits prod.splits)

lemma du_index_head: "log_head (du_index D en l) br = (if br = le_branch en then Some (entry_hash D en) else log_head l br)"
  by (simp add: du_index_def log_head_def)

text \<open>What a landed entry is: in the log under its hash, folded into its branch's view, the
  branch's head, and counted.\<close>

definition landed :: "('k, 'p, 'g) engine_lib \<Rightarrow> log_entry \<Rightarrow> ('k, 'p) engine \<Rightarrow> ('k, 'p) engine \<Rightarrow> bool" where
  "landed L en e e' \<longleftrightarrow>
     du_log (en_log e') = du_index (el_codec L) en (du_log (en_log e)) \<and>
     en_views e' = fold_into (el_enc L) en (seed_branch_view (du_log (en_log e)) en (en_views e)) \<and>
     (\<exists>b. bs_by_id (en_branches e) (le_branch en) = Some b \<and>
        en_branches e' = (en_branches e)\<lparr>bs_by_id := (bs_by_id (en_branches e))(le_branch en \<mapsto>
          b\<lparr>br_head := entry_hash (el_codec L) en, br_next_commit := wrap64 (br_next_commit b + 1)\<rparr>)\<rparr>)"

lemma land_entry_ok:
  assumes "land_entry L en e = (Inr h, e')"
  shows "h = entry_hash (el_codec L) en \<and> landed L en e e'"
proof -
  obtain views log where app: "append_and_apply (el_codec L) (el_enc L) (el_store L) en (en_views e) (en_log e) = (Inr h, views, log)"
    using assms by (auto simp: land_entry_def split: prod.splits sum.splits)
  then have e': "branch_set_head (le_branch en) h (en_branches e) = (Inr (), en_branches e')" "en_views e' = views" "en_log e' = log"
    using assms by (auto simp: land_entry_def split: prod.splits sum.splits)
  then show ?thesis
    using append_and_apply_ok [OF app] by (auto simp: landed_def branch_set_head_def split: option.splits)
qed

lemma engine_append_ok:
  "engine_append L br op a now e = (Inr h, e') \<Longrightarrow>
     h = entry_hash (el_codec L) (engine_entry br op a now e) \<and> landed L (engine_entry br op a now e) e e'"
  unfolding engine_append_def by (rule land_entry_ok)

lemma engine_append_err: "engine_append L br op a now e = (Inl err, e') \<Longrightarrow> \<exists>s. err = StorageFailed s"
  by (auto simp: engine_append_def land_entry_def split: prod.splits sum.splits)

section \<open>The writes\<close>

text \<open>The writes a client can ask for, and the operation each becomes.\<close>

datatype write_call =
    WPut string val
  | WPutIf string val precondition
  | WDelete string
  | WTransaction "tx_write list"
  | WCrdt string crdt_mutation

fun engine_write :: "('k, 'p, 'g) engine_lib \<Rightarrow> nat \<Rightarrow> write_call \<Rightarrow> author \<Rightarrow> int \<Rightarrow> ('k, 'p, hash) act" where
  "engine_write L br (WPut key x) a now = engine_put L br key x a now"
| "engine_write L br (WPutIf key x expect) a now = engine_put_if L br key x expect a now"
| "engine_write L br (WDelete key) a now = engine_delete L br key a now"
| "engine_write L br (WTransaction ws) a now = engine_transaction L br ws a now"
| "engine_write L br (WCrdt key m) a now = engine_apply_crdt L br key m a now"

fun write_op :: "('k, 'p, 'g) engine_lib \<Rightarrow> nat \<Rightarrow> ('k, 'p) engine \<Rightarrow> write_call \<Rightarrow> op_type option" where
  "write_op L br e (WPut key x) = Some (Put key x)"
| "write_op L br e (WPutIf key x expect) = Some (Put key x)"
| "write_op L br e (WDelete key) = Some (Delete key)"
| "write_op L br e (WTransaction ws) = Some (Transaction (map tx_op ws))"
| "write_op L br e (WCrdt key m) = (case lower_mutation L br e m of Inl _ \<Rightarrow> None | Inr op \<Rightarrow> Some (Crdt key op))"

lemma landed_from: "same_data e e1 \<Longrightarrow> landed L en e1 e' \<longleftrightarrow> landed L en e e'"
  by (simp add: same_data_def landed_def)

definition wrote :: "('k, 'p, 'g) engine_lib \<Rightarrow> nat \<Rightarrow> op_type \<Rightarrow> author \<Rightarrow> int \<Rightarrow> ('k, 'p) engine \<Rightarrow> hash \<Rightarrow> ('k, 'p) engine \<Rightarrow> bool" where
  "wrote L br op a now e h e' \<longleftrightarrow>
     h = entry_hash (el_codec L) (engine_entry br op a now e) \<and> landed L (engine_entry br op a now e) e e'"

lemma append_after:
  "same_data e e1 \<Longrightarrow> engine_append L br op a now e1 = (Inr h, e') \<Longrightarrow> wrote L br op a now e h e'"
  using engine_append_ok [of L br op a now e1 h e'] same_data_reads(3) [of e e1 br op a now] landed_from [of e e1 L]
  by (simp add: wrote_def)

lemma put_ok:
  assumes "engine_put L br key x a now e = (Inr h, e')"
  shows "check_type br key x e = Inr () \<and> check_unique br key x e = Inr () \<and> wrote L br (Put key x) a now e h e'"
  using assms unfolding engine_put_def
  by (auto dest!: and_then_ok check_breaker_data simp: append_after split: sum.splits)

lemma guarded_err:
  assumes "and_then (check_breaker rows now a) (\<lambda>_. engine_append L br op a now) e = (Inl err, e')" and "\<forall>s. err \<noteq> StorageFailed s"
  shows "same_data e e'"
  using and_then_err [OF assms(1)] assms(2) by (auto dest: check_breaker_data engine_append_err)

lemma put_err:
  assumes "engine_put L br key x a now e = (Inl err, e')" and "\<forall>s. err \<noteq> StorageFailed s"
  shows "same_data e e'"
  using assms unfolding engine_put_def by (auto dest: guarded_err split: sum.splits)

lemma transaction_ok:
  assumes "engine_transaction L br ws a now e = (Inr h, e')"
  shows "ws \<noteq> [] \<and> check_distinct ws omempty = Inr () \<and> check_preconditions br ws e = Inr () \<and> check_values br ws e = Inr () \<and>
    wrote L br (Transaction (map tx_op ws)) a now e h e'"
  using assms unfolding engine_transaction_def
  by (auto dest!: and_then_ok check_breaker_data simp: append_after split: if_splits sum.splits)

lemma crdt_ok:
  assumes "engine_apply_crdt L br key m a now e = (Inr h, e')"
  obtains op where "check_kind br key m e = Inr ()" "lower_mutation L br e m = Inr op" "wrote L br (Crdt key op) a now e h e'"
  using assms unfolding engine_apply_crdt_def
  by (auto dest!: and_then_ok check_breaker_data simp: append_after same_data_reads(7) split: sum.splits)

lemma write_ok:
  assumes "engine_write L br w a now e = (Inr h, e')"
  shows "\<exists>op. write_op L br e w = Some op \<and> wrote L br op a now e h e'"
  using assms
proof (cases w)
  case (WPutIf key x expect)
  then show ?thesis using assms put_ok [of L br key x a now e h e'] by (auto simp: engine_put_if_def split: sum.splits)
next
  case (WDelete key)
  then show ?thesis using assms by (auto dest!: and_then_ok check_breaker_data simp: append_after engine_delete_def)
next
  case (WCrdt key m)
  then show ?thesis using assms crdt_ok [of L br key m a now e h e'] by fastforce
qed (auto dest: put_ok transaction_ok)

lemma write_err:
  assumes "engine_write L br w a now e = (Inl err, e')" and "\<forall>s. err \<noteq> StorageFailed s"
  shows "same_data e e'"
proof (cases w)
  case (WTransaction ws)
  then show ?thesis using assms by (auto dest: guarded_err simp: engine_transaction_def split: sum.splits if_splits)
next
  case (WCrdt key m)
  have "same_data e e'" if m: "and_then (check_breaker 1 now a) (\<lambda>_. and_then (\<lambda>e. (lower_mutation L br e m, e)) (\<lambda>op. engine_append L br (Crdt key op) a now)) e = (Inl err, e')"
  proof (cases "check_breaker 1 now a e")
    case (Pair g e1)
    then show ?thesis using m assms(2) check_breaker_data [OF Pair]
      by (cases g; cases "lower_mutation L br e1 m") (auto dest: engine_append_err simp: and_then_def)
  qed
  then show ?thesis using assms WCrdt by (auto simp: engine_apply_crdt_def split: sum.splits)
next
  case (WDelete key)
  then show ?thesis using assms guarded_err by (simp add: engine_delete_def) blast
next
  case (WPutIf key x expect)
  then show ?thesis using assms put_err [of L br key x a now e err e'] by (auto simp: engine_put_if_def split: sum.splits)
next
  case (WPut key x)
  then show ?thesis using assms put_err by simp blast
qed

section \<open>A conditional write is won once\<close>

lemma view_op_versions:
  "omget (vw_versions (view_op enc ctx op v)) k \<in> {omget (vw_versions v) k, Some (oc_commit ctx), None}"
  "omget (vw_versions (view_ops enc ctx ops v)) k \<in> {omget (vw_versions v) k, Some (oc_commit ctx), None}"
proof (induction enc ctx op v and enc ctx ops v rule: view_op_view_ops.induct)
  case (2 enc ctx key m v)
  then show ?case by (simp add: Let_def)
qed auto

lemma view_apply_versions:
  "version_of (view_apply enc en v) k \<in> {version_of v k, Some (le_commit en), None}"
  using view_op_versions(1) [of enc "entry_ctx en" "le_op en" v k]
  by (simp add: view_apply_def Let_def version_of_def entry_ctx_def)

lemma append_and_apply_cases:
  assumes "append_and_apply D enc L en views s = (r, views', s')"
  shows "(views' = views \<and> du_log s' = du_log s) \<or>
    (views' = fold_into enc en (seed_branch_view (du_log s) en views) \<and> du_log s' = du_index D en (du_log s))"
  using assms by (auto simp: append_and_apply_def Let_def du_checkpoint_def split: if_splits sum.splits prod.splits)

definition no_fork :: "op_type \<Rightarrow> bool" where
  "no_fork op \<longleftrightarrow> (case op of BranchCreate _ _ \<Rightarrow> False | _ \<Rightarrow> True)"

lemma seed_no_fork: "no_fork (le_op en) \<Longrightarrow> seed_branch_view l en views = views"
  by (cases "le_op en") (simp_all add: seed_branch_view_def no_fork_def)

lemma engine_append_steps:
  assumes "engine_append L br op a now e = (r, e')" and "no_fork op"
  shows "(en_views e' = en_views e \<or> en_views e' = fold_into (el_enc L) (engine_entry br op a now e) (en_views e)) \<and>
    (\<forall>b. next_commit e' b = next_commit e b \<or> b = br \<and> next_commit e' b = wrap64 (next_commit e br + 1))"
proof -
  let ?en = "engine_entry br op a now e"
  obtain res views log where app: "append_and_apply (el_codec L) (el_enc L) (el_store L) ?en (en_views e) (en_log e) = (res, views, log)"
    by (metis prod_cases3)
  have "no_fork (le_op ?en)" using assms(2) by (simp add: engine_entry_def)
  then have v: "views = en_views e \<or> views = fold_into (el_enc L) ?en (en_views e)"
    using append_and_apply_cases [OF app] seed_no_fork by auto
  have "en_views e' = views \<and> (en_branches e' = en_branches e \<or> (\<exists>h. en_branches e' = snd (branch_set_head br h (en_branches e))))"
    using assms(1) app by (auto simp: engine_append_def land_entry_def engine_entry_def split: sum.splits prod.splits) (metis snd_conv)+
  moreover have "next_commit e' b = next_commit e b \<or> b = br \<and> next_commit e' b = wrap64 (next_commit e br + 1)"
    if "en_branches e' = snd (branch_set_head br h (en_branches e))" for h b
    using that by (cases "bs_by_id (en_branches e) br") (simp_all add: next_commit_def branch_set_head_def)
  moreover have "en_branches e' = en_branches e \<Longrightarrow> next_commit e' b = next_commit e b" for b by (simp add: next_commit_def)
  ultimately have "en_views e' = views \<and> (\<forall>b. next_commit e' b = next_commit e b \<or> b = br \<and> next_commit e' b = wrap64 (next_commit e br + 1))"
    by blast
  then show ?thesis using v by simp
qed

text \<open>An operation on rows: it forks nothing and carries no schema change.\<close>

definition row_op :: "op_type \<Rightarrow> bool" where
  "row_op op \<longleftrightarrow> no_fork op \<and> collect_schema_op op [] = []"

lemma collect_rows: "collect_schema_ops (map tx_op ws) acc = acc"
  by (induction ws arbitrary: acc) (simp_all add: tx_op_def split: tx_action.split)

lemma row_ops [simp]:
  "row_op (Put key x)" "row_op (Delete key)" "row_op (Crdt key m)" "row_op (Transaction (map tx_op ws))"
  by (simp_all add: row_op_def no_fork_def collect_rows)

lemma write_append:
  assumes "engine_write L br w a now e = (r, e')"
  shows "same_data e e' \<or> (\<exists>e1 op. same_data e e1 \<and> write_op L br e w = Some op \<and> row_op op \<and> engine_append L br op a now e1 = (r, e'))"
proof -
  have guard: "same_data e e' \<or> (\<exists>e1. same_data e e1 \<and> f () e1 = (r, e'))"
    if "and_then (check_breaker rows now a) f e = (r, e')" for rows and f :: "unit \<Rightarrow> ('a, 'b, hash) act"
    using that by (auto simp: and_then_def split: prod.splits sum.splits dest: check_breaker_data)
  have put: "same_data e e' \<or> (\<exists>e1. same_data e e1 \<and> engine_append L br (Put key x) a now e1 = (r, e'))"
    if "engine_put L br key x a now e = (r, e')" for key x
    using that guard [of 1 "\<lambda>_. engine_append L br (Put key x) a now"] unfolding engine_put_def
    by (cases "check_type br key x e"; cases "check_unique br key x e") auto
  show ?thesis
  proof (cases w)
    case (WPut key x)
    then show ?thesis using assms put by simp
  next
    case (WPutIf key x expect)
    then show ?thesis using assms put by (cases "check_precondition br key expect e") (auto simp: engine_put_if_def)
  next
    case (WDelete key)
    then show ?thesis using assms guard [of 1 "\<lambda>_. engine_append L br (Delete key) a now"] by (auto simp: engine_delete_def)
  next
    case (WTransaction ws)
    then show ?thesis using assms guard [of "length ws" "\<lambda>_. engine_append L br (Transaction (map tx_op ws)) a now"]
      by (auto simp: engine_transaction_def split: sum.splits if_splits)
  next
    case (WCrdt key m)
    let ?f = "\<lambda>_ :: unit. and_then (\<lambda>e. (lower_mutation L br e m, e)) (\<lambda>op. engine_append L br (Crdt key op) a now)"
    show ?thesis
    proof (cases "check_kind br key m e")
      case (Inl err)
      then show ?thesis using assms WCrdt by (simp add: engine_apply_crdt_def)
    next
      case (Inr u)
      then have "and_then (check_breaker 1 now a) ?f e = (r, e')" using assms WCrdt by (simp add: engine_apply_crdt_def)
      then consider "same_data e e'" | e1 where "same_data e e1" "?f () e1 = (r, e')" using guard by blast
      then show ?thesis
      proof cases
        case 2
        have low: "lower_mutation L br e1 m = lower_mutation L br e m" by (rule same_data_reads(7) [OF 2(1)])
        show ?thesis using 2 WCrdt low by (cases "lower_mutation L br e m") (auto simp: and_then_def)
      qed simp
    qed
  qed
qed

lemma write_steps:
  assumes "engine_write L br w a now e = (r, e')"
  shows "(en_views e' = en_views e \<or>
      (\<exists>en. le_branch en = br \<and> le_commit en = next_commit e br \<and> no_fork (le_op en) \<and> en_views e' = fold_into (el_enc L) en (en_views e))) \<and>
    (\<forall>b. next_commit e' b = next_commit e b \<or> b = br \<and> next_commit e' b = wrap64 (next_commit e br + 1))"
proof -
  consider "same_data e e'" | e1 op where "same_data e e1" "row_op op" "engine_append L br op a now e1 = (r, e')"
    using write_append [OF assms] by blast
  then show ?thesis
  proof cases
    case 1
    then show ?thesis using same_data_reads(1) by (auto simp: same_data_def)
  next
    case 2
    have v: "en_views e1 = en_views e" "next_commit e1 b = next_commit e b" for b
      using 2(1) same_data_reads(1) by (auto simp: same_data_def)
    let ?en = "engine_entry br op a now e1"
    have "le_branch ?en = br \<and> le_commit ?en = next_commit e br \<and> no_fork (le_op ?en)" using 2(2) v by (simp add: engine_entry_def row_op_def)
    then show ?thesis using engine_append_steps [OF 2(3)] 2(2) unfolding v row_op_def by blast
  qed
qed

text \<open>The version of a key is behind a condition when a write with that condition has won.\<close>

definition moved_past :: "nat \<Rightarrow> string \<Rightarrow> nat \<Rightarrow> ('k, 'p) engine \<Rightarrow> bool" where
  "moved_past br key n e \<longleftrightarrow>
     (case engine_version_of e br key of None \<Rightarrow> True | Some m \<Rightarrow> n < m) \<and> n < next_commit e br"

lemma fold_into_version:
  "engine_version_of (e\<lparr>en_views := fold_into enc en (en_views e)\<rparr>) br k =
     (if le_branch en = br then version_of (view_apply enc en (omget_or view_new (en_views e) br)) k else engine_version_of e br k)"
  by (simp add: engine_version_of_def fold_into_def)

lemma version_new [simp]: "version_of view_new k = None"
  by (simp add: version_of_def view_new_def)

lemma version_or_new: "version_of (omget_or view_new (en_views e) br) k = engine_version_of e br k"
  by (simp add: engine_version_of_def omget_or_def split: option.split)

lemma version_after:
  assumes "engine_write L b w a now e = (r, e')"
  shows "engine_version_of e' br k \<in> {engine_version_of e br k, None} \<union> (if b = br then {Some (next_commit e br)} else {})"
proof -
  have only_views: "engine_version_of e' br k = engine_version_of (e\<lparr>en_views := en_views e'\<rparr>) br k"
    by (simp add: engine_version_of_def)
  consider "en_views e' = en_views e" | en where "le_branch en = b" "le_commit en = next_commit e b" "en_views e' = fold_into (el_enc L) en (en_views e)"
    using write_steps [OF assms] by blast
  then show ?thesis
  proof cases
    case 1
    then show ?thesis by (simp add: only_views engine_version_of_def)
  next
    case 2
    then show ?thesis
      using view_apply_versions [of "el_enc L" en "omget_or view_new (en_views e) br" k]
      unfolding only_views 2(3) fold_into_version version_or_new by auto
  qed
qed

lemma moved_past_write:
  assumes "moved_past br key n e" and "engine_write L b w a now e = (r, e')" and "next_commit e br < u64_max"
  shows "moved_past br key n e' \<and> next_commit e' br \<le> next_commit e br + 1"
proof -
  have "next_commit e' br = next_commit e br \<or> next_commit e' br = next_commit e br + 1"
    using write_steps [OF assms(2)] assms(3) by (auto simp: wrap64_id)
  then show ?thesis
    using assms(1) version_after [OF assms(2), of br key] by (auto simp: moved_past_def split: option.splits if_splits)
qed

fun engine_writes :: "('k, 'p, 'g) engine_lib \<Rightarrow> (nat \<times> write_call \<times> author \<times> int) list \<Rightarrow> ('k, 'p) engine \<Rightarrow> ('k, 'p) engine" where
  "engine_writes L [] e = e"
| "engine_writes L ((br, w, a, now) # ws) e = engine_writes L ws (snd (engine_write L br w a now e))"

lemma moved_past_writes:
  "moved_past br key n e \<Longrightarrow> next_commit e br + length ws \<le> u64_max \<Longrightarrow> moved_past br key n (engine_writes L ws e)"
proof (induction ws arbitrary: e)
  case (Cons x ws)
  obtain b w a now where x: "x = (b, w, a, now)" by (metis surj_pair)
  obtain r e' where w: "engine_write L b w a now e = (r, e')" by fastforce
  have "moved_past br key n e' \<and> next_commit e' br \<le> next_commit e br + 1"
    using Cons.prems(2) by (intro moved_past_write [OF Cons.prems(1) w]) simp
  then show ?case using Cons.IH [of e'] Cons.prems(2) x w by simp
qed simp

text \<open>Writes that meet no storage error keep the versions of a branch's rows below the
  number of its next commit.\<close>

lemma versions_stay_below:
  assumes "engine_write L b w a now e = (r, e')" and "\<forall>s. r \<noteq> Inl (StorageFailed s)" and "next_commit e br < u64_max"
    and "\<And>key m. engine_version_of e br key = Some m \<Longrightarrow> m < next_commit e br"
    and "engine_version_of e' br key = Some m"
  shows "m < next_commit e' br"
proof (cases r)
  case (Inl err)
  then have "same_data e e'" using assms(1,2) write_err [of L b w a now e err e'] by simp
  then show ?thesis using assms(4,5) same_data_reads(1,2) by metis
next
  case (Inr h)
  then obtain op where "wrote L b op a now e h e'" using write_ok assms(1) by blast
  then obtain bb where bb: "bs_by_id (en_branches e) b = Some bb"
      "en_branches e' = (en_branches e)\<lparr>bs_by_id := (bs_by_id (en_branches e))(b \<mapsto>
          bb\<lparr>br_head := h, br_next_commit := wrap64 (br_next_commit bb + 1)\<rparr>)\<rparr>"
    by (auto simp: wrote_def landed_def engine_entry_def)
  then have "next_commit e' br = (if b = br then wrap64 (next_commit e br + 1) else next_commit e br)"
    by (auto simp: next_commit_def)
  then have commits: "next_commit e br \<le> next_commit e' br" "b = br \<Longrightarrow> next_commit e br < next_commit e' br"
    using assms(3) by (simp_all add: wrap64_id)
  have "engine_version_of e br key = Some m \<or> b = br \<and> m = next_commit e br"
    using version_after [OF assms(1), of br key] assms(5) by (auto split: if_splits)
  then show ?thesis using commits assms(4) by fastforce
qed

text \<open>C12: A conditional write is won once.  When a write conditional on a row's version has
  landed, no later write conditional on that version does, whatever writes to any branch
  come between, accepted, refused or failed in storage; so of two callers that read one
  version of a row, one is told that it moved.  It is so where the row's version lies below
  the number of the branch's next commit, as it does on a branch that started without rows
  and whose writes met no storage error; a fork and a branch after a reopen count from zero
  again under rows with higher versions.\<close>

theorem conditional_write_wins_once:
  assumes "\<And>m. engine_version_of e br key = Some m \<Longrightarrow> m < next_commit e br"
    and "engine_put_if L br key x (AtVersion n) a now e = (Inr h, e1)"
    and "next_commit e br + length ws < u64_max"
  shows "\<exists>found actual. engine_put_if L br key y (AtVersion n) a' now' (engine_writes L ws e1) =
    (Inl (PreconditionFailed key found actual), engine_writes L ws e1)"
proof -
  have v: "engine_version_of e br key = Some n" and put: "engine_put L br key x a now e = (Inr h, e1)"
    using assms(2) by (auto simp: engine_put_if_def check_precondition_def Let_def split: sum.splits if_splits)
  have n: "n < next_commit e br" using assms(1) [OF v] .
  have w: "wrote L br (Put key x) a now e h e1" using put_ok [OF put] by simp
  let ?en = "engine_entry br (Put key x) a now e"
  have "en_views e1 = fold_into (el_enc L) ?en (en_views e)"
    using w by (simp add: wrote_def landed_def) (simp add: seed_branch_view_def engine_entry_def)
  then have "engine_version_of e1 br key = engine_version_of (e\<lparr>en_views := fold_into (el_enc L) ?en (en_views e)\<rparr>) br key"
    by (simp add: engine_version_of_def)
  also have "\<dots> = Some (next_commit e br)"
    unfolding fold_into_version by (simp add: engine_entry_def version_of_def view_apply_def Let_def entry_ctx_def)
  finally have v1: "engine_version_of e1 br key = Some (next_commit e br)" .
  obtain b where "bs_by_id (en_branches e) br = Some b" "next_commit e1 br = wrap64 (br_next_commit b + 1)"
    using w by (auto simp: wrote_def landed_def next_commit_def engine_entry_def)
  then have c1: "next_commit e1 br = next_commit e br + 1" using assms(3) by (simp add: next_commit_def wrap64_id)
  have "moved_past br key n e1" using n v1 c1 by (simp add: moved_past_def)
  then have "moved_past br key n (engine_writes L ws e1)" using c1 assms(3) by (intro moved_past_writes) simp_all
  then have "engine_version_of (engine_writes L ws e1) br key \<noteq> Some n" by (auto simp: moved_past_def)
  then show ?thesis by (simp add: engine_put_if_def check_precondition_def Let_def)
qed

section \<open>An engine to evaluate\<close>

text \<open>A store whose records can all be encoded and are not encrypted, away from its next
  checkpoint: an append with the right parent lands.\<close>

definition plain_store :: "('k, 'p, 'g) engine_lib \<Rightarrow> 'k durable \<Rightarrow> bool" where
  "plain_store L s \<longleftrightarrow> (\<forall>en. dl_json (disk_lib_of (wal_lib_of (el_store L))) en \<noteq> None) \<and>
     wc_key (wl_config (du_wal s)) = None \<and> wrap64 (du_since s + 1) < du_interval s"

lemma plain_append:
  assumes "plain_store L s" and "le_prev en = du_expected s (le_branch en)"
  obtains log where "append_and_apply (el_codec L) (el_enc L) (el_store L) en views s =
      (Inr (entry_hash (el_codec L) en), fold_into (el_enc L) en (seed_branch_view (du_log s) en views), log)"
    and "du_log log = du_index (el_codec L) en (du_log s)" and "du_since log = wrap64 (du_since s + 1)"
    and "du_interval log = du_interval s" and "wc_key (wl_config (du_wal log)) = None"
proof -
  obtain json where json: "dl_json (disk_lib_of (wal_lib_of (el_store L))) en = Some json"
    using assms(1) by (auto simp: plain_store_def)
  have key: "wc_key (wl_config (du_wal s)) = None" using assms(1) by (simp add: plain_store_def)
  obtain p w where w: "wal_append (wal_lib_of (el_store L)) (sl_record_nonce (el_store L) (du_applied s)) en (du_wal s) = (Inr p, w)"
      "wl_config w = wl_config (du_wal s)"
    using json key by (simp add: wal_append_def append_batch_def encode_record_def roll_config Let_def)
  then show ?thesis
    using assms that by (simp add: append_and_apply_def Let_def plain_store_def)
qed

definition sample_engine_lib :: "(unit, unit, unit) engine_lib" where
  "sample_engine_lib = \<lparr>el_codec = sample_codec, el_enc = \<lambda>_. [],
     el_store = sample_store_lib\<lparr>dl_json := \<lambda>_. Some []\<rparr>, el_js = \<lambda>_. None, el_change = \<lambda>_. [],
     el_wire = \<lparr>w_decode64 = \<lambda>_. None, w_scope = \<lambda>_. Inl [], w_signature = \<lambda>_. None, w_verify = \<lambda>_ _ _. False\<rparr>,
     el_policy = \<lambda>_. Inl [], el_signing = \<lparr>sg_key_of = \<lambda>_. None, sg_parse = \<lambda>_. None, sg_check = \<lambda>_ _ _. False\<rparr>,
     el_value = \<lambda>_. Inl []\<rparr>"

text \<open>Only \<open>main\<close>, with a view and a counter.\<close>

definition sample_engine :: "view \<Rightarrow> nat \<Rightarrow> (unit, unit) engine" where
  "sample_engine v n = \<lparr>en_project = ''p'', en_log = sample_durable,
     en_branches = with_main\<lparr>bs_by_id := [main_branch \<mapsto> \<lparr>br_id = main_branch, br_name = ''main'', br_kind = Protected, br_head = zero_hash,
          br_fork_point = None, br_next_commit = n\<rparr>]\<rparr>,
     en_views = omput main_branch v omempty, en_breaker = breaker_new development_policy,
     en_pending = omempty, en_shadows = omempty, en_shadow_changes = \<lambda>_. None, en_rows_written = 0, en_keys = None,
     en_policy = policy_sync_new development_policy, en_audit = [], en_review = budget_new budget_policy_default,
     en_reservations = \<lambda>_. None, en_spend = ledger_new spend_policy_default,
     en_verifier = verifier_new default_verifier_policy 0, en_queues = \<lambda>_. None, en_session_keys = omempty,
     en_signatures = omempty, en_placement = with_home main_branch placement_new\<rparr>"

lemma sample_engine_plain: "plain_store sample_engine_lib (en_log (sample_engine v n))"
  by (simp add: plain_store_def sample_engine_lib_def sample_engine_def sample_durable_def sample_wal_def wal_config_new_def
      wal_lib.defs disk_lib.defs default_checkpoint_interval_def wrap64_def)

lemma sample_engine_breaker:
  "check_breaker 1 now a (sample_engine v n) = (Inr (), snd (check_breaker 1 now a (sample_engine v n)))"
  "same_data (sample_engine v n) (snd (check_breaker 1 now a (sample_engine v n)))"
proof -
  show "check_breaker 1 now a (sample_engine v n) = (Inr (), snd (check_breaker 1 now a (sample_engine v n)))"
    by (simp add: check_breaker_def sample_engine_def breaker_record_def evict_expired_def breaker_new_def development_policy_def
        sat_add64_def Let_def)
  then show "same_data (sample_engine v n) (snd (check_breaker 1 now a (sample_engine v n)))"
    by (metis check_breaker_data)
qed

lemma sample_engine_put:
  assumes "check_type main_branch key x (sample_engine v n) = Inr ()" and "check_unique main_branch key x (sample_engine v n) = Inr ()"
  obtains h e' where "engine_put sample_engine_lib main_branch key x a now (sample_engine v n) = (Inr h, e')"
proof -
  let ?e = "snd (check_breaker 1 now a (sample_engine v n))"
  have s: "en_log ?e = en_log (sample_engine v n)" "en_branches ?e = en_branches (sample_engine v n)"
    using sample_engine_breaker(2) by (auto simp: same_data_def)
  let ?en = "engine_entry main_branch (Put key x) a now ?e"
  have "plain_store sample_engine_lib (en_log ?e)" unfolding s by (rule sample_engine_plain)
  moreover have "le_prev ?en = du_expected (en_log ?e) (le_branch ?en)" by (simp add: engine_entry_def)
  ultimately obtain log where "append_and_apply (el_codec sample_engine_lib) (el_enc sample_engine_lib) (el_store sample_engine_lib) ?en (en_views ?e) (en_log ?e) =
      (Inr (entry_hash (el_codec sample_engine_lib) ?en), fold_into (el_enc sample_engine_lib) ?en (seed_branch_view (du_log (en_log ?e)) ?en (en_views ?e)), log)"
    by (rule plain_append)
  moreover have "le_branch ?en = main_branch" "bs_by_id (en_branches ?e) main_branch \<noteq> None"
    unfolding s by (simp_all add: engine_entry_def sample_engine_def)
  ultimately have "\<exists>h e'. engine_append sample_engine_lib main_branch (Put key x) a now ?e = (Inr h, e')"
    by (auto simp: engine_append_def land_entry_def branch_set_head_def)
  then obtain h e' where "engine_append sample_engine_lib main_branch (Put key x) a now ?e = (Inr h, e')" by blast
  moreover have "and_then (check_breaker 1 now a) f (sample_engine v n) = f () ?e" for f :: "unit \<Rightarrow> (unit, unit, hash) act"
    unfolding and_then_def by (subst sample_engine_breaker(1)) simp
  ultimately have "engine_put sample_engine_lib main_branch key x a now (sample_engine v n) = (Inr h, e')"
    using assms by (simp add: engine_put_def)
  then show ?thesis by (rule that)
qed

abbreviation sample_row :: view where
  "sample_row \<equiv> view_new\<lparr>vw_keys := omput ''t:1'' VNull omempty, vw_versions := omput ''t:1'' 3 omempty\<rparr>"

lemma sample_row_free:
  "check_type main_branch ''t:1'' x (sample_engine sample_row n) = Inr ()"
  "check_unique main_branch ''t:1'' x (sample_engine sample_row n) = Inr ()"
  by (simp_all add: check_type_def check_unique_def sample_engine_def view_new_def check_row_def schema_table_def schema_default_def
      split: option.splits)

lemma conditional_write_wins_once_witness:
  "\<exists>h e1 found actual. engine_put_if sample_engine_lib main_branch ''t:1'' (VInt 5) (AtVersion 3) System 0 (sample_engine sample_row 4) = (Inr h, e1) \<and>
     engine_put_if sample_engine_lib main_branch ''t:1'' (VInt 6) (AtVersion 3) System 9 (engine_writes sample_engine_lib [(0, WDelete ''t:1'', System, 5)] e1) =
       (Inl (PreconditionFailed ''t:1'' found actual), engine_writes sample_engine_lib [(0, WDelete ''t:1'', System, 5)] e1)"
proof -
  have v: "engine_version_of (sample_engine sample_row 4) main_branch ''t:1'' = Some 3"
    by (simp add: engine_version_of_def sample_engine_def version_of_def)
  have c: "next_commit (sample_engine sample_row 4) main_branch = 4" by (simp add: next_commit_def sample_engine_def)
  obtain h e1 where p: "engine_put sample_engine_lib main_branch ''t:1'' (VInt 5) System 0 (sample_engine sample_row 4) = (Inr h, e1)"
    using sample_engine_put [OF sample_row_free] by blast
  then have p: "engine_put_if sample_engine_lib main_branch ''t:1'' (VInt 5) (AtVersion 3) System 0 (sample_engine sample_row 4) = (Inr h, e1)"
    by (simp add: engine_put_if_def check_precondition_def v)
  then show ?thesis
    using conditional_write_wins_once [OF _ p, of "[(0, WDelete ''t:1'', System, 5)]" "VInt 6" System 9] v c by auto
qed

end
