(* ===== verification/Daemon_Unique.thy ===== *)
theory Daemon_Unique
  imports Daemon_Writes
begin

text \<open>
  Unique indexes: single writes keep the rows of a table apart, and the other ways a row is
  written do not.
\<close>

section \<open>A symmetric comparison\<close>

lemma value_eq_sym:
  "value_eq u v \<Longrightarrow> value_eq v u"
  "value_list_eq us vs \<Longrightarrow> value_list_eq vs us"
  "value_map_eq um vm \<Longrightarrow> value_map_eq vm um"
  by (induction u v and us vs and um vm rule: value_eq_value_list_eq_value_map_eq.induct)
    (auto simp: f64_eq_def split: val.split_asm list.split_asm)

lemma tuples_collide_sym: "tuples_collide a b \<Longrightarrow> tuples_collide b a"
  by (auto simp: tuples_collide_def value_eq_sym(2) split: option.splits)

section \<open>Rows kept apart\<close>

definition rows_apart :: "index_def \<Rightarrow> (string \<times> val) set \<Rightarrow> bool" where
  "rows_apart ix rows \<longleftrightarrow>
     (\<forall>(pk, r) \<in> rows. \<forall>(pk', r') \<in> rows. pk \<noteq> pk' \<longrightarrow> \<not> tuples_collide (index_tuple ix pk r) (index_tuple ix pk' r'))"

definition unique_kept :: "view \<Rightarrow> string \<Rightarrow> bool" where
  "unique_kept v t \<longleftrightarrow>
     (case omget (sc_tables (vw_schema v)) t of
        None \<Rightarrow> True
      | Some td \<Rightarrow> list_all (\<lambda>ix. ix_unique ix \<longrightarrow> rows_apart ix (set (view_scan v t))) (td_indexes td))"

lemma rows_apart_subset: "rows_apart ix rows \<Longrightarrow> rows' \<subseteq> rows \<Longrightarrow> rows_apart ix rows'"
  unfolding rows_apart_def by (blast dest: subsetD)

lemma rows_apart_insert:
  assumes "rows_apart ix rows" and "\<And>pk r. (pk, r) \<in> rows \<Longrightarrow> pk \<noteq> pk0 \<Longrightarrow> \<not> tuples_collide (index_tuple ix pk r) (index_tuple ix pk0 x)"
  shows "rows_apart ix (insert (pk0, x) rows)"
  using assms tuples_collide_sym unfolding rows_apart_def by fastforce

lemma unique_indexes_free:
  assumes "unique_indexes_ok v a x ixs = Inr ()" and "ix \<in> set ixs" and "(pk, r) \<in> set (view_scan v (ra_table a))"
    and "pk \<noteq> ra_primary_key a"
  shows "\<not> tuples_collide (index_tuple ix pk r) (index_tuple ix (ra_primary_key a) x)"
  using assms(1,2)
proof (induction ixs)
  case (Cons i ixs)
  show ?case
  proof (cases "index_tuple i (ra_primary_key a) x")
    case None
    then show ?thesis using Cons by (auto simp: tuples_collide_def split: option.splits)
  next
    case (Some incoming)
    let ?hit = "\<lambda>(pk, row). pk \<noteq> ra_primary_key a \<and> tuples_collide (index_tuple i pk row) (Some incoming)"
    have none: "find_first ?hit (view_scan v (ra_table a)) = None" and rest: "unique_indexes_ok v a x ixs = Inr ()"
      using Cons.prems(1) Some by (auto split: option.splits)
    have "\<not> ?hit (pk, r)" using none assms(3) by (auto simp: find_first_None)
    then show ?thesis using Cons rest assms(4) Some by auto
  qed
qed simp

section \<open>One write\<close>

lemma view_apply_put:
  "le_op en = Put key x \<Longrightarrow> vw_keys (view_apply enc en v) = omput key x (vw_keys v) \<and>
     vw_crdts (view_apply enc en v) = vw_crdts v \<and> vw_schema (view_apply enc en v) = vw_schema v"
  by (simp add: view_apply_def Let_def)

lemma view_apply_delete:
  "le_op en = Delete key \<Longrightarrow> vw_keys (view_apply enc en v) = omdel key (vw_keys v) \<and>
     vw_crdts (view_apply enc en v) = vw_crdts v \<and> vw_schema (view_apply enc en v) = vw_schema v"
  by (simp add: view_apply_def Let_def)

lemma scan_after_put:
  assumes "table_name_ok t" and "vw_keys w = omput key x (vw_keys v)" and "vw_crdts w = vw_crdts v"
    and "(pk, r) \<in> set (view_scan w t)"
  shows "(pk, r) \<in> set (view_scan v t) \<or> key = row_key t pk \<and> pk \<noteq> [] \<and> r = x"
  using assms(4) unfolding view_scan_set Un_iff plain_rows_set [OF assms(1)] crdt_rows_set [OF assms(1)]
  by (auto simp: assms(2,3) split: if_splits)

lemma scan_after_delete:
  assumes "table_name_ok t" and "vw_keys w = omdel key (vw_keys v)" and "vw_crdts w = vw_crdts v"
  shows "set (view_scan w t) \<subseteq> set (view_scan v t)"
  using assms(2,3) unfolding view_scan_set
  by (auto simp: plain_rows_set [OF assms(1)] crdt_rows_set [OF assms(1)] split: if_splits)

lemma unique_kept_smaller:
  "unique_kept v t \<Longrightarrow> vw_schema w = vw_schema v \<Longrightarrow> set (view_scan w t) \<subseteq> set (view_scan v t) \<Longrightarrow> unique_kept w t"
  unfolding unique_kept_def by (auto simp: list_all_iff split: option.splits dest: rows_apart_subset)

lemma unique_kept_put:
  assumes "table_name_ok t" and "unique_kept v t" and "vw_schema w = vw_schema v"
    and "vw_keys w = omput key x (vw_keys v)" and "vw_crdts w = vw_crdts v"
    and free: "\<And>a td. parse_address key = Some a \<Longrightarrow> omget (sc_tables (vw_schema v)) (ra_table a) = Some td \<Longrightarrow>
      unique_indexes_ok v a x (filter ix_unique (td_indexes td)) = Inr ()"
  shows "unique_kept w t"
proof (cases "\<exists>pk. pk \<noteq> [] \<and> key = row_key t pk")
  case False
  then have "set (view_scan w t) \<subseteq> set (view_scan v t)" using scan_after_put [OF assms(1,4,5)] by auto
  then show ?thesis using unique_kept_smaller assms(2,3) by blast
next
  case True
  then obtain pk0 where pk0: "pk0 \<noteq> []" "key = row_key t pk0" by blast
  have addr: "parse_address key = Some \<lparr>ra_table = t, ra_primary_key = pk0\<rparr>" using parse_row_key [OF assms(1) pk0(1)] pk0(2) by simp
  have rows: "set (view_scan w t) \<subseteq> insert (pk0, x) (set (view_scan v t))"
    using scan_after_put [OF assms(1,4,5)] pk0(2) row_key_inj by auto
  have "rows_apart ix (set (view_scan w t))"
    if td: "omget (sc_tables (vw_schema v)) t = Some td" and ix: "ix \<in> set (td_indexes td)" "ix_unique ix" for td ix
  proof -
    have "rows_apart ix (set (view_scan v t))" using assms(2) td ix by (simp add: unique_kept_def list_all_iff)
    moreover have "unique_indexes_ok v \<lparr>ra_table = t, ra_primary_key = pk0\<rparr> x (filter ix_unique (td_indexes td)) = Inr ()"
      using free [OF addr] td by simp
    then have "\<not> tuples_collide (index_tuple ix pk r) (index_tuple ix pk0 x)"
      if "(pk, r) \<in> set (view_scan v t)" "pk \<noteq> pk0" for pk r
      using unique_indexes_free [of v "\<lparr>ra_table = t, ra_primary_key = pk0\<rparr>" x _ ix pk r] ix that by simp
    ultimately have "rows_apart ix (insert (pk0, x) (set (view_scan v t)))" by (intro rows_apart_insert)
    then show ?thesis using rows rows_apart_subset by blast
  qed
  then show ?thesis using assms(3) by (simp add: unique_kept_def list_all_iff split: option.split)
qed

section \<open>The engine\<close>

definition engine_unique :: "('k, 'p) engine \<Rightarrow> nat \<Rightarrow> string \<Rightarrow> bool" where
  "engine_unique e b t \<longleftrightarrow> (case omget (en_views e) b of None \<Rightarrow> True | Some v \<Rightarrow> unique_kept v t)"

lemma engine_unique_or_new: "engine_unique e b t \<Longrightarrow> unique_kept (omget_or view_new (en_views e) b) t"
  by (auto simp: engine_unique_def omget_or_def unique_kept_def view_new_def schema_default_def split: option.splits)

lemma check_unique_free:
  assumes "check_unique br key x e = Inr ()" and "parse_address key = Some a"
    and "omget (sc_tables (vw_schema (omget_or view_new (en_views e) br))) (ra_table a) = Some td"
  shows "unique_indexes_ok (omget_or view_new (en_views e) br) a x (filter ix_unique (td_indexes td)) = Inr ()"
  using assms by (auto simp: check_unique_def omget_or_def view_new_def schema_default_def split: option.splits)

lemma engine_unique_fold:
  assumes "en_views e' = fold_into enc en (en_views e)" and "table_name_ok t" and "engine_unique e b t"
    and "le_op en = Put key x \<and> check_unique (le_branch en) key x e = Inr () \<or> le_op en = Delete key"
  shows "engine_unique e' b t"
proof (cases "b = le_branch en")
  case True
  let ?v = "omget_or view_new (en_views e) b"
  have kept: "unique_kept ?v t" using assms(3) by (rule engine_unique_or_new)
  have "unique_kept (view_apply enc en ?v) t"
    using assms(4)
  proof
    assume p: "le_op en = Put key x \<and> check_unique (le_branch en) key x e = Inr ()"
    have f: "vw_schema (view_apply enc en ?v) = vw_schema ?v" "vw_keys (view_apply enc en ?v) = omput key x (vw_keys ?v)"
      "vw_crdts (view_apply enc en ?v) = vw_crdts ?v" using view_apply_put p by auto
    show ?thesis
      by (rule unique_kept_put [OF assms(2) kept f]) (use check_unique_free p True in blast)
  next
    assume d: "le_op en = Delete key"
    have f: "vw_schema (view_apply enc en ?v) = vw_schema ?v" "vw_keys (view_apply enc en ?v) = omdel key (vw_keys ?v)"
      "vw_crdts (view_apply enc en ?v) = vw_crdts ?v" using view_apply_delete [OF d] by auto
    show ?thesis by (rule unique_kept_smaller [OF kept f(1) scan_after_delete [OF assms(2) f(2,3)]])
  qed
  then show ?thesis using assms(1) True by (simp add: engine_unique_def fold_into_def)
next
  case False
  then show ?thesis using assms(1,3) by (simp add: engine_unique_def fold_into_def)
qed

lemma append_views:
  assumes "same_data e e1" and "engine_append L br op a now e1 = (r, e')" and "no_fork op"
  shows "en_views e' = en_views e \<or> (\<exists>en. le_branch en = br \<and> le_op en = op \<and> en_views e' = fold_into (el_enc L) en (en_views e))"
  using engine_append_steps [OF assms(2,3)] assms(1)
  by (auto simp: same_data_def intro!: exI [of _ "engine_entry br op a now e1"]) (simp_all add: engine_entry_def)

lemma guarded_append:
  assumes "and_then (check_breaker rows now a) (\<lambda>_. engine_append L br op a now) e = (r, e')"
  shows "same_data e e' \<or> (\<exists>e1. same_data e e1 \<and> engine_append L br op a now e1 = (r, e'))"
  using assms by (auto simp: and_then_def split: prod.splits sum.splits dest: check_breaker_data)

lemma put_views:
  assumes "engine_put L br key x a now e = (r, e')"
  shows "en_views e' = en_views e \<or>
    check_unique br key x e = Inr () \<and> (\<exists>en. le_branch en = br \<and> le_op en = Put key x \<and> en_views e' = fold_into (el_enc L) en (en_views e))"
proof (cases "check_type br key x e = Inr () \<and> check_unique br key x e = Inr ()")
  case True
  then have "and_then (check_breaker 1 now a) (\<lambda>_. engine_append L br (Put key x) a now) e = (r, e')"
    using assms by (simp add: engine_put_def)
  then show ?thesis
    using guarded_append [of 1 now a L br "Put key x" e r e'] append_views [of e _ L br "Put key x" a now r e'] True
    by (auto simp: no_fork_def same_data_def)
next
  case False
  then show ?thesis using assms
    by (cases "check_type br key x e"; cases "check_unique br key x e") (auto simp: engine_put_def)
qed

fun single_write :: "write_call \<Rightarrow> bool" where
  "single_write (WPut _ _) = True"
| "single_write (WPutIf _ _ _) = True"
| "single_write (WDelete _) = True"
| "single_write _ = False"

text \<open>C13: A unique index stays unique.  Whatever a put, a conditional put or a delete does on
  any branch, and whether it is accepted, refused or fails in storage, no two rows of a
  table come to hold the same tuple in one of its unique indexes.\<close>

theorem single_writes_keep_unique:
  assumes "engine_write L br w a now e = (r, e')" and "single_write w" and "table_name_ok t" and "engine_unique e b t"
  shows "engine_unique e' b t"
proof -
  have same: "engine_unique e' b t" if "en_views e' = en_views e"
    using assms(4) that by (simp add: engine_unique_def)
  have put: "engine_unique e' b t" if p: "engine_put L br key x a now e = (r, e')" for key x
  proof -
    consider "en_views e' = en_views e"
      | en where "check_unique br key x e = Inr ()" "le_branch en = br" "le_op en = Put key x" "en_views e' = fold_into (el_enc L) en (en_views e)"
      using put_views [OF p] by blast
    then show ?thesis
    proof cases
      case 2
      then show ?thesis using engine_unique_fold [OF 2(4) assms(3,4), of key x] by simp
    qed (rule same)
  qed
  show ?thesis
  proof (cases w)
    case (WPutIf key x expect)
    then show ?thesis using assms(1) put same by (cases "check_precondition br key expect e") (auto simp: engine_put_if_def)
  next
    case (WDelete key)
    then have g: "and_then (check_breaker 1 now a) (\<lambda>_. engine_append L br (Delete key) a now) e = (r, e')"
      using assms(1) by (simp add: engine_delete_def)
    then consider "en_views e' = en_views e" | en where "le_op en = Delete key" "en_views e' = fold_into (el_enc L) en (en_views e)"
      using guarded_append [OF g] append_views [of e _ L br "Delete key" a now r e'] by (auto simp: no_fork_def same_data_def)
    then show ?thesis
    proof cases
      case 2
      then show ?thesis using engine_unique_fold [OF 2(2) assms(3,4)] by simp
    qed (rule same)
  qed (use assms(1,2) put in auto)
qed

definition keyed_table :: table_def where
  "keyed_table = (table_default ''t'')\<lparr>td_indexes := [\<lparr>ix_name = ''i'', ix_columns = [''c''], ix_unique = True\<rparr>]\<rparr>"

definition keyed_view :: "(string \<times> val) list \<Rightarrow> view" where
  "keyed_view rows = view_new\<lparr>vw_keys := fold (\<lambda>(k, x). omput k x) rows omempty,
     vw_schema := \<lparr>sc_tables = omput ''t'' keyed_table omempty\<rparr>\<rparr>"

lemmas keyed_eval = keyed_view_def keyed_table_def view_new_def view_scan_def plain_rows_def crdt_rows_def prefix_range_def
  address_prefix_def starts_with_def row_of_def parse_address_def List.map_filter_simps index_tuple_def row_column_def
  key_column_def

lemma single_writes_keep_unique_witness:
  "engine_unique (snd (engine_write sample_engine_lib main_branch (WPut ''t:2'' (VMap [(''c'', VInt 7)])) System 0
     (sample_engine (keyed_view [(''t:1'', VMap [(''c'', VInt 7)])]) 1))) main_branch ''t''"
proof (rule single_writes_keep_unique [OF prod.collapse [symmetric]])
  show "engine_unique (sample_engine (keyed_view [(''t:1'', VMap [(''c'', VInt 7)])]) 1) main_branch ''t''"
    by (simp add: engine_unique_def sample_engine_def unique_kept_def keyed_eval rows_apart_def)
qed (simp_all add: table_name_ok_def)

section \<open>What the check misses\<close>

text \<open>A transaction is checked row by row against the branch as it stands: two rows that
  collide with each other both pass.\<close>

theorem transaction_breaks_unique:
  "let e = sample_engine (keyed_view []) 1;
       ws = [\<lparr>tw_key = ''t:1'', tw_expect = None, tw_action = TxPut (VMap [(''c'', VInt 7)]) 0\<rparr>,
             \<lparr>tw_key = ''t:2'', tw_expect = None, tw_action = TxPut (VMap [(''c'', VInt 7)]) 0\<rparr>]
   in check_values main_branch ws e = Inr () \<and> engine_unique e main_branch ''t'' \<and>
      \<not> unique_kept (keyed_view [(''t:1'', VMap [(''c'', VInt 7)]), (''t:2'', VMap [(''c'', VInt 7)])]) ''t''"
  by (simp add: Let_def check_type_def check_unique_def sample_engine_def check_row_def schema_table_def table_default_def
      engine_unique_def unique_kept_def rows_apart_def keyed_eval tuples_collide_def)

end
