(* ===== verification/Daemon_Schema.thy ===== *)
theory Daemon_Schema
  imports Daemon_Writes Safety_Triage Safety_Proof
begin

text \<open>
  Schema changes in the engine (\<open>thetad/src/engine.rs\<close>): a proposal is classified and held,
  a gated one is carried on a shadow branch, validated there and merged, and whatever is not
  answered in time is collected.  With it branches and merges, by which promotion lands.

  A merge walks the history of a branch; \<open>None\<close> is a walk that does not end, which
  \<open>Store_History\<close> rules out for the logs that appends and forks build.
\<close>

abbreviation log_of :: "('k, 'p) engine \<Rightarrow> mem_log" where
  "log_of e \<equiv> du_log (en_log e)"

definition branch_view :: "('k, 'p) engine \<Rightarrow> nat \<Rightarrow> view" where
  "branch_view e br = omget_or view_new (en_views e) br"

definition branch_protected :: "('k, 'p) engine \<Rightarrow> nat \<Rightarrow> bool" where
  "branch_protected e br = (case bs_by_id (en_branches e) br of None \<Rightarrow> False | Some b \<Rightarrow> is_protected b)"

definition policy_in_force :: "('k, 'p) engine \<Rightarrow> safety_policy" where
  "policy_in_force e = ps_policy (en_policy e)"

section \<open>The policy\<close>

definition describe_policy :: "safety_policy \<Rightarrow> string" where
  "describe_policy p =
     show_nat (sp_row_impact p) @ '' rows before review, '' @ show_nat (effective_shadow_threshold p) @
     '' before shadow validation is required, breaker at '' @ show_nat (sp_breaker_ceiling p) @ '' rows per '' @
     show_nat (sp_breaker_window p div 1000) @ ''s''"

definition apply_signed_policy ::
  "('k, 'p, 'g) engine_lib \<Rightarrow> signed_payload \<Rightarrow> int \<Rightarrow> ('k, 'p) engine \<Rightarrow> (policy_error + bool) \<times> ('k, 'p) engine" where
  "apply_signed_policy L s now e =
     (case en_keys e of
        None \<Rightarrow> (Inl PolicyBadSignature, e)
      | Some ks \<Rightarrow>
          (case policy_verify (el_wire L) (el_policy L) ks s of
             Inl err \<Rightarrow> (Inl err, e)
           | Inr incoming \<Rightarrow>
               (case policy_apply (en_project e) incoming (en_policy e) of
                  (Inl err, ps) \<Rightarrow> (Inl err, e\<lparr>en_policy := ps\<rparr>)
                | (Inr False, ps) \<Rightarrow> (Inr False, e\<lparr>en_policy := ps\<rparr>)
                | (Inr True, ps) \<Rightarrow>
                    (Inr True, record_audit (for_policy (vp_version incoming) (describe_policy (vp_policy incoming)) now)
                       (e\<lparr>en_policy := ps, en_breaker := breaker_new (ps_policy ps)\<rparr>)))))"

section \<open>Proposals\<close>

definition estimate_impact :: "('k, 'p) engine \<Rightarrow> nat \<Rightarrow> schema_change \<Rightarrow> impact" where
  "estimate_impact e br change = estimate (branch_view e br) change"

text \<open>The call of the classifier, with the branch's protection, the measured impact and the
  policy in force.\<close>

definition classified :: "('k, 'p, 'g) engine_lib \<Rightarrow> ('k, 'p) engine \<Rightarrow> nat \<Rightarrow> schema_change \<Rightarrow> change_diff" where
  "classified L e br change =
     classify (el_change L) (blake3 (el_codec L)) change (estimate_impact e br change) (policy_in_force e) (branch_protected e br) br"

definition hold_change :: "change_diff \<Rightarrow> schema_change \<Rightarrow> nat \<Rightarrow> int \<Rightarrow> ('k, 'p) engine \<Rightarrow> ('k, 'p) engine" where
  "hold_change d change br now e =
     e\<lparr>en_pending := omput (cd_id d) \<lparr>pc_diff = d, pc_change = change, pc_branch = br, pc_proposed_at = now\<rparr> (en_pending e)\<rparr>"

definition propose_schema_change ::
  "('k, 'p, 'g) engine_lib \<Rightarrow> nat \<Rightarrow> schema_change \<Rightarrow> author \<Rightarrow> int \<Rightarrow> ('k, 'p) engine \<Rightarrow> change_diff \<times> ('k, 'p) engine" where
  "propose_schema_change L br change a now e =
     (let d = classified L e br change in
      (d, hold_change d change br now (record_audit (for_change d (gate_of d) (branch_name_of e br) a now) e)))"

definition review_scopes :: "nat \<Rightarrow> author \<Rightarrow> budget_scope list" where
  "review_scopes br a = [BProject, BBranch br] @ (case author_session_id a of None \<Rightarrow> [] | Some s \<Rightarrow> [BAgent s])"

definition spend_scopes :: "author \<Rightarrow> spend_scope list" where
  "spend_scopes a = [SProject] @ (case author_session_id a of None \<Rightarrow> [] | Some s \<Rightarrow> [SAgent s])"

definition propose_within_budget ::
  "('k, 'p, 'g) engine_lib \<Rightarrow> nat \<Rightarrow> schema_change \<Rightarrow> author \<Rightarrow> int \<Rightarrow> ('k, 'p, change_diff) act" where
  "propose_within_budget L br change a now e =
     (let d = classified L e br change in
      case budget_reserve (gate_of d) (review_scopes br a) now (en_review e) of
        (Exhausted scope _ _ _ _ reason, b) \<Rightarrow>
          (Inl (ReviewExhausted scope reason),
           record_audit (for_change d (gate_of d) (branch_name_of e br) a now) (e\<lparr>en_review := b\<rparr>))
      | (Granted r _ _, b) \<Rightarrow>
          (case propose_schema_change L br change a now (e\<lparr>en_review := b\<rparr>) of
             (d', e') \<Rightarrow> (Inr d', e'\<lparr>en_reservations := (en_reservations e')(cd_id d' \<mapsto> r)\<rparr>)))"

definition settle_review :: "string \<Rightarrow> settlement \<Rightarrow> int \<Rightarrow> ('k, 'p) engine \<Rightarrow> ('k, 'p) engine" where
  "settle_review i how now e =
     (case en_reservations e i of
        None \<Rightarrow> e
      | Some r \<Rightarrow> e\<lparr>en_reservations := (en_reservations e)(i := None),
                   en_review := snd (budget_settle r how now (en_review e))\<rparr>)"

definition engine_record_spend :: "author \<Rightarrow> nat \<Rightarrow> int \<Rightarrow> ('k, 'p) engine \<Rightarrow> ('k, 'p) engine" where
  "engine_record_spend a actual now e = e\<lparr>en_spend := ledger_record (spend_scopes a) actual now (en_spend e)\<rparr>"

definition engine_may_spend :: "author \<Rightarrow> nat \<Rightarrow> int \<Rightarrow> ('k, 'p) engine \<Rightarrow> bool" where
  "engine_may_spend a ms now e = spend_allowed (may_spend (spend_scopes a) ms now (en_spend e))"

text \<open>The rows a claim is checked against: plain rows, then replicated ones.\<close>

definition view_rows :: "view \<Rightarrow> (string \<times> val) list" where
  "view_rows v = filter (\<lambda>(k, _). parse_address k \<noteq> None)
     (omlist (vw_keys v) @ map (\<lambda>(k, st). (k, state_value st)) (omlist (vw_crdts v)))"

definition rows_of :: "('k, 'p) engine \<Rightarrow> nat \<Rightarrow> (string \<times> val) list" where
  "rows_of e br = (case omget (en_views e) br of None \<Rightarrow> [] | Some v \<Rightarrow> view_rows v)"

definition table_rows :: "(string \<times> val) list \<Rightarrow> string \<Rightarrow> (string \<times> val) list" where
  "table_rows rows t = filter (\<lambda>(k, _). starts_with (address_prefix t) k) rows"

definition propose_with_claim ::
  "('k, 'p, 'g) engine_lib \<Rightarrow> nat \<Rightarrow> schema_change \<Rightarrow> claim \<Rightarrow> author \<Rightarrow> int \<Rightarrow> ('k, 'p) engine \<Rightarrow>
     (change_diff \<times> verdict) \<times> ('k, 'p) engine" where
  "propose_with_claim L br change c a now e =
     (let d0 = classified L e br change;
          verdict = verify_claim c change (table_rows (rows_of e br));
          (g, reason) = apply_claim (gate_of d0) change verdict;
          d = (if g \<noteq> gate_of d0 then d0\<lparr>cd_gate := g, cd_requires_confirm := (g \<noteq> AutoApply), cd_reason := reason\<rparr> else d0)
      in ((d, verdict), hold_change d change br now (record_audit (for_change d g (branch_name_of e br) a now) e)))"

definition review_queue :: "('k, 'p) engine \<Rightarrow> review_batch list" where
  "review_queue e =
     triage (filter (\<lambda>d. cd_gate d \<noteq> AutoApply) (map pc_diff (omvalues (en_pending e)))) (rb_policy (en_review e))"

definition pending_branch :: "('k, 'p) engine \<Rightarrow> string \<Rightarrow> nat option" where
  "pending_branch e i = map_option pc_branch (omget (en_pending e) i)"

definition apply_schema_change ::
  "('k, 'p, 'g) engine_lib \<Rightarrow> string \<Rightarrow> bool \<Rightarrow> author \<Rightarrow> int \<Rightarrow> ('k, 'p, hash) act" where
  "apply_schema_change L i confirm a now e =
     (case omget (en_pending e) i of
        None \<Rightarrow> (Inl (UnknownChange i), e)
      | Some p \<Rightarrow>
          if gate_of (pc_diff p) = ShadowValidate
          then (Inl (Gated (cd_reason (pc_diff p) @ '' '' @ map char_of [226, 128, 148 :: nat] @
                  '' confirmation is not sufficient; validate on a shadow branch and promote it'') (pc_diff p)), e)
          else if gate_of (pc_diff p) = Confirm \<and> \<not> confirm
          then (Inl (Gated (cd_reason (pc_diff p)) (pc_diff p)), e)
          else engine_append L (pc_branch p) (SchemaOp (pc_change p)) a now
                 (settle_review i Approved now (e\<lparr>en_pending := omdel i (en_pending e)\<rparr>)))"

section \<open>Branches and merges\<close>

definition engine_create_branch ::
  "('k, 'p, 'g) engine_lib \<Rightarrow> string \<Rightarrow> nat \<Rightarrow> author \<Rightarrow> int \<Rightarrow> ('k, 'p, nat) act" where
  "engine_create_branch L name from' a now e =
     (let head = du_expected (en_log e) from' in
      case branch_create name head Standard (en_branches e) of
        (Inl err, bs) \<Rightarrow> (Inl (StorageFailed err), e\<lparr>en_branches := bs\<rparr>)
      | (Inr i, bs) \<Rightarrow>
          (case engine_append L i (BranchCreate name head) a now
              (e\<lparr>en_branches := bs, en_log := du_set_head i head (en_log e)\<rparr>) of
             (Inl err, e') \<Rightarrow> (Inl err, e')
           | (Inr _, e') \<Rightarrow> (Inr i, e')))"

definition engine_discard_branch :: "string \<Rightarrow> author \<Rightarrow> int \<Rightarrow> ('k, 'p, unit) act" where
  "engine_discard_branch name a now e =
     (case branch_by_name (en_branches e) name of
        None \<Rightarrow> (Inl (BadRequest (''no branch named `'' @ name @ ''`'')), e)
      | Some b \<Rightarrow>
          if is_protected b
          then (Inl (BadRequest (''`'' @ name @ ''` is a protected branch and cannot be discarded'')), e)
          else if br_kind b = Shadow
          then (Inl (BadRequest (''`'' @ name @ ''` is a shadow branch; reject or promote the change it carries rather than discarding it'')), e)
          else (let e1 = (record_audit (for_branch_discard name a now) e)\<lparr>en_views := omdel (br_id b) (en_views e)\<rparr> in
                case branch_discard (br_id b) (en_branches e1) of
                  (Inl err, bs) \<Rightarrow> (Inl (StorageFailed err), e1\<lparr>en_branches := bs\<rparr>)
                | (Inr _, bs) \<Rightarrow> (Inr (), e1\<lparr>en_branches := bs\<rparr>)))"

fun append_all :: "('k, 'p, 'g) engine_lib \<Rightarrow> nat \<Rightarrow> op_type list \<Rightarrow> author \<Rightarrow> int \<Rightarrow> ('k, 'p, unit) act" where
  "append_all L br [] a now e = (Inr (), e)"
| "append_all L br (op # ops) a now e = and_then (engine_append L br op a now) (\<lambda>_. append_all L br ops a now) e"

text \<open>What a clean merge appends to its target, in order.\<close>

definition merge_appends :: "nat \<Rightarrow> hash \<Rightarrow> schema_change list \<Rightarrow> op_type list \<Rightarrow> op_type list" where
  "merge_appends source source_head schema ops =
     map SchemaOp schema @ (if ops = [] then [] else [Transaction ops]) @ [Merge source source_head]"

definition install_crdts :: "nat \<Rightarrow> (string, crdt_state) omap \<Rightarrow> ('k, 'p) engine \<Rightarrow> ('k, 'p) engine" where
  "install_crdts br states e =
     (case omget (en_views e) br of
        None \<Rightarrow> e
      | Some v \<Rightarrow> e\<lparr>en_views := omput br (v\<lparr>vw_crdts := fold (\<lambda>(k, st). omput k st) (omlist states) (vw_crdts v)\<rparr>) (en_views e)\<rparr>)"

definition engine_merge ::
  "('k, 'p, 'g) engine_lib \<Rightarrow> nat \<Rightarrow> nat \<Rightarrow> author \<Rightarrow> int \<Rightarrow> ('k, 'p) engine \<Rightarrow>
     ((engine_error + merge_outcome) \<times> ('k, 'p) engine) option" where
  "engine_merge L source target a now e =
     (case merge_branches (el_js L) (mem_store (du_log (en_log e))) source target
         (Option.bind (bs_by_id (en_branches e) source) br_fork_point) (branch_view e target) (branch_view e source) of
        None \<Rightarrow> None
      | Some (Inl err) \<Rightarrow> Some (Inl (StorageFailed err), e)
      | Some (Inr (Merged schema ops states converged)) \<Rightarrow>
          (case append_all L target (merge_appends source (du_expected (en_log e) source) schema ops) a now e of
             (Inl err, e') \<Rightarrow> Some (Inl err, e')
           | (Inr _, e') \<Rightarrow> Some (Inr (Merged schema ops states converged), install_crdts target states e'))
      | Some (Inr other) \<Rightarrow> Some (Inr other, e))"

section \<open>Shadow branches\<close>

definition shadow_name :: "nat \<Rightarrow> string \<Rightarrow> string" where
  "shadow_name target i = ''shadow-'' @ show_nat target @ ''-'' @ take 8 (drop 4 i)"

definition open_shadow_branch ::
  "('k, 'p, 'g) engine_lib \<Rightarrow> nat \<Rightarrow> string \<Rightarrow> schema_change \<Rightarrow> author \<Rightarrow> int \<Rightarrow> ('k, 'p, nat) act" where
  "open_shadow_branch L target i change a now e =
     (case omget (en_shadows e) i of
        Some existing \<Rightarrow> (Inr (sv_shadow existing), e)
      | None \<Rightarrow>
          let head = du_expected (en_log e) target in
          case branch_create (shadow_name target i) head Shadow (en_branches e) of
            (Inl err, bs) \<Rightarrow> (Inl (StorageFailed err), e\<lparr>en_branches := bs\<rparr>)
          | (Inr s, bs) \<Rightarrow>
              (case engine_append L s (SchemaOp change) a now
                  (e\<lparr>en_branches := bs, en_log := du_set_head s head (en_log e),
                     en_views := (case omget (en_views e) target of None \<Rightarrow> en_views e | Some v \<Rightarrow> omput s v (en_views e))\<rparr>) of
                 (Inl err, e') \<Rightarrow> (Inl err, e')
               | (Inr h, e') \<Rightarrow>
                   (Inr s, e'\<lparr>en_shadows := omput i \<lparr>sv_change_id = i, sv_target = target, sv_shadow = s, sv_applied_head = h,
                                  sv_opened_at = now, sv_outcome = None\<rparr> (en_shadows e'),
                             en_shadow_changes := (en_shadow_changes e')(i \<mapsto> change),
                             en_pending := (case omget (en_pending e') i of
                                 None \<Rightarrow> en_pending e'
                               | Some p \<Rightarrow> omput i (p\<lparr>pc_diff := (pc_diff p)\<lparr>cd_shadow_branch := Some s\<rparr>\<rparr>) (en_pending e'))\<rparr>)))"

definition validate_shadow :: "string \<Rightarrow> author \<Rightarrow> int \<Rightarrow> ('k, 'p, validation) act" where
  "validate_shadow i a now e =
     (case omget (en_shadows e) i of
        None \<Rightarrow> (Inl (UnknownChange i), e)
      | Some r \<Rightarrow>
          (case en_shadow_changes e i of
             None \<Rightarrow> (Inl (UnknownChange i), e)
           | Some change \<Rightarrow>
               let checks = shadow_validate (branch_view e (sv_target r)) (branch_view e (sv_shadow r)) change;
                   d = \<lparr>vd_passed = list_all ck_passed checks, vd_ran_at = now,
                        vd_head = du_expected (en_log e) (sv_shadow r), vd_checks = checks\<rparr>
               in (Inr d, (record_audit (for_validation i (branch_name_of e (sv_target r)) (vd_passed d) (validation_summary d) a now) e)
                     \<lparr>en_shadows := omput i (r\<lparr>sv_outcome := Some d\<rparr>) (en_shadows e)\<rparr>)))"

definition release_shadow :: "string \<Rightarrow> settlement \<Rightarrow> int \<Rightarrow> ('k, 'p) engine \<Rightarrow> ('k, 'p) engine" where
  "release_shadow i how now e =
     (case omget (en_shadows e) i of
        None \<Rightarrow> e
      | Some r \<Rightarrow>
          let e1 = settle_review i how now
            (e\<lparr>en_shadows := omdel i (en_shadows e), en_shadow_changes := (en_shadow_changes e)(i := None),
               en_pending := omdel i (en_pending e)\<rparr>)
          in e1\<lparr>en_views := omdel (sv_shadow r) (en_views e1), en_branches := snd (branch_discard (sv_shadow r) (en_branches e1))\<rparr>)"

text \<open>The checks before a promotion; the answer is the record that may be merged.\<close>

definition promotable :: "string \<Rightarrow> ('k, 'p) engine \<Rightarrow> engine_error + shadow_validation" where
  "promotable i e =
     (case omget (en_shadows e) i of
        None \<Rightarrow> Inl (UnknownChange i)
      | Some r \<Rightarrow>
          (case omget (en_pending e) i of
             None \<Rightarrow> Inl (UnknownChange i)
           | Some p \<Rightarrow>
               (case sv_outcome r of
                  None \<Rightarrow> Inl (Gated ''nothing has been validated on this shadow branch yet'' (pc_diff p))
                | Some d \<Rightarrow>
                    if \<not> vd_passed d then Inl (Gated (''cannot promote: '' @ validation_summary d) (pc_diff p))
                    else if \<not> is_current (du_expected (en_log e) (sv_shadow r)) r
                    then Inl (Gated ''the shadow branch moved after it was validated; validate it again'' (pc_diff p))
                    else Inr r)))"

definition promote_shadow ::
  "('k, 'p, 'g) engine_lib \<Rightarrow> string \<Rightarrow> author \<Rightarrow> int \<Rightarrow> ('k, 'p) engine \<Rightarrow>
     ((engine_error + merge_outcome) \<times> ('k, 'p) engine) option" where
  "promote_shadow L i a now e =
     (case promotable i e of
        Inl err \<Rightarrow> Some (Inl err, e)
      | Inr r \<Rightarrow>
          (case engine_merge L (sv_shadow r) (sv_target r) a now e of
             None \<Rightarrow> None
           | Some (Inl err, e') \<Rightarrow> Some (Inl err, e')
           | Some (Inr (Conflicted cs), e') \<Rightarrow> Some (Inr (Conflicted cs), e')
           | Some (Inr merged, e') \<Rightarrow>
               Some (Inr merged, release_shadow i Approved now
                 (record_audit (for_promotion i (branch_name_of e' (sv_target r)) a now) e'))))"

definition reject_shadow :: "string \<Rightarrow> string \<Rightarrow> author \<Rightarrow> int \<Rightarrow> ('k, 'p, unit) act" where
  "reject_shadow i reason a now e =
     (case omget (en_shadows e) i of
        None \<Rightarrow> (Inl (UnknownChange i), e)
      | Some r \<Rightarrow>
          (Inr (), release_shadow i Rejected now (record_audit (for_rejection i (branch_name_of e (sv_target r)) reason a now) e)))"

record proposal =
  pr_diff :: change_diff
  pr_shadow :: "shadow_validation option"

definition propose :: "('k, 'p, 'g) engine_lib \<Rightarrow> nat \<Rightarrow> schema_change \<Rightarrow> author \<Rightarrow> int \<Rightarrow> ('k, 'p, proposal) act" where
  "propose L br change a now e =
     (let (d, e1) = propose_schema_change L br change a now e in
      if gate_of d \<noteq> ShadowValidate then (Inr \<lparr>pr_diff = d, pr_shadow = None\<rparr>, e1)
      else and_then (open_shadow_branch L br (cd_id d) change a now) (\<lambda>_.
           and_then (validate_shadow (cd_id d) a now) (\<lambda>_ e2.
             (Inr \<lparr>pr_diff = (case omget (en_pending e2) (cd_id d) of None \<Rightarrow> d | Some p \<Rightarrow> pc_diff p),
                   pr_shadow = omget (en_shadows e2) (cd_id d)\<rparr>, e2))) e1)"

definition engine_pending_change :: "('k, 'p) engine \<Rightarrow> string \<Rightarrow> proposal option" where
  "engine_pending_change e i =
     map_option (\<lambda>p. \<lparr>pr_diff = pc_diff p, pr_shadow = omget (en_shadows e) i\<rparr>) (omget (en_pending e) i)"

section \<open>Deadlines\<close>

record reclaimed_shadow =
  rc_id :: string
  rc_branch :: nat
  rc_age :: int
  rc_validated :: bool

definition shadow_ttl :: "('k, 'p) engine \<Rightarrow> int" where
  "shadow_ttl e = wrap_i64 (int (sp_shadow_ttl (policy_in_force e)))"

definition reclaim_shadow :: "int \<Rightarrow> string \<Rightarrow> ('k, 'p) engine \<Rightarrow> reclaimed_shadow option \<times> ('k, 'p) engine" where
  "reclaim_shadow now i e =
     (case omget (en_shadows e) i of
        None \<Rightarrow> (None, e)
      | Some r \<Rightarrow>
          let age = sat_i64 (now - sv_opened_at r) in
          (Some \<lparr>rc_id = i, rc_branch = sv_shadow r, rc_age = age, rc_validated = (sv_outcome r \<noteq> None)\<rparr>,
           release_shadow i ExpiredUnseen now (record_audit (for_expiry i (branch_name_of e (sv_target r)) age now) e)))"

fun reclaim_all :: "int \<Rightarrow> string list \<Rightarrow> ('k, 'p) engine \<Rightarrow> reclaimed_shadow list \<times> ('k, 'p) engine" where
  "reclaim_all now [] e = ([], e)"
| "reclaim_all now (i # is) e =
     (case reclaim_shadow now i e of (r, e1) \<Rightarrow>
        (case reclaim_all now is e1 of (rs, e2) \<Rightarrow> ((case r of None \<Rightarrow> rs | Some x \<Rightarrow> x # rs), e2)))"

definition collect_expired_shadows :: "int \<Rightarrow> ('k, 'p) engine \<Rightarrow> reclaimed_shadow list \<times> ('k, 'p) engine" where
  "collect_expired_shadows now e =
     reclaim_all now (map sv_change_id (filter (\<lambda>r. shadow_ttl e \<le> sat_i64 (now - sv_opened_at r)) (omvalues (en_shadows e)))) e"

definition lapse :: "int \<Rightarrow> string \<Rightarrow> ('k, 'p) engine \<Rightarrow> ('k, 'p) engine" where
  "lapse now i e = settle_review i ExpiredUnseen now (e\<lparr>en_pending := omdel i (en_pending e)\<rparr>)"

definition proposal_ttl :: "('k, 'p) engine \<Rightarrow> int" where
  "proposal_ttl e = min (shadow_ttl e) (bp_proposal_ttl_ms (rb_policy (en_review e)))"

definition collect_expired :: "int \<Rightarrow> ('k, 'p) engine \<Rightarrow> reclaimed_shadow list \<times> ('k, 'p) engine" where
  "collect_expired now e =
     (let (reclaimed, e1) = collect_expired_shadows now e;
          lapsed = map fst (filter (\<lambda>(_, p). proposal_ttl e1 \<le> sat_i64 (now - pc_proposed_at p)) (omlist (en_pending e1)))
      in (reclaimed, fold (lapse now) lapsed e1))"

definition open_shadows :: "('k, 'p) engine \<Rightarrow> shadow_validation list" where
  "open_shadows e = sort_key (\<lambda>r. (sv_opened_at r, sv_shadow r)) (omvalues (en_shadows e))"

end
