(* ===== verification/Daemon_Signed.thy ===== *)
theory Daemon_Signed
  imports Daemon_Writes
begin

text \<open>
  Writes a session signed (\<open>thetad/src/engine.rs\<close>): the caller signs the entry it expects to
  land, position and time included, and the engine lands that entry or none.  With it every
  kind of write there is: each lands whole or not at all.
\<close>

datatype signed_op =
    SignedPut string string
  | SignedDelete string
  | SignedCrdt string crdt_mutation

record signed_envelope =
  sw_commit :: nat
  sw_ts :: int
  sw_signature :: "byte list"

definition signed_op_to_optype ::
  "('k, 'p, 'g) engine_lib \<Rightarrow> nat \<Rightarrow> ('k, 'p) engine \<Rightarrow> signed_op \<Rightarrow> engine_error + op_type" where
  "signed_op_to_optype L br e op =
     (case op of
        SignedPut key t \<Rightarrow> map_sum id (Put key) (decode_wire_value L t)
      | SignedDelete key \<Rightarrow> Inr (Delete key)
      | SignedCrdt key m \<Rightarrow> map_sum id (Crdt key) (lower_mutation L br e m))"

definition register_session_key ::
  "('k, 'p, 'g) engine_lib \<Rightarrow> string \<Rightarrow> string \<Rightarrow> ('k, 'p, unit) act" where
  "register_session_key L sid hex e =
     (case register_hex (el_signing L) sid hex (en_session_keys e) of
        (Inl _, keys) \<Rightarrow> (Inl (BadRequest
            ''a session signing key must be 32 hex-encoded bytes forming a valid Ed25519 public key''), e\<lparr>en_session_keys := keys\<rparr>)
      | (Inr _, keys) \<Rightarrow> (Inr (), e\<lparr>en_session_keys := keys\<rparr>))"

definition session_signs :: "('k, 'p) engine \<Rightarrow> string \<Rightarrow> bool" where
  "session_signs e sid \<longleftrightarrow> omget (en_session_keys e) sid \<noteq> None"

definition signed_write_skew_ms :: int where
  "signed_write_skew_ms = 5 * 60 * 1000"

text \<open>\<open>(timestamp_ms - now_ms).abs()\<close>, in 64 bits.\<close>

definition clock_skew :: "int \<Rightarrow> int \<Rightarrow> int" where
  "clock_skew ts now = wrap_i64 \<bar>wrap_i64 (ts - now)\<bar>"

definition skew_refused :: "int \<Rightarrow> int \<Rightarrow> string" where
  "skew_refused ts now =
     ''the signed timestamp '' @ show_int ts @ '' is more than '' @ show_int signed_write_skew_ms @
     ''ms from this instance's clock ('' @ show_int now @ ''). The timestamp is inside the signature, '' @
     ''so accepting it would let a signature made now assert a time it was not made at.''"

definition signed_entry :: "nat \<Rightarrow> signed_envelope \<Rightarrow> op_type \<Rightarrow> author \<Rightarrow> ('k, 'p) engine \<Rightarrow> log_entry" where
  "signed_entry br env op a e =
     \<lparr>le_prev = du_expected (en_log e) br, le_commit = sw_commit env, le_branch = br, le_op = op, le_author = a, le_ts = sw_ts env\<rparr>"

definition accept_signature ::
  "('k, 'p, 'g) engine_lib \<Rightarrow> log_entry \<Rightarrow> string \<Rightarrow> byte list \<Rightarrow> ('k, 'p, unit) act" where
  "accept_signature L en sid bytes e =
     (case book_accept (el_signing L) (el_codec L) en sid bytes (en_session_keys e) (en_signatures e) of
        (Inl err, book) \<Rightarrow> (Inl (SignatureRefused err), e\<lparr>en_signatures := book\<rparr>)
      | (Inr _, book) \<Rightarrow> (Inr (), e\<lparr>en_signatures := book\<rparr>))"

text \<open>The checks on the value of a signed put; the other operations have none.\<close>

definition check_signed_value :: "nat \<Rightarrow> op_type \<Rightarrow> ('k, 'p, unit) act" where
  "check_signed_value br op =
     (case op of
        Put key x \<Rightarrow> and_then (checked (check_type br key x)) (\<lambda>_. checked (check_unique br key x))
      | _ \<Rightarrow> checked (\<lambda>_. Inr ()))"

definition append_signed ::
  "('k, 'p, 'g) engine_lib \<Rightarrow> nat \<Rightarrow> signed_op \<Rightarrow> author \<Rightarrow> signed_envelope \<Rightarrow> int \<Rightarrow> ('k, 'p, hash) act" where
  "append_signed L br op a env now e =
     (case author_session_id a of
        None \<Rightarrow> (Inl (BadRequest ''only an agent session can sign a write''), e)
      | Some sid \<Rightarrow>
          if sw_commit env \<noteq> next_commit e br
          then (Inl (SignedWriteRaced br (sw_commit env) (next_commit e br)), e)
          else if signed_write_skew_ms < clock_skew (sw_ts env) now
          then (Inl (BadRequest (skew_refused (sw_ts env) now)), e)
          else case signed_op_to_optype L br e op of
              Inl err \<Rightarrow> (Inl err, e)
            | Inr op' \<Rightarrow>
                let en = signed_entry br env op' a e in
                and_then (accept_signature L en sid (sw_signature env)) (\<lambda>_.
                and_then (check_signed_value br op') (\<lambda>_.
                and_then (check_breaker 1 now a) (\<lambda>_.
                land_entry L en))) e)"

section \<open>What lands was signed\<close>

lemma accept_signature_ok:
  assumes "accept_signature L en sid bytes e = (Inr u, e1)"
  shows "same_data e e1 \<and> en_session_keys e1 = en_session_keys e \<and>
    signed_by_session (el_signing L) (el_codec L) (en_session_keys e) (en_signatures e1) en"
proof -
  obtain book where "book_accept (el_signing L) (el_codec L) en sid bytes (en_session_keys e) (en_signatures e) = (Inr (), book)"
      and e1: "e1 = e\<lparr>en_signatures := book\<rparr>"
    using assms by (auto simp: accept_signature_def split: prod.splits sum.splits)
  then have "signed_by_session (el_signing L) (el_codec L) (en_session_keys e) book en"
    using accepted_signature_verifies [of "el_signing L" "el_codec L" en sid bytes "en_session_keys e" "en_signatures e"] by simp
  then show ?thesis by (simp add: e1 same_data_def)
qed

lemma accept_signature_err:
  "accept_signature L en sid bytes e = (Inl err, e1) \<Longrightarrow> same_data e e1 \<and> (\<forall>s. err \<noteq> StorageFailed s)"
  by (auto simp: accept_signature_def same_data_def split: prod.splits sum.splits)

lemma check_signed_value_data: "check_signed_value br op e = (r, e1) \<Longrightarrow> e1 = e"
  by (auto simp: check_signed_value_def split: op_type.splits sum.splits)

lemma signed_entry_same: "same_data e e1 \<Longrightarrow> signed_entry br env op a e1 = signed_entry br env op a e"
  by (simp add: signed_entry_def same_data_def)

lemma check_breaker_signatures:
  "check_breaker rows now a e = (r, e') \<Longrightarrow> en_signatures e' = en_signatures e"
  by (auto simp: check_breaker_def record_audit_def Let_def split: prod.splits breaker_decision.splits option.splits)

lemma land_entry_signatures: "land_entry L en e = (r, e') \<Longrightarrow> en_signatures e' = en_signatures e"
  by (auto simp: land_entry_def split: prod.splits sum.splits)

lemma append_signed_ok:
  assumes "append_signed L br op a env now e = (Inr h, e')"
  obtains sid op' where "author_session_id a = Some sid" "sw_commit env = next_commit e br" "\<not> signed_write_skew_ms < clock_skew (sw_ts env) now"
    "signed_op_to_optype L br e op = Inr op'" "h = entry_hash (el_codec L) (signed_entry br env op' a e)"
    "landed L (signed_entry br env op' a e) e e'"
    "signed_by_session (el_signing L) (el_codec L) (en_session_keys e) (en_signatures e') (signed_entry br env op' a e)"
proof -
  obtain sid op' where pre: "author_session_id a = Some sid" "sw_commit env = next_commit e br" "\<not> signed_write_skew_ms < clock_skew (sw_ts env) now"
      "signed_op_to_optype L br e op = Inr op'"
    using assms by (auto simp: append_signed_def split: option.splits if_splits sum.splits)
  let ?en = "signed_entry br env op' a e"
  from assms pre have "and_then (accept_signature L ?en sid (sw_signature env)) (\<lambda>_. and_then (check_signed_value br op') (\<lambda>_.
      and_then (check_breaker 1 now a) (\<lambda>_. land_entry L ?en))) e = (Inr h, e')"
    by (simp add: append_signed_def Let_def)
  then obtain u e1 v e2 w e3 where steps: "accept_signature L ?en sid (sw_signature env) e = (Inr u, e1)" "check_signed_value br op' e1 = (Inr v, e2)"
      "check_breaker 1 now a e2 = (Inr w, e3)" "land_entry L ?en e3 = (Inr h, e')"
    by (blast dest: and_then_ok)
  have s: "same_data e e3" "en_signatures e3 = en_signatures e1"
    using accept_signature_ok [OF steps(1)] check_signed_value_data [OF steps(2)] check_breaker_data [OF steps(3)] check_breaker_signatures [OF steps(3)]
    by (auto simp: same_data_def)
  show ?thesis
    using that [OF pre] land_entry_ok [OF steps(4)] landed_from [OF s(1), of L ?en e'] land_entry_signatures [OF steps(4)] s(2)
      accept_signature_ok [OF steps(1)] by simp
qed

text \<open>C10: An accepted signed write is the one its author signed.  What lands is the entry
  with the commit number, the time, the author and the operation the caller signed, at the
  branch's next position; the signature kept for it is by the registered key of the session
  the entry is attributed to; and the time it claims is within five minutes of the
  instance's clock, unless the two are further apart than 64 bits can say.  The entry is in
  the log, its views and its branch as one write.\<close>

theorem signed_write_lands_as_signed:
  assumes "append_signed L br op a env now e = (Inr h, e')"
  shows "\<exists>sid op'. author_session_id a = Some sid \<and> signed_op_to_optype L br e op = Inr op' \<and>
    (let en = signed_entry br env op' a e in
      h = entry_hash (el_codec L) en \<and> landed L en e e' \<and> le_commit en = next_commit e br \<and>
      (\<exists>s key g. omget (en_signatures e') (content_hash (el_codec L) en) = Some s \<and> es_key s = sid \<and>
         omget (en_session_keys e) sid = Some key \<and> sg_parse (el_signing L) (es_bytes s) = Some g \<and>
         sg_check (el_signing L) key (content_hash (el_codec L) en) g)) \<and>
    (\<bar>sw_ts env - now\<bar> \<le> signed_write_skew_ms \<or> \<bar>sw_ts env - now\<bar> \<ge> 2 ^ 63)"
proof -
  obtain sid op' where ok: "author_session_id a = Some sid" "sw_commit env = next_commit e br" "\<not> signed_write_skew_ms < clock_skew (sw_ts env) now"
    "signed_op_to_optype L br e op = Inr op'" "h = entry_hash (el_codec L) (signed_entry br env op' a e)"
    "landed L (signed_entry br env op' a e) e e'"
    "signed_by_session (el_signing L) (el_codec L) (en_session_keys e) (en_signatures e') (signed_entry br env op' a e)"
    using append_signed_ok [OF assms] by metis
  let ?en = "signed_entry br env op' a e"
  have en: "le_author ?en = a" "le_commit ?en = sw_commit env" by (simp_all add: signed_entry_def)
  have "\<bar>sw_ts env - now\<bar> \<le> signed_write_skew_ms" if "\<bar>sw_ts env - now\<bar> < 2 ^ 63"
    using that ok(3) by (simp add: clock_skew_def wrap_i64_id)
  moreover have "\<exists>s key g. omget (en_signatures e') (content_hash (el_codec L) ?en) = Some s \<and> es_key s = sid \<and>
         omget (en_session_keys e) sid = Some key \<and> sg_parse (el_signing L) (es_bytes s) = Some g \<and>
         sg_check (el_signing L) key (content_hash (el_codec L) ?en) g"
    using ok(1,7) en by (auto simp: signed_by_session_def)
  ultimately show ?thesis using ok en by (auto simp: Let_def not_less)
qed

definition signing_lib_yes :: "(unit, unit) signing_lib" where
  "signing_lib_yes = \<lparr>sg_key_of = \<lambda>_. Some (), sg_parse = \<lambda>_. Some (), sg_check = \<lambda>_ _ _. True\<rparr>"

definition sample_signing_engine :: "(unit, unit) engine" where
  "sample_signing_engine = (sample_engine view_new 4)\<lparr>en_session_keys := omput ''s'' () omempty\<rparr>"

lemma signed_write_lands_as_signed_witness:
  "\<exists>h e'. append_signed (sample_engine_lib\<lparr>el_signing := signing_lib_yes\<rparr>) main_branch (SignedDelete ''t:1'') (Agent ''s'' ''m'' None)
       \<lparr>sw_commit = 4, sw_ts = 7, sw_signature = []\<rparr> 9 sample_signing_engine = (Inr h, e') \<and>
     landed (sample_engine_lib\<lparr>el_signing := signing_lib_yes\<rparr>)
       (signed_entry main_branch \<lparr>sw_commit = 4, sw_ts = 7, sw_signature = []\<rparr> (Delete ''t:1'') (Agent ''s'' ''m'' None) sample_signing_engine)
       sample_signing_engine e'"
proof -
  let ?L = "sample_engine_lib\<lparr>el_signing := signing_lib_yes\<rparr>" and ?a = "Agent ''s'' ''m'' None" and ?e = sample_signing_engine
  let ?env = "\<lparr>sw_commit = 4, sw_ts = 7, sw_signature = []\<rparr>"
  let ?en = "signed_entry main_branch ?env (Delete ''t:1'') ?a ?e"
  have f: "en_session_keys ?e = omput ''s'' () omempty" "en_signatures ?e = omempty" "en_breaker ?e = breaker_new development_policy"
    by (simp_all add: sample_signing_engine_def sample_engine_def)
  have "author_session_id (le_author ?en) = Some ''s''" by (simp add: signed_entry_def author_session_id_def)
  then have "\<exists>book. book_accept (el_signing ?L) (el_codec ?L) ?en ''s'' [] (en_session_keys ?e) (en_signatures ?e) = (Inr (), book)"
    by (simp add: f book_accept_def book_verify_def Let_def signing_lib_yes_def)
  then obtain book where acc: "accept_signature ?L ?en ''s'' [] ?e = (Inr (), ?e\<lparr>en_signatures := book\<rparr>)" (is "_ = (_, ?e1)")
    by (auto simp: accept_signature_def)
  have s1: "same_data ?e ?e1" by (simp add: same_data_def)
  have "fst (check_breaker 1 9 ?a ?e1) = Inr ()"
    by (simp add: check_breaker_def f breaker_record_def evict_expired_def breaker_new_def development_policy_def sat_add64_def Let_def)
  then obtain e2 where brk: "check_breaker 1 9 ?a ?e1 = (Inr (), e2)" by (metis prod.collapse)
  have s2: "en_log e2 = sample_durable" "en_branches e2 = en_branches (sample_engine view_new 4)"
    using s1 check_breaker_data [OF brk] by (auto simp: same_data_def sample_signing_engine_def sample_engine_def)
  have "plain_store ?L (en_log e2)" using sample_engine_plain [of view_new 4] s2(1) by (simp add: plain_store_def sample_engine_def)
  moreover have "le_prev ?en = du_expected (en_log e2) (le_branch ?en)"
    using s2(1) by (simp add: signed_entry_def sample_signing_engine_def sample_engine_def)
  ultimately obtain log where "append_and_apply (el_codec ?L) (el_enc ?L) (el_store ?L) ?en (en_views e2) (en_log e2) =
      (Inr (entry_hash (el_codec ?L) ?en), fold_into (el_enc ?L) ?en (seed_branch_view (du_log (en_log e2)) ?en (en_views e2)), log)"
    by (rule plain_append)
  moreover have "le_branch ?en = main_branch" "bs_by_id (en_branches e2) main_branch \<noteq> None"
    unfolding s2 by (simp_all add: signed_entry_def sample_engine_def)
  ultimately have "\<exists>h e'. land_entry ?L ?en e2 = (Inr h, e')" by (auto simp: land_entry_def branch_set_head_def)
  then obtain h e' where land: "land_entry ?L ?en e2 = (Inr h, e')" by blast
  have "next_commit ?e main_branch = 4" by (simp add: next_commit_def sample_signing_engine_def sample_engine_def)
  moreover have "\<not> signed_write_skew_ms < clock_skew 7 9" by (simp add: signed_write_skew_ms_def clock_skew_def wrap_i64_def)
  moreover have "author_session_id ?a = Some ''s''" by (simp add: author_session_id_def)
  ultimately have r: "append_signed ?L main_branch (SignedDelete ''t:1'') ?a ?env 9 ?e = (Inr h, e')"
    using acc brk land by (simp add: append_signed_def signed_op_to_optype_def Let_def and_then_def check_signed_value_def checked_def)
  show ?thesis using signed_write_lands_as_signed [OF r] r by (auto simp: signed_op_to_optype_def Let_def)
qed

section \<open>A write lands whole or not at all\<close>

text \<open>Every call that asks for a write: one of the plain ones, a batch, or a signed one; and
  the entry it asks for.\<close>

datatype any_write =
    Plain write_call
  | Batch "op_type list"
  | Signed signed_op signed_envelope

fun perform_write :: "('k, 'p, 'g) engine_lib \<Rightarrow> nat \<Rightarrow> any_write \<Rightarrow> author \<Rightarrow> int \<Rightarrow> ('k, 'p, hash) act" where
  "perform_write L br (Plain w) a now = engine_write L br w a now"
| "perform_write L br (Batch ops) a now = engine_write_batch L br ops a now"
| "perform_write L br (Signed op env) a now = append_signed L br op a env now"

fun write_entry :: "('k, 'p, 'g) engine_lib \<Rightarrow> nat \<Rightarrow> any_write \<Rightarrow> author \<Rightarrow> int \<Rightarrow> ('k, 'p) engine \<Rightarrow> log_entry option" where
  "write_entry L br (Plain w) a now e = map_option (\<lambda>op. engine_entry br op a now e) (write_op L br e w)"
| "write_entry L br (Batch ops) a now e = Some (engine_entry br (Transaction ops) a now e)"
| "write_entry L br (Signed op env) a now e =
     (case signed_op_to_optype L br e op of Inl _ \<Rightarrow> None | Inr op' \<Rightarrow> Some (signed_entry br env op' a e))"

text \<open>An entry that is durable and served without its branch knowing it: indexed in the log
  and folded into the views, the registry as it was.\<close>

definition unreported :: "('k, 'p, 'g) engine_lib \<Rightarrow> log_entry \<Rightarrow> ('k, 'p) engine \<Rightarrow> ('k, 'p) engine \<Rightarrow> bool" where
  "unreported L en e e' \<longleftrightarrow> en_branches e' = en_branches e \<and>
     du_log (en_log e') = du_index (el_codec L) en (du_log (en_log e)) \<and>
     en_views e' = fold_into (el_enc L) en (seed_branch_view (du_log (en_log e)) en (en_views e))"

text \<open>Nothing a reader or the next write sees has changed; the segment on disk may hold the
  bytes of a record that failed.\<close>

definition same_reads :: "('k, 'p) engine \<Rightarrow> ('k, 'p) engine \<Rightarrow> bool" where
  "same_reads e e' \<longleftrightarrow> en_branches e' = en_branches e \<and> en_views e' = en_views e \<and>
     du_log (en_log e') = du_log (en_log e)"

lemma same_data_reads_same: "same_data e e' \<Longrightarrow> same_reads e e'"
  by (simp add: same_data_def same_reads_def)

lemma land_entry_err:
  assumes "land_entry L en e = (Inl err, e')"
  shows "same_reads e e' \<or> unreported L en e e'"
proof -
  obtain r views log where app: "append_and_apply (el_codec L) (el_enc L) (el_store L) en (en_views e) (en_log e) = (r, views, log)"
    by (metis prod_cases3)
  have "en_views e' = views \<and> en_log e' = log \<and> en_branches e' = en_branches e"
    using assms app
    by (auto simp: land_entry_def branch_set_head_def split: sum.splits prod.splits option.splits)
  then show ?thesis using append_and_apply_cases [OF app] by (auto simp: same_reads_def unreported_def)
qed

lemma land_entry_storage: "land_entry L en e = (Inl err, e') \<Longrightarrow> \<exists>s. err = StorageFailed s"
  by (auto simp: land_entry_def split: prod.splits sum.splits)

lemma from_same:
  "same_data e e1 \<Longrightarrow> unreported L en e1 e' \<longleftrightarrow> unreported L en e e'" "same_data e e1 \<Longrightarrow> same_reads e1 e' \<longleftrightarrow> same_reads e e'"
  by (simp_all add: same_data_def unreported_def same_reads_def)

lemma land_after:
  assumes "same_data e e1" and "land_entry L en e1 = (Inl err, e')"
  shows "same_reads e e' \<or> unreported L en e e'"
  using land_entry_err [OF assms(2)] from_same [OF assms(1)] by blast

lemma append_signed_err:
  assumes "append_signed L br op a env now e = (Inl err, e')"
  shows "same_data e e' \<or>
    (\<exists>op' e1. signed_op_to_optype L br e op = Inr op' \<and> same_data e e1 \<and> land_entry L (signed_entry br env op' a e) e1 = (Inl err, e'))"
proof (cases "\<exists>sid op'. author_session_id a = Some sid \<and> sw_commit env = next_commit e br \<and>
    \<not> signed_write_skew_ms < clock_skew (sw_ts env) now \<and> signed_op_to_optype L br e op = Inr op'")
  case False
  then show ?thesis using assms by (auto simp: append_signed_def split: option.splits if_splits sum.splits)
next
  case True
  then obtain sid op' where pre: "author_session_id a = Some sid" "sw_commit env = next_commit e br"
      "\<not> signed_write_skew_ms < clock_skew (sw_ts env) now" "signed_op_to_optype L br e op = Inr op'" by blast
  let ?en = "signed_entry br env op' a e"
  have steps: "and_then (accept_signature L ?en sid (sw_signature env)) (\<lambda>_. and_then (check_signed_value br op') (\<lambda>_.
      and_then (check_breaker 1 now a) (\<lambda>_. land_entry L ?en))) e = (Inl err, e')"
    using assms pre by (simp add: append_signed_def Let_def)
  show ?thesis
  proof (cases "accept_signature L ?en sid (sw_signature env) e")
    case (Pair r1 e1)
    show ?thesis
    proof (cases r1)
      case (Inl err1)
      then show ?thesis using steps Pair accept_signature_err [of L ?en sid "sw_signature env" e err1 e1] by (simp add: and_then_def)
    next
      case (Inr u)
      have s1: "same_data e e1" using accept_signature_ok Pair Inr by blast
      obtain r2 where v: "check_signed_value br op' e1 = (r2, e1)"
        using check_signed_value_data by (metis surj_pair)
      have next': "and_then (check_signed_value br op') (\<lambda>_. and_then (check_breaker 1 now a) (\<lambda>_. land_entry L ?en)) e1 = (Inl err, e')"
        using steps Pair Inr by (simp add: and_then_def)
      show ?thesis
      proof (cases r2)
        case (Inl err2)
        then show ?thesis using next' v s1 by (simp add: and_then_def)
      next
        case (Inr u2)
        obtain r3 e3 where b: "check_breaker 1 now a e1 = (r3, e3)" by fastforce
        have s3: "same_data e e3" using s1 check_breaker_data [OF b] by (simp add: same_data_def)
        show ?thesis using next' v Inr b s3 pre(4) by (cases r3) (auto simp: and_then_def)
      qed
    qed
  qed
qed

text \<open>C11: A write lands whole or not at all, a put, a conditional put, a delete, a
  transaction of any length, a replicated change, a batch and a signed write alike.  When it
  is accepted, it is one entry that is in the log, folded into its branch's view, the head
  of its branch and counted.  When it is refused, the log, the branches and every view are as
  they were.  When the storage reports an error, what is read is as it was, or the whole entry
  is in the log and in the views while its branch does not know it (the branch is unknown, or
  the checkpoint after the append failed); never a part of it.\<close>

theorem write_lands_whole_or_not_at_all:
  assumes "perform_write L br w a now e = (r, e')"
  shows "case r of
      Inr h \<Rightarrow> (\<exists>en. write_entry L br w a now e = Some en \<and> h = entry_hash (el_codec L) en \<and> landed L en e e')
    | Inl (StorageFailed _) \<Rightarrow> same_reads e e' \<or> (\<exists>en. write_entry L br w a now e = Some en \<and> unreported L en e e')
    | Inl _ \<Rightarrow> same_data e e'"
proof -
  have err: "same_reads e e' \<or> (\<exists>en. write_entry L br w a now e = Some en \<and> unreported L en e e')" if r: "r = Inl err" for err
  proof (cases w)
    case (Plain c)
    then have "engine_write L br c a now e = (Inl err, e')" using assms r by simp
    then consider "same_data e e'"
      | e1 op where "same_data e e1" "write_op L br e c = Some op" "engine_append L br op a now e1 = (Inl err, e')"
      using write_append by blast
    then show ?thesis
    proof cases
      case 1
      then show ?thesis by (simp add: same_data_reads_same)
    next
      case 2
      have "land_entry L (engine_entry br op a now e) e1 = (Inl err, e')"
        using 2(3) same_data_reads(3) [OF 2(1)] by (simp add: engine_append_def)
      from land_after [OF 2(1) this] show ?thesis using Plain 2(2) by auto
    qed
  next
    case (Batch ops)
    obtain r1 e1 where b: "check_breaker (length ops) now a e = (r1, e1)" by fastforce
    have s: "same_data e e1" using check_breaker_data [OF b] by simp
    show ?thesis
    proof (cases r1)
      case (Inl err1)
      then show ?thesis using assms r Batch b s by (auto simp: engine_write_batch_def and_then_def same_data_reads_same)
    next
      case (Inr u)
      then have "land_entry L (engine_entry br (Transaction ops) a now e) e1 = (Inl err, e')"
        using assms r Batch b same_data_reads(3) [OF s] by (simp add: engine_write_batch_def and_then_def engine_append_def)
      from land_after [OF s this] show ?thesis using Batch by auto
    qed
  next
    case (Signed op env)
    then have "append_signed L br op a env now e = (Inl err, e')" using assms r by simp
    from append_signed_err [OF this] show ?thesis
      using Signed land_after same_data_reads_same by fastforce
  qed
  have refused: "same_data e e'" if r: "r = Inl err" and "\<forall>s. err \<noteq> StorageFailed s" for err
  proof (cases w)
    case (Plain c)
    then show ?thesis using assms that write_err [of L br c a now e err e'] by simp
  next
    case (Batch ops)
    then show ?thesis using assms that guarded_err [of "length ops" now a L br "Transaction ops" e err e']
      by (simp add: engine_write_batch_def)
  next
    case (Signed op env)
    then have "append_signed L br op a env now e = (Inl err, e')" using assms r by simp
    from append_signed_err [OF this] show ?thesis
      using that(2) land_entry_storage by blast
  qed
  have accepted: "\<exists>en. write_entry L br w a now e = Some en \<and> h = entry_hash (el_codec L) en \<and> landed L en e e'" if r: "r = Inr h" for h
  proof (cases w)
    case (Plain c)
    then show ?thesis using assms r write_ok [of L br c a now e h e'] by (auto simp: wrote_def)
  next
    case (Batch ops)
    then have "and_then (check_breaker (length ops) now a) (\<lambda>_. engine_append L br (Transaction ops) a now) e = (Inr h, e')"
      using assms r by (simp add: engine_write_batch_def)
    then show ?thesis using Batch by (auto dest!: and_then_ok check_breaker_data simp: append_after wrote_def [symmetric])
  next
    case (Signed op env)
    then have "append_signed L br op a env now e = (Inr h, e')" using assms r by simp
    then show ?thesis using Signed by (auto elim!: append_signed_ok)
  qed
  show ?thesis
    using err refused accepted by (cases r) (auto split: engine_error.split)
qed

lemma write_lands_whole_or_not_at_all_witness:
  "\<exists>h e' en. perform_write sample_engine_lib main_branch (Plain (WPut ''t:1'' (VInt 5))) System 0 (sample_engine sample_row 4) = (Inr h, e') \<and>
     landed sample_engine_lib en (sample_engine sample_row 4) e'"
proof -
  obtain h e' where "engine_put sample_engine_lib main_branch ''t:1'' (VInt 5) System 0 (sample_engine sample_row 4) = (Inr h, e')"
    using sample_engine_put [OF sample_row_free] by blast
  then have p: "perform_write sample_engine_lib main_branch (Plain (WPut ''t:1'' (VInt 5))) System 0 (sample_engine sample_row 4) = (Inr h, e')"
    by simp
  then show ?thesis using write_lands_whole_or_not_at_all [OF p] by auto
qed

text \<open>At the end of the range the difference wraps around, and a time in the distant past
  passes for the present.\<close>

theorem ancient_timestamp_is_in_time:
  "\<not> signed_write_skew_ms < clock_skew (- (2 ^ 63) + now) now"
  by (simp add: clock_skew_def signed_write_skew_ms_def wrap_i64_def)

end
