(* ===== verification/Daemon_Reads.thy ===== *)
theory Daemon_Reads
  imports Daemon_Schema Daemon_Signed Store_Provenance Store_Attribution Store_Completeness Store_Inclusion
begin

text \<open>
  The rest of the engine's surface (\<open>thetad/src/engine.rs\<close>): the chain of a branch and what is
  read from it, the proofs handed to clients, queued merges, regions, checkpoints and
  maintenance.  \<open>None\<close> is a walk through the log that does not end.
\<close>

section \<open>The chain of a branch\<close>

text \<open>Oldest first.\<close>

definition engine_chain :: "('k, 'p) engine \<Rightarrow> nat \<Rightarrow> (engine_error + log_entry list) option" where
  "engine_chain e br = map_option (map_sum StorageFailed rev) (log_history (log_of e) br None)"

text \<open>What is read off a chain, with the error passed on.\<close>

definition on_chain :: "('k, 'p) engine \<Rightarrow> nat \<Rightarrow> (log_entry list \<Rightarrow> engine_error + 'a) \<Rightarrow> (engine_error + 'a) option" where
  "on_chain e br f = map_option (\<lambda>r. case r of Inl err \<Rightarrow> Inl err | Inr es \<Rightarrow> f es) (engine_chain e br)"

definition horizon_of :: "log_entry list \<Rightarrow> nat option" where
  "horizon_of es = (case es of [] \<Rightarrow> None | en # _ \<Rightarrow> Some (le_commit en))"

definition engine_verify_signatures :: "('k, 'p, 'g) engine_lib \<Rightarrow> nat \<Rightarrow> ('k, 'p) engine \<Rightarrow> (engine_error + nat) option" where
  "engine_verify_signatures L br e =
     on_chain e br (\<lambda>es. map_sum SignatureRefused id (book_verify_all (el_signing L) (el_codec L) es (en_session_keys e)
       (\<lambda>a. case author_session_id a of None \<Rightarrow> False | Some sid \<Rightarrow> session_signs e sid) (en_signatures e) 0))"

definition engine_read_as_of ::
  "('k, 'p, 'g) engine_lib \<Rightarrow> nat \<Rightarrow> as_of \<Rightarrow> ('k, 'p) engine \<Rightarrow> (engine_error + snapshot) option" where
  "engine_read_as_of L br point e =
     on_chain e br (\<lambda>es. map_sum TemporalFailed id (read_as_of (el_codec L) (el_enc L) es point (horizon_of es)))"

definition engine_diff_between ::
  "('k, 'p, 'g) engine_lib \<Rightarrow> nat \<Rightarrow> as_of \<Rightarrow> as_of \<Rightarrow> ('k, 'p) engine \<Rightarrow> (engine_error + row_change list) option" where
  "engine_diff_between L br from' to' e =
     (case engine_read_as_of L br from' e of
        None \<Rightarrow> None
      | Some (Inl err) \<Rightarrow> Some (Inl err)
      | Some (Inr before) \<Rightarrow>
          map_option (map_sum id (\<lambda>after. view_diff (sn_view before) (sn_view after))) (engine_read_as_of L br to' e))"

definition engine_changes_since ::
  "('k, 'p, 'g) engine_lib \<Rightarrow> nat \<Rightarrow> nat \<Rightarrow> nat \<Rightarrow> ('k, 'p) engine \<Rightarrow> (engine_error + feed) option" where
  "engine_changes_since L br cursor limit e = on_chain e br (\<lambda>es. Inr (since (el_enc L) es cursor (horizon_of es) limit))"

definition engine_prove_inclusion ::
  "('k, 'p, 'g) engine_lib \<Rightarrow> nat \<Rightarrow> hash \<Rightarrow> ('k, 'p) engine \<Rightarrow> (engine_error + inclusion_proof option) option" where
  "engine_prove_inclusion L br h e = on_chain e br (\<lambda>es. Inr (prove_inclusion (el_codec L) es h))"

section \<open>Proofs over the present rows\<close>

definition ordered_map_of :: "('k, 'p, 'g) engine_lib \<Rightarrow> view \<Rightarrow> complete_map" where
  "ordered_map_of L v =
     map_build (blake3 (el_codec L)) (map (\<lambda>(k, x). \<lparr>me_key = k, me_value = blake3 (el_codec L) (el_enc L x)\<rparr>) (omlist (vw_keys v)))"

definition map_of_branch :: "('k, 'p, 'g) engine_lib \<Rightarrow> nat \<Rightarrow> ('k, 'p) engine \<Rightarrow> complete_map" where
  "map_of_branch L br e =
     (case omget (en_views e) br of None \<Rightarrow> map_build (blake3 (el_codec L)) [] | Some v \<Rightarrow> ordered_map_of L v)"

definition engine_map_root :: "('k, 'p, 'g) engine_lib \<Rightarrow> nat \<Rightarrow> ('k, 'p) engine \<Rightarrow> hash" where
  "engine_map_root L br e = map_root (map_of_branch L br e)"

definition prove_range_complete :: "('k, 'p, 'g) engine_lib \<Rightarrow> nat \<Rightarrow> string \<Rightarrow> string \<Rightarrow> ('k, 'p) engine \<Rightarrow> range_proof" where
  "prove_range_complete L br start end' e = prove_range (map_of_branch L br e) start end'"

definition engine_prove_absent :: "('k, 'p, 'g) engine_lib \<Rightarrow> nat \<Rightarrow> string \<Rightarrow> ('k, 'p) engine \<Rightarrow> range_proof" where
  "engine_prove_absent L br key e = prove_absent (map_of_branch L br e) key"

section \<open>Queued merges\<close>

definition enqueue_merge ::
  "('k, 'p, 'g) engine_lib \<Rightarrow> nat \<Rightarrow> nat \<Rightarrow> int \<Rightarrow> ('k, 'p) engine \<Rightarrow> ((enqueue_error + nat) \<times> ('k, 'p) engine) option" where
  "enqueue_merge L source target now e =
     map_option (\<lambda>(r, q). (r, e\<lparr>en_queues := (en_queues e)(target \<mapsto> q)\<rparr>))
       (enqueue (el_js L) (el_enc L) (mem_store (log_of e)) source (Option.bind (bs_by_id (en_branches e) source) br_fork_point)
         (branch_view e target) (branch_view e source) now
         (case en_queues e target of None \<Rightarrow> queue_new target | Some q \<Rightarrow> q))"

definition engine_merge_queue :: "('k, 'p) engine \<Rightarrow> nat \<Rightarrow> queued_merge list" where
  "engine_merge_queue e target = (case en_queues e target of None \<Rightarrow> [] | Some q \<Rightarrow> mq_queued q)"

definition withdraw_merge :: "nat \<Rightarrow> nat \<Rightarrow> ('k, 'p) engine \<Rightarrow> queued_merge option \<times> ('k, 'p) engine" where
  "withdraw_merge target ticket e =
     (case en_queues e target of
        None \<Rightarrow> (None, e)
      | Some q \<Rightarrow> (case withdraw ticket q of (r, q') \<Rightarrow> (r, e\<lparr>en_queues := (en_queues e)(target \<mapsto> q')\<rparr>)))"

definition revalidate_merges ::
  "('k, 'p, 'g) engine_lib \<Rightarrow> nat \<Rightarrow> ('k, 'p) engine \<Rightarrow> ((engine_error + evicted_merge list) \<times> ('k, 'p) engine) option" where
  "revalidate_merges L target e =
     (case en_queues e target of
        None \<Rightarrow> Some (Inr [], e)
      | Some q \<Rightarrow>
          map_option (\<lambda>(r, q'). (map_sum StorageFailed id r, e\<lparr>en_queues := (en_queues e)(target \<mapsto> q')\<rparr>))
            (revalidate (el_js L) (el_enc L) (mem_store (log_of e)) (branch_view e target) (\<lambda>s. omget (en_views e) s) q))"

definition land_next_merge ::
  "('k, 'p, 'g) engine_lib \<Rightarrow> nat \<Rightarrow> author \<Rightarrow> int \<Rightarrow> ('k, 'p) engine \<Rightarrow>
     ((engine_error + merge_outcome option) \<times> ('k, 'p) engine) option" where
  "land_next_merge L target a now e =
     (case en_queues e target of
        None \<Rightarrow> Some (Inr None, e)
      | Some q \<Rightarrow>
          (case pop_head q of
             (None, q') \<Rightarrow> Some (Inr None, e\<lparr>en_queues := (en_queues e)(target \<mapsto> q')\<rparr>)
           | (Some head, q') \<Rightarrow>
               map_option (\<lambda>(r, e'). (map_sum id Some r, e'))
                 (engine_merge L (qd_source head) target a now (e\<lparr>en_queues := (en_queues e)(target \<mapsto> q')\<rparr>))))"

section \<open>Regions and storage\<close>

definition place_region :: "string \<Rightarrow> nat \<Rightarrow> ('k, 'p, unit) act" where
  "place_region r br e =
     (if bs_by_id (en_branches e) br = None
      then (Inl (BadRequest (''cannot place region `'' @ r @ ''` on branch '' @ show_nat br @ '': no such branch'')), e)
      else case place r br (en_placement e) of
          (Inl err, p) \<Rightarrow> (Inl (RegionRefused err), e\<lparr>en_placement := p\<rparr>)
        | (Inr _, p) \<Rightarrow> (Inr (), e\<lparr>en_placement := p\<rparr>))"

definition route_write :: "string \<Rightarrow> ('k, 'p) engine \<Rightarrow> engine_error + nat" where
  "route_write r e = map_sum RegionRefused id (route (en_placement e) r)"

definition engine_regions :: "('k, 'p) engine \<Rightarrow> string list" where
  "engine_regions e = omkeys (pl_regions (en_placement e))"

definition engine_storage_attribution :: "(val \<Rightarrow> string) \<Rightarrow> ('k, 'p) engine \<Rightarrow> storage_attribution" where
  "engine_storage_attribution js e = attribute js (en_views e)"

section \<open>Keys, checkpoints and maintenance\<close>

definition install_keyset :: "'p public_keyset \<Rightarrow> ('k, 'p) engine \<Rightarrow> ('k, 'p) engine" where
  "install_keyset keys e = e\<lparr>en_keys := Some keys\<rparr>"

definition engine_checkpoint :: "('k, 'p, 'g) engine_lib \<Rightarrow> ('k, 'p, unit) act" where
  "engine_checkpoint L e =
     (case du_checkpoint (el_store L) (en_views e) (en_log e) of
        (r, log) \<Rightarrow> (map_sum StorageFailed id r, e\<lparr>en_log := log\<rparr>))"

definition set_verifier_entries_per_tick :: "nat \<Rightarrow> ('k, 'p) engine \<Rightarrow> ('k, 'p) engine" where
  "set_verifier_entries_per_tick n e =
     e\<lparr>en_verifier := verifier_new (default_verifier_policy\<lparr>vp_per_tick := max n 1\<rparr>) 0\<rparr>"

text \<open>The verifier's part of a maintenance pass: the slice it checks, and what it says of its pace.\<close>

definition maintain_verifier ::
  "('k, 'p, 'g) engine_lib \<Rightarrow> int \<Rightarrow> ('k, 'p) engine \<Rightarrow>
     ((coverage \<times> verify_error option \<times> (verify_error + unit)) \<times> ('k, 'p) engine) option" where
  "maintain_verifier L now e =
     (case engine_chain e main_branch of
        None \<Rightarrow> None
      | Some chain \<Rightarrow>
          map_option (\<lambda>(r, v).
              ((case r of Inl err \<Rightarrow> (progress v, Some err, check_pace now v) | Inr cov \<Rightarrow> (cov, None, check_pace now v)),
               e\<lparr>en_verifier := v\<rparr>))
            (tick (el_codec L) (case chain of Inl _ \<Rightarrow> [] | Inr es \<Rightarrow> es) now (en_verifier e)))"

section \<open>What these readings say\<close>

text \<open>A new branch counts its commits from zero again.\<close>

lemma fork_counts_again:
  assumes "engine_create_branch L name from' a now e = (Inr i, e')"
  shows "next_commit e' i = 1"
proof -
  obtain bs where bs: "branch_create name (du_expected (en_log e) from') Standard (en_branches e) = (Inr i, bs)"
    and app: "\<exists>h. engine_append L i (BranchCreate name (du_expected (en_log e) from')) a now
        (e\<lparr>en_branches := bs, en_log := du_set_head i (du_expected (en_log e) from') (en_log e)\<rparr>) = (Inr h, e')"
    using assms by (auto simp: engine_create_branch_def Let_def split: prod.splits sum.splits)
  have "bs_by_id bs i = Some (branch_at i name (du_expected (en_log e) from') Standard)"
    using bs by (auto simp: branch_create_def Let_def split: if_splits)
  then show ?thesis
    using app by (auto simp: next_commit_def landed_def branch_at_def wrap64_id engine_entry_def dest!: engine_append_ok)
qed

text \<open>So the numbers along the chain of a fork go down where it leaves its parent, and a read as
  of now keeps only the entries numbered up to the fork's own last commit: what the parent
  wrote later is missing, although the fork's live view has it.\<close>

definition forked_chain :: "log_entry list" where
  "forked_chain =
     [\<lparr>le_prev = zero_hash, le_commit = 0, le_branch = 0, le_op = Put ''t:1'' (VInt 1), le_author = System, le_ts = 0\<rparr>,
      \<lparr>le_prev = zero_hash, le_commit = 1, le_branch = 0, le_op = Put ''t:2'' (VInt 2), le_author = System, le_ts = 1\<rparr>,
      \<lparr>le_prev = zero_hash, le_commit = 0, le_branch = 1, le_op = BranchCreate ''b'' zero_hash, le_author = System, le_ts = 2\<rparr>]"

theorem fork_reads_lose_history:
  "\<exists>snap. read_as_of D enc forked_chain AsOfNow (horizon_of forked_chain) = Inr snap \<and>
     view_get (sn_view snap) ''t:2'' = None \<and> view_get (view_replay enc forked_chain) ''t:2'' = Some (VInt 2)"
  by (simp add: forked_chain_def horizon_of_def read_as_of_def resolve_point_def last_option_def included_def
      view_replay_def view_apply_def view_get_def view_new_def Let_def)

lemma land_entry_queues: "land_entry L en e = (r, e') \<Longrightarrow> en_queues e' = en_queues e"
  by (auto simp: land_entry_def split: prod.splits sum.splits)

lemma append_all_queues: "append_all L br ops a now e = (r, e') \<Longrightarrow> en_queues e' = en_queues e"
proof (induction ops arbitrary: e)
  case (Cons op ops)
  obtain r1 e1 where one: "engine_append L br op a now e = (r1, e1)" by fastforce
  then have "en_queues e1 = en_queues e" unfolding engine_append_def by (rule land_entry_queues)
  then show ?case using Cons one by (cases r1) (auto simp: and_then_def)
qed simp

lemma merge_queues: "engine_merge L s t a now e = Some (r, e') \<Longrightarrow> en_queues e' = en_queues e"
  by (auto simp: engine_merge_def install_crdts_def dest!: append_all_queues
      split: option.splits sum.splits merge_outcome.splits prod.splits)

text \<open>A queued merge leaves the queue before it is tried, so an error of the disk loses it.\<close>

theorem failed_landing_loses_the_merge:
  assumes "en_queues e target = Some q" and "mq_queued q = head # rest"
    and "land_next_merge L target a now e = Some (Inl err, e')"
  shows "engine_merge_queue e' target = rest"
proof -
  obtain r where "engine_merge L (qd_source head) target a now (e\<lparr>en_queues := (en_queues e)(target \<mapsto> q\<lparr>mq_queued := rest\<rparr>)\<rparr>) = Some (r, e')"
    using assms by (auto simp: land_next_merge_def pop_head_def)
  from merge_queues [OF this] show ?thesis by (simp add: engine_merge_queue_def)
qed

end
