(* ===== verification/Daemon_Gate.thy ===== *)
theory Daemon_Gate
  imports Daemon_Reads
begin

text \<open>
  What the engine lets into the schema: over any run of its calls, a schema change in the
  log came through the gate that was in force when it was proposed, through a validated
  shadow branch, through a merge that a caller asked for, or through a batch, which the
  engine lets through as it is.
\<close>

section \<open>Runs\<close>

text \<open>The calls that change an engine.\<close>

datatype 'p engine_call =
    CallWrite nat any_write author int
  | CallSchema nat schema_change author int
  | CallPropose nat schema_change author int
  | CallProposeBudget nat schema_change author int
  | CallProposeClaim nat schema_change claim author int
  | CallOpenShadow nat string schema_change author int
  | CallApply string bool author int
  | CallValidate string author int
  | CallPromote string author int
  | CallReject string string author int
  | CallCollect int
  | CallPolicy signed_payload int
  | CallKeys "'p public_keyset"
  | CallCreate string nat author int
  | CallDiscard string author int
  | CallMerge nat nat author int
  | CallEnqueue nat nat int
  | CallWithdraw nat nat
  | CallRevalidate nat
  | CallLand nat author int
  | CallSession string string
  | CallSpend author nat int
  | CallPlace string nat
  | CallCheckpoint
  | CallPace nat
  | CallMaintain int

fun perform :: "('k, 'p, 'g) engine_lib \<Rightarrow> 'p engine_call \<Rightarrow> ('k, 'p) engine \<Rightarrow> ('k, 'p) engine option" where
  "perform L (CallWrite br w a now) e = Some (snd (perform_write L br w a now e))"
| "perform L (CallSchema br c a now) e = Some (snd (propose_schema_change L br c a now e))"
| "perform L (CallPropose br c a now) e = Some (snd (propose L br c a now e))"
| "perform L (CallProposeBudget br c a now) e = Some (snd (propose_within_budget L br c a now e))"
| "perform L (CallProposeClaim br c cl a now) e = Some (snd (propose_with_claim L br c cl a now e))"
| "perform L (CallOpenShadow br i c a now) e = Some (snd (open_shadow_branch L br i c a now e))"
| "perform L (CallApply i confirm a now) e = Some (snd (apply_schema_change L i confirm a now e))"
| "perform L (CallValidate i a now) e = Some (snd (validate_shadow i a now e))"
| "perform L (CallPromote i a now) e = map_option snd (promote_shadow L i a now e)"
| "perform L (CallReject i reason a now) e = Some (snd (reject_shadow i reason a now e))"
| "perform L (CallCollect now) e = Some (snd (collect_expired now e))"
| "perform L (CallPolicy s now) e = Some (snd (apply_signed_policy L s now e))"
| "perform L (CallKeys keys) e = Some (install_keyset keys e)"
| "perform L (CallCreate name from' a now) e = Some (snd (engine_create_branch L name from' a now e))"
| "perform L (CallDiscard name a now) e = Some (snd (engine_discard_branch name a now e))"
| "perform L (CallMerge s t a now) e = map_option snd (engine_merge L s t a now e)"
| "perform L (CallEnqueue s t now) e = map_option snd (enqueue_merge L s t now e)"
| "perform L (CallWithdraw t ticket) e = Some (snd (withdraw_merge t ticket e))"
| "perform L (CallRevalidate t) e = map_option snd (revalidate_merges L t e)"
| "perform L (CallLand t a now) e = map_option snd (land_next_merge L t a now e)"
| "perform L (CallSession sid hex) e = Some (snd (register_session_key L sid hex e))"
| "perform L (CallSpend a actual now) e = Some (engine_record_spend a actual now e)"
| "perform L (CallPlace r br) e = Some (snd (place_region r br e))"
| "perform L CallCheckpoint e = Some (snd (engine_checkpoint L e))"
| "perform L (CallPace n) e = Some (set_verifier_entries_per_tick n e)"
| "perform L (CallMaintain now) e = map_option snd (maintain_verifier L now e)"

fun perform_all :: "('k, 'p, 'g) engine_lib \<Rightarrow> 'p engine_call list \<Rightarrow> ('k, 'p) engine \<Rightarrow> ('k, 'p) engine option" where
  "perform_all L [] e = Some e"
| "perform_all L (c # cs) e = (case perform L c e of None \<Rightarrow> None | Some e' \<Rightarrow> perform_all L cs e')"

lemma perform_all_append:
  "perform_all L (cs @ ds) e = (case perform_all L cs e of None \<Rightarrow> None | Some e' \<Rightarrow> perform_all L ds e')"
  by (induction cs arbitrary: e) (simp_all split: option.split)

section \<open>What a call leaves in the log\<close>

text \<open>A call put an entry in the log that carries the change on the branch.\<close>

definition schema_landed :: "('k, 'p) engine \<Rightarrow> ('k, 'p) engine \<Rightarrow> nat \<Rightarrow> schema_change \<Rightarrow> bool" where
  "schema_landed e e' br c \<longleftrightarrow>
     (\<exists>h en. log_get (log_of e') h = Some en \<and> log_get (log_of e) h \<noteq> Some en \<and>
        le_branch en = br \<and> c \<in> set (collect_schema_op (le_op en) []))"

lemma schema_landed_same: "ml_entries (log_of e') = ml_entries (log_of e) \<Longrightarrow> \<not> schema_landed e e' br c"
  by (simp add: schema_landed_def log_get_def)

lemma schema_landed_from:
  "ml_entries (log_of e1) = ml_entries (log_of e) \<Longrightarrow> schema_landed e1 e' br c \<longleftrightarrow> schema_landed e e' br c"
  "ml_entries (log_of e2) = ml_entries (log_of e') \<Longrightarrow> schema_landed e e2 br c \<longleftrightarrow> schema_landed e e' br c"
  by (simp_all add: schema_landed_def log_get_def)

lemma schema_landed_via:
  "schema_landed e e' br c \<Longrightarrow> schema_landed e e1 br c \<or> schema_landed e1 e' br c"
  unfolding schema_landed_def by blast

text \<open>The part of the state that holds proposals and shadow branches.\<close>

definition same_held :: "('k, 'p) engine \<Rightarrow> ('k, 'p) engine \<Rightarrow> bool" where
  "same_held e e' \<longleftrightarrow> en_pending e' = en_pending e \<and> en_shadows e' = en_shadows e \<and>
     en_shadow_changes e' = en_shadow_changes e"

lemma same_held_refl [simp]: "same_held e e"
  by (simp add: same_held_def)

lemma same_held_trans: "same_held e e1 \<Longrightarrow> same_held e1 e' \<Longrightarrow> same_held e e'"
  by (simp add: same_held_def)

lemma record_audit_held [simp]:
  "en_pending (record_audit t e) = en_pending e" "en_shadows (record_audit t e) = en_shadows e"
  "en_shadow_changes (record_audit t e) = en_shadow_changes e" "en_policy (record_audit t e) = en_policy e"
  by (simp_all add: record_audit_def)

lemma land_entry_effects:
  assumes "land_entry L en e = (r, e')"
  shows "same_held e e' \<and> (\<forall>br b. bs_by_id (en_branches e) br = Some b \<longrightarrow>
      (\<exists>b'. bs_by_id (en_branches e') br = Some b' \<and> br_kind b' = br_kind b)) \<and>
    (schema_landed e e' br c \<longrightarrow> le_branch en = br \<and> c \<in> set (collect_schema_op (le_op en) []))"
proof -
  obtain res views log where app: "append_and_apply (el_codec L) (el_enc L) (el_store L) en (en_views e) (en_log e) = (res, views, log)"
    by (metis prod_cases3)
  then have l: "en_log e' = log" and b: "en_branches e' = en_branches e \<or> (\<exists>h. en_branches e' = snd (branch_set_head (le_branch en) h (en_branches e)))"
    and h: "same_held e e'"
    using assms by (auto simp: land_entry_def same_held_def split: sum.splits prod.splits) (metis snd_conv)+
  have "bs_by_id (en_branches e) br = Some b' \<Longrightarrow> \<exists>b2. bs_by_id (en_branches e') br = Some b2 \<and> br_kind b2 = br_kind b'" for br b'
    using b by (auto simp: branch_set_head_def split: option.splits)
  moreover have "schema_landed e e' br c \<Longrightarrow> le_branch en = br \<and> c \<in> set (collect_schema_op (le_op en) [])"
    using append_and_apply_cases [OF app] l
    by (auto simp: schema_landed_def log_get_def du_index_def split: if_splits)
  ultimately show ?thesis using h by blast
qed

lemma append_effects:
  assumes "engine_append L b op a now e = (r, e')"
  shows "same_held e e' \<and> (\<forall>br x. bs_by_id (en_branches e) br = Some x \<longrightarrow>
      (\<exists>x'. bs_by_id (en_branches e') br = Some x' \<and> br_kind x' = br_kind x)) \<and>
    (schema_landed e e' br c \<longrightarrow> b = br \<and> c \<in> set (collect_schema_op op []))"
  using land_entry_effects [OF assms [unfolded engine_append_def], of br c] by (simp add: engine_entry_def)

lemma and_then_held:
  assumes "and_then m f e = (r, e')" and "\<And>r1 e1. m e = (r1, e1) \<Longrightarrow> same_held e e1"
    and "\<And>x e1. m e = (Inr x, e1) \<Longrightarrow> f x e1 = (r, e') \<Longrightarrow> same_held e1 e'"
  shows "same_held e e'"
  using assms same_held_trans by (fastforce simp: and_then_def split: prod.splits sum.splits)

lemma check_breaker_held: "check_breaker rows now a e = (r, e') \<Longrightarrow> same_held e e'"
  by (auto simp: check_breaker_def Let_def same_held_def split: prod.splits breaker_decision.splits option.splits)

lemma append_held: "engine_append L b op a now e = (r, e') \<Longrightarrow> same_held e e'"
  using append_effects by blast

lemma put_held: "engine_put L br key x a now e = (r, e') \<Longrightarrow> same_held e e'"
  unfolding engine_put_def
  by (auto split: sum.splits dest!: and_then_held [OF _ check_breaker_held append_held])

lemma write_held:
  assumes "engine_write L br w a now e = (r, e')"
  shows "same_held e e'"
proof (cases w)
  case (WCrdt key m)
  let ?lower = "and_then (\<lambda>e. (lower_mutation L br e m, e)) (\<lambda>op. engine_append L br (Crdt key op) a now)"
  have lower: "same_held e1 e'" if "?lower e1 = (r, e')" for e1
    using that append_held by (auto simp: and_then_def split: sum.splits)
  have "e' = e \<or> and_then (check_breaker 1 now a) (\<lambda>_. ?lower) e = (r, e')"
    using assms WCrdt by (auto simp: engine_apply_crdt_def split: sum.splits)
  then show ?thesis
  proof
    assume "and_then (check_breaker 1 now a) (\<lambda>_. ?lower) e = (r, e')"
    then show ?thesis by (rule and_then_held) (use check_breaker_held lower in blast)+
  qed simp
qed (use assms in \<open>auto simp: engine_put_if_def engine_delete_def engine_transaction_def split: sum.splits if_splits
      dest: put_held and_then_held [OF _ check_breaker_held append_held]\<close>)

lemma write_lands_no_schema:
  assumes "engine_write L br w a now e = (r, e')"
  shows "\<not> schema_landed e e' b c"
proof -
  consider "same_data e e'" | e1 op where "same_data e e1" "row_op op" "engine_append L br op a now e1 = (r, e')"
    using write_append [OF assms] by blast
  then show ?thesis
  proof cases
    case 1
    then show ?thesis by (auto simp: same_data_def intro!: schema_landed_same)
  next
    case 2
    then have "\<not> schema_landed e1 e' b c" using append_effects [OF 2(3), of b c] by (auto simp: row_op_def)
    then show ?thesis using 2(1) schema_landed_from(1) by (metis same_data_def)
  qed
qed

text \<open>A step that leaves what is held alone and puts no such change there.\<close>

definition keeps :: "nat \<Rightarrow> schema_change \<Rightarrow> ('k, 'p) engine \<Rightarrow> ('k, 'p) engine \<Rightarrow> bool" where
  "keeps br c e e' \<longleftrightarrow> same_held e e' \<and> \<not> schema_landed e e' br c"

lemma keeps_trans: "keeps br c e e1 \<Longrightarrow> keeps br c e1 e' \<Longrightarrow> keeps br c e e'"
  using same_held_trans schema_landed_via by (metis keeps_def)

lemma keeps_still: "same_held e e' \<Longrightarrow> ml_entries (log_of e') = ml_entries (log_of e) \<Longrightarrow> keeps br c e e'"
  using schema_landed_same by (auto simp: keeps_def)

lemma keeps_refl [simp]: "keeps br c e e"
  by (simp add: keeps_still)

lemma and_then_keeps:
  assumes "and_then m f e = (r, e')" and "\<And>r1 e1. m e = (r1, e1) \<Longrightarrow> keeps b c e e1"
    and "\<And>x e1. m e = (Inr x, e1) \<Longrightarrow> f x e1 = (r, e') \<Longrightarrow> keeps b c e1 e'"
  shows "keeps b c e e'"
  using assms keeps_trans by (fastforce simp: and_then_def split: prod.splits sum.splits)

lemma check_breaker_keeps: "check_breaker rows now a e = (r, e') \<Longrightarrow> keeps b c e e'"
  using check_breaker_held check_breaker_data by (metis keeps_still same_data_def)

lemma map_sum_Inr: "map_sum f g s = Inr y \<longleftrightarrow> (\<exists>x. s = Inr x \<and> y = g x)"
  by (cases s) auto

lemma signed_keeps:
  assumes "append_signed L br op a env now e = (r, e')"
  shows "keeps b c e e'"
proof (cases "\<exists>sid op'. author_session_id a = Some sid \<and> sw_commit env = next_commit e br \<and>
    \<not> signed_write_skew_ms < clock_skew (sw_ts env) now \<and> signed_op_to_optype L br e op = Inr op'")
  case False
  then have "e' = e" using assms by (auto simp: append_signed_def split: option.splits if_splits sum.splits)
  then show ?thesis by simp
next
  case True
  then obtain sid op' where pre: "author_session_id a = Some sid" "sw_commit env = next_commit e br"
      "\<not> signed_write_skew_ms < clock_skew (sw_ts env) now" "signed_op_to_optype L br e op = Inr op'" by blast
  let ?en = "signed_entry br env op' a e"
  have steps: "and_then (accept_signature L ?en sid (sw_signature env)) (\<lambda>_. and_then (check_signed_value br op') (\<lambda>_.
      and_then (check_breaker 1 now a) (\<lambda>_. land_entry L ?en))) e = (r, e')"
    using assms pre by (simp add: append_signed_def Let_def)
  have none: "collect_schema_op op' [] = []"
    using pre(4) by (cases op) (auto simp: signed_op_to_optype_def map_sum_Inr)
  have land: "keeps b c e1 e'" if "land_entry L ?en e1 = (r, e')" for e1
    using land_entry_effects [OF that, of b c] none by (auto simp: keeps_def signed_entry_def)
  have accept: "keeps b c e1 e2" if "accept_signature L ?en sid (sw_signature env) e1 = (r1, e2)" for r1 e1 e2
    using that by (auto simp: accept_signature_def same_held_def intro!: keeps_still split: prod.splits sum.splits)
  have brk: "keeps b c e1 e'" if "and_then (check_breaker 1 now a) (\<lambda>_. land_entry L ?en) e1 = (r, e')" for e1
    using that by (rule and_then_keeps) (use check_breaker_keeps land in blast)+
  have vals: "keeps b c e1 e'" if "and_then (check_signed_value br op') (\<lambda>_. and_then (check_breaker 1 now a) (\<lambda>_. land_entry L ?en)) e1 = (r, e')" for e1
    using that by (rule and_then_keeps) (use check_signed_value_data keeps_refl brk in blast)+
  show ?thesis using steps by (rule and_then_keeps) (use accept vals in blast)+
qed

text \<open>A batch is appended as it is given.\<close>

lemma any_write_effects:
  assumes "perform_write L br w a now e = (r, e')"
  shows "same_held e e' \<and> (schema_landed e e' b c \<longrightarrow>
    (\<exists>ops. w = Batch ops \<and> b = br \<and> c \<in> set (collect_schema_op (Transaction ops) [])))"
proof (cases w)
  case (Plain x)
  then show ?thesis using assms write_held [of L br x a now e r e'] write_lands_no_schema [of L br x a now e r e' b c] by simp
next
  case (Batch ops)
  then have w: "and_then (check_breaker (length ops) now a) (\<lambda>_. engine_append L br (Transaction ops) a now) e = (r, e')"
    using assms by (simp add: engine_write_batch_def)
  obtain r1 e1 where b: "check_breaker (length ops) now a e = (r1, e1)" by fastforce
  have k: "keeps b c e e1" using check_breaker_keeps [OF b] .
  show ?thesis
  proof (cases r1)
    case (Inl err)
    then show ?thesis using w b k by (simp add: and_then_def keeps_def)
  next
    case (Inr u)
    then have "engine_append L br (Transaction ops) a now e1 = (r, e')" using w b by (simp add: and_then_def)
    from append_effects [OF this, of b c] show ?thesis
      using k Batch same_held_trans [of e e1 e'] schema_landed_via [of e e' b c e1] by (auto simp: keeps_def)
  qed
next
  case (Signed op env)
  then show ?thesis using assms signed_keeps [of L br op a env now e r e' b c] by (simp add: keeps_def)
qed

section \<open>Calls around the log\<close>

lemma enqueue_keeps: "enqueue_merge L s t now e = Some (r, e') \<Longrightarrow> keeps b c e e'"
  by (auto simp: enqueue_merge_def same_held_def intro!: keeps_still)

lemma withdraw_keeps: "withdraw_merge t ticket e = (r, e') \<Longrightarrow> keeps b c e e'"
  by (auto simp: withdraw_merge_def same_held_def intro!: keeps_still split: option.splits prod.splits)

lemma revalidate_keeps: "revalidate_merges L t e = Some (r, e') \<Longrightarrow> keeps b c e e'"
  by (auto simp: revalidate_merges_def same_held_def intro!: keeps_still split: option.splits)

lemma session_keeps: "register_session_key L sid hex e = (r, e') \<Longrightarrow> keeps b c e e'"
  by (auto simp: register_session_key_def same_held_def intro!: keeps_still split: prod.splits sum.splits)

lemma place_keeps: "place_region r br e = (res, e') \<Longrightarrow> keeps b c e e'"
  by (auto simp: place_region_def same_held_def intro!: keeps_still split: if_splits prod.splits sum.splits)

lemma checkpoint_keeps: "engine_checkpoint L e = (r, e') \<Longrightarrow> keeps b c e e'"
  by (auto simp: engine_checkpoint_def du_checkpoint_def same_held_def intro!: keeps_still split: prod.splits sum.splits)

lemma maintain_keeps: "maintain_verifier L now e = Some (r, e') \<Longrightarrow> keeps b c e e'"
  by (auto simp: maintain_verifier_def same_held_def intro!: keeps_still split: option.splits)

lemma plain_keeps:
  "keeps b c e (engine_record_spend a n now e)" "keeps b c e (install_keyset keys e)"
  "keeps b c e (set_verifier_entries_per_tick n e)"
  by (auto simp: engine_record_spend_def install_keyset_def set_verifier_entries_per_tick_def same_held_def intro!: keeps_still)

section \<open>Calls that only take proposals away\<close>

definition held_shrinks :: "('k, 'p) engine \<Rightarrow> ('k, 'p) engine \<Rightarrow> bool" where
  "held_shrinks e e' \<longleftrightarrow>
     (\<forall>i p. omget (en_pending e') i = Some p \<longrightarrow> omget (en_pending e) i = Some p) \<and>
     (\<forall>i r. omget (en_shadows e') i = Some r \<longrightarrow>
        omget (en_shadows e) i = Some r \<and> en_shadow_changes e' i = en_shadow_changes e i)"

lemma held_shrinks_same: "same_held e e' \<Longrightarrow> held_shrinks e e'"
  by (simp add: held_shrinks_def same_held_def)

lemma held_shrinks_trans: "held_shrinks e e1 \<Longrightarrow> held_shrinks e1 e' \<Longrightarrow> held_shrinks e e'"
  by (simp add: held_shrinks_def)

text \<open>Calls that leave the log alone and only take proposals away.\<close>

definition closes :: "('k, 'p) engine \<Rightarrow> ('k, 'p) engine \<Rightarrow> bool" where
  "closes e e' \<longleftrightarrow> en_log e' = en_log e \<and> held_shrinks e e'"

lemma closes_refl [simp]: "closes e e"
  by (simp add: closes_def held_shrinks_def)

lemma closes_trans: "closes e e1 \<Longrightarrow> closes e1 e' \<Longrightarrow> closes e e'"
  using held_shrinks_trans by (auto simp: closes_def)

lemma closes_audit: "closes e (record_audit t e)"
  by (simp add: closes_def held_shrinks_def record_audit_def)

lemma settle_fields [simp]:
  "en_log (settle_review i how now e) = en_log e" "en_pending (settle_review i how now e) = en_pending e"
  "en_shadows (settle_review i how now e) = en_shadows e" "en_shadow_changes (settle_review i how now e) = en_shadow_changes e"
  "en_views (settle_review i how now e) = en_views e" "en_branches (settle_review i how now e) = en_branches e"
  "en_policy (settle_review i how now e) = en_policy e"
  by (simp_all add: settle_review_def split: option.split)

lemma closes_release: "closes e (release_shadow i how now e)"
  by (auto simp: closes_def held_shrinks_def release_shadow_def Let_def split: option.splits if_splits)

lemma closes_lapse: "closes e (lapse now i e)"
  by (auto simp: closes_def held_shrinks_def lapse_def split: if_splits)

lemma closes_lapses: "closes e (fold (lapse now) is e)"
proof (induction "is" arbitrary: e)
  case (Cons i "is")
  show ?case using closes_trans [OF closes_lapse Cons.IH] by simp
qed simp

lemma closes_reclaim: "closes e (snd (reclaim_shadow now i e))"
  using closes_trans [OF closes_audit closes_release]
  by (auto simp: reclaim_shadow_def Let_def split: option.split)

lemma closes_reclaims: "closes e (snd (reclaim_all now is e))"
proof (induction "is" arbitrary: e)
  case (Cons i "is")
  show ?case
    using closes_trans [OF closes_reclaim Cons.IH [of "snd (reclaim_shadow now i e)"]] by (simp add: case_prod_beta)
qed simp

lemma closes_collect: "closes e (snd (collect_expired now e))"
proof -
  have "closes e (snd (collect_expired_shadows now e))"
    unfolding collect_expired_shadows_def by (rule closes_reclaims)
  then show ?thesis
    using closes_trans [OF _ closes_lapses] by (auto simp: collect_expired_def Let_def split: prod.split)
qed

lemma closes_reject: "closes e (snd (reject_shadow i reason a now e))"
  using closes_trans [OF closes_audit closes_release] by (auto simp: reject_shadow_def split: option.split)

lemma closes_policy: "closes e (snd (apply_signed_policy L s now e))"
  by (auto simp: closes_def held_shrinks_def apply_signed_policy_def record_audit_def split: option.split sum.split prod.split bool.split)

lemma closes_discard: "closes e (snd (engine_discard_branch name a now e))"
  by (auto simp: closes_def held_shrinks_def engine_discard_branch_def record_audit_def Let_def split: option.split sum.split prod.split)

section \<open>Calls that append\<close>

lemma create_effects:
  assumes "engine_create_branch L name from' a now e = (r, e')"
  shows "same_held e e' \<and> \<not> schema_landed e e' br c"
proof (cases "branch_create name (du_expected (en_log e) from') Standard (en_branches e)")
  case (Pair res bs)
  show ?thesis
  proof (cases res)
    case (Inl err)
    then show ?thesis using assms Pair by (auto simp: engine_create_branch_def same_held_def intro!: schema_landed_same)
  next
    case (Inr i)
    let ?e1 = "e\<lparr>en_branches := bs, en_log := du_set_head i (du_expected (en_log e) from') (en_log e)\<rparr>"
    obtain r1 where app: "engine_append L i (BranchCreate name (du_expected (en_log e) from')) a now ?e1 = (r1, e')"
      using assms Pair Inr by (auto simp: engine_create_branch_def Let_def split: prod.splits sum.splits)
    have "same_held e ?e1" "ml_entries (log_of ?e1) = ml_entries (log_of e)"
      by (simp_all add: same_held_def du_set_head_def log_set_head_def)
    moreover have "same_held ?e1 e' \<and> \<not> schema_landed ?e1 e' br c" using append_effects [OF app, of br c] by simp
    ultimately show ?thesis using same_held_trans [of e ?e1 e'] schema_landed_from(1) [of ?e1 e e' br c] by blast
  qed
qed

lemma append_all_effects:
  assumes "append_all L br ops a now e = (r, e')"
  shows "same_held e e' \<and> (schema_landed e e' b c \<longrightarrow> b = br)"
  using assms
proof (induction ops arbitrary: e)
  case Nil
  then show ?case using schema_landed_same [of e' e] by auto
next
  case (Cons op ops)
  obtain r1 e1 where app: "engine_append L br op a now e = (r1, e1)" by fastforce
  have one: "same_held e e1 \<and> (schema_landed e e1 b c \<longrightarrow> b = br)" using append_effects [OF app, of b c] by blast
  show ?case
  proof (cases r1)
    case (Inl err)
    then show ?thesis using one app Cons.prems by (simp add: and_then_def)
  next
    case (Inr h)
    then have "append_all L br ops a now e1 = (r, e')" using app Cons.prems by (simp add: and_then_def)
    from Cons.IH [OF this] show ?thesis using one same_held_trans schema_landed_via by metis
  qed
qed

lemma install_fields [simp]:
  "en_log (install_crdts br states e) = en_log e" "same_held e (install_crdts br states e)"
  by (simp_all add: install_crdts_def same_held_def split: option.split)

lemma merge_effects:
  assumes "engine_merge L source target a now e = Some (r, e')"
  shows "same_held e e' \<and> (schema_landed e e' b c \<longrightarrow> b = target)"
proof -
  let ?goal = "\<lambda>e'. same_held e e' \<and> (schema_landed e e' b c \<longrightarrow> b = target)"
  have none: "?goal e" using schema_landed_same [of e e] by simp
  have landed: "?goal e1 \<and> ?goal (install_crdts target states e1)" if "append_all L target ops a now e = (r1, e1)" for ops r1 e1 states
    using append_all_effects [OF that, of b c] same_held_trans [OF _ install_fields(2), of e e1 target states]
      schema_landed_from(2) [of "install_crdts target states e1" e1 e b c] by simp
  consider "e' = e" | ops r1 e1 states where "append_all L target ops a now e = (r1, e1)" "e' = e1 \<or> e' = install_crdts target states e1"
    using assms unfolding engine_merge_def by (simp split: option.splits sum.splits merge_outcome.splits prod.splits) blast+
  then show ?thesis using none landed by cases blast+
qed

lemma land_effects:
  assumes "land_next_merge L target a now e = Some (r, e')"
  shows "same_held e e' \<and> (schema_landed e e' b c \<longrightarrow> b = target \<and> engine_merge_queue e target \<noteq> [])"
proof (cases "engine_merge_queue e target")
  case Nil
  have "same_held e e' \<and> ml_entries (log_of e') = ml_entries (log_of e)"
    using assms Nil by (auto simp: land_next_merge_def engine_merge_queue_def pop_head_def same_held_def split: option.splits)
  then show ?thesis using keeps_still [of e e' b c] by (simp add: keeps_def)
next
  case (Cons hd tl)
  then obtain q where q: "en_queues e target = Some q" "mq_queued q = hd # tl"
    by (auto simp: engine_merge_queue_def split: option.splits)
  let ?e1 = "e\<lparr>en_queues := (en_queues e)(target \<mapsto> q\<lparr>mq_queued := tl\<rparr>)\<rparr>"
  obtain r1 where m: "engine_merge L (qd_source hd) target a now ?e1 = Some (r1, e')"
    using assms q by (auto simp: land_next_merge_def pop_head_def)
  have "same_held e ?e1" by (simp add: same_held_def)
  then show ?thesis
    using merge_effects [OF m, of b c] same_held_trans [of e ?e1 e'] schema_landed_from(1) [of ?e1 e e' b c] Cons by auto
qed

lemma promote_effects:
  assumes "promote_shadow L i a now e = Some (r, e')"
  shows "held_shrinks e e' \<and> (schema_landed e e' b c \<longrightarrow> (\<exists>s. promotable i e = Inr s \<and> b = sv_target s))"
proof (cases "promotable i e")
  case (Inl err)
  then show ?thesis
    using assms schema_landed_same [of e e] by (simp add: promote_shadow_def held_shrinks_same)
next
  case (Inr s)
  obtain r1 e1 where m: "engine_merge L (sv_shadow s) (sv_target s) a now e = Some (r1, e1)"
      "e' = e1 \<or> e' = release_shadow i Approved now (record_audit (for_promotion i (branch_name_of e1 (sv_target s)) a now) e1)"
    using assms Inr by (auto simp: promote_shadow_def split: option.splits sum.splits merge_outcome.splits prod.splits)
  then have close: "closes e1 e'" using closes_trans [OF closes_audit closes_release] by auto
  have "same_held e e1" and l: "schema_landed e e1 b c \<longrightarrow> b = sv_target s" using merge_effects [OF m(1), of b c] by auto
  then have "held_shrinks e e'" using close held_shrinks_trans [OF held_shrinks_same] by (auto simp: closes_def)
  moreover have "schema_landed e e' b c \<longleftrightarrow> schema_landed e e1 b c"
    using close by (intro schema_landed_from(2)) (simp add: closes_def)
  ultimately show ?thesis using l Inr by blast
qed

section \<open>Proposals are classified, shadow branches validated\<close>

abbreviation proposal_id :: "('k, 'p, 'g) engine_lib \<Rightarrow> schema_change \<Rightarrow> nat \<Rightarrow> string" where
  "proposal_id L c br \<equiv> change_id_of (el_change L) (blake3 (el_codec L)) c br"

text \<open>The held gate is the one the engine's state demands for the change on the branch: the
  classifier's, or none where a claim was proved over the branch's own rows.\<close>

definition decided_in :: "('k, 'p, 'g) engine_lib \<Rightarrow> ('k, 'p) engine \<Rightarrow> pending_change \<Rightarrow> bool" where
  "decided_in L e p \<longleftrightarrow>
     (let d = classified L e (pc_branch p) (pc_change p) in
      gate_of (pc_diff p) = gate_of d \<or>
      gate_of (pc_diff p) = AutoApply \<and> lowers (pc_change p) \<and>
        (\<exists>cl n. verify_claim cl (pc_change p) (table_rows (rows_of e (pc_branch p))) = Holds n))"

text \<open>A shadow's recorded outcome is that of the checks in the state.\<close>

definition validated_in :: "('k, 'p) engine \<Rightarrow> schema_change \<Rightarrow> shadow_validation \<Rightarrow> bool" where
  "validated_in e c r \<longleftrightarrow>
     (\<exists>d. sv_outcome r = Some d \<and>
        vd_passed d = list_all ck_passed (shadow_validate (branch_view e (sv_target r)) (branch_view e (sv_shadow r)) c) \<and>
        vd_head d = du_expected (en_log e) (sv_shadow r))"

definition same_decision :: "pending_change \<Rightarrow> pending_change \<Rightarrow> bool" where
  "same_decision p q \<longleftrightarrow> pc_change p = pc_change q \<and> pc_branch p = pc_branch q \<and> cd_gate (pc_diff p) = cd_gate (pc_diff q)"

definition same_shadow :: "shadow_validation \<Rightarrow> shadow_validation \<Rightarrow> bool" where
  "same_shadow r s \<longleftrightarrow> sv_change_id r = sv_change_id s \<and> sv_target r = sv_target s \<and> sv_shadow r = sv_shadow s"

lemma decided_same: "same_decision p q \<Longrightarrow> decided_in L e p \<Longrightarrow> decided_in L e q"
  by (simp add: decided_in_def same_decision_def gate_of_def Let_def)

lemma validated_same: "same_shadow r s \<Longrightarrow> sv_outcome r = sv_outcome s \<Longrightarrow> validated_in e c r \<Longrightarrow> validated_in e c s"
  by (simp add: validated_in_def same_shadow_def)

text \<open>How the held proposals and shadows of a state come from those of an earlier one, when the
  decisions were taken in state \<open>u\<close>, the validations in state \<open>w\<close>, and \<open>K\<close> says which new
  shadows may have been opened.\<close>

definition pending_from :: "('k, 'p, 'g) engine_lib \<Rightarrow> ('k, 'p) engine \<Rightarrow> ('k, 'p) engine \<Rightarrow> ('k, 'p) engine \<Rightarrow> bool" where
  "pending_from L u e e' \<longleftrightarrow>
     (\<forall>i q. omget (en_pending e') i = Some q \<longrightarrow>
        (\<exists>p. omget (en_pending e) i = Some p \<and> same_decision p q) \<or>
        i = proposal_id L (pc_change q) (pc_branch q) \<and> decided_in L u q)"

definition shadows_from :: "(string \<Rightarrow> nat \<Rightarrow> schema_change \<Rightarrow> bool) \<Rightarrow> ('k, 'p) engine \<Rightarrow> ('k, 'p) engine \<Rightarrow> ('k, 'p) engine \<Rightarrow> bool" where
  "shadows_from K w e e' \<longleftrightarrow>
     (\<forall>i s. omget (en_shadows e') i = Some s \<longrightarrow>
        (\<exists>r. omget (en_shadows e) i = Some r \<and> same_shadow r s \<and> en_shadow_changes e' i = en_shadow_changes e i \<and>
           (sv_outcome s = sv_outcome r \<or> (\<exists>c. en_shadow_changes e i = Some c \<and> validated_in w c s))) \<or>
        (\<exists>c. en_shadow_changes e' i = Some c \<and> K i (sv_target s) c \<and> sv_change_id s = i \<and>
           (sv_outcome s = None \<or> validated_in w c s)))"

lemma same_decision_refl [simp]: "same_decision p p"
  by (simp add: same_decision_def)

lemma same_shadow_refl [simp]: "same_shadow r r"
  by (simp add: same_shadow_def)

lemma shrinks_pending: "held_shrinks e e' \<Longrightarrow> pending_from L u e e'"
  unfolding pending_from_def held_shrinks_def using same_decision_refl by blast

lemma shrinks_shadows: "held_shrinks e e' \<Longrightarrow> shadows_from K w e e'"
  unfolding shadows_from_def held_shrinks_def using same_shadow_refl by metis

lemma classified_id: "cd_id (classified L e br c) = proposal_id L c br"
  by (simp add: classified_def classify_def Let_def case_prod_beta)

lemma hold_fields [simp]:
  "en_log (hold_change d c br now e) = en_log e" "en_shadows (hold_change d c br now e) = en_shadows e"
  "en_shadow_changes (hold_change d c br now e) = en_shadow_changes e" "en_views (hold_change d c br now e) = en_views e"
  "en_branches (hold_change d c br now e) = en_branches e"
  by (simp_all add: hold_change_def)

lemma hold_pending:
  assumes "en_pending e1 = en_pending e" and "cd_id d = proposal_id L c br"
    and "decided_in L u \<lparr>pc_diff = d, pc_change = c, pc_branch = br, pc_proposed_at = now\<rparr>"
  shows "pending_from L u e (hold_change d c br now e1)"
  using assms by (auto simp: pending_from_def hold_change_def)

lemma propose_pending:
  "propose_schema_change L br c a now e = (d, e') \<Longrightarrow>
     d = classified L e br c \<and> pending_from L e e e' \<and> en_log e' = en_log e \<and> en_shadows e' = en_shadows e \<and>
     en_shadow_changes e' = en_shadow_changes e \<and> en_views e' = en_views e \<and> en_branches e' = en_branches e"
  by (auto simp: propose_schema_change_def Let_def decided_in_def classified_id record_audit_def intro!: hold_pending)

lemma claim_pending:
  "pending_from L e e (snd (propose_with_claim L br c cl a now e))"
proof -
  let ?d = "classified L e br c"
  let ?v = "verify_claim cl c (table_rows (rows_of e br))"
  have "fst (apply_claim (gate_of ?d) c ?v) = gate_of ?d \<or>
      fst (apply_claim (gate_of ?d) c ?v) = AutoApply \<and> lowers c \<and> (\<exists>n. ?v = Holds n)"
    by (simp add: apply_claim_def split: verdict.split)
  then show ?thesis
    by (auto simp: propose_with_claim_def Let_def case_prod_beta classified_id decided_in_def gate_of_def intro!: hold_pending) blast
qed

lemma open_effects:
  assumes "open_shadow_branch L t i c a now e = (r, e')" and "K i t c"
  shows "pending_from L u e e' \<and> shadows_from K w e e' \<and>
    (schema_landed e e' br c' \<longrightarrow> c' = c \<and> (\<exists>b. bs_by_id (en_branches e') br = Some b \<and> br_kind b = Shadow))"
proof -
  let ?goal = "\<lambda>e'. pending_from L u e e' \<and> shadows_from K w e e' \<and>
    (schema_landed e e' br c' \<longrightarrow> c' = c \<and> (\<exists>b. bs_by_id (en_branches e') br = Some b \<and> br_kind b = Shadow))"
  have quiet: "?goal e'" if "same_held e e'" "en_log e' = en_log e" for e'
    using that shrinks_pending shrinks_shadows held_shrinks_same schema_landed_same [of e' e] by metis
  show ?thesis
  proof (cases "omget (en_shadows e) i")
    case (Some s)
    then have "e' = e" using assms(1) by (simp add: open_shadow_branch_def)
    then show ?thesis using quiet [of e] by simp
  next
    case None
    obtain res bs where bs: "branch_create (shadow_name t i) (du_expected (en_log e) t) Shadow (en_branches e) = (res, bs)" by fastforce
    show ?thesis
    proof (cases res)
      case (Inl err)
      then have "e' = e\<lparr>en_branches := bs\<rparr>" using assms(1) None bs by (simp add: open_shadow_branch_def)
      then show ?thesis using quiet [of "e\<lparr>en_branches := bs\<rparr>"] by (simp add: same_held_def)
    next
      case (Inr s)
      let ?e1 = "e\<lparr>en_branches := bs, en_log := du_set_head s (du_expected (en_log e) t) (en_log e),
        en_views := (case omget (en_views e) t of None \<Rightarrow> en_views e | Some v \<Rightarrow> omput s v (en_views e))\<rparr>"
      obtain r1 e2 where app: "engine_append L s (SchemaOp c) a now ?e1 = (r1, e2)" by fastforce
      have "\<exists>b. bs_by_id bs s = Some b \<and> br_kind b = Shadow"
        using bs Inr by (auto simp: branch_create_def Let_def branch_at_def split: if_splits)
      then have kind: "\<exists>b. bs_by_id (en_branches e2) s = Some b \<and> br_kind b = Shadow"
        using append_effects [OF app, of br c'] by fastforce
      have held: "same_held e e2"
        using append_held [OF app] by (simp add: same_held_def)
      have "schema_landed ?e1 e2 br c' \<longrightarrow> s = br \<and> c' = c" using append_effects [OF app, of br c'] by simp
      moreover have "schema_landed ?e1 e2 br c' \<longleftrightarrow> schema_landed e e2 br c'"
        by (rule schema_landed_from(1)) (simp add: du_set_head_def log_set_head_def)
      ultimately have landed: "schema_landed e e2 br c' \<longrightarrow> s = br \<and> c' = c" by simp
      show ?thesis
      proof (cases r1)
        case (Inl err)
        then have "e' = e2" using assms(1) None bs Inr app by (simp add: open_shadow_branch_def Let_def)
        then show ?thesis
          using held landed kind shrinks_pending shrinks_shadows held_shrinks_same by metis
      next
        case r1: (Inr h)
        then have e': "e' = e2\<lparr>en_shadows := omput i \<lparr>sv_change_id = i, sv_target = t, sv_shadow = s, sv_applied_head = h,
              sv_opened_at = now, sv_outcome = None\<rparr> (en_shadows e2),
            en_shadow_changes := (en_shadow_changes e2)(i \<mapsto> c),
            en_pending := (case omget (en_pending e2) i of None \<Rightarrow> en_pending e2
              | Some p \<Rightarrow> omput i (p\<lparr>pc_diff := (pc_diff p)\<lparr>cd_shadow_branch := Some s\<rparr>\<rparr>) (en_pending e2))\<rparr>"
          using assms(1) None bs Inr app by (simp add: open_shadow_branch_def Let_def)
        have "pending_from L u e e'"
          using held unfolding e' by (auto simp: pending_from_def same_held_def same_decision_def split: option.splits if_splits)
        moreover have "shadows_from K w e e'"
          using held assms(2) unfolding e' by (auto simp: shadows_from_def same_held_def)
        moreover have "schema_landed e e' br c' \<longleftrightarrow> schema_landed e e2 br c'"
          by (rule schema_landed_from(2)) (simp add: e')
        ultimately show ?thesis using landed kind by (auto simp: e')
      qed
    qed
  qed
qed

lemma validate_effects:
  assumes "validate_shadow i a now e = (r, e')"
  shows "en_pending e' = en_pending e \<and> shadows_from K e' e e' \<and> en_log e' = en_log e \<and> en_branches e' = en_branches e \<and>
    en_shadow_changes e' = en_shadow_changes e"
proof -
  have "shadows_from K e' e e' \<and> en_log e' = en_log e"
    if "omget (en_shadows e) i = Some s" "en_shadow_changes e i = Some c" "e' = (record_audit t e)\<lparr>en_shadows := omput i (s\<lparr>sv_outcome := Some d\<rparr>) (en_shadows e)\<rparr>"
      "d = \<lparr>vd_passed = list_all ck_passed (shadow_validate (branch_view e (sv_target s)) (branch_view e (sv_shadow s)) c), vd_ran_at = now,
        vd_head = du_expected (en_log e) (sv_shadow s), vd_checks = shadow_validate (branch_view e (sv_target s)) (branch_view e (sv_shadow s)) c\<rparr>"
    for s c d t
    using that by (auto simp: shadows_from_def record_audit_def same_shadow_def validated_in_def branch_view_def)
  moreover have "shadows_from K e e e" by (simp add: shrinks_shadows held_shrinks_same)
  ultimately show ?thesis
    using assms by (auto simp: validate_shadow_def Let_def split: option.splits)
qed

section \<open>Over a run\<close>

lemma pending_from_trans:
  "pending_from L u e e1 \<Longrightarrow> pending_from L u e1 e' \<Longrightarrow> pending_from L u e e'"
  unfolding pending_from_def
proof (intro allI impI)
  fix i q
  assume a: "\<forall>i q. omget (en_pending e1) i = Some q \<longrightarrow> (\<exists>p. omget (en_pending e) i = Some p \<and> same_decision p q) \<or>
      i = proposal_id L (pc_change q) (pc_branch q) \<and> decided_in L u q"
    and b: "\<forall>i q. omget (en_pending e') i = Some q \<longrightarrow> (\<exists>p. omget (en_pending e1) i = Some p \<and> same_decision p q) \<or>
      i = proposal_id L (pc_change q) (pc_branch q) \<and> decided_in L u q"
    and q: "omget (en_pending e') i = Some q"
  from b q consider p where "omget (en_pending e1) i = Some p" "same_decision p q"
    | "i = proposal_id L (pc_change q) (pc_branch q)" "decided_in L u q" by blast
  then show "(\<exists>p. omget (en_pending e) i = Some p \<and> same_decision p q) \<or>
      i = proposal_id L (pc_change q) (pc_branch q) \<and> decided_in L u q"
  proof cases
    case 1
    have "same_decision r p \<Longrightarrow> same_decision r q" "pc_change q = pc_change p" "pc_branch q = pc_branch p" for r
      using 1(2) by (simp_all add: same_decision_def)
    then show ?thesis using a 1 decided_same by metis
  qed blast
qed

lemma shadows_from_same:
  "en_shadows e1 = en_shadows e \<Longrightarrow> en_shadow_changes e1 = en_shadow_changes e \<Longrightarrow>
     shadows_from K w e1 e' = shadows_from K w e e'"
  by (simp add: shadows_from_def)

lemma shadows_from_trans:
  assumes "shadows_from K w e e1" and "shadows_from K w e1 e'"
  shows "shadows_from K w e e'"
  unfolding shadows_from_def
proof (intro allI impI)
  fix i s
  assume s: "omget (en_shadows e') i = Some s"
  show "(\<exists>r. omget (en_shadows e) i = Some r \<and> same_shadow r s \<and> en_shadow_changes e' i = en_shadow_changes e i \<and>
           (sv_outcome s = sv_outcome r \<or> (\<exists>c. en_shadow_changes e i = Some c \<and> validated_in w c s))) \<or>
        (\<exists>c. en_shadow_changes e' i = Some c \<and> K i (sv_target s) c \<and> sv_change_id s = i \<and> (sv_outcome s = None \<or> validated_in w c s))"
  proof (cases "\<exists>r. omget (en_shadows e1) i = Some r \<and> same_shadow r s \<and> en_shadow_changes e' i = en_shadow_changes e1 i \<and>
           (sv_outcome s = sv_outcome r \<or> (\<exists>c. en_shadow_changes e1 i = Some c \<and> validated_in w c s))")
    case True
    then obtain r where r: "omget (en_shadows e1) i = Some r" "same_shadow r s" "en_shadow_changes e' i = en_shadow_changes e1 i"
        "sv_outcome s = sv_outcome r \<or> (\<exists>c. en_shadow_changes e1 i = Some c \<and> validated_in w c s)" by blast
    have keep: "validated_in w c s" if "sv_outcome s = sv_outcome r" "validated_in w c r" for c
      using that r(2) validated_same [of r s w c] by simp
    have t: "sv_target s = sv_target r" "sv_change_id s = sv_change_id r" "\<And>q. same_shadow q r \<Longrightarrow> same_shadow q s" using r(2) by (simp_all add: same_shadow_def)
    from assms(1) r(1) consider q where "omget (en_shadows e) i = Some q" "same_shadow q r" "en_shadow_changes e1 i = en_shadow_changes e i"
        "sv_outcome r = sv_outcome q \<or> (\<exists>c. en_shadow_changes e i = Some c \<and> validated_in w c r)"
      | c where "en_shadow_changes e1 i = Some c" "K i (sv_target r) c" "sv_change_id r = i" "sv_outcome r = None \<or> validated_in w c r"
      unfolding shadows_from_def by blast
    then show ?thesis
    proof cases
      case 1
      then show ?thesis using r(3,4) keep t(3) by metis
    next
      case 2
      then show ?thesis using r(3,4) keep t(1,2) by fastforce
    qed
  next
    case False
    then show ?thesis using assms(2) s unfolding shadows_from_def by blast
  qed
qed

lemma propose_effects:
  assumes "propose L br c a now e = (r, e')" and "K (proposal_id L c br) br c"
  shows "pending_from L e e e' \<and> shadows_from K e' e e' \<and>
    (schema_landed e e' b c' \<longrightarrow> c' = c \<and> gate_of (classified L e br c) = ShadowValidate \<and>
       (\<exists>x. bs_by_id (en_branches e') b = Some x \<and> br_kind x = Shadow))"
proof -
  obtain d e1 where p: "propose_schema_change L br c a now e = (d, e1)" by fastforce
  note P = propose_pending [OF p]
  have d: "d = classified L e br c" using P by simp
  have start: "schema_landed e1 e2 b c' = schema_landed e e2 b c'" "shadows_from K w e1 e2 = shadows_from K w e e2" for e2 w
    using P schema_landed_from(1) [of e1 e e2 b c'] shadows_from_same [of e1 e K w e2] by simp_all
  show ?thesis
  proof (cases "gate_of d = ShadowValidate")
    case False
    then have "e' = e1" using assms(1) p by (simp add: propose_def Let_def)
    then show ?thesis
      using P start schema_landed_same [of e1 e b c'] shrinks_shadows [OF held_shrinks_same [OF same_held_refl], of K e1 e1] by simp
  next
    case True
    obtain r1 e2 where o: "open_shadow_branch L br (proposal_id L c br) c a now e1 = (r1, e2)" by fastforce
    have O: "pending_from L e e1 e2 \<and> shadows_from K w e1 e2 \<and>
        (schema_landed e1 e2 b c' \<longrightarrow> c' = c \<and> (\<exists>x. bs_by_id (en_branches e2) b = Some x \<and> br_kind x = Shadow))" for w
      using open_effects [where K=K and u=e and w=w and br=b and c'=c', OF o assms(2)] .
    then have pend: "pending_from L e e e2" using P pending_from_trans by blast
    show ?thesis
    proof (cases r1)
      case (Inl err)
      then have "e' = e2" using assms(1) p True o d by (simp add: propose_def Let_def and_then_def classified_id)
      then show ?thesis using O [of e2] start pend True d by auto
    next
      case (Inr s)
      obtain r2 e3 where v: "validate_shadow (proposal_id L c br) a now e2 = (r2, e3)" by fastforce
      have e': "e' = e3"
        using assms(1) p True o d Inr v by (auto simp: propose_def Let_def and_then_def classified_id split: sum.splits)
      have V: "en_pending e3 = en_pending e2" "shadows_from K e3 e2 e3" "en_log e3 = en_log e2" "en_branches e3 = en_branches e2"
          "en_shadow_changes e3 = en_shadow_changes e2"
        using validate_effects [OF v] by auto
      have "pending_from L e e e3" using pend V(1) by (simp add: pending_from_def)
      moreover have "schema_landed e1 e3 b c' = schema_landed e1 e2 b c'" using V(3) by (intro schema_landed_from(2)) simp
      moreover have "shadows_from K e3 e1 e3" using O [of e3] V(2,5) shadows_from_trans by blast
      ultimately show ?thesis using O [of e3] start V(4) True d e' by auto
    qed
  qed
qed

lemma budget_pending:
  assumes "propose_within_budget L br c a now e = (r, e')"
  shows "pending_from L e e e' \<and> en_log e' = en_log e \<and> en_shadows e' = en_shadows e \<and> en_shadow_changes e' = en_shadow_changes e"
proof -
  have same: "pending_from L e e e'" if "en_pending e' = en_pending e" for e'
    using that by (auto simp: pending_from_def)
  obtain dec b where b: "budget_reserve (gate_of (classified L e br c)) (review_scopes br a) now (en_review e) = (dec, b)" by fastforce
  have u: "classified L (e\<lparr>en_review := b\<rparr>) br c' = classified L e br c'" for br c'
    by (simp add: classified_def estimate_impact_def branch_view_def policy_in_force_def branch_protected_def)
  have from_u: "pending_from L (e\<lparr>en_review := b\<rparr>) (e\<lparr>en_review := b\<rparr>) e1 \<Longrightarrow> pending_from L e e e1" for e1
    by (auto simp: pending_from_def decided_in_def u rows_of_def Let_def)
  show ?thesis
  proof (cases dec)
    case (Granted n x y)
    obtain d e1 where p: "propose_schema_change L br c a now (e\<lparr>en_review := b\<rparr>) = (d, e1)" by fastforce
    have e': "e' = e1\<lparr>en_reservations := (en_reservations e1)(cd_id d \<mapsto> n)\<rparr>"
      using assms b Granted p by (simp add: propose_within_budget_def Let_def)
    then show ?thesis using propose_pending [OF p] from_u [of e'] by (simp add: pending_from_def)
  next
    case (Exhausted scope x1 x2 x3 x4 reason)
    then show ?thesis using assms b same by (auto simp: propose_within_budget_def Let_def)
  qed
qed

lemma shadows_from_still:
  "en_shadows e' = en_shadows e \<Longrightarrow> en_shadow_changes e' = en_shadow_changes e \<Longrightarrow> shadows_from K w e e'"
  by (auto simp: shadows_from_def)

lemma shrinks_from: "held_shrinks e e' \<Longrightarrow> pending_from L u e e' \<and> shadows_from K w e e'"
  by (simp add: shrinks_pending shrinks_shadows)

lemma same_from: "same_held e e' \<Longrightarrow> pending_from L u e e' \<and> shadows_from K w e e'"
  by (simp add: shrinks_from held_shrinks_same)

lemma closes_from: "closes e e' \<Longrightarrow> pending_from L u e e' \<and> shadows_from K w e e'"
  by (simp add: closes_def shrinks_from)

lemma apply_effects:
  assumes "apply_schema_change L i confirm a now e = (r, e')"
  shows "held_shrinks e e' \<and> (schema_landed e e' b c \<longrightarrow>
    (\<exists>p. omget (en_pending e) i = Some p \<and> pc_branch p = b \<and> pc_change p = c \<and>
       (gate_of (pc_diff p) = AutoApply \<or> gate_of (pc_diff p) = Confirm \<and> confirm)))"
proof -
  have none: "held_shrinks e e \<and> \<not> schema_landed e e b c"
    using schema_landed_same [of e e] held_shrinks_same [OF same_held_refl] by simp
  consider "e' = e" | p where "omget (en_pending e) i = Some p" "gate_of (pc_diff p) \<noteq> ShadowValidate" "gate_of (pc_diff p) = Confirm \<longrightarrow> confirm"
      "engine_append L (pc_branch p) (SchemaOp (pc_change p)) a now (settle_review i Approved now (e\<lparr>en_pending := omdel i (en_pending e)\<rparr>)) = (r, e')"
    using assms by (auto simp: apply_schema_change_def split: option.splits if_splits)
  then show ?thesis
  proof cases
    case 1
    then show ?thesis using none by blast
  next
    case 2
    let ?e1 = "settle_review i Approved now (e\<lparr>en_pending := omdel i (en_pending e)\<rparr>)"
    have "closes e ?e1" using closes_lapse [of e now i] by (auto simp: closes_def held_shrinks_def split: if_splits)
    moreover have "same_held ?e1 e'" "schema_landed ?e1 e' b c \<longrightarrow> pc_branch p = b \<and> c = pc_change p"
      using append_effects [OF 2(4), of b c] by auto
    moreover have "schema_landed ?e1 e' b c = schema_landed e e' b c" by (rule schema_landed_from(1)) simp
    moreover have "gate_of (pc_diff p) = AutoApply \<or> gate_of (pc_diff p) = Confirm \<and> confirm"
      using 2(2,3) by (cases "gate_of (pc_diff p)") auto
    moreover have "held_shrinks e e'" if "closes e ?e1" "same_held ?e1 e'"
      using that held_shrinks_trans [OF _ held_shrinks_same] by (auto simp: closes_def)
    ultimately show ?thesis using 2(1) by auto
  qed
qed

text \<open>The calls that only touch what lies around the log.\<close>

fun around_log :: "'p engine_call \<Rightarrow> bool" where
  "around_log (CallKeys _) = True"
| "around_log (CallEnqueue _ _ _) = True"
| "around_log (CallWithdraw _ _) = True"
| "around_log (CallRevalidate _) = True"
| "around_log (CallSession _ _) = True"
| "around_log (CallSpend _ _ _) = True"
| "around_log (CallPlace _ _) = True"
| "around_log CallCheckpoint = True"
| "around_log (CallPace _) = True"
| "around_log (CallMaintain _) = True"
| "around_log _ = False"

lemma around_keeps:
  assumes "around_log call" and "perform L call e = Some e'"
  shows "keeps b c e e'"
proof (cases call)
  case (CallWithdraw t ticket)
  then show ?thesis using assms(2) withdraw_keeps by (metis option.inject perform.simps(18) surjective_pairing)
next
  case (CallSession sid hex)
  then show ?thesis using assms(2) session_keeps by (metis option.inject perform.simps(21) surjective_pairing)
next
  case (CallPlace r br)
  then show ?thesis using assms(2) place_keeps by (metis option.inject perform.simps(23) surjective_pairing)
next
  case CallCheckpoint
  then show ?thesis using assms(2) checkpoint_keeps by (metis option.inject perform.simps(24) surjective_pairing)
next
  case (CallMaintain now)
  then obtain r where "maintain_verifier L now e = Some (r, e')" using assms(2) by auto
  then show ?thesis by (rule maintain_keeps)
qed (use assms in \<open>auto simp: plain_keeps intro: enqueue_keeps revalidate_keeps maintain_keeps\<close>)

text \<open>The ids under which calls may open a shadow branch.\<close>

definition opened_by :: "('k, 'p, 'g) engine_lib \<Rightarrow> 'p engine_call list \<Rightarrow> string \<Rightarrow> nat \<Rightarrow> schema_change \<Rightarrow> bool" where
  "opened_by L cs i t c \<longleftrightarrow> i = proposal_id L c t \<or> (\<exists>a now. CallOpenShadow t i c a now \<in> set cs)"

lemma opened_by_more: "opened_by L cs i t c \<Longrightarrow> opened_by L (cs @ [d]) i t c" "opened_by L [d] i t c \<Longrightarrow> opened_by L (cs @ [d]) i t c"
  by (auto simp: opened_by_def)

lemma keeps_from: "(\<And>b c. keeps b c e e') \<Longrightarrow> pending_from L u e e' \<and> shadows_from K w e e'"
  using same_from by (metis keeps_def)

lemma perform_from:
  assumes "perform L call e = Some e'"
  shows "pending_from L e e e' \<and> shadows_from (opened_by L [call]) e' e e'" (is ?goal)
proof -
  have quiet: ?goal if "around_log call"
    by (rule keeps_from) (rule around_keeps [OF that assms])
  show ?goal
  proof (cases call)
    case (CallWrite br w a now)
    then have "same_held e e'" using assms any_write_effects [of L br w a now e _ e'] by (cases "perform_write L br w a now e") auto
    then show ?goal by (rule same_from)
  next
    case (CallSchema br c a now)
    then show ?goal using assms propose_pending [of L br c a now e _ e'] shadows_from_still
      by (cases "propose_schema_change L br c a now e") auto
  next
    case (CallPropose br c a now)
    then show ?goal using assms propose_effects [of L br c a now e _ e' "opened_by L [call]" br c]
      by (cases "propose L br c a now e") (auto simp: opened_by_def)
  next
    case (CallProposeBudget br c a now)
    then show ?goal using assms budget_pending [of L br c a now e _ e'] shadows_from_still by (cases "propose_within_budget L br c a now e") auto
  next
    case (CallProposeClaim br c cl a now)
    have "en_shadows (snd (propose_with_claim L br c cl a now e)) = en_shadows e"
        "en_shadow_changes (snd (propose_with_claim L br c cl a now e)) = en_shadow_changes e"
      by (simp_all add: propose_with_claim_def Let_def case_prod_beta)
    then show ?goal using assms CallProposeClaim claim_pending [of L e br c cl a now] shadows_from_still by auto
  next
    case (CallOpenShadow br i c a now)
    then show ?goal using assms open_effects [of L br i c a now e _ e' "opened_by L [call]" e e' br c]
      by (cases "open_shadow_branch L br i c a now e") (auto simp: opened_by_def)
  next
    case (CallApply i confirm a now)
    then have "held_shrinks e e'" using assms apply_effects [of L i confirm a now e _ e' 0 "AddTable undefined"]
      by (cases "apply_schema_change L i confirm a now e") auto
    then show ?goal by (rule shrinks_from)
  next
    case (CallValidate i a now)
    then show ?goal using assms validate_effects [of i a now e _ e'] by (cases "validate_shadow i a now e") (auto simp: pending_from_def)
  next
    case (CallPromote i a now)
    then have "held_shrinks e e'" using assms promote_effects [of L i a now e _ e' 0 "AddTable undefined"] by auto
    then show ?goal by (rule shrinks_from)
  next
    case (CallReject i reason a now)
    then have "closes e e'" using assms closes_reject [of e i reason a now] by auto
    then show ?goal by (rule closes_from)
  next
    case (CallCollect now)
    then have "closes e e'" using assms closes_collect [of e now] by auto
    then show ?goal by (rule closes_from)
  next
    case (CallPolicy s now)
    then have "closes e e'" using assms closes_policy [of e L s now] by auto
    then show ?goal by (rule closes_from)
  next
    case (CallCreate name from' a now)
    then have "same_held e e'" using assms create_effects [of L name from' a now e _ e'] by (cases "engine_create_branch L name from' a now e") auto
    then show ?goal by (rule same_from)
  next
    case (CallDiscard name a now)
    then have "closes e e'" using assms closes_discard [of e name a now] by auto
    then show ?goal by (rule closes_from)
  next
    case (CallMerge s t a now)
    then have "same_held e e'" using assms merge_effects [of L s t a now e _ e'] by auto
    then show ?goal by (rule same_from)
  next
    case (CallLand t a now)
    then have "same_held e e'" using assms land_effects [of L t a now e _ e'] by auto
    then show ?goal by (rule same_from)
  qed (use quiet in simp_all)
qed

text \<open>A state the run went through.\<close>

definition went_through :: "('k, 'p, 'g) engine_lib \<Rightarrow> 'p engine_call list \<Rightarrow> ('k, 'p) engine \<Rightarrow> ('k, 'p) engine \<Rightarrow> bool" where
  "went_through L cs e0 u \<longleftrightarrow> (\<exists>before after. cs = before @ after \<and> perform_all L before e0 = Some u)"

lemma went_through_more: "went_through L cs e0 u \<Longrightarrow> went_through L (cs @ [c]) e0 u"
  unfolding went_through_def by (metis append.assoc)

lemma went_through_end: "perform_all L cs e0 = Some e \<Longrightarrow> went_through L cs e0 e"
  unfolding went_through_def by (metis append.right_neutral)

lemma perform_all_snoc:
  "perform_all L (cs @ [c]) e0 = Some e' \<Longrightarrow> \<exists>e. perform_all L cs e0 = Some e \<and> perform L c e = Some e'"
  by (auto simp: perform_all_append split: option.splits)

lemma run_pending:
  assumes "perform_all L cs e0 = Some e" and "en_pending e0 = omempty" and "omget (en_pending e) i = Some p"
  shows "i = proposal_id L (pc_change p) (pc_branch p) \<and> (\<exists>u. went_through L cs e0 u \<and> decided_in L u p)"
  using assms(1,3)
proof (induction cs arbitrary: e p rule: rev_induct)
  case Nil
  then show ?case using assms(2) by simp
next
  case (snoc c cs)
  obtain e1 where e1: "perform_all L cs e0 = Some e1" "perform L c e1 = Some e" using perform_all_snoc [OF snoc.prems(1)] by blast
  consider q where "omget (en_pending e1) i = Some q" "same_decision q p"
    | "i = proposal_id L (pc_change p) (pc_branch p)" "decided_in L e1 p"
    using perform_from [OF e1(2)] snoc.prems(2) unfolding pending_from_def by blast
  then show ?case
  proof cases
    case 1
    obtain u where "i = proposal_id L (pc_change q) (pc_branch q)" "went_through L cs e0 u" "decided_in L u q"
      using snoc.IH [OF e1(1) 1(1)] by blast
    then show ?thesis using 1(2) decided_same [OF 1(2), of L u] went_through_more [of L cs e0 u c] by (auto simp: same_decision_def)
  next
    case 2
    then show ?thesis using went_through_more [OF went_through_end [OF e1(1)]] by blast
  qed
qed

lemma run_shadows:
  assumes "perform_all L cs e0 = Some e" and "en_shadows e0 = omempty" and "omget (en_shadows e) i = Some r"
  shows "\<exists>c. en_shadow_changes e i = Some c \<and> opened_by L cs i (sv_target r) c \<and> sv_change_id r = i \<and>
    (sv_outcome r \<noteq> None \<longrightarrow> (\<exists>w. went_through L cs e0 w \<and> validated_in w c r))"
  using assms(1,3)
proof (induction cs arbitrary: e r rule: rev_induct)
  case Nil
  then show ?case using assms(2) by simp
next
  case (snoc call cs)
  obtain e1 where e1: "perform_all L cs e0 = Some e1" "perform L call e1 = Some e" using perform_all_snoc [OF snoc.prems(1)] by blast
  have here: "went_through L (cs @ [call]) e0 e" using went_through_end [OF snoc.prems(1)] .
  consider q where "omget (en_shadows e1) i = Some q" "same_shadow q r" "en_shadow_changes e i = en_shadow_changes e1 i"
      "sv_outcome r = sv_outcome q \<or> (\<exists>c. en_shadow_changes e1 i = Some c \<and> validated_in e c r)"
    | c where "en_shadow_changes e i = Some c" "opened_by L [call] i (sv_target r) c" "sv_change_id r = i" "sv_outcome r = None \<or> validated_in e c r"
    using perform_from [OF e1(2)] snoc.prems(2) unfolding shadows_from_def by blast
  then show ?case
  proof cases
    case 1
    obtain c where c: "en_shadow_changes e1 i = Some c" "opened_by L cs i (sv_target q) c" "sv_change_id q = i"
        "sv_outcome q \<noteq> None \<longrightarrow> (\<exists>w. went_through L cs e0 w \<and> validated_in w c q)"
      using snoc.IH [OF e1(1) 1(1)] by blast
    have t: "sv_target r = sv_target q" "sv_change_id r = sv_change_id q" using 1(2) by (simp_all add: same_shadow_def)
    have "\<exists>w. went_through L (cs @ [call]) e0 w \<and> validated_in w c r" if "sv_outcome r \<noteq> None"
    proof (cases "sv_outcome r = sv_outcome q")
      case True
      then have "sv_outcome q \<noteq> None" using that by simp
      then obtain w where "went_through L cs e0 w" "validated_in w c q" using c(4) by blast
      then show ?thesis using True 1(2) went_through_more validated_same [of q r w c] by metis
    next
      case False
      then show ?thesis using 1(4) c(1) here by auto
    qed
    then show ?thesis using 1(3) c(1-3) t opened_by_more(1) [of L cs i "sv_target q" c call] by simp
  next
    case 2
    then show ?thesis using here opened_by_more(2) by fast
  qed
qed

section \<open>Every schema change passed its gate\<close>

text \<open>C8: A schema change reaches the log through its gate, or in one of the ways that ask for
  none.  Over any run of the engine's calls from an engine with nothing pending, a call that
  puts a schema change on a branch confirms or auto-applies a proposal for that change on
  that branch, whose gate is the one a state of the run demanded, or lowered after a claim
  was checked there; or it opens a shadow branch and puts the change on that; or it promotes
  a shadow for that branch whose checks, run in a state of the run for the change it was
  opened with and at the head the shadow still has, all passed; or it is a merge into that
  branch that a caller asked for or queued; or it is a batch that carries the change, which
  the engine does not look at.  No other write, no signed write, no
  proposal, validation, rejection, collection, policy push or branch operation puts one there.
  The calls left out (a query, its explanation, the clock of requests, the anchors) touch
  none of this state.\<close>

theorem schema_changes_pass_their_gate:
  assumes "perform_all L cs e0 = Some e" and "en_pending e0 = omempty" and "en_shadows e0 = omempty"
    and "perform L call e = Some e'" and "schema_landed e e' br c"
  shows "case call of
      CallApply i confirm _ _ \<Rightarrow> i = proposal_id L c br \<and> (\<exists>p u. omget (en_pending e) i = Some p \<and> pc_change p = c \<and>
        pc_branch p = br \<and> went_through L cs e0 u \<and> decided_in L u p \<and>
        (gate_of (pc_diff p) = AutoApply \<or> gate_of (pc_diff p) = Confirm \<and> confirm))
    | CallPropose target change _ _ \<Rightarrow> change = c \<and> gate_of (classified L e target c) = ShadowValidate \<and>
        (\<exists>b. bs_by_id (en_branches e') br = Some b \<and> br_kind b = Shadow)
    | CallOpenShadow _ _ change _ _ \<Rightarrow> change = c \<and> (\<exists>b. bs_by_id (en_branches e') br = Some b \<and> br_kind b = Shadow)
    | CallPromote i _ _ \<Rightarrow> (\<exists>r w change. omget (en_shadows e) i = Some r \<and> sv_target r = br \<and> opened_by L cs i br change \<and>
        en_shadow_changes e i = Some change \<and>
        went_through L cs e0 w \<and> du_expected (en_log w) (sv_shadow r) = du_expected (en_log e) (sv_shadow r) \<and>
        list_all ck_passed (shadow_validate (branch_view w br) (branch_view w (sv_shadow r)) change))
    | CallMerge _ target _ _ \<Rightarrow> br = target
    | CallLand target _ _ \<Rightarrow> br = target \<and> engine_merge_queue e target \<noteq> []
    | CallWrite target w _ _ \<Rightarrow> br = target \<and> (\<exists>ops. w = Batch ops \<and> c \<in> set (collect_schema_op (Transaction ops) []))
    | _ \<Rightarrow> False"
proof (cases call)
  case (CallWrite b w a now)
  then show ?thesis using assms(4,5) any_write_effects [of L b w a now e _ e' br c] by (cases "perform_write L b w a now e") auto
next
  case (CallSchema t change a now)
  then show ?thesis using assms(4,5) propose_pending [of L t change a now e _ e'] schema_landed_same [of e' e br c]
    by (cases "propose_schema_change L t change a now e") auto
next
  case (CallPropose t change a now)
  then show ?thesis using assms(4,5) propose_effects [of L t change a now e _ e' "\<lambda>_ _ _. True" br c]
    by (cases "propose L t change a now e") auto
next
  case (CallProposeBudget t change a now)
  then show ?thesis using assms(4,5) budget_pending [of L t change a now e _ e'] schema_landed_same [of e' e br c]
    by (cases "propose_within_budget L t change a now e") auto
next
  case (CallProposeClaim t change cl a now)
  have "en_log (snd (propose_with_claim L t change cl a now e)) = en_log e"
    by (simp add: propose_with_claim_def Let_def case_prod_beta record_audit_def)
  then show ?thesis using assms(4,5) CallProposeClaim schema_landed_same [of e' e br c] by auto
next
  case (CallOpenShadow t i change a now)
  then show ?thesis using assms(4,5) open_effects [of L t i change a now e _ e' "\<lambda>_ _ _. True" e e' br c]
    by (cases "open_shadow_branch L t i change a now e") auto
next
  case (CallApply i confirm a now)
  then obtain p where p: "omget (en_pending e) i = Some p" "pc_branch p = br" "pc_change p = c"
      "gate_of (pc_diff p) = AutoApply \<or> gate_of (pc_diff p) = Confirm \<and> confirm"
    using assms(4,5) apply_effects [of L i confirm a now e _ e' br c] by (cases "apply_schema_change L i confirm a now e") auto
  then show ?thesis using run_pending [OF assms(1,2) p(1)] CallApply by auto
next
  case (CallValidate i a now)
  then have "en_log e' = en_log e" using assms(4) validate_effects [of i a now e _ e'] by (cases "validate_shadow i a now e") auto
  then show ?thesis using assms(5) schema_landed_same [of e' e br c] by simp
next
  case (CallPromote i a now)
  then obtain r where r: "promotable i e = Inr r" "br = sv_target r"
    using assms(4,5) promote_effects [of L i a now e _ e' br c] by auto
  then obtain d where d: "omget (en_shadows e) i = Some r" "sv_outcome r = Some d" "vd_passed d" "vd_head d = du_expected (en_log e) (sv_shadow r)"
    by (auto simp: promotable_def is_current_def split: option.splits if_splits)
  obtain change w where "en_shadow_changes e i = Some change" "opened_by L cs i (sv_target r) change" "went_through L cs e0 w" "validated_in w change r"
    using run_shadows [OF assms(1,3) d(1)] d(2) by auto
  then show ?thesis using d r(2) CallPromote by (auto simp: validated_in_def)
next
  case (CallReject i reason a now)
  then show ?thesis using assms(4,5) closes_reject [of e i reason a now] schema_landed_same [of e' e br c] by (auto simp: closes_def)
next
  case (CallCollect now)
  then show ?thesis using assms(4,5) closes_collect [of e now] schema_landed_same [of e' e br c] by (auto simp: closes_def)
next
  case (CallPolicy s now)
  then show ?thesis using assms(4,5) closes_policy [of e L s now] schema_landed_same [of e' e br c] by (auto simp: closes_def)
next
  case (CallCreate name from' a now)
  then show ?thesis using assms(4,5) create_effects [of L name from' a now e _ e' br c] by (cases "engine_create_branch L name from' a now e") auto
next
  case (CallDiscard name a now)
  then show ?thesis using assms(4,5) closes_discard [of e name a now] schema_landed_same [of e' e br c] by (auto simp: closes_def)
next
  case (CallMerge s t a now)
  then show ?thesis using assms(4,5) merge_effects [of L s t a now e _ e' br c] by auto
next
  case (CallLand t a now)
  then show ?thesis using assms(4,5) land_effects [of L t a now e _ e' br c] by auto
qed (use assms(4,5) around_keeps [of call L e e' br c] in \<open>simp_all add: keeps_def\<close>)

text \<open>Appends to \<open>main\<close> of a plain store succeed.\<close>

lemma plain_engine_append:
  assumes "plain_store L (en_log e)" and "bs_by_id (en_branches e) br \<noteq> None" and "no_fork op"
  obtains e' where "engine_append L br op a now e = (Inr (entry_hash (el_codec L) (engine_entry br op a now e)), e')"
    and "log_of e' = du_index (el_codec L) (engine_entry br op a now e) (log_of e)"
proof -
  let ?en = "engine_entry br op a now e"
  have prev: "le_prev ?en = du_expected (en_log e) (le_branch ?en)" and b: "le_branch ?en = br" by (simp_all add: engine_entry_def)
  obtain log where log: "append_and_apply (el_codec L) (el_enc L) (el_store L) ?en (en_views e) (en_log e) =
      (Inr (entry_hash (el_codec L) ?en), fold_into (el_enc L) ?en (seed_branch_view (log_of e) ?en (en_views e)), log)"
      "du_log log = du_index (el_codec L) ?en (log_of e)"
    using plain_append [OF assms(1) prev] by metis
  then show ?thesis using that assms(2) b by (auto simp: engine_append_def land_entry_def branch_set_head_def)
qed

lemma sample_engine_fields:
  "en_log (sample_engine v n) = sample_durable" "en_pending (sample_engine v n) = omempty" "en_shadows (sample_engine v n) = omempty"
  "bs_by_id (en_branches (sample_engine v n)) main_branch \<noteq> None" "omget (en_views (sample_engine v n)) main_branch = Some v"
  "log_get (du_log sample_durable) h = None" "branch_protected (sample_engine v n) main_branch"
  "policy_in_force (sample_engine v n) = development_policy"
  by (simp_all add: sample_engine_def sample_durable_def log_get_def log_new_def branch_protected_def is_protected_def
      policy_in_force_def policy_sync_new_def)

lemma sample_drop_gate:
  "gate_of (classified sample_engine_lib (sample_engine view_new 0) main_branch (DropTable ''t'')) = Confirm"
proof -
  have "rows_in view_new ''t'' = 0"
    by (simp add: rows_in_def count_rows_def prefix_range_def view_new_def wrap64_def)
  then have "im_rows (estimate_impact (sample_engine view_new 0) main_branch (DropTable ''t'')) = 0"
    by (simp add: estimate_impact_def branch_view_def omget_or_def sample_engine_fields estimate_def Let_def)
  then show ?thesis by (simp add: classified_def gate_defs)
qed

abbreviation sample_change_id :: string where
  "sample_change_id \<equiv> proposal_id sample_engine_lib (DropTable ''t'') main_branch"

text \<open>A drop proposed on \<open>main\<close>, waiting for a confirmation.\<close>

definition sample_proposed :: "(unit, unit) engine" where
  "sample_proposed = snd (propose_schema_change sample_engine_lib main_branch (DropTable ''t'') System 0 (sample_engine view_new 0))"

lemma sample_proposed_run:
  "perform_all sample_engine_lib [CallPropose main_branch (DropTable ''t'') System 0] (sample_engine view_new 0) = Some sample_proposed"
  using sample_drop_gate by (simp add: propose_def propose_schema_change_def Let_def sample_proposed_def)

lemma sample_proposed_fields:
  "omget (en_pending sample_proposed) sample_change_id =
     Some \<lparr>pc_diff = classified sample_engine_lib (sample_engine view_new 0) main_branch (DropTable ''t''),
       pc_change = DropTable ''t'', pc_branch = main_branch, pc_proposed_at = 0\<rparr>"
  "en_log sample_proposed = sample_durable" "en_branches sample_proposed = en_branches (sample_engine view_new 0)"
  "rb_policy (en_review sample_proposed) = budget_policy_default"
  by (simp_all add: sample_proposed_def propose_schema_change_def hold_change_def record_audit_def classified_id Let_def
      sample_engine_fields) (simp add: sample_engine_def budget_new_def)

lemma schema_changes_pass_their_gate_witness:
  "\<exists>e e'. perform_all sample_engine_lib [CallPropose main_branch (DropTable ''t'') System 0] (sample_engine view_new 0) = Some e \<and>
     perform sample_engine_lib (CallApply sample_change_id True System 1) e = Some e' \<and>
     schema_landed e e' main_branch (DropTable ''t'') \<and>
     (\<exists>p u. omget (en_pending e) sample_change_id = Some p \<and> pc_change p = DropTable ''t'' \<and> pc_branch p = main_branch \<and>
        went_through sample_engine_lib [CallPropose main_branch (DropTable ''t'') System 0] (sample_engine view_new 0) u \<and>
        decided_in sample_engine_lib u p \<and> gate_of (pc_diff p) = Confirm)"
proof -
  let ?L = "sample_engine_lib" and ?start = "sample_engine view_new 0" and ?c = "DropTable ''t''" and ?e = sample_proposed
  let ?e1 = "settle_review sample_change_id Approved 1 (?e\<lparr>en_pending := omdel sample_change_id (en_pending ?e)\<rparr>)"
  let ?en = "engine_entry main_branch (SchemaOp ?c) System 1 ?e1"
  have "plain_store ?L (en_log ?e1)" using sample_engine_plain [of view_new 0] by (simp add: sample_proposed_fields sample_engine_fields)
  then obtain e' where e': "engine_append ?L main_branch (SchemaOp ?c) System 1 ?e1 = (Inr (entry_hash (el_codec ?L) ?en), e')"
      "log_of e' = du_index (el_codec ?L) ?en (log_of ?e1)"
    using plain_engine_append [of ?L ?e1 main_branch "SchemaOp ?c" System 1] sample_engine_fields(4)
    by (auto simp: sample_proposed_fields no_fork_def)
  have step: "perform ?L (CallApply sample_change_id True System 1) ?e = Some e'"
    using sample_proposed_fields(1) sample_drop_gate e'(1) by (simp add: apply_schema_change_def)
  have "log_get (log_of ?e) h = None" for h by (simp add: sample_proposed_fields sample_engine_fields)
  then have landed: "schema_landed ?e e' main_branch ?c"
    unfolding schema_landed_def e'(2)
    by (intro exI [of _ "entry_hash (el_codec ?L) ?en"] exI [of _ ?en]) (simp add: log_get_def du_index_def engine_entry_def)
  have "\<exists>p u. omget (en_pending ?e) sample_change_id = Some p \<and> pc_change p = ?c \<and> pc_branch p = main_branch \<and>
      went_through ?L [CallPropose main_branch ?c System 0] ?start u \<and> decided_in ?L u p"
    using schema_changes_pass_their_gate [OF sample_proposed_run sample_engine_fields(2,3) step landed] by auto
  then show ?thesis using sample_proposed_run step landed sample_proposed_fields(1) sample_drop_gate by auto
qed

end
