(* ===== verification/Daemon_Expiry.thy ===== *)
theory Daemon_Expiry
  imports Daemon_Gate
begin

text \<open>
  What the collection of expired proposals and shadow branches takes, and what it leaves.
\<close>

section \<open>One release\<close>

lemma release_held [simp]:
  "omget (en_shadows e) i = Some r \<Longrightarrow> en_shadows (release_shadow i how now e) = omdel i (en_shadows e)"
  "omget (en_shadows e) i = Some r \<Longrightarrow> en_pending (release_shadow i how now e) = omdel i (en_pending e)"
  "en_policy (release_shadow i how now e) = en_policy e"
  by (simp_all add: release_shadow_def Let_def split: option.split)

lemma push_spends_policy: "rb_policy (fold (push_spend x) scopes b) = rb_policy b"
  by (induction scopes arbitrary: b) (simp_all add: push_spend_def)

lemma settle_policy [simp]: "rb_policy (en_review (settle_review i how now e)) = rb_policy (en_review e)"
  by (auto simp: settle_review_def budget_settle_def budget_expire_def push_spends_policy Let_def split: option.split)

lemma release_policy [simp]: "rb_policy (en_review (release_shadow i how now e)) = rb_policy (en_review e)"
  by (simp add: release_shadow_def Let_def split: option.split)

lemma record_audit_review [simp]: "en_review (record_audit t e) = en_review e"
  by (simp add: record_audit_def)

lemma ttls_same:
  "en_policy e' = en_policy e \<Longrightarrow> shadow_ttl e' = shadow_ttl e"
  "en_policy e' = en_policy e \<Longrightarrow> rb_policy (en_review e') = rb_policy (en_review e) \<Longrightarrow> proposal_ttl e' = proposal_ttl e"
  by (simp_all add: shadow_ttl_def proposal_ttl_def policy_in_force_def)

section \<open>A sweep\<close>

lemma reclaim_one:
  assumes "omget (en_shadows e) i = Some r" and "reclaim_shadow now i e = (t, e')"
  shows "map_option rc_id t = Some i \<and> en_shadows e' = omdel i (en_shadows e) \<and> en_pending e' = omdel i (en_pending e) \<and>
    en_policy e' = en_policy e \<and> rb_policy (en_review e') = rb_policy (en_review e)"
  using assms by (auto simp: reclaim_shadow_def Let_def)

lemma reclaim_each:
  assumes "reclaim_all now is e = (ts, e')" and "distinct is" and "\<And>i. i \<in> set is \<Longrightarrow> omget (en_shadows e) i \<noteq> None"
  shows "map rc_id ts = is \<and> en_shadows e' = fold omdel is (en_shadows e) \<and> en_pending e' = fold omdel is (en_pending e) \<and>
    en_policy e' = en_policy e \<and> rb_policy (en_review e') = rb_policy (en_review e)"
  using assms
proof (induction "is" arbitrary: e ts)
  case (Cons i "is")
  obtain r where r: "omget (en_shadows e) i = Some r" using Cons.prems(3) by fastforce
  obtain t e1 where one: "reclaim_shadow now i e = (t, e1)" by fastforce
  obtain us where rest: "reclaim_all now is e1 = (us, e')" "ts = (case t of None \<Rightarrow> us | Some x \<Rightarrow> x # us)"
    using Cons.prems(1) one by (auto split: prod.splits)
  note R = reclaim_one [OF r one]
  have "omget (en_shadows e1) j \<noteq> None" if "j \<in> set is" for j
    using that Cons.prems(2,3) R by auto
  from Cons.IH [OF rest(1) _ this] Cons.prems(2) show ?case using R rest(2) by auto
qed simp

lemma lapse_held:
  "en_pending (fold (lapse now) is e) = fold omdel is (en_pending e)" "en_shadows (fold (lapse now) is e) = en_shadows e"
  by (induction "is" arbitrary: e) (simp_all add: lapse_def)

text \<open>The shadows whose time is up, by id.\<close>

definition expired_shadows :: "int \<Rightarrow> ('k, 'p) engine \<Rightarrow> string list" where
  "expired_shadows now e =
     map fst (filter (\<lambda>(_, r). shadow_ttl e \<le> sat_i64 (now - sv_opened_at r)) (omlist (en_shadows e)))"

lemma expired_shadows_set:
  "i \<in> set (expired_shadows now e) \<longleftrightarrow>
     (\<exists>r. omget (en_shadows e) i = Some r \<and> shadow_ttl e \<le> sat_i64 (now - sv_opened_at r))"
  by (auto simp: expired_shadows_def omget_omlist image_iff)

lemma distinct_filter_keys: "distinct (map fst xs) \<Longrightarrow> distinct (map fst (filter P xs))"
  by (induction xs) auto

lemma collect_shadows:
  assumes "collect_expired_shadows now e = (ts, e1)" and "\<And>i r. omget (en_shadows e) i = Some r \<Longrightarrow> sv_change_id r = i"
  shows "map rc_id ts = expired_shadows now e \<and> en_shadows e1 = fold omdel (expired_shadows now e) (en_shadows e) \<and>
    en_pending e1 = fold omdel (expired_shadows now e) (en_pending e) \<and>
    en_policy e1 = en_policy e \<and> rb_policy (en_review e1) = rb_policy (en_review e)"
proof -
  let ?due = "\<lambda>r. shadow_ttl e \<le> sat_i64 (now - sv_opened_at r)"
  have "filter ?due (map snd xs) = map snd (filter (\<lambda>(_, r). ?due r) xs)" for xs :: "(string \<times> shadow_validation) list"
    by (induction xs) auto
  moreover have "sv_change_id (snd x) = fst x" if "x \<in> set (omlist (en_shadows e))" for x
    using assms(2) [of "fst x" "snd x"] that by (simp add: omget_omlist)
  ultimately have "map sv_change_id (filter ?due (omvalues (en_shadows e))) = expired_shadows now e"
    unfolding expired_shadows_def omvalues_def by (auto intro!: map_cong)
  then have "reclaim_all now (expired_shadows now e) e = (ts, e1)"
    using assms(1) by (simp add: collect_expired_shadows_def)
  then show ?thesis
  proof (rule reclaim_each)
    show "distinct (expired_shadows now e)"
      using omkeys_distinct [of "en_shadows e"] by (simp add: expired_shadows_def omkeys_def distinct_filter_keys)
    show "omget (en_shadows e) i \<noteq> None" if "i \<in> set (expired_shadows now e)" for i
      using that unfolding expired_shadows_set by auto
  qed
qed

text \<open>C9: Nothing waits for a review past its deadline, and nothing is taken before it.  After
  any run of calls, a collection reclaims exactly the shadow branches as old as the policy's
  limit and says which; of the proposals it keeps exactly the younger ones whose shadow was
  not reclaimed.  It writes nothing to the log, so no collection lands a change.\<close>

theorem collection_takes_exactly_the_expired:
  assumes "perform_all L cs e0 = Some e" and "en_pending e0 = omempty" and "en_shadows e0 = omempty"
    and "collect_expired now e = (taken, e')"
  shows "en_log e' = en_log e \<and> map rc_id taken = expired_shadows now e \<and>
    (\<forall>i r. omget (en_shadows e') i = Some r \<longleftrightarrow>
       omget (en_shadows e) i = Some r \<and> sat_i64 (now - sv_opened_at r) < shadow_ttl e) \<and>
    (\<forall>i p. omget (en_pending e') i = Some p \<longleftrightarrow>
       omget (en_pending e) i = Some p \<and> sat_i64 (now - pc_proposed_at p) < proposal_ttl e \<and> i \<notin> set (expired_shadows now e))"
proof -
  obtain e1 where one: "collect_expired_shadows now e = (taken, e1)"
    using assms(4) by (auto simp: collect_expired_def Let_def split: prod.splits)
  let ?late = "map fst (filter (\<lambda>(_, p). proposal_ttl e1 \<le> sat_i64 (now - pc_proposed_at p)) (omlist (en_pending e1)))"
  have e': "e' = fold (lapse now) ?late e1" using assms(4) one by (simp add: collect_expired_def Let_def)
  have C: "map rc_id taken = expired_shadows now e" "en_shadows e1 = fold omdel (expired_shadows now e) (en_shadows e)"
      "en_pending e1 = fold omdel (expired_shadows now e) (en_pending e)" "proposal_ttl e1 = proposal_ttl e"
    using collect_shadows [OF one] run_shadows [OF assms(1,3)] ttls_same(2) [of e1 e] by blast+
  have late: "i \<in> set ?late \<longleftrightarrow> (\<exists>p. omget (en_pending e1) i = Some p \<and> proposal_ttl e \<le> sat_i64 (now - pc_proposed_at p))" for i
    by (auto simp: omget_omlist image_iff C(4))
  have pend: "omget (en_pending e') i = (if i \<in> set ?late then None else omget (en_pending e1) i)" for i
    by (simp add: e' lapse_held omget_fold_del)
  have old: "omget (en_pending e1) i = (if i \<in> set (expired_shadows now e) then None else omget (en_pending e) i)" for i
    by (simp add: C(3) omget_fold_del)
  have "omget (en_pending e') i = Some p \<longleftrightarrow>
       omget (en_pending e) i = Some p \<and> sat_i64 (now - pc_proposed_at p) < proposal_ttl e \<and> i \<notin> set (expired_shadows now e)" for i p
    unfolding pend late old by auto
  moreover have "omget (en_shadows e') i = Some r \<longleftrightarrow>
       omget (en_shadows e) i = Some r \<and> sat_i64 (now - sv_opened_at r) < shadow_ttl e" for i r
    unfolding e' lapse_held C(2) omget_fold_del expired_shadows_set by auto
  moreover have "en_log e' = en_log e" using closes_collect [of e now] assms(4) by (simp add: closes_def)
  ultimately show ?thesis using C(1) by blast
qed

lemma collection_takes_exactly_the_expired_witness:
  "\<exists>taken e'. perform_all sample_engine_lib [CallPropose main_branch (DropTable ''t'') System 0] (sample_engine view_new 0) = Some sample_proposed \<and>
     collect_expired 14400000 sample_proposed = (taken, e') \<and> omget (en_pending sample_proposed) sample_change_id \<noteq> None \<and>
     omget (en_pending e') sample_change_id = None"
proof -
  obtain taken e' where c: "collect_expired 14400000 sample_proposed = (taken, e')" by fastforce
  have "\<not> sat_i64 (14400000 - 0) < proposal_ttl sample_proposed"
    by (simp add: proposal_ttl_def sample_proposed_fields budget_policy_default_def sat_i64_def)
  moreover have "omget (en_pending e') sample_change_id = Some p \<longleftrightarrow> omget (en_pending sample_proposed) sample_change_id = Some p \<and>
      sat_i64 (14400000 - pc_proposed_at p) < proposal_ttl sample_proposed \<and> sample_change_id \<notin> set (expired_shadows 14400000 sample_proposed)" for p
    using collection_takes_exactly_the_expired [OF sample_proposed_run sample_engine_fields(2,3) c] by blast
  moreover have "pc_proposed_at p = 0" if "omget (en_pending sample_proposed) sample_change_id = Some p" for p
    using that unfolding sample_proposed_fields(1) by (metis option.inject pending_change.select_convs(4))
  ultimately have "omget (en_pending e') sample_change_id \<noteq> Some p" for p by metis
  then have "omget (en_pending e') sample_change_id = None" by (cases "omget (en_pending e') sample_change_id") blast+
  then show ?thesis using c sample_proposed_run sample_proposed_fields(1) by auto
qed

text \<open>A proposal may lapse before its shadow branch does: the branch stays open, with a change
  that can no longer be promoted.\<close>

theorem lapsed_shadow_cannot_be_promoted:
  assumes "omget (en_shadows e) i = Some r"
  shows "promotable i (lapse now i e) = Inl (UnknownChange i) \<and> omget (en_shadows (lapse now i e)) i = Some r"
  using assms by (simp add: promotable_def lapse_def)

end
