(* ===== verification/Spec2Isabelle.thy ===== *)
theory Spec2Isabelle
  imports Crdt_State Store_History Query_Check Query_View Safety_Breaker Safety_Budget Safety_Spend Safety_Triage Store_View_Fold Store_MergeQueue Store_Completeness_Laws Store_Inclusion Store_Verifier Store_Temporal Store_Provenance Store_Attribution Safety_Proof Safety_Signed Safety_Audit Identity_Access Store_Region Store_Sync Store_Durable Daemon_Unique Daemon_Expiry Daemon_Reads
begin

text \<open>
  ThetaBase is a database whose only source of truth is an append-only, hash-chained log
  of operations.  Branches are pointers into the log; a branch's state is a fold of its
  history; a query reads that fold; every write is classified by a gate before it is
  appended.  This development models the crates that carry that logic
  (\<open>src/crates/\<close>): \<open>theta-core\<close>, \<open>theta-safety\<close>, \<open>theta-storage\<close>, \<open>theta-query\<close>,
  \<open>theta-identity\<close> and the engine of the daemon, \<open>thetad\<close>.

  \<^bold>\<open>Conventions.\<close>  A \<open>struct\<close> is a record, an \<open>enum\<close> a datatype, a \<open>Result\<close> a sum with the
  error on the left.  \<open>u32\<close>, \<open>u64\<close> and \<open>usize\<close> are naturals with the wrap-around or the
  saturation of the code written out (\<open>wrap64\<close>, \<open>sat_add64\<close>), \<open>i64\<close> is an integer kept in
  range, a float is its 64-bit word.  A \<open>String\<close> is the list of its bytes.  A \<open>BTreeMap\<close> or
  \<open>OrdMap\<close> is an ordered map (\<open>Ordered_Map\<close>), a \<open>HashMap\<close> a partial function.  A call with
  \<open>&mut self\<close> returns the new state beside its result.  Libraries are arguments of the
  definitions that call them: the BLAKE3 function, the canonical JSON of an operation and
  of an author (record \<open>codec\<close>), the JSON of a schema change, the encoding of a value.

  \<^bold>\<open>theta-core.\<close>  \<open>Core_Float\<close>, \<open>Core_Value\<close>: values, types and the order of floats
  (\<open>value.rs\<close>).  \<open>Core_Hash\<close>: framing of fields and the hexadecimal form (\<open>hash.rs\<close>).
  \<open>Core_Schema\<close>, \<open>Core_Address\<close>: schema changes and the addresses of rows (\<open>schema.rs\<close>,
  \<open>address.rs\<close>).  \<open>Core_Log\<close>: entries, authors, operations, branches (\<open>log.rs\<close>,
  \<open>branch.rs\<close>).  \<open>Core_Index\<close>: order-preserving index keys (\<open>index.rs\<close>).  \<open>Crdt_Counter\<close>,
  \<open>Crdt_Register\<close>, \<open>Crdt_Orset\<close>, \<open>Crdt_Sequence\<close>, \<open>Crdt_State\<close>: the replicated types and
  the state of a field (\<open>crdt/\<close>); the trait \<open>Crdt\<close> is the locale \<open>crdt\<close> of \<open>Crdt_Laws\<close>,
  interpreted on each of them.

  \<^bold>\<open>theta-safety.\<close>  \<open>Safety_Classify\<close>: policy, diff, gate and rationale (\<open>policy.rs\<close>,
  \<open>diff.rs\<close>, \<open>classify.rs\<close>, \<open>rationale.rs\<close>).  \<open>Safety_Window\<close> with \<open>Safety_Breaker\<close>,
  \<open>Safety_Budget\<close>, \<open>Safety_Spend\<close>: the rolling limits (\<open>breaker.rs\<close>, \<open>budget.rs\<close>,
  \<open>spend.rs\<close>).  \<open>Safety_Triage\<close>: the batching of changes for review (\<open>triage.rs\<close>).
  \<open>Safety_Proof\<close>: claims that lower a gate, and the replay of recorded decisions
  (\<open>proof.rs\<close>, \<open>replay.rs\<close>).  \<open>Safety_Signed\<close>: the policy pushed by the control plane
  (\<open>signed.rs\<close>).  \<open>Safety_Audit\<close>: the lines of the audit trail, over scalar values
  rather than bytes, since their escaping is by character (\<open>audit.rs\<close>).

  \<^bold>\<open>theta-storage.\<close>  \<open>Store_Log\<close>, \<open>Store_History\<close>: the branch registry, the in-memory log,
  its compare-and-swap and the walk back through it (\<open>branches.rs\<close>, \<open>log.rs\<close>).
  \<open>Store_View\<close> and its three companions: the materialized view, its fold, scans and
  secondary indexes (\<open>view.rs\<close>).  \<open>Store_Merge\<close>, \<open>Store_Merge_Laws\<close>, \<open>Store_MergeQueue\<close>:
  the three-way merge and the queue that speculates on it (\<open>merge.rs\<close>,
  \<open>mergequeue.rs\<close>).  \<open>Store_Completeness\<close>, \<open>Store_Completeness_Laws\<close>, \<open>Store_Inclusion\<close>:
  the proofs a client checks (\<open>completeness.rs\<close>, \<open>inclusion.rs\<close>).  \<open>Store_Verifier\<close>: the
  background check of the chain, tick by tick (\<open>verifier.rs\<close>).  \<open>Store_Temporal\<close>: reads of
  the past, differences and the feed (\<open>temporal.rs\<close>).  \<open>Store_Provenance\<close>,
  \<open>Store_Attribution\<close>: who changed a schema, and which branch is charged for which row
  (\<open>provenance.rs\<close>, \<open>attribution.rs\<close>, \<open>attribution_bytes.rs\<close>).  \<open>Store_Region\<close>,
  \<open>Store_Sync\<close>: placement, reads from replicas and the exchange of logs (\<open>region.rs\<close>,
  \<open>sync.rs\<close>).  \<open>Store_Segment\<close>, \<open>Store_Wal\<close>, \<open>Store_Durable\<close>: the log on disk.  A segment
  is a list of bytes, with its header, its framed records and the scan that ends at a torn
  one (\<open>segment.rs\<close>, and sealing from \<open>encryption.rs\<close>); the directory is a map of segments
  with a checkpoint and a snapshot (\<open>wal.rs\<close>); the store adds the heads and the views of the
  branches (\<open>durable.rs\<close>).  A power failure leaves any number of the bytes of the append in
  progress; the inductive \<open>wal_reach\<close> and \<open>du_live\<close> are the states that operations, failures
  and recoveries lead to.  Ciphers, the checksum, JSON and nonces are fields of \<open>disk_lib\<close>,
  \<open>wal_lib\<close> and \<open>store_lib\<close>.

  \<^bold>\<open>theta-identity.\<close>  \<open>Identity_Keys\<close>: the keys of a project (\<open>keys.rs\<close>).
  \<open>Identity_Access\<close>: tokens, the revocation list and its synchronisation (\<open>token.rs\<close>,
  \<open>identity.rs\<close>, \<open>revocation.rs\<close>) and the daemon's decision (\<open>thetad/src/session.rs\<close>).
  Signatures, base64 and JSON are the fields of the record \<open>wire\<close>.

  \<^bold>\<open>theta-query.\<close>  \<open>Query_Plan\<close>: plans, parameters and the bytes behind a plan's hash
  (\<open>plan.rs\<close>).  \<open>Query_Exec\<close>: the executor (\<open>exec.rs\<close>); its row source, the trait
  \<open>RowSource\<close>, is a record of functions, and the locale of \<open>Query_Sem\<close> states what it
  promises; \<open>Query_View\<close> interprets it on the materialized view.  \<open>Query_Sem\<close>: the meaning of
  a plan and the proof that the executor computes it.  \<open>Query_Optimize\<close>: the optimizer's
  passes (\<open>optimize.rs\<close>, \<open>stats.rs\<close>).  \<open>Query_Check\<close>: bindings and errors.

  \<^bold>\<open>thetad.\<close>  \<open>Daemon_Impact\<close>: the rows a schema change touches, which the gate reads
  (\<open>impact.rs\<close>).  \<open>Daemon_Shadow\<close>: the checks of a shadow branch before its change is
  promoted (\<open>shadow.rs\<close>).  \<open>Daemon_Engine\<close>: the record \<open>engine\<close>, the log, registry, views and
  safety state behind one lock, and the writes with their checks (\<open>engine.rs\<close>); the libraries
  are the record \<open>engine_lib\<close>, and an operation returns an error or a result beside the engine
  it leaves.  \<open>Daemon_Writes\<close> shows what each write does on acceptance and refusal and that a
  conditional write is won once, \<open>Daemon_Unique\<close> that unique indexes stay unique.
  \<open>Daemon_Signed\<close>: writes that carry a signature, and, for every kind of write, that it lands
  whole or not at all.
  \<open>Daemon_Schema\<close>: proposals, claims and the review budget, shadow branches from opening to
  promotion, rejection or expiry, branches and merges.  \<open>Daemon_Reads\<close>: the chain of a branch
  and what is read from it, proofs, queued merges, regions, checkpoints and maintenance.
  \<open>Daemon_Gate\<close>: runs of the engine's calls (\<open>perform\<close>) and, for every schema change in the log,
  the call that put it there and the state of the run that decided it; the one call that asks
  no gate, \<open>write_batch\<close>, is among them.  \<open>Daemon_Expiry\<close>: what a collection takes.
  A merge and a reading of the chain are \<open>None\<close> when the walk through the
  log does not end.  \<open>Store_Signing\<close>: the signatures kept beside the log (\<open>theta-storage/src/signing.rs\<close>).

  \<^bold>\<open>How they interact.\<close>  A write is checked against the schema (\<open>Core_Address\<close>),
  classified (\<open>Safety_Classify\<close>), limited (\<open>Safety_Breaker\<close>, \<open>Safety_Budget\<close>) and appended
  (\<open>Store_Log\<close>); the view (\<open>Store_View\<close>) folds the entry; a query (\<open>Query_Exec\<close>) reads the
  view; a merge (\<open>Store_Merge\<close>) compares two histories and lands operations as entries.

  \<^bold>\<open>Fuel.\<close>  The walk through a log is given the number of the log's entries, and returns
  \<open>None\<close> when that does not suffice; \<open>log_history_total\<close> shows it always suffices for a log
  built by appends and forks.  The chain check of the durable store is given the number of
  its entries too.  All other recursions end by a measure.

  \<^bold>\<open>Not modelled.\<close>  Of the engine: queries and plan caching, the description of a schema for
  display, anchors and the listing of all sessions, which walks a hash map (these read the log
  and its views and change neither), and the opening of a data directory.  Errors of the operating system, sockets and processes (the command line,
  the connections of the daemon), signatures and object storage, JSON, Arrow and SQL parsing,
  which are libraries' work.
\<close>

end
